(* ===== verification/SD_Prelude.thy ===== *)
theory SD_Prelude
  imports Main "HOL-Library.Word"
begin

text \<open>
  Shared vocabulary of the development: the error values of the program (every \<open>throw\<close>,
  \<open>std::abort\<close>, failed \<open>assert\<close> and undefined behaviour is a value of \<open>db_error\<close>),
  the result type with its sequencing, loops that may fail, and the ordered maps and
  sets (\<open>std::map\<close>, \<open>std::set\<close>) as sorted association lists and sorted lists.
\<close>

named_theorems res_simps \<open>sequencing of fallible steps\<close>
named_theorems om_simps \<open>lookup in ordered maps and sets\<close>

section \<open>Machine types\<close>

type_synonym u8 = "8 word"
type_synonym u32 = "32 word"
type_synonym u64 = "64 word"

unbundle bit_operations_syntax

text \<open>Setting bits above a number adds them.\<close>

lemma or_shifted:
  fixes k m :: nat
  assumes "k < 2 ^ n"
  shows "k OR push_bit n m = k + 2 ^ n * m"
proof -
  have "take_bit n k = k" using assms by (simp add: take_bit_nat_eq_self)
  then have "\<not> bit k i" if "n \<le> i" for i using that bit_take_bit_iff [of n k i] by auto
  then have "k AND push_bit n m = 0" by (intro bit_eqI) (auto simp: bit_simps)
  from disjunctive_add_eq_or [OF this] show ?thesis by (simp add: push_bit_eq_mult mult.commute)
qed

definition int64_max :: int where
  "int64_max = 2 ^ 63 - 1"

lemma int64_max_eq [simp]: "int64_max = 9223372036854775807"
  by (simp add: int64_max_def)

section \<open>Errors and results\<close>

datatype db_error =
    Logic_error string
  | Runtime_error string
  | Out_of_range
  | Abort
  | Assert_failed string
  | Undefined_behaviour

type_synonym 'a res = "db_error + 'a"

definition bindE :: "'a res \<Rightarrow> ('a \<Rightarrow> 'b res) \<Rightarrow> 'b res" where
  "bindE m f = (case m of Inl e \<Rightarrow> Inl e | Inr x \<Rightarrow> f x)"

definition guardE :: "bool \<Rightarrow> db_error \<Rightarrow> unit res" where
  "guardE b e = (if b then Inr () else Inl e)"

definition assertE :: "bool \<Rightarrow> string \<Rightarrow> unit res" where
  "assertE b msg = guardE b (Assert_failed msg)"

definition someE :: "'a option \<Rightarrow> db_error \<Rightarrow> 'a res" where
  "someE x e = (case x of None \<Rightarrow> Inl e | Some y \<Rightarrow> Inr y)"

text \<open>A loop over a sequence of items whose body may fail: it stops at the first error.\<close>

fun foldE :: "('a \<Rightarrow> 's \<Rightarrow> 's res) \<Rightarrow> 'a list \<Rightarrow> 's \<Rightarrow> 's res" where
  "foldE f [] s = Inr s"
| "foldE f (x # xs) s = bindE (f x s) (foldE f xs)"

lemma bindE_simps [simp, res_simps]:
  "bindE (Inl e) f = Inl e"
  "bindE (Inr x) f = f x"
  by (simp_all add: bindE_def)

lemma bindE_Inr_conv [res_simps]: "bindE m f = Inr y \<longleftrightarrow> (\<exists>x. m = Inr x \<and> f x = Inr y)"
  by (cases m) auto

lemma bindE_Inl_conv: "bindE m f = Inl e \<longleftrightarrow> m = Inl e \<or> (\<exists>x. m = Inr x \<and> f x = Inl e)"
  by (cases m) auto

lemma bindE_InrE:
  assumes "bindE m f = Inr y"
  obtains x where "m = Inr x" "f x = Inr y"
  using assms by (auto simp: bindE_Inr_conv)

lemma guardE_conv [simp, res_simps]:
  "guardE b e = Inr u \<longleftrightarrow> b"
  "guardE b e = Inl e' \<longleftrightarrow> \<not> b \<and> e' = e"
  by (auto simp: guardE_def)

lemma guardE_simps [simp]:
  "guardE True e = Inr ()"
  "guardE False e = Inl e"
  by (simp_all add: guardE_def)

lemma assertE_conv [simp, res_simps]:
  "assertE b msg = Inr u \<longleftrightarrow> b"
  "assertE b msg = Inl e \<longleftrightarrow> \<not> b \<and> e = Assert_failed msg"
  by (auto simp: assertE_def)

lemma assertE_simps [simp]:
  "assertE True msg = Inr ()"
  "assertE False msg = Inl (Assert_failed msg)"
  by (simp_all add: assertE_def)

lemma someE_conv [simp, res_simps]:
  "someE x e = Inr y \<longleftrightarrow> x = Some y"
  "someE x e = Inl e' \<longleftrightarrow> x = None \<and> e' = e"
  by (auto simp: someE_def split: option.splits)

lemma someE_simps [simp]:
  "someE (Some y) e = Inr y"
  "someE None e = Inl e"
  by (simp_all add: someE_def)

lemma foldE_append: "foldE f (xs @ ys) s = bindE (foldE f xs s) (foldE f ys)"
  by (induction xs arbitrary: s) (auto simp: bindE_def split: sum.splits)

text \<open>
  The invariant rule of a fallible loop: \<open>P\<close> relates the items already processed to the
  state, and is kept by one iteration.
\<close>

lemma foldE_invariant:
  assumes "foldE f xs s = Inr t" and "P [] s"
    and step: "\<And>ys x zs s t. xs = ys @ x # zs \<Longrightarrow> P ys s \<Longrightarrow> f x s = Inr t \<Longrightarrow> P (ys @ [x]) t"
  shows "P xs t"
proof -
  have "foldE f zs s' = Inr t \<Longrightarrow> xs = ys @ zs \<Longrightarrow> P ys s' \<Longrightarrow> P xs t" for ys zs s'
  proof (induction zs arbitrary: ys s')
    case Nil
    then show ?case by simp
  next
    case (Cons z zs)
    then obtain u where "f z s' = Inr u" "foldE f zs u = Inr t"
      by (auto simp: bindE_Inr_conv)
    moreover have "P (ys @ [z]) u"
      using step [OF Cons.prems(2) Cons.prems(3) \<open>f z s' = Inr u\<close>] .
    ultimately show ?case
      using Cons.IH [of u "ys @ [z]"] Cons.prems(2) by simp
  qed
  then show ?thesis using assms(1,2) by blast
qed

text \<open>A fallible loop whose every iteration succeeds from an invariant state succeeds.\<close>

lemma foldE_total:
  assumes "P [] s"
    and step: "\<And>ys x zs s. xs = ys @ x # zs \<Longrightarrow> P ys s \<Longrightarrow> \<exists>t. f x s = Inr t \<and> P (ys @ [x]) t"
  shows "\<exists>t. foldE f xs s = Inr t \<and> P xs t"
proof -
  have "xs = ys @ zs \<Longrightarrow> P ys s' \<Longrightarrow> \<exists>t. foldE f zs s' = Inr t \<and> P xs t" for ys zs s'
  proof (induction zs arbitrary: ys s')
    case Nil
    then show ?case by simp
  next
    case (Cons z zs)
    then obtain u where u: "f z s' = Inr u" "P (ys @ [z]) u"
      using step by blast
    with Cons.IH [of "ys @ [z]" u] Cons.prems(1) show ?case by simp
  qed
  then show ?thesis using assms(1) by (metis append_Nil)
qed

section \<open>Decimal numerals\<close>

text \<open>\<open>std::to_string\<close>.\<close>

fun nat_digits :: "nat \<Rightarrow> string" where
  "nat_digits n =
     (if n < 10 then [char_of (48 + n)] else nat_digits (n div 10) @ [char_of (48 + n mod 10)])"

declare nat_digits.simps [simp del]

definition std_to_string :: "int \<Rightarrow> string" where
  "std_to_string i = (if i < 0 then CHR ''-'' # nat_digits (nat (- i)) else nat_digits (nat i))"

section \<open>Ordered maps and sets\<close>

text \<open>
  An ordered map is an association list sorted by key, an ordered set a sorted list;
  both have distinct keys. \<open>emplace\<close> and \<open>insert\<close> leave an existing entry alone, as the
  standard containers do.
\<close>

type_synonym ('k, 'v) omap = "('k \<times> 'v) list"
type_synonym 'k oset = "'k list"

definition om_emplace :: "'k::linorder \<Rightarrow> 'v \<Rightarrow> ('k, 'v) omap \<Rightarrow> ('k, 'v) omap" where
  "om_emplace k v m = insort_insert_key fst (k, v) m"

definition om_erase :: "'k \<Rightarrow> ('k, 'v) omap \<Rightarrow> ('k, 'v) omap" where
  "om_erase k m = filter (\<lambda>p. fst p \<noteq> k) m"

definition om_has :: "'k \<Rightarrow> ('k, 'v) omap \<Rightarrow> bool" where
  "om_has k m = list_ex (\<lambda>p. fst p = k) m"

definition os_insert :: "'k::linorder \<Rightarrow> 'k oset \<Rightarrow> 'k oset" where
  "os_insert k s = insort_insert k s"

definition os_erase :: "'k \<Rightarrow> 'k oset \<Rightarrow> 'k oset" where
  "os_erase k s = filter (\<lambda>x. x \<noteq> k) s"

definition om_wf :: "('k::linorder, 'v) omap \<Rightarrow> bool" where
  "om_wf m \<longleftrightarrow> sorted (map fst m) \<and> distinct (map fst m)"

definition os_wf :: "'k::linorder oset \<Rightarrow> bool" where
  "os_wf s \<longleftrightarrow> sorted s \<and> distinct s"

lemma om_has_iff [om_simps]: "om_has k m \<longleftrightarrow> k \<in> dom (map_of m)"
  by (auto simp: om_has_def list_ex_iff dom_map_of_conv_image_fst)

lemma om_has_conv: "om_has k m \<longleftrightarrow> map_of m k \<noteq> None"
  by (simp add: om_has_iff domIff)

lemma map_of_insort_key_fst:
  "k \<notin> fst ` set m \<Longrightarrow> map_of (insort_key fst (k, v) m) = (map_of m)(k \<mapsto> v)"
  by (induction m) (auto simp: fun_eq_iff)

lemma map_of_om_emplace [om_simps]:
  "map_of (om_emplace k v m) = (if om_has k m then map_of m else (map_of m)(k \<mapsto> v))"
  by (auto simp: om_emplace_def insort_insert_key_def map_of_insort_key_fst
      om_has_iff dom_map_of_conv_image_fst)

lemma map_of_om_erase [om_simps]: "map_of (om_erase k m) = (map_of m)(k := None)"
  by (induction m) (auto simp: om_erase_def fun_eq_iff)

lemma set_os_insert [om_simps, simp]: "set (os_insert k s) = insert k (set s)"
  by (auto simp: os_insert_def set_insort_insert)

lemma set_os_erase [om_simps, simp]: "set (os_erase k s) = set s - {k}"
  by (auto simp: os_erase_def)

lemma om_wf_Nil [simp, intro]: "om_wf []"
  by (simp add: om_wf_def)

lemma os_wf_Nil [simp, intro]: "os_wf []"
  by (simp add: os_wf_def)

lemma om_wf_emplace [intro]: "om_wf m \<Longrightarrow> om_wf (om_emplace k v m)"
proof -
  have "distinct (map fst (insort_key fst (k, v) m))"
    if "distinct (map fst m)" "k \<notin> fst ` set m" for m :: "('a, 'b) omap"
    using that by (induction m) (auto simp: set_insort_key)
  then show "om_wf m \<Longrightarrow> om_wf (om_emplace k v m)"
    by (auto simp: om_wf_def om_emplace_def insort_insert_key_def sorted_insort_key)
qed

lemma om_wf_erase [intro]: "om_wf m \<Longrightarrow> om_wf (om_erase k m)"
  by (auto simp: om_wf_def om_erase_def distinct_map_filter sorted_filter)

lemma os_wf_insert [intro]: "os_wf s \<Longrightarrow> os_wf (os_insert k s)"
  by (auto simp: os_wf_def os_insert_def sorted_insort_insert distinct_insort_insert)

lemma os_wf_erase [intro]: "os_wf s \<Longrightarrow> os_wf (os_erase k s)"
  using sorted_filter [of "\<lambda>x. x" s] by (auto simp: os_wf_def os_erase_def)

lemma om_wf_distinct [dest]: "om_wf m \<Longrightarrow> distinct (map fst m)"
  by (simp add: om_wf_def)

lemma os_wf_distinct [dest]: "os_wf s \<Longrightarrow> distinct s"
  by (simp add: os_wf_def)

end
