(* ===== verification/Multi_Index.thy ===== *)
theory Multi_Index
  imports SD_Prelude
begin

text \<open>
  The interface to \<open>boost::multi_index_container\<close>, whose source is not part of the
  repository: the operations chainbase calls are the fields of a record \<open>mi_ops\<close>, an
  argument of every definition that uses a container, and the behaviour Boost documents
  is the locale \<open>multi_index\<close>. A container holds objects at addresses (\<open>mi_at\<close>
  dereferences one), an address stays valid until its object is erased, and no two
  objects agree on a key of a unique index (\<open>clash\<close>). \<open>key\<close> is the key of the first
  index, the object's id. The client's lemmas about the contents of a container, the map
  \<open>contents\<close> from ids to objects, are proved once in the locale.

  A list of addressed cells that checks every key is a concrete container; the locale is
  interpreted on it, for any choice of keys.
\<close>

record ('c, 'p, 'k, 'v) mi_ops =
  mi_empty :: 'c
  mi_at :: "'c \<Rightarrow> 'p \<Rightarrow> 'v option"
  mi_find :: "'c \<Rightarrow> 'k \<Rightarrow> 'p option"
  mi_emplace :: "'c \<Rightarrow> 'v \<Rightarrow> ('c \<times> 'p) option"
  mi_modify :: "'c \<Rightarrow> 'p \<Rightarrow> ('v \<Rightarrow> 'v) \<Rightarrow> 'c option"
  mi_erase :: "'c \<Rightarrow> 'p \<Rightarrow> 'c"
  mi_size :: "'c \<Rightarrow> nat"

definition contents :: "('c, 'p, 'k, 'v) mi_ops \<Rightarrow> 'c \<Rightarrow> ('k \<rightharpoonup> 'v)" where
  "contents ops c k = Option.bind (mi_find ops c k) (mi_at ops c)"

locale multi_index =
  fixes ops :: "('c, 'p, 'k::linorder, 'v) mi_ops"
    and key :: "'v \<Rightarrow> 'k"
    and clash :: "'v \<Rightarrow> 'v \<Rightarrow> bool"
    and cinv :: "'c \<Rightarrow> bool"
  assumes key_clash: "key v = key w \<Longrightarrow> clash v w"
    and clash_sym: "clash v w \<Longrightarrow> clash w v"
    and cinv_empty: "cinv (mi_empty ops)"
    and at_empty: "mi_at ops (mi_empty ops) p = None"
    and no_clash: "cinv c \<Longrightarrow> mi_at ops c p = Some v \<Longrightarrow> mi_at ops c q = Some w \<Longrightarrow> p \<noteq> q \<Longrightarrow>
      \<not> clash v w"
    and find_iff: "cinv c \<Longrightarrow>
      mi_find ops c k = Some p \<longleftrightarrow> (\<exists>v. mi_at ops c p = Some v \<and> key v = k)"
    and emplace_iff: "cinv c \<Longrightarrow>
      mi_emplace ops c v = None \<longleftrightarrow> (\<exists>q w. mi_at ops c q = Some w \<and> clash v w)"
    and emplace_at: "cinv c \<Longrightarrow> mi_emplace ops c v = Some (c', p) \<Longrightarrow>
      mi_at ops c p = None \<and> mi_at ops c' = (mi_at ops c)(p \<mapsto> v) \<and> cinv c'"
    and modify_iff: "cinv c \<Longrightarrow> mi_at ops c p = Some v \<Longrightarrow>
      mi_modify ops c p m = None \<longleftrightarrow> (\<exists>q w. q \<noteq> p \<and> mi_at ops c q = Some w \<and> clash (m v) w)"
    and modify_at: "cinv c \<Longrightarrow> mi_at ops c p = Some v \<Longrightarrow> mi_modify ops c p m = Some c' \<Longrightarrow>
      mi_at ops c' = (mi_at ops c)(p \<mapsto> m v) \<and> cinv c'"
    and erase_at: "cinv c \<Longrightarrow> mi_at ops c p = Some v \<Longrightarrow>
      mi_at ops (mi_erase ops c p) = (mi_at ops c)(p := None) \<and> cinv (mi_erase ops c p)"
    and finite_at: "cinv c \<Longrightarrow> finite (dom (mi_at ops c))"
    and size_at: "cinv c \<Longrightarrow> mi_size ops c = card (dom (mi_at ops c))"
begin

lemma find_key: "cinv c \<Longrightarrow> mi_at ops c p = Some v \<Longrightarrow> mi_find ops c (key v) = Some p"
  by (auto simp: find_iff)

lemma at_inj:
  "cinv c \<Longrightarrow> mi_at ops c p = Some v \<Longrightarrow> mi_at ops c q = Some w \<Longrightarrow> key v = key w \<Longrightarrow> p = q"
  using no_clash key_clash by blast

lemma contents_iff:
  "cinv c \<Longrightarrow> contents ops c k = Some v \<longleftrightarrow> (\<exists>p. mi_at ops c p = Some v \<and> key v = k)"
  by (auto simp: contents_def bind_eq_Some_conv find_iff)

lemma contents_key: "cinv c \<Longrightarrow> contents ops c k = Some v \<Longrightarrow> key v = k"
  by (auto simp: contents_iff)

lemma contents_eq_iff:
  "(\<And>v. contents ops c k = Some v \<longleftrightarrow> x = Some v) \<Longrightarrow> contents ops c k = x"
  by (cases x) (metis not_None_eq)+

lemma contents_find: "cinv c \<Longrightarrow> mi_find ops c k = None \<longleftrightarrow> contents ops c k = None"
  using find_iff [of c k] by (cases "mi_find ops c k") (auto simp: contents_def)

lemma find_at:
  "cinv c \<Longrightarrow> mi_find ops c k = Some p \<Longrightarrow>
     \<exists>v. mi_at ops c p = Some v \<and> key v = k \<and> contents ops c k = Some v"
  by (auto simp: find_iff contents_iff)

lemma contents_empty: "contents ops (mi_empty ops) = Map.empty"
proof
  fix k
  show "contents ops (mi_empty ops) k = None"
    by (rule contents_eq_iff) (simp add: contents_iff [OF cinv_empty] at_empty)
qed

text \<open>Writing an object to a free address, or over one with its id, is a map update.\<close>

lemma contents_write:
  assumes "cinv c" "cinv c'" "mi_at ops c' = (mi_at ops c)(p \<mapsto> v)"
    and free: "\<And>u. mi_at ops c p = Some u \<Longrightarrow> key u = key v"
  shows "contents ops c' = (contents ops c)(key v \<mapsto> v)"
proof
  fix k
  show "contents ops c' k = ((contents ops c)(key v \<mapsto> v)) k"
  proof (cases "k = key v")
    case True
    then show ?thesis using contents_iff [OF assms(2), of k v] assms(3) by auto
  next
    case False
    have "contents ops c' k = Some w \<longleftrightarrow> contents ops c k = Some w" for w
      unfolding contents_iff [OF assms(1)] contents_iff [OF assms(2)] assms(3)
      using False free by (auto split: if_splits) metis
    then show ?thesis using False by (auto intro: contents_eq_iff)
  qed
qed

lemma contents_emplace:
  assumes "cinv c" "mi_emplace ops c v = Some (c', p)"
  shows "contents ops c' = (contents ops c)(key v \<mapsto> v)" and "contents ops c (key v) = None"
    and "cinv c'" and "mi_at ops c' p = Some v"
proof -
  have e: "mi_at ops c p = None" "mi_at ops c' = (mi_at ops c)(p \<mapsto> v)" "cinv c'"
    using emplace_at [OF assms] by auto
  have "mi_emplace ops c v \<noteq> None" using assms(2) by simp
  then have nc: "\<not> (\<exists>q w. mi_at ops c q = Some w \<and> clash v w)"
    unfolding emplace_iff [OF assms(1)] .
  then have "contents ops c (key v) \<noteq> Some w" for w
    using key_clash [of v w] by (auto simp: contents_iff [OF assms(1)])
  then show "contents ops c (key v) = None" by (metis not_None_eq)
  show "contents ops c' = (contents ops c)(key v \<mapsto> v)"
    by (rule contents_write [OF assms(1) e(3,2)]) (simp add: e(1))
  show "cinv c'" "mi_at ops c' p = Some v" using e by auto
qed

lemma contents_modify:
  assumes "cinv c" "mi_at ops c p = Some v" "mi_modify ops c p m = Some c'" "key (m v) = key v"
  shows "contents ops c' = (contents ops c)(key v \<mapsto> m v)" and "cinv c'"
proof -
  have e: "mi_at ops c' = (mi_at ops c)(p \<mapsto> m v)" "cinv c'"
    using modify_at [OF assms(1-3)] by auto
  show "contents ops c' = (contents ops c)(key v \<mapsto> m v)"
    using contents_write [OF assms(1) e(2,1)] assms(2,4) by simp
  show "cinv c'" by (rule e)
qed

lemma contents_erase:
  assumes "cinv c" "mi_at ops c p = Some v"
  shows "contents ops (mi_erase ops c p) = (contents ops c)(key v := None)"
    and "cinv (mi_erase ops c p)"
proof -
  let ?c = "mi_erase ops c p"
  have e: "mi_at ops ?c = (mi_at ops c)(p := None)" "cinv ?c"
    using erase_at [OF assms] by auto
  show "contents ops ?c = (contents ops c)(key v := None)"
  proof
    fix k
    have "contents ops ?c k = Some w \<longleftrightarrow> contents ops c k = Some w \<and> k \<noteq> key v" for w
      unfolding contents_iff [OF assms(1)] contents_iff [OF e(2)] e(1)
      using at_inj [OF assms] assms(2) by (metis fun_upd_apply option.distinct(1) option.inject)
    then show "contents ops ?c k = ((contents ops c)(key v := None)) k"
      by (auto intro: contents_eq_iff)
  qed
  show "cinv ?c" by (rule e)
qed

text \<open>When the values stored under other ids do not clash, no uniqueness check fails.\<close>

lemma emplace_total:
  assumes "cinv c" "\<And>k w. contents ops c k = Some w \<Longrightarrow> \<not> clash v w"
  shows "\<exists>c' p. mi_emplace ops c v = Some (c', p)"
proof -
  have "\<not> (\<exists>q w. mi_at ops c q = Some w \<and> clash v w)"
    using assms contents_iff [OF assms(1)] by blast
  then show ?thesis
    using emplace_iff [OF assms(1), of v] by (metis not_None_eq surj_pair)
qed

lemma modify_total:
  assumes "cinv c" "mi_at ops c p = Some v"
    "\<And>k w. contents ops c k = Some w \<Longrightarrow> k \<noteq> key v \<Longrightarrow> \<not> clash (m v) w"
  shows "\<exists>c'. mi_modify ops c p m = Some c'"
proof -
  have "\<not> (\<exists>q w. q \<noteq> p \<and> mi_at ops c q = Some w \<and> clash (m v) w)"
    using assms(3) contents_iff [OF assms(1)] at_inj [OF assms(1,2)] by metis
  then show ?thesis
    using modify_iff [OF assms(1,2), of m] by (metis not_None_eq)
qed

lemma finite_contents: "cinv c \<Longrightarrow> finite (dom (contents ops c))"
proof -
  assume c: "cinv c"
  have "dom (contents ops c) \<subseteq> (\<lambda>p. key (the (mi_at ops c p))) ` dom (mi_at ops c)"
    using contents_iff [OF c] by (force simp: dom_def image_def)
  then show ?thesis using finite_at [OF c] by (metis finite_surj)
qed

lemma size_contents: "cinv c \<Longrightarrow> mi_size ops c = card (dom (contents ops c))"
proof -
  assume c: "cinv c"
  let ?f = "\<lambda>p. key (the (mi_at ops c p))"
  have "dom (contents ops c) = ?f ` dom (mi_at ops c)"
    using contents_iff [OF c] by (force simp: dom_def image_def)
  moreover have "inj_on ?f (dom (mi_at ops c))"
    using at_inj [OF c] by (auto simp: inj_on_def)
  ultimately show ?thesis using size_at [OF c] by (simp add: card_image)
qed

end

section \<open>A container of addressed cells\<close>

text \<open>
  Cells are (address, object) pairs, newest first, and \<open>lc_next\<close> is an address no cell
  has had. \<open>uk\<close> is the id of an object, \<open>ucl\<close> the test for a shared unique key.
\<close>

record 'v lc =
  lc_next :: nat
  lc_cells :: "(nat \<times> 'v) list"

definition lc_at :: "'v lc \<Rightarrow> nat \<Rightarrow> 'v option" where
  "lc_at c p = map_of (lc_cells c) p"

definition lc_find :: "('v \<Rightarrow> 'k) \<Rightarrow> 'v lc \<Rightarrow> 'k \<Rightarrow> nat option" where
  "lc_find uk c k = map_option fst (List.find (\<lambda>x. uk (snd x) = k) (lc_cells c))"

definition lc_emplace :: "('v \<Rightarrow> 'v \<Rightarrow> bool) \<Rightarrow> 'v lc \<Rightarrow> 'v \<Rightarrow> ('v lc \<times> nat) option" where
  "lc_emplace ucl c v =
     (if list_ex (\<lambda>x. ucl v (snd x)) (lc_cells c) then None
      else Some (\<lparr>lc_next = Suc (lc_next c), lc_cells = (lc_next c, v) # lc_cells c\<rparr>, lc_next c))"

definition lc_modify :: "('v \<Rightarrow> 'v \<Rightarrow> bool) \<Rightarrow> 'v lc \<Rightarrow> nat \<Rightarrow> ('v \<Rightarrow> 'v) \<Rightarrow> 'v lc option" where
  "lc_modify ucl c p m =
     (case lc_at c p of
        None \<Rightarrow> None
      | Some v \<Rightarrow>
          if list_ex (\<lambda>x. fst x \<noteq> p \<and> ucl (m v) (snd x)) (lc_cells c) then None
          else Some (c\<lparr>lc_cells := map (\<lambda>x. if fst x = p then (p, m v) else x) (lc_cells c)\<rparr>))"

definition lc_erase :: "'v lc \<Rightarrow> nat \<Rightarrow> 'v lc" where
  "lc_erase c p = c\<lparr>lc_cells := filter (\<lambda>x. fst x \<noteq> p) (lc_cells c)\<rparr>"

definition lc_ops :: "('v \<Rightarrow> 'k) \<Rightarrow> ('v \<Rightarrow> 'v \<Rightarrow> bool) \<Rightarrow> ('v lc, nat, 'k, 'v) mi_ops" where
  "lc_ops uk ucl =
     \<lparr>mi_empty = \<lparr>lc_next = 0, lc_cells = []\<rparr>, mi_at = lc_at, mi_find = lc_find uk,
      mi_emplace = lc_emplace ucl, mi_modify = lc_modify ucl, mi_erase = lc_erase,
      mi_size = (\<lambda>c. length (lc_cells c))\<rparr>"

definition lc_inv :: "('v \<Rightarrow> 'v \<Rightarrow> bool) \<Rightarrow> 'v lc \<Rightarrow> bool" where
  "lc_inv ucl c \<longleftrightarrow> distinct (map fst (lc_cells c)) \<and> (\<forall>p \<in> fst ` set (lc_cells c). p < lc_next c) \<and>
     (\<forall>x \<in> set (lc_cells c). \<forall>y \<in> set (lc_cells c). fst x \<noteq> fst y \<longrightarrow> \<not> ucl (snd x) (snd y))"

lemma lc_at_iff: "lc_inv ucl c \<Longrightarrow> lc_at c p = Some v \<longleftrightarrow> (p, v) \<in> set (lc_cells c)"
  by (simp add: lc_inv_def lc_at_def)

lemma lc_at_modify:
  "map_of (map (\<lambda>x. if fst x = p then (p, w) else x) xs) =
     (if p \<in> fst ` set xs then (map_of xs)(p \<mapsto> w) else map_of xs)"
  by (induction xs) (auto simp: fun_eq_iff)

lemma lc_at_erase: "lc_at (lc_erase c p) = (lc_at c)(p := None)"
proof -
  have "map_of (filter (\<lambda>x. fst x \<noteq> p) xs) = (map_of xs)(p := None)" for xs :: "(nat \<times> 'a) list"
    by (induction xs) (auto simp: fun_eq_iff)
  then show ?thesis by (simp add: lc_at_def lc_erase_def fun_eq_iff)
qed

lemma map_fst_lc_modify: "map fst (map (\<lambda>x. if fst x = p then (p, w) else x) xs) = map fst xs"
  by (induction xs) auto

locale unique_keys =
  fixes uk :: "'v \<Rightarrow> 'k::linorder" and ucl :: "'v \<Rightarrow> 'v \<Rightarrow> bool"
  assumes uk_ucl: "uk v = uk w \<Longrightarrow> ucl v w"
    and ucl_sym: "ucl v w \<Longrightarrow> ucl w v"
begin

lemma lc_find_iff:
  assumes "lc_inv ucl c"
  shows "lc_find uk c k = Some p \<longleftrightarrow> (\<exists>v. lc_at c p = Some v \<and> uk v = k)"
proof
  assume "lc_find uk c k = Some p"
  then show "\<exists>v. lc_at c p = Some v \<and> uk v = k"
    using assms by (auto simp: lc_find_def lc_at_iff find_Some_iff) (metis nth_mem snd_conv)
next
  assume "\<exists>v. lc_at c p = Some v \<and> uk v = k"
  then obtain v where v: "(p, v) \<in> set (lc_cells c)" "uk v = k"
    using assms by (auto simp: lc_at_iff)
  then obtain x where x: "List.find (\<lambda>x. uk (snd x) = k) (lc_cells c) = Some x"
    by (cases "List.find (\<lambda>x. uk (snd x) = k) (lc_cells c)") (auto simp: find_None_iff)
  then have "x \<in> set (lc_cells c)" "uk (snd x) = k"
    by (auto simp: find_Some_iff)
  then have "fst x = p"
    using v assms uk_ucl [of "snd x" v] by (force simp: lc_inv_def)
  then show "lc_find uk c k = Some p" using x by (simp add: lc_find_def)
qed

lemma lc_emplace_at:
  assumes "lc_inv ucl c" "lc_emplace ucl c v = Some (c', p)"
  shows "lc_at c p = None \<and> lc_at c' = (lc_at c)(p \<mapsto> v) \<and> lc_inv ucl c'"
proof -
  have e: "\<forall>x \<in> set (lc_cells c). \<not> ucl v (snd x)" "p = lc_next c"
    "c' = \<lparr>lc_next = Suc (lc_next c), lc_cells = (lc_next c, v) # lc_cells c\<rparr>"
    using assms(2) by (auto simp: lc_emplace_def list_ex_iff split: if_splits)
  have "lc_at c p = None"
    using assms(1) e by (auto simp: lc_inv_def lc_at_def map_of_eq_None_iff)
  moreover have "lc_at c' = (lc_at c)(p \<mapsto> v)"
    using e by (auto simp: lc_at_def fun_eq_iff)
  moreover have "lc_inv ucl c'"
    using assms(1) e ucl_sym by (fastforce simp: lc_inv_def less_Suc_eq)
  ultimately show ?thesis by blast
qed

lemma lc_modify_iff:
  assumes "lc_inv ucl c" "lc_at c p = Some v"
  shows "lc_modify ucl c p m = None \<longleftrightarrow> (\<exists>q w. q \<noteq> p \<and> lc_at c q = Some w \<and> ucl (m v) w)"
proof -
  have "lc_modify ucl c p m = None \<longleftrightarrow> (\<exists>x \<in> set (lc_cells c). fst x \<noteq> p \<and> ucl (m v) (snd x))"
    using assms(2) by (simp add: lc_modify_def list_ex_iff)
  also have "\<dots> \<longleftrightarrow> (\<exists>q w. q \<noteq> p \<and> (q, w) \<in> set (lc_cells c) \<and> ucl (m v) w)"
    by force
  finally show ?thesis by (simp add: lc_at_iff [OF assms(1)])
qed

lemma lc_modify_at:
  assumes "lc_inv ucl c" "lc_at c p = Some v" "lc_modify ucl c p m = Some c'"
  shows "lc_at c' = (lc_at c)(p \<mapsto> m v) \<and> lc_inv ucl c'"
proof -
  have e: "\<forall>x \<in> set (lc_cells c). fst x \<noteq> p \<longrightarrow> \<not> ucl (m v) (snd x)"
    "c' = c\<lparr>lc_cells := map (\<lambda>x. if fst x = p then (p, m v) else x) (lc_cells c)\<rparr>"
    using assms(2,3) by (auto simp: lc_modify_def list_ex_iff split: if_splits)
  have "p \<in> fst ` set (lc_cells c)"
    using assms(1,2) by (force simp: lc_at_iff)
  then have "lc_at c' = (lc_at c)(p \<mapsto> m v)"
    using e by (simp add: lc_at_def [abs_def] lc_at_modify)
  moreover have "lc_inv ucl c'"
    using assms(1) e ucl_sym unfolding lc_inv_def
    by (auto simp: map_fst_lc_modify simp del: map_map split: if_splits)
  ultimately show ?thesis by blast
qed

end

sublocale unique_keys \<subseteq> cells: multi_index "lc_ops uk ucl" uk ucl "lc_inv ucl"
proof (unfold_locales, goal_cases)
  case (1 v w) then show ?case by (rule uk_ucl)
next
  case (2 v w) then show ?case by (rule ucl_sym)
next
  case 3 show ?case by (simp add: lc_ops_def lc_inv_def)
next
  case 4 show ?case by (simp add: lc_ops_def lc_at_def)
next
  case (5 c p v q w)
  then show ?case
    by (simp add: lc_ops_def lc_at_iff) (force simp: lc_inv_def)
next
  case 6 then show ?case by (simp add: lc_ops_def lc_find_iff)
next
  case (7 c v)
  then show ?case by (simp add: lc_ops_def lc_emplace_def list_ex_iff lc_at_iff) force
next
  case 8 then show ?case by (simp add: lc_ops_def lc_emplace_at)
next
  case (9 c p v m)
  then show ?case
    by (simp add: lc_ops_def lc_modify_iff)
next
  case (10 c p v m c') then show ?case using lc_modify_at [of c p v m c'] by (simp add: lc_ops_def)
next
  case (11 c p v)
  then show ?case
    by (auto simp: lc_ops_def lc_at_erase) (auto simp: lc_inv_def lc_erase_def distinct_map_filter)
next
  case 12 show ?case by (simp add: lc_ops_def lc_at_def [abs_def] finite_dom_map_of)
next
  case (13 c)
  then show ?case
    by (simp add: lc_ops_def lc_at_def [abs_def] dom_map_of_conv_image_fst lc_inv_def)
      (metis distinct_card length_map set_map)
qed

end
