(* ===== verification/Generic_Index.thy ===== *)
theory Generic_Index
  imports Multi_Index
begin

text \<open>
  \<open>chainbase::generic_index\<close> and \<open>chainbase::undo_state\<close> (chainbase.hpp): a multi-index
  container with a stack of undo states. The stack is a list with the most recent state
  (\<open>_stack.back()\<close>) first. \<open>key\<close> is the \<open>id\<close> member of an object and \<open>ops\<close> the
  container's operations. References to objects are addresses; using one whose object
  has been erased is \<open>Undefined_behaviour\<close>. \<open>_revision\<close> is an \<open>int64_t\<close>, kept as an
  integer with the overflow of its increment as an error.
\<close>

section \<open>State\<close>

record ('k, 'v) undo_state =
  old_values :: "('k, 'v) omap"
  removed_values :: "('k, 'v) omap"
  new_ids :: "'k oset"
  us_revision :: int

record ('c, 'k, 'v) gindex =
  gi_stack :: "('k, 'v) undo_state list"
  gi_revision :: int
  gi_indices :: 'c
  gi_size_of_value_type :: u32
  gi_size_of_this :: u32

definition undo_state_new :: "int \<Rightarrow> ('k, 'v) undo_state" where
  "undo_state_new r = \<lparr>old_values = [], removed_values = [], new_ids = [], us_revision = r\<rparr>"

definition gi_new :: "('c, 'p, 'k, 'v) mi_ops \<Rightarrow> u32 \<Rightarrow> u32 \<Rightarrow> ('c, 'k, 'v) gindex" where
  "gi_new ops node_size this_size =
     \<lparr>gi_stack = [], gi_revision = 0, gi_indices = mi_empty ops,
      gi_size_of_value_type = node_size, gi_size_of_this = this_size\<rparr>"

definition gi_validate :: "u32 \<Rightarrow> u32 \<Rightarrow> ('c, 'k, 'v) gindex \<Rightarrow> unit res" where
  "gi_validate node_size this_size s =
     (if node_size \<noteq> gi_size_of_value_type s \<or> this_size \<noteq> gi_size_of_this s
      then Inl (Runtime_error ''content of memory does not match data expected by executable'')
      else Inr ())"

definition gi_enabled :: "('c, 'k, 'v) gindex \<Rightarrow> bool" where
  "gi_enabled s \<longleftrightarrow> length (gi_stack s) \<noteq> 0"

section \<open>Recording changes\<close>

definition on_modify :: "('v \<Rightarrow> 'k::linorder) \<Rightarrow> 'v \<Rightarrow> ('c, 'k, 'v) gindex \<Rightarrow> ('c, 'k, 'v) gindex" where
  "on_modify key v s =
     (case gi_stack s of
        [] \<Rightarrow> s
      | head # rest \<Rightarrow>
          if key v \<in> set (new_ids head) then s
          else if om_has (key v) (old_values head) then s
          else s\<lparr>gi_stack := head\<lparr>old_values := om_emplace (key v) v (old_values head)\<rparr> # rest\<rparr>)"

definition on_remove :: "('v \<Rightarrow> 'k::linorder) \<Rightarrow> 'v \<Rightarrow> ('c, 'k, 'v) gindex \<Rightarrow> ('c, 'k, 'v) gindex" where
  "on_remove key v s =
     (case gi_stack s of
        [] \<Rightarrow> s
      | head # rest \<Rightarrow>
          if key v \<in> set (new_ids head)
          then s\<lparr>gi_stack := head\<lparr>new_ids := os_erase (key v) (new_ids head)\<rparr> # rest\<rparr>
          else (case map_of (old_values head) (key v) of
              Some x \<Rightarrow>
                s\<lparr>gi_stack :=
                    head\<lparr>removed_values := om_emplace (key v) x (removed_values head),
                         old_values := om_erase (key v) (old_values head)\<rparr> # rest\<rparr>
            | None \<Rightarrow>
                if om_has (key v) (removed_values head) then s
                else s\<lparr>gi_stack :=
                         head\<lparr>removed_values := om_emplace (key v) v (removed_values head)\<rparr> # rest\<rparr>))"

definition on_create :: "('v \<Rightarrow> 'k::linorder) \<Rightarrow> 'v \<Rightarrow> ('c, 'k, 'v) gindex \<Rightarrow> ('c, 'k, 'v) gindex" where
  "on_create key v s =
     (case gi_stack s of
        [] \<Rightarrow> s
      | head # rest \<Rightarrow> s\<lparr>gi_stack := head\<lparr>new_ids := os_insert (key v) (new_ids head)\<rparr> # rest\<rparr>)"

section \<open>Object operations\<close>

text \<open>The constructor passed to \<open>emplace\<close> is represented by the object it builds.\<close>

definition gi_emplace ::
  "('c, 'p, 'k, 'v) mi_ops \<Rightarrow> ('v \<Rightarrow> 'k::linorder) \<Rightarrow> 'v \<Rightarrow> ('c, 'k, 'v) gindex
    \<Rightarrow> (('c, 'k, 'v) gindex \<times> 'p) res" where
  "gi_emplace ops key v s =
     (case mi_emplace ops (gi_indices s) v of
        None \<Rightarrow> Inl (Logic_error ''could not insert object, most likely a uniqueness constraint was violated'')
      | Some (c, p) \<Rightarrow> Inr (on_create key v (s\<lparr>gi_indices := c\<rparr>), p))"

definition gi_modify ::
  "('c, 'p, 'k, 'v) mi_ops \<Rightarrow> ('v \<Rightarrow> 'k::linorder) \<Rightarrow> 'p \<Rightarrow> ('v \<Rightarrow> 'v) \<Rightarrow> ('c, 'k, 'v) gindex
    \<Rightarrow> ('c, 'k, 'v) gindex res" where
  "gi_modify ops key p m s =
     (case mi_at ops (gi_indices s) p of
        None \<Rightarrow> Inl Undefined_behaviour
      | Some v \<Rightarrow>
          (let s1 = on_modify key v s in
           case mi_modify ops (gi_indices s1) p m of
             None \<Rightarrow> Inl Abort
           | Some c \<Rightarrow> Inr (s1\<lparr>gi_indices := c\<rparr>)))"

definition gi_remove ::
  "('c, 'p, 'k, 'v) mi_ops \<Rightarrow> ('v \<Rightarrow> 'k::linorder) \<Rightarrow> 'p \<Rightarrow> ('c, 'k, 'v) gindex
    \<Rightarrow> ('c, 'k, 'v) gindex res" where
  "gi_remove ops key p s =
     (case mi_at ops (gi_indices s) p of
        None \<Rightarrow> Inl Undefined_behaviour
      | Some v \<Rightarrow>
          (let s1 = on_remove key v s
           in Inr (s1\<lparr>gi_indices := mi_erase ops (gi_indices s1) p\<rparr>)))"

definition gi_find :: "('c, 'p, 'k, 'v) mi_ops \<Rightarrow> 'k \<Rightarrow> ('c, 'k, 'v) gindex \<Rightarrow> 'p option" where
  "gi_find ops k s = mi_find ops (gi_indices s) k"

definition gi_get :: "('c, 'p, 'k, 'v) mi_ops \<Rightarrow> 'k \<Rightarrow> ('c, 'k, 'v) gindex \<Rightarrow> 'p res" where
  "gi_get ops k s = (case gi_find ops k s of None \<Rightarrow> Inl Out_of_range | Some p \<Rightarrow> Inr p)"

definition gi_remove_object ::
  "('c, 'p, 'k, 'v) mi_ops \<Rightarrow> ('v \<Rightarrow> 'k::linorder) \<Rightarrow> 'k \<Rightarrow> ('c, 'k, 'v) gindex
    \<Rightarrow> ('c, 'k, 'v) gindex res" where
  "gi_remove_object ops key k s =
     (case gi_find ops k s of None \<Rightarrow> Inl Out_of_range | Some p \<Rightarrow> gi_remove ops key p s)"

section \<open>The undo stack\<close>

definition gi_start_undo :: "('c, 'k, 'v) gindex \<Rightarrow> ('c, 'k, 'v) gindex res" where
  "gi_start_undo s =
     (if gi_revision s = int64_max then Inl Undefined_behaviour
      else (let r = gi_revision s + 1
            in Inr (s\<lparr>gi_stack := undo_state_new r # gi_stack s, gi_revision := r\<rparr>)))"

definition undo_new :: "('c, 'p, 'k, 'v) mi_ops \<Rightarrow> 'k \<Rightarrow> 'c \<Rightarrow> 'c res" where
  "undo_new ops i c =
     (case mi_find ops c i of None \<Rightarrow> Inl Undefined_behaviour | Some p \<Rightarrow> Inr (mi_erase ops c p))"

definition undo_old :: "('c, 'p, 'k, 'v) mi_ops \<Rightarrow> ('v \<Rightarrow> 'k) \<Rightarrow> 'k \<times> 'v \<Rightarrow> 'c \<Rightarrow> 'c res" where
  "undo_old ops key item c =
     (case mi_find ops c (key (snd item)) of
        None \<Rightarrow> Inl Undefined_behaviour
      | Some p \<Rightarrow>
          (case mi_modify ops c p (\<lambda>_. snd item) of None \<Rightarrow> Inl Abort | Some c' \<Rightarrow> Inr c'))"

definition undo_removed :: "('c, 'p, 'k, 'v) mi_ops \<Rightarrow> 'k \<times> 'v \<Rightarrow> 'c \<Rightarrow> 'c res" where
  "undo_removed ops item c =
     (case mi_emplace ops c (snd item) of None \<Rightarrow> Inl Abort | Some (c', p) \<Rightarrow> Inr c')"

definition gi_undo ::
  "('c, 'p, 'k, 'v) mi_ops \<Rightarrow> ('v \<Rightarrow> 'k) \<Rightarrow> ('c, 'k, 'v) gindex \<Rightarrow> ('c, 'k, 'v) gindex res" where
  "gi_undo ops key s =
     (case gi_stack s of
        [] \<Rightarrow> Inr s
      | head # rest \<Rightarrow>
          bindE (foldE (undo_new ops) (new_ids head) (gi_indices s)) (\<lambda>c1.
          bindE (foldE (undo_old ops key) (old_values head) c1) (\<lambda>c2.
          bindE (foldE (undo_removed ops) (removed_values head) c2) (\<lambda>c3.
          Inr (s\<lparr>gi_indices := c3, gi_stack := rest, gi_revision := gi_revision s - 1\<rparr>)))))"

definition squash_old ::
  "('v \<Rightarrow> 'k::linorder) \<Rightarrow> 'k \<times> 'v \<Rightarrow> ('k, 'v) undo_state \<Rightarrow> ('k, 'v) undo_state res" where
  "squash_old key item prev =
     (if key (snd item) \<in> set (new_ids prev) then Inr prev
      else if om_has (key (snd item)) (old_values prev) then Inr prev
      else bindE (assertE (\<not> om_has (key (snd item)) (removed_values prev)) ''del+upd'') (\<lambda>_.
           Inr (prev\<lparr>old_values := om_emplace (fst item) (snd item) (old_values prev)\<rparr>)))"

definition squash_new :: "'k::linorder \<Rightarrow> ('k, 'v) undo_state \<Rightarrow> ('k, 'v) undo_state res" where
  "squash_new i prev = Inr (prev\<lparr>new_ids := os_insert i (new_ids prev)\<rparr>)"

definition squash_removed ::
  "('v \<Rightarrow> 'k::linorder) \<Rightarrow> 'k \<times> 'v \<Rightarrow> ('k, 'v) undo_state \<Rightarrow> ('k, 'v) undo_state res" where
  "squash_removed key obj prev =
     (if key (snd obj) \<in> set (new_ids prev)
      then Inr (prev\<lparr>new_ids := os_erase (key (snd obj)) (new_ids prev)\<rparr>)
      else (case map_of (old_values prev) (key (snd obj)) of
          Some x \<Rightarrow>
            Inr (prev\<lparr>removed_values := om_emplace (key (snd obj)) x (removed_values prev),
                      old_values := om_erase (key (snd obj)) (old_values prev)\<rparr>)
        | None \<Rightarrow>
            bindE (assertE (\<not> om_has (key (snd obj)) (removed_values prev)) ''del+del'') (\<lambda>_.
            Inr (prev\<lparr>removed_values := om_emplace (fst obj) (snd obj) (removed_values prev)\<rparr>))))"

definition squash_states ::
  "('v \<Rightarrow> 'k::linorder) \<Rightarrow> ('k, 'v) undo_state \<Rightarrow> ('k, 'v) undo_state \<Rightarrow> ('k, 'v) undo_state res" where
  "squash_states key state prev =
     bindE (foldE (squash_old key) (old_values state) prev) (\<lambda>prev1.
     bindE (foldE squash_new (new_ids state) prev1) (\<lambda>prev2.
     foldE (squash_removed key) (removed_values state) prev2))"

definition gi_squash ::
  "('v \<Rightarrow> 'k::linorder) \<Rightarrow> ('c, 'k, 'v) gindex \<Rightarrow> ('c, 'k, 'v) gindex res" where
  "gi_squash key s =
     (case gi_stack s of
        [] \<Rightarrow> Inr s
      | [state] \<Rightarrow> Inr (s\<lparr>gi_stack := [], gi_revision := gi_revision s - 1\<rparr>)
      | state # prev # rest \<Rightarrow>
          bindE (squash_states key state prev) (\<lambda>merged.
          Inr (s\<lparr>gi_stack := merged # rest, gi_revision := gi_revision s - 1\<rparr>)))"

definition gi_commit :: "int \<Rightarrow> ('c, 'k, 'v) gindex \<Rightarrow> ('c, 'k, 'v) gindex" where
  "gi_commit r s =
     s\<lparr>gi_stack := rev (dropWhile (\<lambda>u. us_revision u \<le> r) (rev (gi_stack s)))\<rparr>"

definition gi_set_revision :: "u64 \<Rightarrow> ('c, 'k, 'v) gindex \<Rightarrow> ('c, 'k, 'v) gindex res" where
  "gi_set_revision r s =
     (if length (gi_stack s) \<noteq> 0
      then Inl (Logic_error ''cannot set revision while there is an existing undo stack'')
      else if uint r > int64_max then Inl (Logic_error ''revision to set is too high'')
      else Inr (s\<lparr>gi_revision := uint r\<rparr>))"

definition gi_undo_stack_revision_range :: "('c, 'k, 'v) gindex \<Rightarrow> int \<times> int" where
  "gi_undo_stack_revision_range s =
     (if length (gi_stack s) > 0
      then (us_revision (last (gi_stack s)) - 1, us_revision (hd (gi_stack s)))
      else (gi_revision s, gi_revision s))"

lemma bindE_cong [fundef_cong]:
  "m = m' \<Longrightarrow> (\<And>x. m' = Inr x \<Longrightarrow> f x = g x) \<Longrightarrow> bindE m f = bindE m' g"
  by (cases m') auto

lemma gi_undo_stack: "gi_undo ops key s = Inr s' \<Longrightarrow> gi_stack s' = tl (gi_stack s)"
  by (auto simp: gi_undo_def bindE_Inr_conv split: list.splits)

function gi_undo_all ::
  "('c, 'p, 'k, 'v) mi_ops \<Rightarrow> ('v \<Rightarrow> 'k) \<Rightarrow> ('c, 'k, 'v) gindex \<Rightarrow> ('c, 'k, 'v) gindex res" where
  "gi_undo_all ops key s =
     (if gi_enabled s then bindE (gi_undo ops key s) (gi_undo_all ops key) else Inr s)"
  by pat_completeness auto
termination
  by (relation "measure (\<lambda>(ops, key, s). length (gi_stack s))")
    (auto simp: gi_enabled_def dest!: gi_undo_stack)

declare gi_undo_all.simps [simp del]

section \<open>Sessions\<close>

text \<open>
  \<open>generic_index::session\<close>: a flag that says whether leaving the scope undoes, and the
  revision it was started at. The move constructor takes over \<open>_index\<close> and \<open>_apply\<close> and
  leaves \<open>_revision\<close> at its default member initialiser.
\<close>

record gi_session =
  gs_apply :: bool
  gs_revision :: int

definition gs_new :: "int \<Rightarrow> gi_session" where
  "gs_new r = \<lparr>gs_apply = (r \<noteq> -1), gs_revision = r\<rparr>"

definition gs_move :: "gi_session \<Rightarrow> gi_session \<times> gi_session" where
  "gs_move mv = (\<lparr>gs_apply = gs_apply mv, gs_revision = 0\<rparr>, mv\<lparr>gs_apply := False\<rparr>)"

definition gi_start_undo_session ::
  "bool \<Rightarrow> ('c, 'k, 'v) gindex \<Rightarrow> (('c, 'k, 'v) gindex \<times> gi_session) res" where
  "gi_start_undo_session en s =
     (if en then bindE (gi_start_undo s) (\<lambda>s'. Inr (s', gs_new (gi_revision s')))
      else Inr (s, gs_new (-1)))"

definition gs_push :: "gi_session \<Rightarrow> gi_session" where
  "gs_push g = g\<lparr>gs_apply := False\<rparr>"

definition gs_squash ::
  "('v \<Rightarrow> 'k::linorder) \<Rightarrow> gi_session \<times> ('c, 'k, 'v) gindex \<Rightarrow> (gi_session \<times> ('c, 'k, 'v) gindex) res" where
  "gs_squash key gs =
     (case gs of (g, s) \<Rightarrow>
        bindE (if gs_apply g then gi_squash key s else Inr s) (\<lambda>s'. Inr (g\<lparr>gs_apply := False\<rparr>, s')))"

definition gs_undo ::
  "('c, 'p, 'k, 'v) mi_ops \<Rightarrow> ('v \<Rightarrow> 'k) \<Rightarrow> gi_session \<times> ('c, 'k, 'v) gindex
    \<Rightarrow> (gi_session \<times> ('c, 'k, 'v) gindex) res" where
  "gs_undo ops key gs =
     (case gs of (g, s) \<Rightarrow>
        bindE (if gs_apply g then gi_undo ops key s else Inr s) (\<lambda>s'. Inr (g\<lparr>gs_apply := False\<rparr>, s')))"

definition gs_destroy ::
  "('c, 'p, 'k, 'v) mi_ops \<Rightarrow> ('v \<Rightarrow> 'k) \<Rightarrow> gi_session \<times> ('c, 'k, 'v) gindex \<Rightarrow> ('c, 'k, 'v) gindex res" where
  "gs_destroy ops key gs = (case gs of (g, s) \<Rightarrow> if gs_apply g then gi_undo ops key s else Inr s)"

definition gs_move_assign ::
  "('c, 'p, 'k, 'v) mi_ops \<Rightarrow> ('v \<Rightarrow> 'k) \<Rightarrow> gi_session \<Rightarrow> gi_session \<Rightarrow> ('c, 'k, 'v) gindex
    \<Rightarrow> (gi_session \<times> gi_session \<times> ('c, 'k, 'v) gindex) res" where
  "gs_move_assign ops key this mv s =
     bindE (if gs_apply this then gi_undo ops key s else Inr s) (\<lambda>s'.
     Inr (this\<lparr>gs_apply := gs_apply mv\<rparr>, mv\<lparr>gs_apply := False\<rparr>, s'))"

end
