(* ===== verification/Undo_Views.thy ===== *)
theory Undo_Views
  imports Generic_Index
begin

text \<open>
  What an undo state says about one id, and what it promises. The \<open>view\<close> of an undo state
  at an id is its membership in \<open>new_ids\<close>, \<open>old_values\<close> and \<open>removed_values\<close>; \<open>v_restore\<close>
  is the object the id had when the undo state was pushed, and \<open>v_ok\<close> the consistency of
  the view with the object the id has now. \<open>us_restore\<close> and \<open>us_ok\<close> lift both to all ids
  and \<open>stack_ok\<close> to the stack. The transition functions \<open>v_modify\<close>, \<open>v_remove\<close>,
  \<open>v_create\<close> and \<open>v_squash\<close> are what the code does to the view of the id it touches.
\<close>

type_synonym 'v view = "bool \<times> 'v option \<times> 'v option"

definition us_view :: "('k, 'v) undo_state \<Rightarrow> 'k \<Rightarrow> 'v view" where
  "us_view u k = (k \<in> set (new_ids u), map_of (old_values u) k, map_of (removed_values u) k)"

fun v_restore :: "'v view \<Rightarrow> 'v option \<Rightarrow> 'v option" where
  "v_restore (True, x, y) c = y"
| "v_restore (False, Some x, y) c = Some x"
| "v_restore (False, None, Some y) c = Some y"
| "v_restore (False, None, None) c = c"

fun v_ok :: "'v view \<Rightarrow> 'v option \<Rightarrow> bool" where
  "v_ok (True, x, y) c \<longleftrightarrow> c \<noteq> None \<and> x = None"
| "v_ok (False, Some x, y) c \<longleftrightarrow> c \<noteq> None \<and> y = None"
| "v_ok (False, None, Some y) c \<longleftrightarrow> c = None"
| "v_ok (False, None, None) c \<longleftrightarrow> True"

definition us_restore :: "('k, 'v) undo_state \<Rightarrow> ('k \<rightharpoonup> 'v) \<Rightarrow> ('k \<rightharpoonup> 'v)" where
  "us_restore u C k = v_restore (us_view u k) (C k)"

definition us_wf :: "('v \<Rightarrow> 'k::linorder) \<Rightarrow> ('k, 'v) undo_state \<Rightarrow> bool" where
  "us_wf key u \<longleftrightarrow> om_wf (old_values u) \<and> om_wf (removed_values u) \<and> os_wf (new_ids u) \<and>
     (\<forall>k v. map_of (old_values u) k = Some v \<longrightarrow> key v = k) \<and>
     (\<forall>k v. map_of (removed_values u) k = Some v \<longrightarrow> key v = k)"

definition us_ok :: "('v \<Rightarrow> 'k::linorder) \<Rightarrow> ('k, 'v) undo_state \<Rightarrow> ('k \<rightharpoonup> 'v) \<Rightarrow> bool" where
  "us_ok key u C \<longleftrightarrow> us_wf key u \<and> (\<forall>k. v_ok (us_view u k) (C k))"

fun stack_ok :: "('v \<Rightarrow> 'k::linorder) \<Rightarrow> ('k, 'v) undo_state list \<Rightarrow> ('k \<rightharpoonup> 'v) \<Rightarrow> bool" where
  "stack_ok key [] C = True"
| "stack_ok key (u # us) C = (us_ok key u C \<and> stack_ok key us (us_restore u C))"

text \<open>The contents each undo state of a stack would bring back, most recent first.\<close>

fun history :: "('k, 'v) undo_state list \<Rightarrow> ('k \<rightharpoonup> 'v) \<Rightarrow> ('k \<rightharpoonup> 'v) list" where
  "history [] C = [C]"
| "history (u # us) C = C # history us (us_restore u C)"

section \<open>Transitions of a view\<close>

fun v_modify :: "'v \<Rightarrow> 'v view \<Rightarrow> 'v view" where
  "v_modify v (True, x, y) = (True, x, y)"
| "v_modify v (False, Some x, y) = (False, Some x, y)"
| "v_modify v (False, None, y) = (False, Some v, y)"

fun v_remove :: "'v \<Rightarrow> 'v view \<Rightarrow> 'v view" where
  "v_remove v (True, x, y) = (False, x, y)"
| "v_remove v (False, Some x, None) = (False, None, Some x)"
| "v_remove v (False, Some x, Some y) = (False, None, Some y)"
| "v_remove v (False, None, None) = (False, None, Some v)"
| "v_remove v (False, None, Some y) = (False, None, Some y)"

fun v_create :: "'v view \<Rightarrow> 'v view" where
  "v_create (n, x, y) = (True, x, y)"

text \<open>
  \<open>v_squash state prev\<close>: the three loops of \<open>squash\<close>, over \<open>old_values\<close>, \<open>new_ids\<close> and
  \<open>removed_values\<close> of the newer state, at one id.
\<close>

fun v_squash_removed :: "'v \<Rightarrow> 'v view \<Rightarrow> 'v view" where
  "v_squash_removed v (True, x, y) = (False, x, y)"
| "v_squash_removed v (False, Some x, y) = (False, None, Some (case y of None \<Rightarrow> x | Some y' \<Rightarrow> y'))"
| "v_squash_removed v (False, None, y) = (False, None, Some v)"

definition v_squash :: "'v view \<Rightarrow> 'v view \<Rightarrow> 'v view" where
  "v_squash state prev =
     (case state of (n, x, y) \<Rightarrow>
        (let p1 = (case x of None \<Rightarrow> prev | Some v \<Rightarrow> v_modify v prev);
             p2 = (if n then v_create p1 else p1)
         in case y of None \<Rightarrow> p2 | Some v \<Rightarrow> v_squash_removed v p2))"

lemma v_modify_ok: "v_ok w (Some v) \<Longrightarrow> v_ok (v_modify v w) (Some v')"
  by (cases "(v, w)" rule: v_modify.cases) (auto split: option.splits elim: v_ok.elims)

lemma v_modify_restore: "v_ok w (Some v) \<Longrightarrow> v_restore (v_modify v w) (Some v') = v_restore w (Some v)"
  by (cases "(v, w)" rule: v_modify.cases) (auto elim: v_ok.elims)

lemma v_remove_ok: "v_ok w (Some v) \<Longrightarrow> v_ok (v_remove v w) None"
proof (cases "(v, w)" rule: v_remove.cases)
  case (1 v' x y)
  moreover assume "v_ok w (Some v)"
  ultimately show ?thesis by (cases y) auto
qed auto

lemma v_remove_restore: "v_ok w (Some v) \<Longrightarrow> v_restore (v_remove v w) None = v_restore w (Some v)"
proof (cases "(v, w)" rule: v_remove.cases)
  case (1 v' x y)
  moreover assume "v_ok w (Some v)"
  ultimately show ?thesis by (cases y) auto
qed auto

lemma v_create_ok: "v_ok w None \<Longrightarrow> v_ok (v_create w) (Some v)"
  by (cases w; cases "fst w"; cases "fst (snd w)") auto

lemma v_create_restore: "v_ok w None \<Longrightarrow> v_restore (v_create w) (Some v) = v_restore w None"
  by (cases "(w, None :: 'a option)" rule: v_restore.cases) auto

text \<open>
  An id that was removed and created again in the newer state is in both its \<open>new_ids\<close>
  and its \<open>removed_values\<close>.
\<close>

definition v_recreated :: "'v view \<Rightarrow> bool" where
  "v_recreated w \<longleftrightarrow> fst w \<and> snd (snd w) \<noteq> None"

lemma v_squash_correct:
  assumes "v_ok state c" "v_ok prev (v_restore state c)" "\<not> v_recreated state"
  shows "v_ok (v_squash state prev) c \<and>
    v_restore (v_squash state prev) c = v_restore prev (v_restore state c)"
proof -
  obtain n x y m a b where [simp]: "state = (n, x, y)" "prev = (m, a, b)"
    by (metis prod_cases3)
  show ?thesis
    using assms
    by (cases n; cases x; cases y; cases m; cases a; cases b; simp add: v_squash_def v_recreated_def)
qed

section \<open>Undo states\<close>

lemma us_restore_new [simp]: "us_restore (undo_state_new r) C = C"
  by (simp add: us_restore_def us_view_def undo_state_new_def fun_eq_iff)

lemma us_revision_new [simp]: "us_revision (undo_state_new r) = r"
  by (simp add: undo_state_new_def)

lemma us_ok_new [simp]: "us_ok key (undo_state_new r) C"
  by (simp add: us_ok_def us_wf_def us_view_def undo_state_new_def)

text \<open>A step that changes the view and the contents at one id only.\<close>

lemma us_step:
  assumes "us_ok key u C" "us_wf key u'"
    and view: "us_view u' = (us_view u)(k := w)"
    and "v_ok w c" "v_restore w c = v_restore (us_view u k) (C k)"
  shows "us_ok key u' (C(k := c))" and "us_restore u' (C(k := c)) = us_restore u C"
proof -
  show "us_ok key u' (C(k := c))"
    using assms by (auto simp: us_ok_def)
  show "us_restore u' (C(k := c)) = us_restore u C"
  proof
    fix j
    show "us_restore u' (C(k := c)) j = us_restore u C j"
      using assms(5) by (simp add: us_restore_def view)
  qed
qed

lemma us_view_upd:
  "us_view (u\<lparr>old_values := om_emplace k v (old_values u)\<rparr>) =
     (us_view u)(k := (k \<in> set (new_ids u),
        (case map_of (old_values u) k of None \<Rightarrow> Some v | Some x \<Rightarrow> Some x), map_of (removed_values u) k))"
  "us_view (u\<lparr>removed_values := om_emplace k v (removed_values u)\<rparr>) =
     (us_view u)(k := (k \<in> set (new_ids u), map_of (old_values u) k,
        (case map_of (removed_values u) k of None \<Rightarrow> Some v | Some x \<Rightarrow> Some x)))"
  "us_view (u\<lparr>removed_values := om_emplace k v (removed_values u), old_values := om_erase k (old_values u)\<rparr>) =
     (us_view u)(k := (k \<in> set (new_ids u), None,
        (case map_of (removed_values u) k of None \<Rightarrow> Some v | Some x \<Rightarrow> Some x)))"
  "us_view (u\<lparr>new_ids := os_insert k (new_ids u)\<rparr>) =
     (us_view u)(k := (True, map_of (old_values u) k, map_of (removed_values u) k))"
  "us_view (u\<lparr>new_ids := os_erase k (new_ids u)\<rparr>) =
     (us_view u)(k := (False, map_of (old_values u) k, map_of (removed_values u) k))"
  by (auto simp: us_view_def fun_eq_iff map_of_om_emplace map_of_om_erase om_has_conv split: option.splits)

lemma us_wf_upd [intro]:
  "us_wf key u \<Longrightarrow> key v = k \<Longrightarrow> us_wf key (u\<lparr>old_values := om_emplace k v (old_values u)\<rparr>)"
  "us_wf key u \<Longrightarrow> key v = k \<Longrightarrow> us_wf key (u\<lparr>removed_values := om_emplace k v (removed_values u)\<rparr>)"
  "us_wf key u \<Longrightarrow> key v = k \<Longrightarrow>
     us_wf key (u\<lparr>removed_values := om_emplace k v (removed_values u), old_values := om_erase k (old_values u)\<rparr>)"
  "us_wf key u \<Longrightarrow> us_wf key (u\<lparr>new_ids := os_insert k (new_ids u)\<rparr>)"
  "us_wf key u \<Longrightarrow> us_wf key (u\<lparr>new_ids := os_erase k (new_ids u)\<rparr>)"
  by (auto simp: us_wf_def map_of_om_emplace map_of_om_erase split: if_splits)

lemma us_wf_key:
  "us_wf key u \<Longrightarrow> map_of (old_values u) k = Some v \<Longrightarrow> key v = k"
  "us_wf key u \<Longrightarrow> map_of (removed_values u) k = Some v \<Longrightarrow> key v = k"
  by (auto simp: us_wf_def)

lemma us_wf_items:
  assumes "us_wf key u"
  shows "item \<in> set (old_values u) \<Longrightarrow> key (snd item) = fst item"
    and "item \<in> set (removed_values u) \<Longrightarrow> key (snd item) = fst item"
  using assms by (auto simp: us_wf_def om_wf_def)

section \<open>Squashing two undo states\<close>

text \<open>
  A fallible loop over items with distinct keys, each iteration of which changes the view
  of the item's key only.
\<close>

definition view_steps ::
  "('v \<Rightarrow> 'k::linorder) \<Rightarrow> ('x \<Rightarrow> ('k, 'v) undo_state \<Rightarrow> ('k, 'v) undo_state res) \<Rightarrow> ('x \<Rightarrow> 'k)
    \<Rightarrow> ('x \<Rightarrow> 'v view \<Rightarrow> 'v view) \<Rightarrow> 'x list \<Rightarrow> bool" where
  "view_steps key f fk g xs \<longleftrightarrow> distinct (map fk xs) \<and>
     (\<forall>x \<in> set xs. \<forall>w w'. us_wf key w \<longrightarrow> f x w = Inr w' \<longrightarrow>
        us_wf key w' \<and> us_view w' = (us_view w)(fk x := g x (us_view w (fk x))))"

lemma view_stepsI:
  assumes "distinct (map fk xs)"
    and "\<And>x w w'. x \<in> set xs \<Longrightarrow> us_wf key w \<Longrightarrow> f x w = Inr w' \<Longrightarrow>
      us_wf key w' \<and> us_view w' = (us_view w)(fk x := g x (us_view w (fk x)))"
  shows "view_steps key f fk g xs"
  using assms unfolding view_steps_def by blast

lemma view_stepsD:
  assumes "view_steps key f fk g xs" "x \<in> set xs" "us_wf key w" "f x w = Inr w'"
  shows "us_wf key w' \<and> us_view w' = (us_view w)(fk x := g x (us_view w (fk x)))"
  using assms unfolding view_steps_def by blast

lemma foldE_views:
  assumes fold: "foldE f xs u = Inr u'" and st: "view_steps key f fk g xs" and wf: "us_wf key u"
  shows "us_wf key u'"
    and "\<And>k. k \<notin> fk ` set xs \<Longrightarrow> us_view u' k = us_view u k"
    and "\<And>x. x \<in> set xs \<Longrightarrow> us_view u' (fk x) = g x (us_view u (fk x))"
proof -
  let ?P = "\<lambda>ys w. us_wf key w \<and> (\<forall>k. k \<notin> fk ` set ys \<longrightarrow> us_view w k = us_view u k) \<and>
     (\<forall>x \<in> set ys. us_view w (fk x) = g x (us_view u (fk x)))"
  have "?P xs u'"
  proof (rule foldE_invariant [OF fold])
    show "?P [] u" using wf by simp
  next
    fix ys x zs w w'
    assume xs: "xs = ys @ x # zs" and P: "?P ys w" and f: "f x w = Inr w'"
    have "fk x \<notin> fk ` set ys" using st xs by (auto simp: view_steps_def)
    moreover have "us_wf key w' \<and> us_view w' = (us_view w)(fk x := g x (us_view w (fk x)))"
      using view_stepsD [OF st _ _ f] P xs by auto
    ultimately show "?P (ys @ [x]) w'" using P by (auto simp: image_iff)
  qed
  then show "us_wf key u'" "\<And>k. k \<notin> fk ` set xs \<Longrightarrow> us_view u' k = us_view u k"
    "\<And>x. x \<in> set xs \<Longrightarrow> us_view u' (fk x) = g x (us_view u (fk x))"
    by blast+
qed

lemma squash_old_view:
  assumes "squash_old key item u = Inr u'" "us_wf key u" "key (snd item) = fst item"
  shows "us_wf key u' \<and> us_view u' = (us_view u)(fst item := v_modify (snd item) (us_view u (fst item)))"
proof -
  consider (same) "u' = u" "v_modify (snd item) (us_view u (fst item)) = us_view u (fst item)"
    | (add) "u' = u\<lparr>old_values := om_emplace (fst item) (snd item) (old_values u)\<rparr>"
        "fst item \<notin> set (new_ids u)" "map_of (old_values u) (fst item) = None"
    using assms
    by (auto simp: squash_old_def us_view_def om_has_conv bindE_Inr_conv split: if_splits)
  then show ?thesis
  proof cases
    case same
    then show ?thesis using assms(2) by simp
  next
    case add
    have "us_view u' = (us_view u)(fst item := v_modify (snd item) (us_view u (fst item)))"
      unfolding add(1) us_view_upd using add(2,3) by (simp add: us_view_def)
    then show ?thesis using assms add(1) us_wf_upd(1) by metis
  qed
qed

lemma squash_new_view:
  assumes "squash_new i u = Inr u'" "us_wf key u"
  shows "us_wf key u' \<and> us_view u' = (us_view u)(i := v_create (us_view u i))"
proof -
  have u': "u' = u\<lparr>new_ids := os_insert i (new_ids u)\<rparr>"
    using assms(1) by (simp add: squash_new_def)
  have "us_view u' = (us_view u)(i := v_create (us_view u i))"
    unfolding u' us_view_upd by (simp add: us_view_def)
  then show ?thesis using assms(2) u' us_wf_upd(4) by metis
qed

lemma squash_removed_view:
  assumes "squash_removed key item u = Inr u'" "us_wf key u" "key (snd item) = fst item"
  shows "us_wf key u' \<and>
    us_view u' = (us_view u)(fst item := v_squash_removed (snd item) (us_view u (fst item)))"
proof -
  let ?k = "fst item"
  consider (new) "?k \<in> set (new_ids u)" "u' = u\<lparr>new_ids := os_erase ?k (new_ids u)\<rparr>"
    | (old) x where "?k \<notin> set (new_ids u)" "map_of (old_values u) ?k = Some x"
        "u' = u\<lparr>removed_values := om_emplace ?k x (removed_values u), old_values := om_erase ?k (old_values u)\<rparr>"
    | (nop) "?k \<notin> set (new_ids u)" "map_of (old_values u) ?k = None" "map_of (removed_values u) ?k = None"
        "u' = u\<lparr>removed_values := om_emplace ?k (snd item) (removed_values u)\<rparr>"
    using assms(1,3)
    by (auto simp: squash_removed_def om_has_conv bindE_Inr_conv split: if_splits option.splits)
  then show ?thesis
  proof cases
    case new
    have "us_view u' = (us_view u)(?k := v_squash_removed (snd item) (us_view u ?k))"
      unfolding new(2) us_view_upd using new(1) by (simp add: us_view_def)
    then show ?thesis using assms(2) new(2) us_wf_upd(5) by metis
  next
    case old
    have "us_view u' = (us_view u)(?k := v_squash_removed (snd item) (us_view u ?k))"
      unfolding old(3) us_view_upd using old(1,2) by (simp add: us_view_def split: option.splits)
    then show ?thesis using assms(2) old(3) us_wf_upd(3) us_wf_key(1) [OF assms(2) old(2)] by metis
  next
    case nop
    have "us_view u' = (us_view u)(?k := v_squash_removed (snd item) (us_view u ?k))"
      unfolding nop(4) us_view_upd using nop(1,2,3) by (simp add: us_view_def)
    then show ?thesis using assms(2,3) nop(4) us_wf_upd(2) by metis
  qed
qed

lemma us_wf_distinct:
  assumes "us_wf key u"
  shows "distinct (map fst (old_values u))" "distinct (map fst (removed_values u))" "distinct (new_ids u)"
  using assms by (auto simp: us_wf_def)

lemma squash_old_steps:
  assumes "us_wf key state"
  shows "view_steps key (squash_old key) fst (\<lambda>x. v_modify (snd x)) (old_values state)"
  by (rule view_stepsI [OF us_wf_distinct(1) [OF assms]])
    (rule squash_old_view, assumption, assumption, rule us_wf_items(1) [OF assms])

lemma squash_new_steps:
  assumes "us_wf key state"
  shows "view_steps key squash_new id (\<lambda>x. v_create) (new_ids state)"
  by (rule view_stepsI) (simp_all add: us_wf_distinct(3) [OF assms] squash_new_view)

lemma squash_removed_steps:
  assumes "us_wf key state"
  shows "view_steps key (squash_removed key) fst (\<lambda>x. v_squash_removed (snd x)) (removed_values state)"
  by (rule view_stepsI [OF us_wf_distinct(2) [OF assms]])
    (rule squash_removed_view, assumption, assumption, rule us_wf_items(2) [OF assms])

lemmas squash_steps = squash_old_steps squash_new_steps squash_removed_steps

text \<open>The three loops together act on the view of each id as \<open>v_squash\<close> says.\<close>

lemma squash_states_view:
  assumes sq: "squash_states key state prev = Inr m" and wf: "us_wf key state" "us_wf key prev"
  shows "us_wf key m" and "us_view m k = v_squash (us_view state k) (us_view prev k)"
proof -
  obtain p1 p2 where p1: "foldE (squash_old key) (old_values state) prev = Inr p1"
    and p2: "foldE squash_new (new_ids state) p1 = Inr p2"
    and p3: "foldE (squash_removed key) (removed_values state) p2 = Inr m"
    using sq by (auto simp: squash_states_def bindE_Inr_conv)
  note st = squash_steps [OF wf(1)]
  note f1 = foldE_views [OF p1 st(1) wf(2)]
  note f2 = foldE_views [OF p2 st(2) f1(1), unfolded id_apply]
  note f3 = foldE_views [OF p3 st(3) f2(1)]
  show "us_wf key m" by (rule f3(1))
  have v1: "us_view p1 k = (case map_of (old_values state) k of None \<Rightarrow> us_view prev k
      | Some v \<Rightarrow> v_modify v (us_view prev k))"
  proof (cases "map_of (old_values state) k")
    case None
    then have "k \<notin> fst ` set (old_values state)" by (simp add: map_of_eq_None_iff)
    with None show ?thesis using f1(2) [of k] by simp
  next
    case (Some v)
    then show ?thesis using f1(3) [of "(k, v)"] by (simp add: map_of_SomeD)
  qed
  have v2: "us_view p2 k = (if k \<in> set (new_ids state) then v_create (us_view p1 k) else us_view p1 k)"
    using f2(2) [of k] f2(3) [of k] by auto
  have v3: "us_view m k = (case map_of (removed_values state) k of None \<Rightarrow> us_view p2 k
      | Some v \<Rightarrow> v_squash_removed v (us_view p2 k))"
  proof (cases "map_of (removed_values state) k")
    case None
    then have "k \<notin> fst ` set (removed_values state)" by (simp add: map_of_eq_None_iff)
    with None show ?thesis using f3(2) [of k] by simp
  next
    case (Some v)
    then show ?thesis using f3(3) [of "(k, v)"] by (simp add: map_of_SomeD)
  qed
  show "us_view m k = v_squash (us_view state k) (us_view prev k)"
    unfolding v3 v2 v1 by (simp add: v_squash_def us_view_def [of state k] Let_def)
qed

lemma foldE_views_total:
  assumes st: "view_steps key f fk g xs" and wf: "us_wf key u"
    and tot: "\<forall>x \<in> set xs. \<forall>w. us_view w (fk x) = us_view u (fk x) \<longrightarrow> (\<exists>w'. f x w = Inr w')"
  shows "\<exists>u'. foldE f xs u = Inr u'"
proof -
  let ?P = "\<lambda>ys w. us_wf key w \<and> (\<forall>k. k \<notin> fk ` set ys \<longrightarrow> us_view w k = us_view u k)"
  have "\<exists>u'. foldE f xs u = Inr u' \<and> ?P xs u'"
  proof (rule foldE_total)
    show "?P [] u" using wf by simp
  next
    fix ys x zs w
    assume xs: "xs = ys @ x # zs" and P: "?P ys w"
    have "fk x \<notin> fk ` set ys" using st xs by (auto simp: view_steps_def)
    then have "us_view w (fk x) = us_view u (fk x)" and "x \<in> set xs" using P xs by auto
    then obtain w' where w': "f x w = Inr w'" using tot by blast
    then have "us_wf key w' \<and> us_view w' = (us_view w)(fk x := g x (us_view w (fk x)))"
      using view_stepsD [OF st _ _ w'] P xs by auto
    with w' P show "\<exists>t. f x w = Inr t \<and> ?P (ys @ [x]) t" by auto
  qed
  then show ?thesis by blast
qed

text \<open>The assertions of \<open>squash\<close> fail only for an id the older state has as removed.\<close>

lemma squash_fails:
  assumes "key (snd item) = fst item"
  shows "squash_old key item u = Inl e \<Longrightarrow> \<exists>y. us_view u (fst item) = (False, None, Some y)"
    and "squash_removed key item u = Inl e \<Longrightarrow> \<exists>y. us_view u (fst item) = (False, None, Some y)"
  using assms
  by (auto simp: squash_old_def squash_removed_def us_view_def om_has_conv bindE_Inl_conv
      split: if_splits option.splits)

lemma res_total: "(\<And>e. m \<noteq> Inl e) \<Longrightarrow> \<exists>x. m = Inr x"
  by (cases m) auto

text \<open>On consistent states the assertions of \<open>squash\<close> hold.\<close>

lemma squash_states_total:
  assumes "us_ok key state C" "us_ok key prev (us_restore state C)"
  shows "\<exists>m. squash_states key state prev = Inr m"
proof -
  have wf: "us_wf key state" "us_wf key prev" using assms by (auto simp: us_ok_def)
  have ok: "v_ok (us_view state k) (C k)" "v_ok (us_view prev k) (v_restore (us_view state k) (C k))" for k
    using assms by (auto simp: us_ok_def us_restore_def)
  note st = squash_steps [OF wf(1)]
  have items: "\<And>x. x \<in> set (old_values state) \<Longrightarrow> map_of (old_values state) (fst x) = Some (snd x)"
    "\<And>x. x \<in> set (removed_values state) \<Longrightarrow> map_of (removed_values state) (fst x) = Some (snd x)"
    using wf(1) by (auto simp: us_wf_def om_wf_def)
  have t1: "\<exists>w'. squash_old key x w = Inr w'"
    if x: "x \<in> set (old_values state)" and w: "us_view w (fst x) = us_view prev (fst x)" for x w
  proof (rule res_total)
    fix e
    have "v_restore (us_view state (fst x)) (C (fst x)) = Some (snd x)"
      using ok(1) [of "fst x"] items(1) [OF x] by (cases "fst x \<in> set (new_ids state)") (auto simp: us_view_def)
    then show "squash_old key x w \<noteq> Inl e"
      using squash_fails(1) [of key x w e] us_wf_items(1) [OF wf(1) x] ok(2) [of "fst x"] w by auto
  qed
  obtain p1 where p1: "foldE (squash_old key) (old_values state) prev = Inr p1"
    using foldE_views_total [OF st(1) wf(2)] t1 by blast
  note f1 = foldE_views [OF p1 st(1) wf(2)]
  obtain p2 where p2: "foldE squash_new (new_ids state) p1 = Inr p2"
    using foldE_views_total [OF st(2) f1(1)] by (auto simp: squash_new_def)
  note f2 = foldE_views [OF p2 st(2) f1(1), unfolded id_apply]
  have t3: "\<exists>w'. squash_removed key x w = Inr w'"
    if x: "x \<in> set (removed_values state)" and w: "us_view w (fst x) = us_view p2 (fst x)" for x w
  proof (cases "fst x \<in> set (new_ids state)")
    case True
    then have "fst x \<in> set (new_ids w)"
      using f2(3) [of "fst x"] w by (cases "us_view p1 (fst x)") (auto simp: us_view_def)
    then show ?thesis using us_wf_items(2) [OF wf(1) x] by (simp add: squash_removed_def)
  next
    case False
    then have "map_of (old_values state) (fst x) = None"
      using ok(1) [of "fst x"] items(2) [OF x]
      by (cases "map_of (old_values state) (fst x)") (auto simp: us_view_def)
    then have "us_view w (fst x) = us_view prev (fst x)"
      using f1(2) [of "fst x"] f2(2) [of "fst x"] False w by (simp add: map_of_eq_None_iff)
    moreover have "v_ok (us_view prev (fst x)) (Some (snd x))"
      using ok(2) [of "fst x"] items(2) [OF x] False \<open>map_of (old_values state) (fst x) = None\<close>
      by (simp add: us_view_def)
    ultimately show ?thesis
      using squash_fails(2) [of key x w] us_wf_items(2) [OF wf(1) x] by (intro res_total) force
  qed
  obtain m where "foldE (squash_removed key) (removed_values state) p2 = Inr m"
    using foldE_views_total [OF st(3) f2(1)] t3 by blast
  with p1 p2 show ?thesis by (simp add: squash_states_def)
qed

text \<open>
  Squashing is right when no id was removed and created again in the newer state: the
  merged state takes the current contents back to where the older one would.
\<close>

lemma squash_states_correct:
  assumes "us_ok key state C" "us_ok key prev (us_restore state C)"
    and "\<And>k. \<not> v_recreated (us_view state k)"
    and "squash_states key state prev = Inr m"
  shows "us_ok key m C" and "us_restore m C = us_restore prev (us_restore state C)"
proof -
  have wf: "us_wf key state" "us_wf key prev" using assms by (auto simp: us_ok_def)
  note m = squash_states_view [OF assms(4) wf]
  have c: "v_ok (v_squash (us_view state k) (us_view prev k)) (C k) \<and>
      v_restore (v_squash (us_view state k) (us_view prev k)) (C k) =
      v_restore (us_view prev k) (v_restore (us_view state k) (C k))" for k
    using assms(1-3) by (intro v_squash_correct) (auto simp: us_ok_def us_restore_def)
  show "us_ok key m C" using c m by (simp add: us_ok_def)
  show "us_restore m C = us_restore prev (us_restore state C)"
    using c m(2) by (simp add: us_restore_def fun_eq_iff)
qed

lemma foldE_revision:
  assumes "foldE f xs u = Inr u'" "\<And>x w w'. f x w = Inr w' \<Longrightarrow> us_revision w' = us_revision w"
  shows "us_revision u' = us_revision u"
  using foldE_invariant [OF assms(1), of "\<lambda>ys w. us_revision w = us_revision u"] assms(2) by auto

lemma squash_states_revision:
  assumes "squash_states key state prev = Inr m"
  shows "us_revision m = us_revision prev"
proof -
  obtain p1 p2 where p: "foldE (squash_old key) (old_values state) prev = Inr p1"
    "foldE squash_new (new_ids state) p1 = Inr p2"
    "foldE (squash_removed key) (removed_values state) p2 = Inr m"
    using assms by (auto simp: squash_states_def bindE_Inr_conv)
  have "us_revision p1 = us_revision prev"
    by (rule foldE_revision [OF p(1)]) (auto simp: squash_old_def bindE_Inr_conv split: if_splits)
  moreover have "us_revision p2 = us_revision p1"
    by (rule foldE_revision [OF p(2)]) (auto simp: squash_new_def)
  moreover have "us_revision m = us_revision p2"
    by (rule foldE_revision [OF p(3)])
      (auto simp: squash_removed_def bindE_Inr_conv split: if_splits option.splits)
  ultimately show ?thesis by simp
qed

end
