(* ===== verification/Undo_Correct.thy ===== *)
theory Undo_Correct
  imports Undo_Views
begin

text \<open>
  Correctness of \<open>generic_index\<close> against an abstract version-controlled store. A store is
  the list of the contents of its versions, the current one first: a write replaces the
  head, starting a session duplicates it, undo drops it, squash drops the second entry,
  commit keeps a prefix. \<open>gi_history\<close> abstracts an index to a store and \<open>gi_ok\<close> is the
  invariant: a well-formed container, an undo stack consistent with it, and revisions
  that count down from \<open>_revision\<close> through the stack and stay in the range of \<open>int64_t\<close>.
  Every operation keeps the invariant and does to the abstraction what its abstract
  counterpart does.
\<close>

section \<open>The abstract store\<close>

type_synonym ('k, 'v) vstore = "('k \<rightharpoonup> 'v) list"

fun vs_write :: "('k \<rightharpoonup> 'v) \<Rightarrow> ('k, 'v) vstore \<Rightarrow> ('k, 'v) vstore" where
  "vs_write C [] = []"
| "vs_write C (x # xs) = C # xs"

fun vs_begin :: "('k, 'v) vstore \<Rightarrow> ('k, 'v) vstore" where
  "vs_begin [] = []"
| "vs_begin (x # xs) = x # x # xs"

fun vs_undo :: "('k, 'v) vstore \<Rightarrow> ('k, 'v) vstore" where
  "vs_undo (x # y # xs) = y # xs"
| "vs_undo xs = xs"

fun vs_squash :: "('k, 'v) vstore \<Rightarrow> ('k, 'v) vstore" where
  "vs_squash (x # y # xs) = x # xs"
| "vs_squash xs = xs"

section \<open>The invariant and the abstraction\<close>

definition gi_contents :: "('c, 'p, 'k, 'v) mi_ops \<Rightarrow> ('c, 'k, 'v) gindex \<Rightarrow> ('k \<rightharpoonup> 'v)" where
  "gi_contents ops s = contents ops (gi_indices s)"

definition gi_history :: "('c, 'p, 'k, 'v) mi_ops \<Rightarrow> ('c, 'k, 'v) gindex \<Rightarrow> ('k, 'v) vstore" where
  "gi_history ops s = history (gi_stack s) (gi_contents ops s)"

fun revs_ok :: "('k, 'v) undo_state list \<Rightarrow> int \<Rightarrow> bool" where
  "revs_ok [] r = True"
| "revs_ok (u # us) r = (us_revision u = r \<and> revs_ok us (r - 1))"

definition gi_ok ::
  "('c, 'p, 'k, 'v) mi_ops \<Rightarrow> ('v \<Rightarrow> 'k::linorder) \<Rightarrow> ('c \<Rightarrow> bool) \<Rightarrow> ('c, 'k, 'v) gindex \<Rightarrow> bool" where
  "gi_ok ops key cinv s \<longleftrightarrow> cinv (gi_indices s) \<and> stack_ok key (gi_stack s) (gi_contents ops s) \<and>
     revs_ok (gi_stack s) (gi_revision s) \<and> int (length (gi_stack s)) \<le> gi_revision s \<and>
     gi_revision s \<le> int64_max"

lemma history_length [simp]: "length (history us C) = Suc (length us)"
  by (induction us arbitrary: C) auto

lemma history_hd: "history us C = C # tl (history us C)"
  by (cases us) auto

lemma vs_write_history [simp]: "vs_write D (history us C) = D # tl (history us C)"
  by (cases us) auto

lemma history_write:
  "tl (history us' D) = tl (history us C) \<Longrightarrow> history us' D = vs_write D (history us C)"
  using history_hd [of us' D] by simp

lemma gi_okD:
  assumes "gi_ok ops key cinv s"
  shows "cinv (gi_indices s)" "stack_ok key (gi_stack s) (gi_contents ops s)"
    "revs_ok (gi_stack s) (gi_revision s)" "int (length (gi_stack s)) \<le> gi_revision s"
    "gi_revision s \<le> int64_max"
  using assms by (simp_all add: gi_ok_def)

section \<open>Recording a change in the newest undo state\<close>

lemma on_frame [simp]:
  "gi_indices (on_modify key v s) = gi_indices s" "gi_revision (on_modify key v s) = gi_revision s"
  "gi_indices (on_remove key v s) = gi_indices s" "gi_revision (on_remove key v s) = gi_revision s"
  "gi_indices (on_create key v s) = gi_indices s" "gi_revision (on_create key v s) = gi_revision s"
  by (auto simp: on_modify_def on_remove_def on_create_def split: list.splits option.splits)

lemma on_empty:
  assumes "gi_stack s = []"
  shows "on_modify key v s = s" "on_remove key v s = s" "on_create key v s = s"
  using assms by (simp_all add: on_modify_def on_remove_def on_create_def)

lemma on_modify_view:
  assumes "gi_stack s = u # us" "us_wf key u"
  shows "\<exists>u'. gi_stack (on_modify key v s) = u' # us \<and> us_revision u' = us_revision u \<and> us_wf key u' \<and>
    us_view u' = (us_view u)(key v := v_modify v (us_view u (key v)))"
proof (cases "key v \<in> set (new_ids u) \<or> om_has (key v) (old_values u)")
  case True
  then have "v_modify v (us_view u (key v)) = us_view u (key v)"
    by (cases "key v \<in> set (new_ids u)") (auto simp: us_view_def om_has_conv)
  with True assms show ?thesis by (auto simp: on_modify_def)
next
  case False
  then have "us_view (u\<lparr>old_values := om_emplace (key v) v (old_values u)\<rparr>) =
      (us_view u)(key v := v_modify v (us_view u (key v)))"
    unfolding us_view_upd by (simp add: us_view_def om_has_conv)
  with False assms us_wf_upd(1) [OF assms(2), of v] show ?thesis by (simp add: on_modify_def)
qed

lemma on_remove_view:
  assumes "gi_stack s = u # us" "us_wf key u"
  shows "\<exists>u'. gi_stack (on_remove key v s) = u' # us \<and> us_revision u' = us_revision u \<and> us_wf key u' \<and>
    us_view u' = (us_view u)(key v := v_remove v (us_view u (key v)))"
proof -
  let ?k = "key v"
  consider (new) "?k \<in> set (new_ids u)"
    | (old) x where "?k \<notin> set (new_ids u)" "map_of (old_values u) ?k = Some x"
    | (rem) y where "?k \<notin> set (new_ids u)" "map_of (old_values u) ?k = None" "map_of (removed_values u) ?k = Some y"
    | (nop) "?k \<notin> set (new_ids u)" "map_of (old_values u) ?k = None" "map_of (removed_values u) ?k = None"
    by (metis not_None_eq)
  then show ?thesis
  proof cases
    case new
    then have "us_view (u\<lparr>new_ids := os_erase ?k (new_ids u)\<rparr>) =
        (us_view u)(?k := v_remove v (us_view u ?k))"
      unfolding us_view_upd by (simp add: us_view_def)
    with new assms us_wf_upd(5) [OF assms(2), of ?k] show ?thesis by (simp add: on_remove_def)
  next
    case (old x)
    let ?u = "u\<lparr>removed_values := om_emplace ?k x (removed_values u), old_values := om_erase ?k (old_values u)\<rparr>"
    from old have "us_view ?u = (us_view u)(?k := v_remove v (us_view u ?k))"
      unfolding us_view_upd by (simp add: us_view_def split: option.splits)
    with old assms us_wf_upd(3) [OF assms(2) us_wf_key(1) [OF assms(2) old(2)]]
    show ?thesis by (simp add: on_remove_def)
  next
    case (rem y)
    then have "v_remove v (us_view u ?k) = us_view u ?k" by (simp add: us_view_def)
    with rem assms show ?thesis by (simp add: on_remove_def om_has_conv)
  next
    case nop
    then have "us_view (u\<lparr>removed_values := om_emplace ?k v (removed_values u)\<rparr>) =
        (us_view u)(?k := v_remove v (us_view u ?k))"
      unfolding us_view_upd by (simp add: us_view_def)
    with nop assms us_wf_upd(2) [OF assms(2), of v] show ?thesis
      by (simp add: on_remove_def om_has_conv)
  qed
qed

lemma on_create_view:
  assumes "gi_stack s = u # us" "us_wf key u"
  shows "\<exists>u'. gi_stack (on_create key v s) = u' # us \<and> us_revision u' = us_revision u \<and> us_wf key u' \<and>
    us_view u' = (us_view u)(key v := v_create (us_view u (key v)))"
proof -
  have "us_view (u\<lparr>new_ids := os_insert (key v) (new_ids u)\<rparr>) =
      (us_view u)(key v := v_create (us_view u (key v)))"
    unfolding us_view_upd by (simp add: us_view_def)
  with assms us_wf_upd(4) [OF assms(2), of "key v"] show ?thesis by (simp add: on_create_def)
qed

text \<open>
  A change of the object of one id, recorded in the newest undo state by a transition
  that keeps \<open>v_ok\<close> and \<open>v_restore\<close>, leaves all earlier versions as they were.
\<close>

lemma recorded_change:
  assumes ok: "stack_ok key (gi_stack s) C" "revs_ok (gi_stack s) r"
    and empty: "gi_stack s = [] \<Longrightarrow> gi_stack s' = []"
    and rec: "\<And>u us. gi_stack s = u # us \<Longrightarrow> us_wf key u \<Longrightarrow>
      \<exists>u'. gi_stack s' = u' # us \<and> us_revision u' = us_revision u \<and> us_wf key u' \<and>
           us_view u' = (us_view u)(k := f (us_view u k))"
    and vok: "\<And>w. v_ok w (C k) \<Longrightarrow> v_ok (f w) c \<and> v_restore (f w) c = v_restore w (C k)"
  shows "stack_ok key (gi_stack s') (C(k := c))" "revs_ok (gi_stack s') r"
    "tl (history (gi_stack s') (C(k := c))) = tl (history (gi_stack s) C)"
    "length (gi_stack s') = length (gi_stack s)"
proof -
  have "stack_ok key (gi_stack s') (C(k := c)) \<and> revs_ok (gi_stack s') r \<and>
    tl (history (gi_stack s') (C(k := c))) = tl (history (gi_stack s) C) \<and>
    length (gi_stack s') = length (gi_stack s)"
  proof (cases "gi_stack s")
    case Nil
    then show ?thesis using empty by simp
  next
    case (Cons u us)
    then have u: "us_ok key u C" "stack_ok key us (us_restore u C)" using ok by auto
    then have wf: "us_wf key u" and "v_ok (us_view u k) (C k)" by (auto simp: us_ok_def)
    note v = vok [OF this(2)]
    obtain u' where u': "gi_stack s' = u' # us" "us_revision u' = us_revision u" "us_wf key u'"
      "us_view u' = (us_view u)(k := f (us_view u k))"
      using rec [OF Cons wf] by blast
    have "us_ok key u' (C(k := c))" "us_restore u' (C(k := c)) = us_restore u C"
      using us_step [OF u(1) u'(3,4)] v by auto
    then show ?thesis using u u' ok Cons by simp
  qed
  then show "stack_ok key (gi_stack s') (C(k := c))" "revs_ok (gi_stack s') r"
    "tl (history (gi_stack s') (C(k := c))) = tl (history (gi_stack s) C)"
    "length (gi_stack s') = length (gi_stack s)"
    by auto
qed

definition undo_compatible :: "('v \<Rightarrow> 'v \<Rightarrow> bool) \<Rightarrow> ('k \<rightharpoonup> 'v) \<Rightarrow> ('k \<rightharpoonup> 'v) \<Rightarrow> bool" where
  "undo_compatible clash B C \<longleftrightarrow>
     (\<forall>i j v w. (B i = Some v \<or> C i = Some v) \<longrightarrow> (B j = Some w \<or> C j = Some w) \<longrightarrow> i \<noteq> j \<longrightarrow> \<not> clash v w)"

text \<open>No id of the state to be merged was removed and created again.\<close>

definition squash_safe :: "('c, 'k, 'v) gindex \<Rightarrow> bool" where
  "squash_safe s \<longleftrightarrow>
     (case gi_stack s of
        u # u' # us \<Rightarrow> list_all (\<lambda>k. \<not> om_has k (removed_values u)) (new_ids u)
      | _ \<Rightarrow> True)"

lemma squash_safe_recreated:
  "squash_safe s \<Longrightarrow> gi_stack s = u # u' # us \<Longrightarrow> \<not> v_recreated (us_view u k)"
  by (auto simp: squash_safe_def v_recreated_def us_view_def list_all_iff om_has_conv)

text \<open>What a consistent undo state says about the current and the restored object.\<close>

lemma us_ok_recorded:
  assumes "us_ok key u C"
  shows "k \<in> set (new_ids u) \<Longrightarrow> C k \<noteq> None"
    and "map_of (old_values u) k = Some x \<Longrightarrow>
      us_restore u C k = Some x \<and> C k \<noteq> None \<and> k \<notin> set (new_ids u)"
    and "map_of (removed_values u) k = Some x \<Longrightarrow>
      us_restore u C k = Some x \<and> (C k = None \<or> k \<in> set (new_ids u))"
proof -
  have v: "v_ok (us_view u k) (C k)" using assms by (simp add: us_ok_def)
  show "k \<in> set (new_ids u) \<Longrightarrow> C k \<noteq> None" using v by (simp add: us_view_def)
  show "us_restore u C k = Some x \<and> C k \<noteq> None \<and> k \<notin> set (new_ids u)"
    if "map_of (old_values u) k = Some x"
    using v that by (cases "k \<in> set (new_ids u)") (simp_all add: us_restore_def us_view_def)
  show "us_restore u C k = Some x \<and> (C k = None \<or> k \<in> set (new_ids u))"
    if "map_of (removed_values u) k = Some x"
    using v that by (cases "k \<in> set (new_ids u)"; cases "map_of (old_values u) k")
      (simp_all add: us_restore_def us_view_def)
qed

lemma map_of_rev_eq: "distinct (map fst xs) \<Longrightarrow> map_of (rev xs) = map_of xs"
  by (rule map_of_eqI) (auto simp: rev_map [symmetric])

section \<open>The operations of an index on a documented container\<close>

context multi_index
begin

text \<open>The three writes.\<close>

lemma gi_emplace_ok:
  assumes ok: "gi_ok ops key cinv s" and e: "gi_emplace ops key v s = Inr (s', p)"
  shows "gi_ok ops key cinv s'"
    and "gi_contents ops s' = (gi_contents ops s)(key v \<mapsto> v)"
    and "gi_history ops s' = vs_write ((gi_contents ops s)(key v \<mapsto> v)) (gi_history ops s)"
    and "mi_at ops (gi_indices s') p = Some v"
    and "gi_revision s' = gi_revision s" "length (gi_stack s') = length (gi_stack s)"
proof -
  obtain c where c: "mi_emplace ops (gi_indices s) v = Some (c, p)"
    "s' = on_create key v (s\<lparr>gi_indices := c\<rparr>)"
    using e by (auto simp: gi_emplace_def split: option.splits prod.splits)
  note d = gi_okD [OF ok]
  note ce = contents_emplace [OF d(1) c(1)]
  let ?s = "s\<lparr>gi_indices := c\<rparr>" and ?C = "gi_contents ops s"
  have none: "?C (key v) = None" using ce(2) by (simp add: gi_contents_def)
  have st: "stack_ok key (gi_stack ?s) ?C" "revs_ok (gi_stack ?s) (gi_revision s)" using d by auto
  have v: "v_ok w (?C (key v)) \<Longrightarrow> v_ok (v_create w) (Some v) \<and>
      v_restore (v_create w) (Some v) = v_restore w (?C (key v))" for w
    unfolding none by (simp add: v_create_ok v_create_restore)
  note r = recorded_change [where s = ?s and s' = "on_create key v ?s" and k = "key v" and f = v_create and c = "Some v", OF st]
  have r': "stack_ok key (gi_stack s') (?C(key v \<mapsto> v))" "revs_ok (gi_stack s') (gi_revision s)"
    "tl (history (gi_stack s') (?C(key v \<mapsto> v))) = tl (history (gi_stack s) ?C)"
    "length (gi_stack s') = length (gi_stack s)"
    using r [OF _ on_create_view v] by (auto simp: on_empty c(2))
  show cont: "gi_contents ops s' = ?C(key v \<mapsto> v)"
    using ce(1) c(2) by (simp add: gi_contents_def)
  show "gi_ok ops key cinv s'"
    using r' d ce(3) by (simp add: gi_ok_def cont) (simp add: c(2))
  show "gi_history ops s' = vs_write (?C(key v \<mapsto> v)) (gi_history ops s)"
    using history_write [OF r'(3)] by (simp add: gi_history_def cont)
  show "mi_at ops (gi_indices s') p = Some v" "gi_revision s' = gi_revision s"
    "length (gi_stack s') = length (gi_stack s)"
    using ce(4) c(2) r'(4) by simp_all
qed

lemma gi_emplace_fails:
  assumes "gi_ok ops key cinv s"
  shows "(\<exists>e. gi_emplace ops key v s = Inl e) \<longleftrightarrow> (\<exists>k w. gi_contents ops s k = Some w \<and> clash v w)"
proof -
  have "(\<exists>e. gi_emplace ops key v s = Inl e) \<longleftrightarrow> mi_emplace ops (gi_indices s) v = None"
    by (auto simp: gi_emplace_def split: option.splits)
  also have "\<dots> \<longleftrightarrow> (\<exists>q w. mi_at ops (gi_indices s) q = Some w \<and> clash v w)"
    by (rule emplace_iff [OF gi_okD(1) [OF assms]])
  finally show ?thesis
    unfolding gi_contents_def contents_iff [OF gi_okD(1) [OF assms]] by blast
qed

lemma gi_modify_ok:
  assumes ok: "gi_ok ops key cinv s" and e: "gi_modify ops key p m s = Inr s'"
    and at: "mi_at ops (gi_indices s) p = Some v" and key: "key (m v) = key v"
  shows "gi_ok ops key cinv s'"
    and "gi_contents ops s' = (gi_contents ops s)(key v \<mapsto> m v)"
    and "gi_history ops s' = vs_write ((gi_contents ops s)(key v \<mapsto> m v)) (gi_history ops s)"
    and "mi_at ops (gi_indices s') = (mi_at ops (gi_indices s))(p \<mapsto> m v)"
    and "gi_revision s' = gi_revision s" "length (gi_stack s') = length (gi_stack s)"
proof -
  obtain c where c: "mi_modify ops (gi_indices s) p m = Some c"
    "s' = (on_modify key v s)\<lparr>gi_indices := c\<rparr>"
    using e at by (auto simp: gi_modify_def Let_def split: option.splits)
  note d = gi_okD [OF ok]
  note ce = contents_modify [OF d(1) at c(1) key]
  let ?C = "gi_contents ops s"
  have some: "?C (key v) = Some v"
    using at contents_iff [OF d(1)] by (auto simp: gi_contents_def)
  have vw: "v_ok w (?C (key v)) \<Longrightarrow> v_ok (v_modify v w) (Some (m v)) \<and>
      v_restore (v_modify v w) (Some (m v)) = v_restore w (?C (key v))" for w
    unfolding some by (simp add: v_modify_ok v_modify_restore)
  note r = recorded_change [where s = s and s' = "on_modify key v s" and k = "key v"
      and f = "v_modify v" and c = "Some (m v)", OF d(2,3)]
  have r': "stack_ok key (gi_stack s') (?C(key v \<mapsto> m v))" "revs_ok (gi_stack s') (gi_revision s)"
    "tl (history (gi_stack s') (?C(key v \<mapsto> m v))) = tl (history (gi_stack s) ?C)"
    "length (gi_stack s') = length (gi_stack s)"
    using r [OF _ on_modify_view vw] by (auto simp: on_empty c(2))
  show cont: "gi_contents ops s' = ?C(key v \<mapsto> m v)"
    using ce(1) c(2) by (simp add: gi_contents_def)
  show "gi_ok ops key cinv s'"
    using r' d ce(2) by (simp add: gi_ok_def cont) (simp add: c(2))
  show "gi_history ops s' = vs_write (?C(key v \<mapsto> m v)) (gi_history ops s)"
    using history_write [OF r'(3)] by (simp add: gi_history_def cont)
  show "mi_at ops (gi_indices s') = (mi_at ops (gi_indices s))(p \<mapsto> m v)"
    "gi_revision s' = gi_revision s" "length (gi_stack s') = length (gi_stack s)"
    using modify_at [OF d(1) at c(1)] c(2) r'(4) by simp_all
qed

lemma gi_remove_ok:
  assumes ok: "gi_ok ops key cinv s" and at: "mi_at ops (gi_indices s) p = Some v"
  obtains s' where "gi_remove ops key p s = Inr s'"
    and "gi_ok ops key cinv s'"
    and "gi_contents ops s' = (gi_contents ops s)(key v := None)"
    and "gi_history ops s' = vs_write ((gi_contents ops s)(key v := None)) (gi_history ops s)"
    and "mi_at ops (gi_indices s') = (mi_at ops (gi_indices s))(p := None)"
    and "gi_revision s' = gi_revision s" "length (gi_stack s') = length (gi_stack s)"
proof -
  define s' where "s' = (on_remove key v s)\<lparr>gi_indices := mi_erase ops (gi_indices s) p\<rparr>"
  have e: "gi_remove ops key p s = Inr s'"
    using at by (simp add: gi_remove_def s'_def)
  note d = gi_okD [OF ok]
  note ce = contents_erase [OF d(1) at]
  let ?C = "gi_contents ops s"
  have some: "?C (key v) = Some v"
    using at contents_iff [OF d(1)] by (auto simp: gi_contents_def)
  have vw: "v_ok w (?C (key v)) \<Longrightarrow> v_ok (v_remove v w) None \<and>
      v_restore (v_remove v w) None = v_restore w (?C (key v))" for w
    unfolding some by (simp add: v_remove_ok v_remove_restore)
  note r = recorded_change [where s = s and s' = "on_remove key v s" and k = "key v"
      and f = "v_remove v" and c = None, OF d(2,3)]
  have r': "stack_ok key (gi_stack s') (?C(key v := None))" "revs_ok (gi_stack s') (gi_revision s)"
    "tl (history (gi_stack s') (?C(key v := None))) = tl (history (gi_stack s) ?C)"
    "length (gi_stack s') = length (gi_stack s)"
    using r [OF _ on_remove_view vw] by (auto simp: on_empty s'_def)
  have cont: "gi_contents ops s' = ?C(key v := None)"
    using ce(1) by (simp add: gi_contents_def s'_def)
  show ?thesis
  proof
    show "gi_ok ops key cinv s'"
      using r' d ce(2) by (simp add: gi_ok_def cont) (simp add: s'_def)
    show "gi_history ops s' = vs_write (?C(key v := None)) (gi_history ops s)"
      using history_write [OF r'(3)] by (simp add: gi_history_def cont)
    show "mi_at ops (gi_indices s') = (mi_at ops (gi_indices s))(p := None)"
      using erase_at [OF d(1) at] by (simp add: s'_def)
    show "gi_revision s' = gi_revision s" "length (gi_stack s') = length (gi_stack s)"
      using r'(4) by (simp_all add: s'_def)
  qed (fact e, fact cont)
qed

text \<open>The loops of \<open>undo\<close>.\<close>

lemma undo_new_loop:
  assumes "foldE (undo_new ops) ids c = Inr c'" "cinv c"
  shows "cinv c' \<and> contents ops c' = (\<lambda>k. if k \<in> set ids then None else contents ops c k)"
proof (rule foldE_invariant [OF assms(1)])
  show "cinv c \<and> contents ops c = (\<lambda>k. if k \<in> set [] then None else contents ops c k)"
    using assms(2) by simp
next
  fix ys i zs b b'
  assume P: "cinv b \<and> contents ops b = (\<lambda>k. if k \<in> set ys then None else contents ops c k)"
    and u: "undo_new ops i b = Inr b'"
  then obtain p where p: "mi_find ops b i = Some p" "b' = mi_erase ops b p"
    by (auto simp: undo_new_def split: option.splits)
  then obtain v where v: "mi_at ops b p = Some v" "key v = i" using P by (auto dest: find_at)
  show "cinv b' \<and> contents ops b' = (\<lambda>k. if k \<in> set (ys @ [i]) then None else contents ops c k)"
    using contents_erase [OF _ v(1)] P p v(2) by auto
qed

lemma undo_old_loop:
  assumes "foldE (undo_old ops key) xs c = Inr c'" "cinv c"
    and keys: "\<And>x. x \<in> set xs \<Longrightarrow> key (snd x) = fst x" and dist: "distinct (map fst xs)"
  shows "cinv c' \<and> contents ops c' = contents ops c ++ map_of xs"
proof -
  have "cinv c' \<and> contents ops c' = contents ops c ++ map_of (rev xs)"
  proof (rule foldE_invariant [OF assms(1)])
    show "cinv c \<and> contents ops c = contents ops c ++ map_of (rev [])"
      using assms(2) by simp
  next
    fix ys x zs b b'
    assume xs: "xs = ys @ x # zs"
      and P: "cinv b \<and> contents ops b = contents ops c ++ map_of (rev ys)"
      and u: "undo_old ops key x b = Inr b'"
    then obtain p where p: "mi_find ops b (key (snd x)) = Some p" "mi_modify ops b p (\<lambda>_. snd x) = Some b'"
      by (auto simp: undo_old_def split: option.splits)
    then obtain v where v: "mi_at ops b p = Some v" "key v = fst x"
      using P keys [of x] xs by (auto dest: find_at)
    show "cinv b' \<and> contents ops b' = contents ops c ++ map_of (rev (ys @ [x]))"
      using contents_modify [OF _ v(1) p(2)] P v(2) keys [of x] xs
      by (cases x) (auto simp: map_add_upd)
  qed
  then show ?thesis using dist by (simp add: map_of_rev_eq)
qed

lemma undo_removed_loop:
  assumes "foldE (undo_removed ops) xs c = Inr c'" "cinv c"
    and keys: "\<And>x. x \<in> set xs \<Longrightarrow> key (snd x) = fst x" and dist: "distinct (map fst xs)"
  shows "cinv c' \<and> contents ops c' = contents ops c ++ map_of xs"
proof -
  have "cinv c' \<and> contents ops c' = contents ops c ++ map_of (rev xs)"
  proof (rule foldE_invariant [OF assms(1)])
    show "cinv c \<and> contents ops c = contents ops c ++ map_of (rev [])"
      using assms(2) by simp
  next
    fix ys x zs b b'
    assume xs: "xs = ys @ x # zs"
      and P: "cinv b \<and> contents ops b = contents ops c ++ map_of (rev ys)"
      and u: "undo_removed ops x b = Inr b'"
    then obtain p where p: "mi_emplace ops b (snd x) = Some (b', p)"
      by (auto simp: undo_removed_def split: option.splits prod.splits)
    show "cinv b' \<and> contents ops b' = contents ops c ++ map_of (rev (ys @ [x]))"
      using contents_emplace [OF _ p] P keys [of x] xs by (cases x) (auto simp: map_add_upd)
  qed
  then show ?thesis using dist by (simp add: map_of_rev_eq)
qed

text \<open>The three loops together bring back the contents the head of the stack stands for.\<close>

lemma restore_eq:
  assumes "us_ok key u C"
  shows "(\<lambda>k. if k \<in> set (new_ids u) then None else C k) ++ map_of (old_values u) ++ map_of (removed_values u)
    = us_restore u C"
proof
  fix k
  have "v_ok (us_view u k) (C k)" using assms by (simp add: us_ok_def)
  then show "((\<lambda>k. if k \<in> set (new_ids u) then None else C k) ++ map_of (old_values u) ++ map_of (removed_values u)) k
    = us_restore u C k"
    by (cases "k \<in> set (new_ids u)"; cases "map_of (old_values u) k"; cases "map_of (removed_values u) k")
      (auto simp: us_restore_def us_view_def map_add_def)
qed

lemma gi_undo_ok:
  assumes ok: "gi_ok ops key cinv s" and st: "gi_stack s = u # us" and e: "gi_undo ops key s = Inr s'"
  shows "gi_ok ops key cinv s'"
    and "gi_contents ops s' = us_restore u (gi_contents ops s)"
    and "gi_history ops s' = vs_undo (gi_history ops s)"
    and "gi_revision s' = gi_revision s - 1" "gi_stack s' = us"
proof -
  note d = gi_okD [OF ok]
  have u: "us_ok key u (gi_contents ops s)" "stack_ok key us (us_restore u (gi_contents ops s))"
    using d(2) st by auto
  then have wf: "us_wf key u" by (simp add: us_ok_def)
  obtain c1 c2 c3 where c: "foldE (undo_new ops) (new_ids u) (gi_indices s) = Inr c1"
    "foldE (undo_old ops key) (old_values u) c1 = Inr c2"
    "foldE (undo_removed ops) (removed_values u) c2 = Inr c3"
    "s' = s\<lparr>gi_indices := c3, gi_stack := us, gi_revision := gi_revision s - 1\<rparr>"
    using e st by (auto simp: gi_undo_def bindE_Inr_conv)
  note l1 = undo_new_loop [OF c(1) d(1)]
  note l2 = undo_old_loop [OF c(2) l1 [THEN conjunct1] us_wf_items(1) [OF wf] us_wf_distinct(1) [OF wf]]
  note l3 = undo_removed_loop [OF c(3) l2 [THEN conjunct1] us_wf_items(2) [OF wf] us_wf_distinct(2) [OF wf]]
  show cont: "gi_contents ops s' = us_restore u (gi_contents ops s)"
    using l1 l2 l3 restore_eq [OF u(1), unfolded gi_contents_def] by (simp add: gi_contents_def c(4))
  show "gi_ok ops key cinv s'"
    using l3 u d st by (simp add: gi_ok_def cont) (simp add: c(4))
  show "gi_history ops s' = vs_undo (gi_history ops s)"
    using st by (cases us) (simp_all add: gi_history_def cont, simp_all add: c(4))
  show "gi_revision s' = gi_revision s - 1" "gi_stack s' = us" by (simp_all add: c(4))
qed

text \<open>
  Undo finds every object it looks for, so its only failure is the abort on a uniqueness
  violation, and that cannot happen when no two objects with different ids, of the current
  contents and the contents to restore, clash (\<open>undo_compatible\<close>, the precondition that
  \<open>modify\<close> documents). Between the loops every object is from one of the two (\<open>mixed\<close>).
\<close>

definition mixed :: "('k \<rightharpoonup> 'v) \<Rightarrow> ('k \<rightharpoonup> 'v) \<Rightarrow> 'c \<Rightarrow> bool" where
  "mixed B C c \<longleftrightarrow> cinv c \<and> (\<forall>k w. contents ops c k = Some w \<longrightarrow> B k = Some w \<or> C k = Some w)"

lemma mixed_findE:
  assumes "mixed B C c \<and> R" "contents ops c k \<noteq> None"
  obtains p x where "mi_find ops c k = Some p" "mi_at ops c p = Some x" "key x = k"
proof -
  have c: "cinv c" using assms(1) by (simp add: mixed_def)
  then obtain p where p: "mi_find ops c k = Some p"
    using assms(2) contents_find [OF c, of k] by (cases "mi_find ops c k") auto
  then show thesis using that find_at [OF c p] by blast
qed

lemma undo_new_total:
  assumes "mixed B C c" "\<And>i. i \<in> set ids \<Longrightarrow> contents ops c i \<noteq> None" "distinct ids"
  shows "\<exists>c1. foldE (undo_new ops) ids c = Inr c1 \<and>
    (mixed B C c1 \<and> (\<forall>k. contents ops c1 k = None \<longleftrightarrow> k \<in> set ids \<or> contents ops c k = None))"
proof (rule foldE_total)
  show "mixed B C c \<and> (\<forall>k. contents ops c k = None \<longleftrightarrow> k \<in> set [] \<or> contents ops c k = None)"
    using assms(1) by simp
next
  fix ys i zs b
  assume xs: "ids = ys @ i # zs"
    and P: "mixed B C b \<and> (\<forall>k. contents ops b k = None \<longleftrightarrow> k \<in> set ys \<or> contents ops c k = None)"
  have "contents ops b i \<noteq> None" using P assms(2) [of i] assms(3) xs by auto
  then obtain p x where x: "mi_find ops b i = Some p" "mi_at ops b p = Some x" "key x = i"
    using P by (elim mixed_findE) auto
  show "\<exists>t. undo_new ops i b = Inr t \<and>
    (mixed B C t \<and> (\<forall>k. contents ops t k = None \<longleftrightarrow> k \<in> set (ys @ [i]) \<or> contents ops c k = None))"
    using contents_erase [OF _ x(2)] P x by (auto simp: undo_new_def mixed_def split: if_splits)
qed

lemma undo_old_total:
  assumes "mixed B C c" "undo_compatible clash B C" "distinct (map fst xs)"
    and items: "\<And>x. x \<in> set xs \<Longrightarrow> key (snd x) = fst x \<and> B (fst x) = Some (snd x) \<and> contents ops c (fst x) \<noteq> None"
  shows "\<exists>c2. foldE (undo_old ops key) xs c = Inr c2 \<and>
    (mixed B C c2 \<and> (\<forall>k. contents ops c2 k = None \<longleftrightarrow> contents ops c k = None))"
proof (rule foldE_total)
  show "mixed B C c \<and> (\<forall>k. contents ops c k = None \<longleftrightarrow> contents ops c k = None)"
    using assms(1) by simp
next
  fix ys x zs b
  assume xs: "xs = ys @ x # zs"
    and P: "mixed B C b \<and> (\<forall>k. contents ops b k = None \<longleftrightarrow> contents ops c k = None)"
  have i: "key (snd x) = fst x" "B (fst x) = Some (snd x)" "contents ops b (fst x) \<noteq> None"
    using items [of x] xs P by auto
  then obtain p y where y: "mi_find ops b (fst x) = Some p" "mi_at ops b p = Some y" "key y = fst x"
    using P by (elim mixed_findE) auto
  have "\<not> clash (snd x) w" if "contents ops b k = Some w" "k \<noteq> key y" for k w
    using assms(2) P i(2) that y(3) unfolding undo_compatible_def mixed_def by metis
  then obtain b' where b': "mi_modify ops b p (\<lambda>_. snd x) = Some b'"
    using modify_total [OF _ y(2), of "\<lambda>_. snd x"] P by (auto simp: mixed_def)
  show "\<exists>t. undo_old ops key x b = Inr t \<and>
    (mixed B C t \<and> (\<forall>k. contents ops t k = None \<longleftrightarrow> contents ops c k = None))"
    using contents_modify [OF _ y(2) b'] P b' y i by (auto simp: undo_old_def mixed_def)
qed

lemma undo_removed_total:
  assumes "mixed B C c" "undo_compatible clash B C" "distinct (map fst xs)"
    and items: "\<And>x. x \<in> set xs \<Longrightarrow> key (snd x) = fst x \<and> B (fst x) = Some (snd x) \<and> contents ops c (fst x) = None"
  shows "\<exists>c3. foldE (undo_removed ops) xs c = Inr c3 \<and>
    (mixed B C c3 \<and> (\<forall>k. k \<notin> fst ` set xs \<longrightarrow> contents ops c3 k = contents ops c k))"
proof (rule foldE_total)
  show "mixed B C c \<and> (\<forall>k. k \<notin> fst ` set [] \<longrightarrow> contents ops c k = contents ops c k)"
    using assms(1) by simp
next
  fix ys x zs b
  assume xs: "xs = ys @ x # zs"
    and P: "mixed B C b \<and> (\<forall>k. k \<notin> fst ` set ys \<longrightarrow> contents ops b k = contents ops c k)"
  have i: "key (snd x) = fst x" "B (fst x) = Some (snd x)" "contents ops b (fst x) = None"
    using items [of x] xs P assms(3) by auto
  then have "\<not> clash (snd x) w" if "contents ops b k = Some w" for k w
    using assms(2) P that unfolding undo_compatible_def mixed_def by (metis option.distinct(1))
  then obtain b' p where b': "mi_emplace ops b (snd x) = Some (b', p)"
    using emplace_total [of b "snd x"] P by (auto simp: mixed_def)
  show "\<exists>t. undo_removed ops x b = Inr t \<and>
    (mixed B C t \<and> (\<forall>k. k \<notin> fst ` set (ys @ [x]) \<longrightarrow> contents ops t k = contents ops c k))"
    using contents_emplace [OF _ b'] P b' i by (auto simp: undo_removed_def mixed_def)
qed

lemma gi_undo_total:
  assumes ok: "gi_ok ops key cinv s" and st: "gi_stack s = u # us"
    and comp: "undo_compatible clash (us_restore u (gi_contents ops s)) (gi_contents ops s)"
  shows "\<exists>s'. gi_undo ops key s = Inr s'"
proof -
  let ?C = "gi_contents ops s" and ?B = "us_restore u (gi_contents ops s)"
  have u: "us_ok key u ?C" using gi_okD(2) [OF ok] st by auto
  then have wf: "us_wf key u" by (simp add: us_ok_def)
  note dist = us_wf_distinct [OF wf] and rec = us_ok_recorded [OF u]
  have m0: "mixed ?B ?C (gi_indices s)" "contents ops (gi_indices s) = ?C"
    using gi_okD(1) [OF ok] by (auto simp: mixed_def gi_contents_def)
  obtain c1 where c1: "foldE (undo_new ops) (new_ids u) (gi_indices s) = Inr c1" "mixed ?B ?C c1"
    "\<And>k. contents ops c1 k = None \<longleftrightarrow> k \<in> set (new_ids u) \<or> ?C k = None"
    using undo_new_total [OF m0(1) _ dist(3)] rec(1) unfolding m0(2) by blast
  have "key (snd x) = fst x \<and> ?B (fst x) = Some (snd x) \<and> contents ops c1 (fst x) \<noteq> None"
    if "x \<in> set (old_values u)" for x
    using us_wf_items(1) [OF wf that] rec(2) [of "fst x" "snd x"] that c1(3) dist(1) by simp
  then obtain c2 where c2: "foldE (undo_old ops key) (old_values u) c1 = Inr c2" "mixed ?B ?C c2"
    "\<And>k. contents ops c2 k = None \<longleftrightarrow> contents ops c1 k = None"
    using undo_old_total [OF c1(2) comp dist(1)] by blast
  have "key (snd x) = fst x \<and> ?B (fst x) = Some (snd x) \<and> contents ops c2 (fst x) = None"
    if "x \<in> set (removed_values u)" for x
    using us_wf_items(2) [OF wf that] rec(3) [of "fst x" "snd x"] that c1(3) c2(3) dist(2) by auto
  then obtain c3 where "foldE (undo_removed ops) (removed_values u) c2 = Inr c3"
    using undo_removed_total [OF c2(2) comp dist(2)] by blast
  with c1(1) c2(1) st show ?thesis by (auto simp: gi_undo_def)
qed

text \<open>Starting a session, squashing, committing, undoing everything.\<close>

lemma gi_start_undo_ok:
  assumes ok: "gi_ok ops key cinv s" and e: "gi_start_undo s = Inr s'"
  shows "gi_ok ops key cinv s'" and "gi_contents ops s' = gi_contents ops s"
    and "gi_history ops s' = vs_begin (gi_history ops s)"
    and "gi_revision s' = gi_revision s + 1"
proof -
  have s': "gi_revision s \<noteq> int64_max"
    "s' = s\<lparr>gi_stack := undo_state_new (gi_revision s + 1) # gi_stack s, gi_revision := gi_revision s + 1\<rparr>"
    using e by (auto simp: gi_start_undo_def Let_def split: if_splits)
  show cont: "gi_contents ops s' = gi_contents ops s" by (simp add: gi_contents_def s'(2))
  show "gi_ok ops key cinv s'"
    using gi_okD [OF ok] s'(1) by (simp add: gi_ok_def cont) (simp add: s'(2))
  show "gi_history ops s' = vs_begin (gi_history ops s)"
    unfolding gi_history_def cont by (cases "gi_stack s") (simp_all add: s'(2))
  show "gi_revision s' = gi_revision s + 1" by (simp add: s'(2))
qed

lemma gi_squash_ok:
  assumes ok: "gi_ok ops key cinv s" and safe: "squash_safe s" and en: "gi_enabled s"
  obtains s' where "gi_squash key s = Inr s'" and "gi_ok ops key cinv s'"
    and "gi_indices s' = gi_indices s"
    and "gi_history ops s' = vs_squash (gi_history ops s)"
    and "gi_revision s' = gi_revision s - 1"
proof (cases "gi_stack s" rule: remdups_adj.cases)
  case 1
  then show thesis using en by (simp add: gi_enabled_def)
next
  case (2 u)
  define s' where "s' = s\<lparr>gi_stack := [], gi_revision := gi_revision s - 1\<rparr>"
  show thesis
    using that [of s'] gi_okD [OF ok] 2
    by (simp add: gi_squash_def s'_def gi_ok_def gi_history_def gi_contents_def)
next
  case (3 u u' us)
  let ?C = "gi_contents ops s"
  note d = gi_okD [OF ok]
  have u: "us_ok key u ?C" "us_ok key u' (us_restore u ?C)" "\<And>k. \<not> v_recreated (us_view u k)"
    using d(2) 3 squash_safe_recreated [OF safe 3] by auto
  obtain m where m: "squash_states key u u' = Inr m" using squash_states_total [OF u(1,2)] by blast
  note c = squash_states_correct [OF u m] and r = squash_states_revision [OF m]
  define s' where "s' = s\<lparr>gi_stack := m # us, gi_revision := gi_revision s - 1\<rparr>"
  have cont: "gi_contents ops s' = ?C" by (simp add: s'_def gi_contents_def)
  show thesis
  proof
    show "gi_squash key s = Inr s'" using 3 m by (simp add: gi_squash_def s'_def)
    show "gi_ok ops key cinv s'"
      using d 3 c r by (simp add: gi_ok_def cont) (simp add: s'_def)
    show "gi_history ops s' = vs_squash (gi_history ops s)"
      unfolding gi_history_def cont using 3 c(2) by (simp add: s'_def)
  qed (simp_all add: s'_def)
qed

lemma stack_ok_take: "stack_ok key us C \<Longrightarrow> stack_ok key (take n us) C"
  by (induction us arbitrary: n C) (auto simp: take_Cons split: nat.splits)

lemma history_take: "history (take n us) C = take (Suc n) (history us C)"
  by (induction us arbitrary: n C) (auto simp: take_Cons split: nat.splits)

lemma revs_ok_take: "revs_ok us r \<Longrightarrow> revs_ok (take n us) r"
  by (induction us arbitrary: n r) (auto simp: take_Cons split: nat.splits)

lemma revs_ok_nth: "revs_ok us r \<Longrightarrow> i < length us \<Longrightarrow> us_revision (us ! i) = r - int i"
  by (induction us arbitrary: i r) (auto simp: nth_Cons split: nat.splits)

lemma commit_take:
  assumes "revs_ok us r"
  shows "rev (dropWhile (\<lambda>u. us_revision u \<le> q) (rev us)) = take (nat (r - q)) us"
  using assms
proof (induction us arbitrary: r)
  case Nil
  then show ?case by simp
next
  case (Cons u us)
  have IH: "rev (dropWhile (\<lambda>u. us_revision u \<le> q) (rev us)) = take (nat (r - 1 - q)) us"
    using Cons by simp
  have u: "us_revision u = r" "revs_ok us (r - 1)" using Cons.prems by auto
  show ?case
  proof (cases "r \<le> q")
    case True
    then have "\<forall>x \<in> set (rev us). us_revision x \<le> q"
      using revs_ok_nth [OF u(2)] by (auto simp: in_set_conv_nth)
    then show ?thesis using True u(1) by (simp add: dropWhile_append2)
  next
    case False
    then have "nat (r - q) = Suc (nat (r - 1 - q))" by simp
    moreover have "rev (dropWhile (\<lambda>u. us_revision u \<le> q) (rev us @ [u])) =
        u # rev (dropWhile (\<lambda>u. us_revision u \<le> q) (rev us))"
    proof (cases "\<exists>x \<in> set (rev us). \<not> us_revision x \<le> q")
      case True
      then show ?thesis by (auto simp: dropWhile_append1)
    next
      case all: False
      then have "dropWhile (\<lambda>u. us_revision u \<le> q) (rev us) = []" by (simp add: dropWhile_eq_Nil_conv)
      moreover have "dropWhile (\<lambda>u. us_revision u \<le> q) (rev us @ [u]) = [u]"
        using all False u(1) by (subst dropWhile_append2) auto
      ultimately show ?thesis by simp
    qed
    ultimately show ?thesis using IH by simp
  qed
qed

lemma gi_commit_ok:
  assumes ok: "gi_ok ops key cinv s"
  shows "gi_ok ops key cinv (gi_commit r s)" and "gi_indices (gi_commit r s) = gi_indices s"
    and "gi_history ops (gi_commit r s) = take (Suc (nat (gi_revision s - r))) (gi_history ops s)"
    and "gi_stack (gi_commit r s) = take (nat (gi_revision s - r)) (gi_stack s)"
    and "gi_revision (gi_commit r s) = gi_revision s"
proof -
  note d = gi_okD [OF ok]
  show st: "gi_stack (gi_commit r s) = take (nat (gi_revision s - r)) (gi_stack s)"
    using commit_take [OF d(3)] by (simp add: gi_commit_def)
  show ind: "gi_indices (gi_commit r s) = gi_indices s" "gi_revision (gi_commit r s) = gi_revision s"
    by (simp_all add: gi_commit_def)
  have cont: "gi_contents ops (gi_commit r s) = gi_contents ops s" by (simp add: gi_contents_def ind)
  show "gi_ok ops key cinv (gi_commit r s)"
    using d stack_ok_take revs_ok_take [OF d(3), of "nat (gi_revision s - r)"]
    by (auto simp: gi_ok_def cont st ind)
  show "gi_history ops (gi_commit r s) = take (Suc (nat (gi_revision s - r))) (gi_history ops s)"
    by (simp add: gi_history_def cont st history_take)
qed

lemma gi_undo_all_ok:
  assumes "gi_ok ops key cinv s" "gi_undo_all ops key s = Inr s'"
  shows "gi_ok ops key cinv s' \<and> gi_stack s' = [] \<and> gi_contents ops s' = last (gi_history ops s) \<and>
    gi_revision s' = gi_revision s - int (length (gi_stack s))"
  using assms
proof (induction "length (gi_stack s)" arbitrary: s)
  case 0
  then show ?case
    by (simp add: gi_undo_all.simps [of _ _ s] gi_enabled_def gi_history_def)
next
  case (Suc n)
  then obtain u us where st: "gi_stack s = u # us" by (metis length_Suc_conv)
  then obtain t where t: "gi_undo ops key s = Inr t" "gi_undo_all ops key t = Inr s'"
    using Suc.prems(2) by (subst (asm) gi_undo_all.simps) (auto simp: gi_enabled_def bindE_Inr_conv)
  note u = gi_undo_ok [OF Suc.prems(1) st t(1)]
  have "n = length (gi_stack t)" using Suc.hyps(2) st u(5) by simp
  from Suc.hyps(1) [OF this u(1) t(2)] show ?case
    using u(2,4,5) st by (cases us) (auto simp: gi_history_def)
qed

lemma gi_undo_all_total:
  assumes "gi_ok ops key cinv s"
    and "\<And>i. i < length (gi_stack s) \<Longrightarrow> undo_compatible clash (gi_history ops s ! Suc i) (gi_history ops s ! i)"
  shows "\<exists>s'. gi_undo_all ops key s = Inr s'"
  using assms
proof (induction "length (gi_stack s)" arbitrary: s)
  case 0
  then show ?case by (simp add: gi_undo_all.simps [of _ _ s] gi_enabled_def)
next
  case (Suc n)
  then obtain u us where st: "gi_stack s = u # us" by (metis length_Suc_conv)
  have h: "gi_history ops s ! 0 = gi_contents ops s" "gi_history ops s ! 1 = us_restore u (gi_contents ops s)"
    by (cases us; simp add: gi_history_def st)+
  obtain t where t: "gi_undo ops key s = Inr t"
    using gi_undo_total [OF Suc.prems(1) st] Suc.prems(2) [of 0] h st by auto
  note u = gi_undo_ok [OF Suc.prems(1) st t]
  have n: "n = length (gi_stack t)" using Suc.hyps(2) st u(5) by simp
  have "gi_history ops t = tl (gi_history ops s)"
    using u(2,5) st by (cases us) (auto simp: gi_history_def)
  then have "undo_compatible clash (gi_history ops t ! Suc i) (gi_history ops t ! i)" if "i < length (gi_stack t)" for i
    using Suc.prems(2) [of "Suc i"] that n Suc.hyps(2) by (simp add: nth_tl gi_history_def)
  then obtain s' where "gi_undo_all ops key t = Inr s'" using Suc.hyps(1) [OF n u(1)] by blast
  then show ?case using t st by (subst gi_undo_all.simps) (simp add: gi_enabled_def)
qed

end

text \<open>A container whose only unique key is the id never makes undo abort.\<close>

lemma undo_compatible_ids:
  assumes "\<And>v w. clash v w \<Longrightarrow> key v = key w"
    and "\<And>k v. B k = Some v \<Longrightarrow> key v = k" "\<And>k v. C k = Some v \<Longrightarrow> key v = k"
  shows "undo_compatible clash B C"
  using assms unfolding undo_compatible_def by metis

end
