(* ===== verification/Names.thy ===== *)
theory Names
  imports SD_Prelude
begin

text \<open>
  \<open>name\<close> (name.hpp, name.cpp): an account or table name of up to 13 characters packed into
  64 bits, 5 bits for each of the first twelve characters from the top and 4 bits for the
  thirteenth. A \<open>std::string_view\<close> is a list of characters; the source reads one character
  past its end and relies on a terminating NUL there (\<open>sv_at\<close>).
\<close>

unbundle bit_operations_syntax

datatype name = Name (name_value: u64)

instantiation name :: linorder
begin

definition less_eq_name :: "name \<Rightarrow> name \<Rightarrow> bool" where
  "less_eq_name a b \<longleftrightarrow> name_value a \<le> name_value b"

definition less_name :: "name \<Rightarrow> name \<Rightarrow> bool" where
  "less_name a b \<longleftrightarrow> name_value a < name_value b"

instance
  by standard (auto simp: less_eq_name_def less_name_def intro: name.expand)

end

definition char_to_symbol :: "char \<Rightarrow> u64" where
  "char_to_symbol c =
     (let n = (of_char c :: nat) in
      if 97 \<le> n \<and> n \<le> 122 then of_nat (n - 97 + 6)
      else if 49 \<le> n \<and> n \<le> 53 then of_nat (n - 49 + 1)
      else 0)"

definition sv_at :: "string \<Rightarrow> nat \<Rightarrow> char" where
  "sv_at str i = (if i < length str then str ! i else CHR 0x00)"

function string_to_uint64_loop :: "string \<Rightarrow> nat \<Rightarrow> u64 \<Rightarrow> u64 \<times> nat" where
  "string_to_uint64_loop str i n =
     (if sv_at str i \<noteq> CHR 0x00 \<and> i < 12
      then string_to_uint64_loop str (Suc i)
             (n OR push_bit (64 - 5 * (i + 1)) (char_to_symbol (sv_at str i) AND 0x1F))
      else (n, i))"
  by pat_completeness auto
termination
  by (relation "measure (\<lambda>(str, i, n). 12 - i)") auto

declare string_to_uint64_loop.simps [simp del]

definition string_to_uint64_t :: "string \<Rightarrow> u64" where
  "string_to_uint64_t str =
     (case string_to_uint64_loop str 0 0 of (n, i) \<Rightarrow>
        if i = 12 then n OR (char_to_symbol (sv_at str 12) AND 0x0F) else n)"

definition string_to_name :: "string \<Rightarrow> name" where
  "string_to_name str = Name (string_to_uint64_t str)"

definition charmap :: string where
  "charmap = ''.12345abcdefghijklmnopqrstuvwxyz''"

text \<open>\<open>boost::algorithm::trim_right_if\<close>: the trailing characters with the property are dropped.\<close>

definition trim_right_if :: "(char \<Rightarrow> bool) \<Rightarrow> string \<Rightarrow> string" where
  "trim_right_if P s = rev (dropWhile P (rev s))"

fun to_string_loop :: "nat \<Rightarrow> nat \<Rightarrow> u64 \<Rightarrow> string \<Rightarrow> string" where
  "to_string_loop 0 i tmp str = str"
| "to_string_loop (Suc k) i tmp str =
     (let c = charmap ! unat (tmp AND (if i = 0 then 0x0F else 0x1F))
      in to_string_loop k (Suc i) (drop_bit (if i = 0 then 4 else 5) tmp) (str[12 - i := c]))"

definition name_to_string :: "name \<Rightarrow> string" where
  "name_to_string n =
     trim_right_if (\<lambda>c. c = CHR ''.'') (to_string_loop 13 0 (name_value n) (replicate 13 (CHR ''.'')))"

definition name_set :: "string \<Rightarrow> name res" where
  "name_set str =
     bindE (assertE (length str \<le> 13) ''Name is longer than 13 characters'') (\<lambda>_.
     let n = Name (string_to_uint64_t str) in
     bindE (assertE (name_to_string n = str) ''Name not properly normalized '') (\<lambda>_.
     Inr n))"

section \<open>Encoding\<close>

text \<open>The value of a string is determined by the symbols of its first 13 positions.\<close>

definition symbol_at :: "string \<Rightarrow> nat \<Rightarrow> u64" where
  "symbol_at str i = char_to_symbol (sv_at str i)"

fun pack_syms :: "(nat \<Rightarrow> u64) \<Rightarrow> nat \<Rightarrow> u64" where
  "pack_syms f 0 = 0"
| "pack_syms f (Suc i) = pack_syms f i OR push_bit (59 - 5 * i) (f i AND 0x1F)"

definition pack13 :: "(nat \<Rightarrow> u64) \<Rightarrow> u64" where
  "pack13 f = pack_syms f 12 OR (f 12 AND 0x0F)"

definition no_nul :: "string \<Rightarrow> bool" where
  "no_nul str \<longleftrightarrow> CHR 0x00 \<notin> set str"

lemma symbol_beyond: "length str \<le> i \<Longrightarrow> symbol_at str i = 0"
  by (simp add: symbol_at_def sv_at_def char_to_symbol_def)

lemma sv_at_nul: "no_nul str \<Longrightarrow> sv_at str i = CHR 0x00 \<longleftrightarrow> length str \<le> i"
  by (auto simp: sv_at_def no_nul_def) (metis nth_mem)

lemma pack_syms_beyond:
  assumes "length str \<le> i" "i \<le> j"
  shows "pack_syms (symbol_at str) j = pack_syms (symbol_at str) i"
  using assms(2)
proof (induction j rule: dec_induct)
  case (step j)
  then show ?case using assms(1) by (simp add: symbol_beyond)
qed simp

lemma string_to_uint64_loop_eq:
  assumes "no_nul str" "i \<le> 12" "i \<le> length str"
  shows "string_to_uint64_loop str i (pack_syms (symbol_at str) i) =
    (pack_syms (symbol_at str) (min 12 (length str)), min 12 (length str))"
  using assms(2,3)
proof (induction "12 - i" arbitrary: i)
  case 0
  then show ?case by (subst string_to_uint64_loop.simps) (simp add: min_def)
next
  case (Suc n)
  show ?case
  proof (cases "i = length str")
    case True
    moreover have "length str < 12" using True Suc.hyps(2) by simp
    ultimately show ?thesis by (subst string_to_uint64_loop.simps) (simp add: sv_at_def min_def)
  next
    case False
    then have "sv_at str i \<noteq> CHR 0x00" using sv_at_nul [OF assms(1)] Suc.prems by simp
    then have "string_to_uint64_loop str i (pack_syms (symbol_at str) i) =
        string_to_uint64_loop str (Suc i) (pack_syms (symbol_at str) (Suc i))"
      using Suc.hyps(2) by (subst string_to_uint64_loop.simps) (auto simp: symbol_at_def)
    then show ?thesis using Suc.hyps(1) [of "Suc i"] Suc.hyps(2) Suc.prems False by simp
  qed
qed

lemma string_to_uint64_t_eq:
  assumes "no_nul str"
  shows "string_to_uint64_t str = pack13 (symbol_at str)"
proof -
  have l: "string_to_uint64_loop str 0 0 = (pack_syms (symbol_at str) (min 12 (length str)), min 12 (length str))"
    using string_to_uint64_loop_eq [OF assms, of 0] by simp
  show ?thesis
  proof (cases "length str < 12")
    case True
    then have "pack_syms (symbol_at str) 12 = pack_syms (symbol_at str) (length str)"
      by (intro pack_syms_beyond) simp_all
    then show ?thesis using True l by (simp add: string_to_uint64_t_def pack13_def symbol_beyond)
  next
    case False
    then show ?thesis using l by (simp add: string_to_uint64_t_def pack13_def symbol_at_def)
  qed
qed

section \<open>Decoding\<close>

text \<open>The 13 digits of a value, the most significant first.\<close>

definition name_digit :: "u64 \<Rightarrow> nat \<Rightarrow> u64" where
  "name_digit v j = (if j = 12 then v AND 0x0F else drop_bit (59 - 5 * j) v AND 0x1F)"

lemma to_string_loop_eq:
  "to_string_loop 13 0 v (replicate 13 (CHR ''.'')) =
     map (\<lambda>j. charmap ! unat (name_digit v j)) [0,1,2,3,4,5,6,7,8,9,10,11,12]"
  by (simp add: eval_nat_numeral Let_def name_digit_def)

lemma nibble_masks: "(0x1F :: u64) = mask 5" "(0x0F :: u64) = mask 4"
  by (simp_all add: mask_eq_exp_minus_1)

lemma unat_masks: "unat (w AND 0x1F) < 32" "unat (w AND 0x0F) < 16" for w :: u64
  unfolding nibble_masks take_bit_eq_mask [symmetric] unsigned_take_bit_eq
  using take_bit_nat_less_exp [of 5 "unat w"] take_bit_nat_less_exp [of 4 "unat w"] by simp_all

lemma name_digit_bound: "unat (name_digit v j) < 32" "unat (name_digit v 12) < 16"
  using unat_masks [of v] unat_masks(1) [of "drop_bit (59 - 5 * j) v"]
  by (auto simp: name_digit_def)

lemma charmap_symbols: "map char_to_symbol charmap = map of_nat [0..<32]" "list_all (\<lambda>c. c \<noteq> CHR 0x00) charmap"
  by code_simp+

lemma charmap_length: "length charmap = 32"
  by (simp add: charmap_def)

lemma charmap_symbol:
  assumes "d < 32"
  shows "char_to_symbol (charmap ! d) = of_nat d \<and> charmap ! d \<noteq> CHR 0x00"
proof -
  have len: "length charmap = 32" by (simp add: charmap_def)
  have "map char_to_symbol charmap ! d = map of_nat [0..<32] ! d" by (simp only: charmap_symbols)
  moreover have "charmap ! d \<in> set charmap" using assms len by simp
  ultimately show ?thesis using assms len charmap_symbols(2) by (auto simp: list_all_iff)
qed

lemma bit_digit: "bit (push_bit m (drop_bit m v AND 0x1F)) n \<longleftrightarrow> m \<le> n \<and> n < m + 5 \<and> bit v n"
  for v :: u64
  unfolding nibble_masks by (auto simp: bit_simps dest: bit_imp_le_length)

lemma bit_digit12: "bit (v AND 0x0F) n \<longleftrightarrow> n < 4 \<and> bit v n" for v :: u64
  unfolding nibble_masks by (auto simp: bit_simps)

lemma pack_syms_digits:
  assumes "i \<le> 12" "n < 64"
  shows "bit (pack_syms (name_digit v) i) n \<longleftrightarrow> 64 - 5 * i \<le> n \<and> bit v n"
  using assms
proof (induction i)
  case (Suc i)
  have "name_digit v i AND 0x1F = drop_bit (59 - 5 * i) v AND 0x1F"
    using Suc.prems by (simp add: name_digit_def and.assoc)
  then have "bit (pack_syms (name_digit v) (Suc i)) n \<longleftrightarrow>
      (64 - 5 * i \<le> n \<and> bit v n) \<or> (59 - 5 * i \<le> n \<and> n < 59 - 5 * i + 5 \<and> bit v n)"
    using Suc by (simp only: pack_syms.simps bit_or_iff bit_digit)
  then show ?case using Suc.prems by auto
qed simp

lemma pack13_digits: "pack13 (name_digit v) = v"
proof (rule bit_eqI)
  fix n
  assume "possible_bit TYPE(u64) n"
  then have n: "n < 64" by simp
  have "bit (pack13 (name_digit v)) n \<longleftrightarrow> (4 \<le> n \<and> bit v n) \<or> (n < 4 \<and> bit v n)"
    unfolding pack13_def bit_or_iff pack_syms_digits [OF order_refl n] bit_digit12
    by (simp add: name_digit_def bit_digit12)
  then show "bit (pack13 (name_digit v)) n \<longleftrightarrow> bit v n" by auto
qed

text \<open>Dropping trailing dots does not change the symbols: a dot is the symbol zero.\<close>

lemma trim_right_split: "\<exists>t. s = trim_right_if P s @ t \<and> (\<forall>c \<in> set t. P c)"
proof (intro exI conjI)
  have "s = rev (takeWhile P (rev s) @ dropWhile P (rev s))" by simp
  then show "s = trim_right_if P s @ rev (takeWhile P (rev s))"
    unfolding trim_right_if_def by (simp only: rev_append)
  show "\<forall>c \<in> set (rev (takeWhile P (rev s))). P c" by (auto dest: set_takeWhileD)
qed

lemma symbol_at_trim: "symbol_at (trim_right_if (\<lambda>c. c = CHR ''.'') s) i = symbol_at s i"
proof -
  define r where "r = trim_right_if (\<lambda>c. c = CHR ''.'') s"
  obtain t where t: "s = r @ t" "\<forall>c \<in> set t. c = CHR ''.''"
    using trim_right_split [of s "\<lambda>c. c = CHR ''.''"] by (auto simp: r_def)
  have dot: "char_to_symbol (CHR ''.'') = 0" by (simp add: char_to_symbol_def)
  have "symbol_at r i = symbol_at (r @ t) i"
  proof (cases "i < length r")
    case True
    then show ?thesis by (simp add: symbol_at_def sv_at_def nth_append)
  next
    case False
    then have r: "symbol_at r i = 0" by (intro symbol_beyond) simp
    show ?thesis
    proof (cases "i < length (r @ t)")
      case True
      then have "t ! (i - length r) \<in> set t" using False by (intro nth_mem) simp
      then have "(r @ t) ! i = CHR ''.''" using t(2) False by (simp add: nth_append)
      then have "symbol_at (r @ t) i = 0"
        using True dot unfolding symbol_at_def sv_at_def by simp
      then show ?thesis using r by simp
    next
      case False
      then have "symbol_at (r @ t) i = 0" by (intro symbol_beyond) simp
      then show ?thesis using r by simp
    qed
  qed
  then have "symbol_at r i = symbol_at s i" unfolding t(1) .
  then show ?thesis unfolding r_def .
qed

lemma to_string_symbols:
  assumes "i \<le> 12"
  shows "symbol_at (name_to_string (Name v)) i = name_digit v i"
proof -
  have "i \<in> set [0,1,2,3,4,5,6,7,8,9,10,11,12]" using assms by simp arith
  then have "symbol_at (to_string_loop 13 0 v (replicate 13 (CHR ''.''))) i =
      char_to_symbol (charmap ! unat (name_digit v i))"
    unfolding to_string_loop_eq by (elim set_ConsD [THEN disjE]) (auto simp: symbol_at_def sv_at_def)
  also have "\<dots> = name_digit v i" using charmap_symbol [OF name_digit_bound(1)] by simp
  finally show ?thesis by (simp add: name_to_string_def symbol_at_trim)
qed

lemma pack_syms_cong: "(\<And>j. j < i \<Longrightarrow> f j = g j) \<Longrightarrow> pack_syms f i = pack_syms g i"
  by (induction i) auto

lemma pack13_cong: "(\<And>j. j \<le> 12 \<Longrightarrow> f j = g j) \<Longrightarrow> pack13 f = pack13 g"
  unfolding pack13_def using pack_syms_cong [of 12 f g] by simp

lemma name_to_string_set: "set (name_to_string n) \<subseteq> set charmap"
proof -
  have "length charmap = 32" by (simp add: charmap_def)
  then have "charmap ! unat (name_digit v j) \<in> set charmap" for v j
    using name_digit_bound by (intro nth_mem) simp
  then have "set (to_string_loop 13 0 (name_value n) (replicate 13 (CHR ''.''))) \<subseteq> set charmap"
    unfolding to_string_loop_eq by auto
  then show ?thesis by (auto simp: name_to_string_def trim_right_if_def dest!: set_dropWhileD)
qed

lemma name_to_string_no_nul: "no_nul (name_to_string n)"
  using name_to_string_set charmap_symbols(2) by (auto simp: no_nul_def list_all_iff)

lemma name_to_string_length: "length (name_to_string n) \<le> 13"
  by (simp add: name_to_string_def trim_right_if_def to_string_loop_eq le_trans [OF length_dropWhile_le])

lemma name_round_trip: "string_to_uint64_t (name_to_string (Name v)) = v"
proof -
  have "string_to_uint64_t (name_to_string (Name v)) = pack13 (symbol_at (name_to_string (Name v)))"
    by (rule string_to_uint64_t_eq [OF name_to_string_no_nul])
  also have "\<dots> = pack13 (name_digit v)" by (rule pack13_cong) (rule to_string_symbols)
  finally show ?thesis by (simp add: pack13_digits)
qed

section \<open>Normalised names\<close>

text \<open>
  The strings that stand for a name: at most 13 characters of the alphabet, no trailing
  dot, and a thirteenth character among the first sixteen of the alphabet.
\<close>

definition normalised :: "string \<Rightarrow> bool" where
  "normalised s \<longleftrightarrow> length s \<le> 13 \<and> set s \<subseteq> set charmap \<and> (s \<noteq> [] \<longrightarrow> last s \<noteq> CHR ''.'') \<and>
     (length s = 13 \<longrightarrow> s ! 12 \<in> set (take 16 charmap))"

lemma bit_push_digit: "bit (push_bit m (x AND 0x1F)) n \<longleftrightarrow> m \<le> n \<and> n < m + 5 \<and> bit x (n - m)"
  if "m + 5 \<le> 64" for x :: u64
  using that unfolding nibble_masks by (auto simp: bit_simps)

lemma bit_pack_syms_low:
  assumes "i \<le> 12" "n < 64 - 5 * i"
  shows "\<not> bit (pack_syms f i) n"
  using assms
proof (induction i)
  case (Suc i)
  then have "59 - 5 * i + 5 \<le> 64" by simp
  note d = bit_push_digit [OF this, of "f i"]
  have "\<not> bit (pack_syms f i) n" using Suc by simp
  then show ?case unfolding pack_syms.simps bit_or_iff d using Suc.prems by simp
qed simp

lemma bit_pack_syms:
  assumes "i \<le> 12" "j < i" "b < 5"
  shows "bit (pack_syms f i) (59 - 5 * j + b) \<longleftrightarrow> bit (f j) b"
  using assms(1,2)
proof (induction i)
  case (Suc i)
  then have "59 - 5 * i + 5 \<le> 64" by simp
  note d = bit_push_digit [OF this, of "f i"]
  show ?case
  proof (cases "j = i")
    case True
    have b: "59 - 5 * i + b < 64 - 5 * i" using Suc.prems(1) assms(3) by simp
    then have "\<not> bit (pack_syms f i) (59 - 5 * i + b)"
      using Suc.prems(1) by (intro bit_pack_syms_low) simp_all
    then have "bit (pack_syms f (Suc i)) (59 - 5 * i + b) \<longleftrightarrow>
        59 - 5 * i \<le> 59 - 5 * i + b \<and> 59 - 5 * i + b < 59 - 5 * i + 5 \<and> bit (f i) (59 - 5 * i + b - (59 - 5 * i))"
      unfolding pack_syms.simps bit_or_iff d by blast
    then show ?thesis unfolding True using assms(3) by simp
  next
    case False
    then have "\<not> 59 - 5 * j + b < 59 - 5 * i + 5" using Suc.prems by simp
    moreover have "bit (pack_syms f i) (59 - 5 * j + b) \<longleftrightarrow> bit (f j) b"
      using Suc False by simp
    ultimately show ?thesis unfolding pack_syms.simps bit_or_iff d by blast
  qed
qed simp

lemma name_digit_pack13:
  assumes f: "\<And>j. j < 12 \<Longrightarrow> unat (f j) < 32" "unat (f 12) < 16" and "i \<le> 12"
  shows "name_digit (pack13 f) i = f i"
proof -
  have small: "take_bit 5 (f j) = f j" if "j < 12" for j
    using f(1) [OF that] by (intro word_unat_eq_iff [THEN iffD2])
      (simp add: unsigned_take_bit_eq take_bit_nat_eq_self)
  have small4: "take_bit 4 (f 12) = f 12"
    using f(2) by (intro word_unat_eq_iff [THEN iffD2])
      (simp add: unsigned_take_bit_eq take_bit_nat_eq_self)
  show ?thesis
  proof (cases "i = 12")
    case True
    have "take_bit 4 (pack13 f) = take_bit 4 (f 12)"
      by (rule bit_eqI) (auto simp: pack13_def bit_take_bit_iff bit_or_iff bit_digit12 bit_pack_syms_low)
    then show ?thesis using True small4 unfolding name_digit_def nibble_masks take_bit_eq_mask by simp
  next
    case False
    have "take_bit 5 (drop_bit (59 - 5 * i) (pack13 f)) = take_bit 5 (f i)"
    proof (rule bit_eqI)
      fix n
      have i: "i < 12" using False assms(3) by simp
      then have "\<not> 59 - 5 * i + n < 4" by simp
      then have "\<not> bit (f 12 AND 0x0F) (59 - 5 * i + n)" unfolding bit_digit12 by blast
      then show "bit (take_bit 5 (drop_bit (59 - 5 * i) (pack13 f))) n = bit (take_bit 5 (f i)) n"
        using bit_pack_syms [of 12 i n f] i
        unfolding bit_take_bit_iff bit_drop_bit_eq comp_def pack13_def bit_or_iff by blast
    qed
    then show ?thesis using False assms(3) small [of i]
      unfolding name_digit_def nibble_masks take_bit_eq_mask by simp
  qed
qed

lemma charmap_index:
  assumes "c \<in> set charmap"
  shows "unat (char_to_symbol c) < 32" "charmap ! unat (char_to_symbol c) = c"
proof -
  obtain d where d: "d < 32" "c = charmap ! d"
    using assms unfolding in_set_conv_nth by (auto simp: charmap_length)
  then have "unat (char_to_symbol c) = d" using charmap_symbol [OF d(1)]
    by (simp add: unsigned_of_nat take_bit_nat_eq_self)
  then show "unat (char_to_symbol c) < 32" "charmap ! unat (char_to_symbol c) = c"
    using d by simp_all
qed

lemma charmap_nul: "set s \<subseteq> set charmap \<Longrightarrow> no_nul s"
  using charmap_symbols(2) by (auto simp: no_nul_def list_all_iff)

lemma normalised_symbols:
  assumes "normalised s"
  shows "unat (symbol_at s j) < 32" "unat (symbol_at s 12) < 16"
    and "charmap ! unat (symbol_at s j) = (if j < length s then s ! j else CHR ''.'')"
proof -
  have s: "set s \<subseteq> set charmap" using assms by (simp add: normalised_def)
  have dot: "charmap ! 0 = CHR ''.''" by (simp add: charmap_def)
  have "unat (symbol_at s j) < 32 \<and>
      charmap ! unat (symbol_at s j) = (if j < length s then s ! j else CHR ''.'')"
  proof (cases "j < length s")
    case True
    then have "s ! j \<in> set charmap" using s nth_mem by blast
    then show ?thesis using True charmap_index by (simp add: symbol_at_def sv_at_def)
  qed (simp add: symbol_beyond dot)
  then show "unat (symbol_at s j) < 32"
    and "charmap ! unat (symbol_at s j) = (if j < length s then s ! j else CHR ''.'')" by simp_all
  show "unat (symbol_at s 12) < 16"
  proof (cases "length s = 13")
    case True
    then have m: "s ! 12 \<in> set (take 16 charmap)" using assms by (simp add: normalised_def)
    have "list_all (\<lambda>c. unat (char_to_symbol c) < 16) (take 16 charmap)" by code_simp
    then have "unat (char_to_symbol (s ! 12)) < 16" using m unfolding list_all_iff by blast
    then show ?thesis using True by (simp add: symbol_at_def sv_at_def)
  next
    case False
    then have "length s \<le> 12" using assms by (simp add: normalised_def)
    then show ?thesis by (simp add: symbol_beyond)
  qed
qed

lemma trim_right_app:
  assumes "\<forall>c \<in> set t. P c" "s \<noteq> [] \<Longrightarrow> \<not> P (last s)"
  shows "trim_right_if P (s @ t) = s"
proof -
  have "dropWhile P (rev t @ rev s) = dropWhile P (rev s)" using assms(1) by (intro dropWhile_append2) simp
  also have "\<dots> = rev s"
    using assms(2) by (cases s rule: rev_cases) simp_all
  finally show ?thesis by (simp add: trim_right_if_def)
qed

lemma to_string_normalised:
  assumes "normalised s"
  shows "name_to_string (Name (string_to_uint64_t s)) = s"
proof -
  let ?v = "pack13 (symbol_at s)"
  have no: "no_nul s" using assms by (intro charmap_nul) (simp add: normalised_def)
  have len: "length s \<le> 13" using assms by (simp add: normalised_def)
  have d: "name_digit ?v j = symbol_at s j" if "j \<le> 12" for j
    using normalised_symbols [OF assms] that by (intro name_digit_pack13) simp_all
  have "[0,1,2,3,4,5,6,7,8,9,10,11,12] = [0..<13]" by code_simp
  then have "to_string_loop 13 0 ?v (replicate 13 (CHR ''.'')) = map (\<lambda>j. charmap ! unat (name_digit ?v j)) [0..<13]"
    using to_string_loop_eq [of ?v] by simp
  also have "\<dots> = s @ replicate (13 - length s) (CHR ''.'')"
    using len normalised_symbols(3) [OF assms] by (intro nth_equalityI) (auto simp: d nth_append)
  finally have t: "to_string_loop 13 0 ?v (replicate 13 (CHR ''.'')) = s @ replicate (13 - length s) (CHR ''.'')" .
  show ?thesis
    unfolding name_to_string_def string_to_uint64_t_eq [OF no] name.sel t
    using assms by (intro trim_right_app) (auto simp: normalised_def)
qed

lemma name_to_string_normalised: "normalised (name_to_string n)"
proof -
  let ?s = "name_to_string n"
  let ?l = "map (\<lambda>j. charmap ! unat (name_digit (name_value n) j)) [0,1,2,3,4,5,6,7,8,9,10,11,12]"
  have s: "?s = rev (dropWhile (\<lambda>c. c = CHR ''.'') (rev ?l))"
    unfolding name_to_string_def trim_right_if_def to_string_loop_eq ..
  have "last ?s \<noteq> CHR ''.''" if "?s \<noteq> []"
    using that hd_dropWhile [of "\<lambda>c. c = CHR ''.''" "rev ?l"] unfolding s by (simp add: last_rev)
  moreover have "?s ! 12 \<in> set (take 16 charmap)" if l: "length ?s = 13"
  proof -
    obtain t where t: "?l = ?s @ t"
      using trim_right_split [of ?l "\<lambda>c. c = CHR ''.''"] s unfolding trim_right_if_def by metis
    have "length ?l = 13" by simp
    then have "?s = ?l" using t l by (metis append_Nil2 append_eq_conv_conj take_all_iff order_refl)
    then have "?s ! 12 = take 16 charmap ! unat (name_digit (name_value n) 12)"
      using name_digit_bound(2) by simp
    moreover have "unat (name_digit (name_value n) 12) < length (take 16 charmap)"
      using name_digit_bound(2) by (simp add: charmap_length)
    ultimately show ?thesis by (metis nth_mem)
  qed
  ultimately show ?thesis
    using name_to_string_set name_to_string_length by (simp add: normalised_def)
qed

lemma name_set_iff: "name_set s = Inr n \<longleftrightarrow> normalised s \<and> n = Name (string_to_uint64_t s)"
proof
  assume "name_set s = Inr n"
  then have "n = Name (string_to_uint64_t s)" "s = name_to_string n"
    by (auto simp: name_set_def assertE_def Let_def res_simps split: if_splits)
  then show "normalised s \<and> n = Name (string_to_uint64_t s)"
    using name_to_string_normalised [of n] by simp
next
  assume "normalised s \<and> n = Name (string_to_uint64_t s)"
  then show "name_set s = Inr n"
    using to_string_normalised by (simp add: name_set_def assertE_def Let_def res_simps normalised_def)
qed

lemma name_set_to_string: "name_set (name_to_string n) = Inr n"
  using name_round_trip [of "name_value n"] name_to_string_normalised [of n]
  by (simp add: name_set_iff)

section \<open>Properties\<close>

text \<open>
  C8: printing a name and reading it back gives the same 64-bit value, through
  \<open>string_to_name\<close> and through the checked constructor, for every value.
\<close>

theorem name_print_parse:
  "string_to_name (name_to_string n) = n \<and> name_set (name_to_string n) = Inr n"
  using name_set_to_string [of n] name_round_trip [of "name_value n"]
  by (simp add: string_to_name_def)

text \<open>
  C9: the checked constructor accepts exactly the normalised strings, prints back what it
  was given, and fails with the length or the normalisation assertion otherwise.
\<close>

theorem name_set_outcome:
  "name_set s =
     (if normalised s then Inr (string_to_name s)
      else if length s > 13 then Inl (Assert_failed ''Name is longer than 13 characters'')
      else Inl (Assert_failed ''Name not properly normalized '')) \<and>
   (normalised s \<longleftrightarrow> length s \<le> 13 \<and> name_to_string (string_to_name s) = s)"
proof -
  have *: "normalised s \<longleftrightarrow> length s \<le> 13 \<and> name_to_string (string_to_name s) = s"
    using to_string_normalised [of s] name_to_string_normalised [of "string_to_name s"]
    by (auto simp: string_to_name_def normalised_def)
  then show ?thesis
    by (auto simp: name_set_def string_to_name_def Let_def)
qed

end
