(* ===== verification/Sha256.thy ===== *)
theory Sha256
  imports SD_Prelude
begin

text \<open>
  \<open>fc::sha256\<close> (sha256.hpp, sha256.cpp): four 64-bit words, seen through \<open>data()\<close> as 32
  bytes (the words are little-endian), compared by \<open>memcmp\<close>. The digest itself is
  OpenSSL's and a parameter (\<open>digest\<close>) of the definitions that hash. The operations that
  treat a digest as a number or as text are in the theory Sha256_Ops.
\<close>

unbundle bit_operations_syntax

section \<open>The digest as data\<close>

datatype sha256 = Sha256 (hash0: u64) (hash1: u64) (hash2: u64) (hash3: u64)

definition word_bytes :: "u64 \<Rightarrow> u8 list" where
  "word_bytes w = map (\<lambda>i. ucast (drop_bit (8 * i) w)) [0, 1, 2, 3, 4, 5, 6, 7]"

fun sha256_data :: "sha256 \<Rightarrow> u8 list" where
  "sha256_data (Sha256 a b c d) = word_bytes a @ word_bytes b @ word_bytes c @ word_bytes d"

fun memcmp :: "u8 list \<Rightarrow> u8 list \<Rightarrow> int" where
  "memcmp (x # xs) (y # ys) = (if x < y then -1 else if y < x then 1 else memcmp xs ys)"
| "memcmp xs ys = 0"

lemma word_bytes_inj: "word_bytes v = word_bytes w \<Longrightarrow> v = w"
proof -
  assume e: "word_bytes v = word_bytes w"
  have b: "bit v n = bit w n" if "n < 64" for n
  proof -
    have "n div 8 \<in> set [0, 1, 2, 3, 4, 5, 6, 7]" using that by simp arith
    then have "(ucast (drop_bit (8 * (n div 8)) v) :: u8) = ucast (drop_bit (8 * (n div 8)) w)"
      using e unfolding word_bytes_def map_eq_conv by (rule bspec [rotated])
    then have "bit (ucast (drop_bit (8 * (n div 8)) v) :: u8) (n mod 8) =
        bit (ucast (drop_bit (8 * (n div 8)) w) :: u8) (n mod 8)" by simp
    then show ?thesis by (simp add: bit_unsigned_iff bit_drop_bit_eq)
  qed
  show "v = w" by (rule bit_word_eqI) (simp add: b)
qed

lemma word_bytes_length [simp]: "length (word_bytes w) = 8"
  by (simp add: word_bytes_def)

lemma sha256_data_length [simp]: "length (sha256_data h) = 32"
  by (cases h) simp

lemma sha256_data_inj: "sha256_data g = sha256_data h \<Longrightarrow> g = h"
  by (cases g; cases h) (auto dest: word_bytes_inj)

lemma memcmp_zero: "length xs = length ys \<Longrightarrow> memcmp xs ys = 0 \<longleftrightarrow> xs = ys"
  by (induction xs ys rule: memcmp.induct) auto

lemma memcmp_swap: "memcmp ys xs = - memcmp xs ys"
  by (induction xs ys rule: memcmp.induct) auto

lemma memcmp_trans:
  "length xs = length ys \<Longrightarrow> length ys = length zs \<Longrightarrow> memcmp xs ys \<le> 0 \<Longrightarrow> memcmp ys zs \<le> 0 \<Longrightarrow>
     memcmp xs zs \<le> 0"
proof (induction xs ys arbitrary: zs rule: memcmp.induct)
  case (1 x xs y ys)
  then obtain z zs' where "zs = z # zs'" by (cases zs) auto
  with 1 show ?case by (auto split: if_splits)
qed auto

instantiation sha256 :: linorder
begin

definition less_eq_sha256 :: "sha256 \<Rightarrow> sha256 \<Rightarrow> bool" where
  "less_eq_sha256 g h \<longleftrightarrow> memcmp (sha256_data g) (sha256_data h) \<le> 0"

definition less_sha256 :: "sha256 \<Rightarrow> sha256 \<Rightarrow> bool" where
  "less_sha256 g h \<longleftrightarrow> memcmp (sha256_data g) (sha256_data h) < 0"

instance
proof
  fix x y z :: sha256
  show "x < y \<longleftrightarrow> x \<le> y \<and> \<not> y \<le> x"
    using memcmp_swap [of "sha256_data y" "sha256_data x"] by (auto simp: less_eq_sha256_def less_sha256_def)
  show "x \<le> x" using memcmp_zero [of "sha256_data x" "sha256_data x"] by (simp add: less_eq_sha256_def)
  show "x \<le> y \<Longrightarrow> y \<le> z \<Longrightarrow> x \<le> z"
    using memcmp_trans [of "sha256_data x" "sha256_data y" "sha256_data z"] by (simp add: less_eq_sha256_def)
  show "x \<le> y \<Longrightarrow> y \<le> x \<Longrightarrow> x = y"
    using memcmp_swap [of "sha256_data y" "sha256_data x"] memcmp_zero [of "sha256_data x" "sha256_data y"]
    by (auto simp: less_eq_sha256_def intro: sha256_data_inj)
  show "x \<le> y \<or> y \<le> x"
    using memcmp_swap [of "sha256_data y" "sha256_data x"] by (auto simp: less_eq_sha256_def)
qed

end

definition sha256_zero :: sha256 where
  "sha256_zero = Sha256 0 0 0 0"

text \<open>The word-wise order of \<open>sha256_less\<close> (types.hpp), used by composite keys.\<close>

fun sha256_less :: "sha256 \<Rightarrow> sha256 \<Rightarrow> bool" where
  "sha256_less (Sha256 a b c d) (Sha256 a' b' c' d') \<longleftrightarrow>
     a < a' \<or> a = a' \<and> (b < b' \<or> b = b' \<and> (c < c' \<or> c = c' \<and> d < d'))"

fun sha256_xor :: "sha256 \<Rightarrow> sha256 \<Rightarrow> sha256" where
  "sha256_xor (Sha256 a b c d) (Sha256 a' b' c' d') =
     Sha256 (a XOR a') (b XOR b') (c XOR c') (d XOR d')"

section \<open>Hashing\<close>

text \<open>
  \<open>digest\<close> is the composition of \<open>SHA256_Init\<close>, \<open>SHA256_Update\<close> on the written bytes and
  \<open>SHA256_Final\<close>; an encoder is the bytes written to it since the last reset.
\<close>

type_synonym digest = "u8 list \<Rightarrow> sha256"

type_synonym encoder = "u8 list"

definition encoder_reset :: encoder where
  "encoder_reset = []"

definition encoder_write :: "encoder \<Rightarrow> u8 list \<Rightarrow> encoder" where
  "encoder_write e d = e @ d"

definition encoder_result :: "digest \<Rightarrow> encoder \<Rightarrow> sha256" where
  "encoder_result digest e = digest e"

definition sha256_hash :: "digest \<Rightarrow> u8 list \<Rightarrow> sha256" where
  "sha256_hash digest d = encoder_result digest (encoder_write encoder_reset d)"

definition sha256_hash_sha256 :: "digest \<Rightarrow> sha256 \<Rightarrow> sha256" where
  "sha256_hash_sha256 digest s = sha256_hash digest (sha256_data s)"

definition pack_sha256_pair :: "sha256 \<times> sha256 \<Rightarrow> u8 list" where
  "pack_sha256_pair p = sha256_data (fst p) @ sha256_data (snd p)"

definition sha256_hash_pair :: "digest \<Rightarrow> sha256 \<times> sha256 \<Rightarrow> sha256" where
  "sha256_hash_pair digest p = sha256_hash digest (pack_sha256_pair p)"

definition hash64 :: "digest \<Rightarrow> u8 list \<Rightarrow> u64" where
  "hash64 digest d = hash0 (sha256_hash digest d)"

lemma pack_sha256_pair_inj: "pack_sha256_pair p = pack_sha256_pair q \<Longrightarrow> p = q"
  by (cases p; cases q) (auto simp: pack_sha256_pair_def dest: sha256_data_inj)

end
