(* ===== verification/Contract_Tables.thy ===== *)
theory Contract_Tables
  imports Multi_Index Names Sha256
begin

text \<open>
  The objects of the contract tables (qos_contract_table.hpp, types.hpp) and the keys of
  their indices. Every object is a constructor of \<open>row\<close>; a container holds rows of one
  constructor. \<open>id_type\<close> is \<open>int64_t\<close> (an integer in its range) or \<open>sha256\<close>. Two rows clash
  when they agree on a key of one of the unique indices of their container:
  \<open>by_id\<close> and \<open>by_code_scope_table\<close> for tables, \<open>by_id\<close> and \<open>by_scope_primary\<close> for key-value
  objects, \<open>by_id\<close>, \<open>by_primary\<close> and \<open>by_secondary\<close> for secondary indices, \<open>by_key\<close> for
  hashed keys. The container of addressed cells is interpreted on these keys.
\<close>

section \<open>Objects\<close>

type_synonym blob = "u8 list"

datatype table_type =
    Reversible_block_object_type
  | Table_id_object_type
  | Key_value_object_type
  | Index64_object_type
  | Index128_object_type
  | Index256_object_type
  | Table_key_value_object_type

record table_id_object =
  tid_id :: int
  tid_code :: name
  tid_scope :: sha256
  tid_table :: name
  tid_payer :: name
  tid_count :: u32
  tid_value :: blob

record key_value_object =
  kv_id :: int
  kv_t_id :: int
  kv_primary_key :: u64
  kv_payer :: name
  kv_value :: blob

text \<open>\<open>uint64_t\<close>, \<open>uint128_t\<close> and \<open>key256_t\<close>, the types of secondary keys.\<close>

datatype secondary_key =
    Key64 u64
  | Key128 "128 word"
  | Key256 "128 word" "128 word"

record index_object =
  idx_id :: int
  idx_t_id :: int
  idx_primary_key :: u64
  idx_payer :: name
  idx_secondary_key :: secondary_key

record table_key_object =
  tk_id :: sha256
  tk_payer :: sha256
  tk_value :: blob

datatype row =
    Table_id_row table_id_object
  | Key_value_row key_value_object
  | Index_row table_type index_object
  | Table_key_row table_key_object

section \<open>Ids\<close>

datatype oid = Id_i64 int | Id_sha256 sha256

fun oid_le :: "oid \<Rightarrow> oid \<Rightarrow> bool" where
  "oid_le (Id_i64 a) (Id_i64 b) \<longleftrightarrow> a \<le> b"
| "oid_le (Id_i64 a) (Id_sha256 b) \<longleftrightarrow> True"
| "oid_le (Id_sha256 a) (Id_i64 b) \<longleftrightarrow> False"
| "oid_le (Id_sha256 a) (Id_sha256 b) \<longleftrightarrow> a \<le> b"

instantiation oid :: linorder
begin

definition less_eq_oid :: "oid \<Rightarrow> oid \<Rightarrow> bool" where
  "less_eq_oid = oid_le"

definition less_oid :: "oid \<Rightarrow> oid \<Rightarrow> bool" where
  "less_oid a b \<longleftrightarrow> oid_le a b \<and> \<not> oid_le b a"

instance
proof
  fix x y z :: oid
  show "x < y \<longleftrightarrow> x \<le> y \<and> \<not> y \<le> x" by (simp add: less_eq_oid_def less_oid_def)
  show "x \<le> x" by (cases x) (auto simp: less_eq_oid_def)
  show "x \<le> y \<Longrightarrow> y \<le> z \<Longrightarrow> x \<le> z" by (cases x; cases y; cases z) (auto simp: less_eq_oid_def)
  show "x \<le> y \<Longrightarrow> y \<le> x \<Longrightarrow> x = y" by (cases x; cases y) (auto simp: less_eq_oid_def)
  show "x \<le> y \<or> y \<le> x" by (cases x; cases y) (auto simp: less_eq_oid_def)
qed

end

fun row_id :: "row \<Rightarrow> oid" where
  "row_id (Table_id_row t) = Id_i64 (tid_id t)"
| "row_id (Key_value_row o1) = Id_i64 (kv_id o1)"
| "row_id (Index_row ty o1) = Id_i64 (idx_id o1)"
| "row_id (Table_key_row t) = Id_sha256 (tk_id t)"

fun row_type :: "row \<Rightarrow> table_type" where
  "row_type (Table_id_row t) = Table_id_object_type"
| "row_type (Key_value_row o1) = Key_value_object_type"
| "row_type (Index_row ty o1) = ty"
| "row_type (Table_key_row t) = Table_key_value_object_type"

section \<open>Keys of the unique indices\<close>

definition by_code_scope_table :: "table_id_object \<Rightarrow> name \<times> sha256 \<times> name" where
  "by_code_scope_table t = (tid_code t, tid_scope t, tid_table t)"

definition by_scope_primary :: "key_value_object \<Rightarrow> int \<times> u64" where
  "by_scope_primary o1 = (kv_t_id o1, kv_primary_key o1)"

definition by_primary :: "index_object \<Rightarrow> int \<times> u64" where
  "by_primary o1 = (idx_t_id o1, idx_primary_key o1)"

definition by_secondary :: "index_object \<Rightarrow> int \<times> secondary_key \<times> u64" where
  "by_secondary o1 = (idx_t_id o1, idx_secondary_key o1, idx_primary_key o1)"

fun row_keys_clash :: "row \<Rightarrow> row \<Rightarrow> bool" where
  "row_keys_clash (Table_id_row t) (Table_id_row u) \<longleftrightarrow> by_code_scope_table t = by_code_scope_table u"
| "row_keys_clash (Key_value_row a) (Key_value_row b) \<longleftrightarrow> by_scope_primary a = by_scope_primary b"
| "row_keys_clash (Index_row _ a) (Index_row _ b) \<longleftrightarrow> by_primary a = by_primary b \<or> by_secondary a = by_secondary b"
| "row_keys_clash _ _ \<longleftrightarrow> False"

definition row_clash :: "row \<Rightarrow> row \<Rightarrow> bool" where
  "row_clash v w \<longleftrightarrow> row_id v = row_id w \<or> row_keys_clash v w"

abbreviation cell_ops :: "(row lc, nat, oid, row) mi_ops" where
  "cell_ops \<equiv> lc_ops row_id row_clash"

abbreviation cell_inv :: "row lc \<Rightarrow> bool" where
  "cell_inv \<equiv> lc_inv row_clash"

lemma row_keys_clash_sym: "row_keys_clash v w \<Longrightarrow> row_keys_clash w v"
  by (cases v; cases w) auto

interpretation rows: unique_keys row_id row_clash
  by unfold_locales (auto simp: row_clash_def dest: row_keys_clash_sym)

lemma cell_multi_index: "multi_index cell_ops row_id row_clash cell_inv"
  by (rule rows.cells.multi_index_axioms)

end
