(* ===== verification/Index_Runs.thy ===== *)
theory Index_Runs
  imports Undo_Correct Contract_Tables
begin

text \<open>
  Sequences of operations on one \<open>generic_index\<close>: every public operation that changes the
  index is a constructor of \<open>gi_op\<close>, \<open>gi_exec\<close> runs one, \<open>gi_reachable\<close> is the set of
  states a program can bring an index into, and \<open>abs_step\<close> is what each operation does to
  the abstract version-controlled store. The program keeps two rules of the interface: a
  modifier does not change the id of an object, and \<open>squash\<close> is not called on a session
  that removed an object and created one with the same id again (\<open>squash_safe\<close>). What
  happens when the second rule is broken is shown at the end.
\<close>

section \<open>Operations\<close>

datatype ('p, 'v) gi_op =
    Emplace 'v
  | Modify 'p "'v \<Rightarrow> 'v"
  | Remove 'p
  | Start_undo
  | Undo
  | Squash
  | Commit int
  | Undo_all
  | Set_revision u64

fun gi_exec ::
  "('c, 'p, 'k, 'v) mi_ops \<Rightarrow> ('v \<Rightarrow> 'k::linorder) \<Rightarrow> ('p, 'v) gi_op \<Rightarrow> ('c, 'k, 'v) gindex
    \<Rightarrow> ('c, 'k, 'v) gindex res" where
  "gi_exec ops key (Emplace v) s = bindE (gi_emplace ops key v s) (\<lambda>r. Inr (fst r))"
| "gi_exec ops key (Modify p m) s = gi_modify ops key p m s"
| "gi_exec ops key (Remove p) s = gi_remove ops key p s"
| "gi_exec ops key Start_undo s = gi_start_undo s"
| "gi_exec ops key Undo s = gi_undo ops key s"
| "gi_exec ops key Squash s = gi_squash key s"
| "gi_exec ops key (Commit r) s = Inr (gi_commit r s)"
| "gi_exec ops key Undo_all s = gi_undo_all ops key s"
| "gi_exec ops key (Set_revision r) s = gi_set_revision r s"

definition gi_run ::
  "('c, 'p, 'k, 'v) mi_ops \<Rightarrow> ('v \<Rightarrow> 'k::linorder) \<Rightarrow> ('p, 'v) gi_op list \<Rightarrow> ('c, 'k, 'v) gindex
    \<Rightarrow> ('c, 'k, 'v) gindex res" where
  "gi_run ops key xs s = foldE (gi_exec ops key) xs s"

fun is_write :: "('p, 'v) gi_op \<Rightarrow> bool" where
  "is_write (Emplace v) = True"
| "is_write (Modify p m) = True"
| "is_write (Remove p) = True"
| "is_write _ = False"

fun op_keeps_id :: "('v \<Rightarrow> 'k) \<Rightarrow> ('p, 'v) gi_op \<Rightarrow> bool" where
  "op_keeps_id key (Modify p m) = (\<forall>v. key (m v) = key v)"
| "op_keeps_id key _ = True"

fun op_allowed :: "('v \<Rightarrow> 'k) \<Rightarrow> ('c, 'k, 'v) gindex \<Rightarrow> ('p, 'v) gi_op \<Rightarrow> bool" where
  "op_allowed key s Squash = squash_safe s"
| "op_allowed key s x = op_keeps_id key x"

inductive gi_reachable ::
  "('c, 'p, 'k, 'v) mi_ops \<Rightarrow> ('v \<Rightarrow> 'k::linorder) \<Rightarrow> ('c, 'k, 'v) gindex \<Rightarrow> bool"
  for ops key where
  reach_new: "gi_reachable ops key (gi_new ops n t)"
| reach_step: "gi_reachable ops key s \<Longrightarrow> op_allowed key s x \<Longrightarrow> gi_exec ops key x s = Inr s' \<Longrightarrow>
    gi_reachable ops key s'"

text \<open>
  The abstract step: the contents a write produces are a function of the current contents
  and of the object the address refers to.
\<close>

fun abs_write ::
  "('v \<Rightarrow> 'k) \<Rightarrow> ('p \<rightharpoonup> 'v) \<Rightarrow> ('p, 'v) gi_op \<Rightarrow> ('k \<rightharpoonup> 'v) \<Rightarrow> ('k \<rightharpoonup> 'v)" where
  "abs_write key at (Emplace v) C = C(key v \<mapsto> v)"
| "abs_write key at (Modify p m) C = (case at p of None \<Rightarrow> C | Some v \<Rightarrow> C(key v \<mapsto> m v))"
| "abs_write key at (Remove p) C = (case at p of None \<Rightarrow> C | Some v \<Rightarrow> C(key v := None))"
| "abs_write key at _ C = C"

fun abs_step ::
  "('v \<Rightarrow> 'k) \<Rightarrow> ('p \<rightharpoonup> 'v) \<Rightarrow> int \<Rightarrow> ('p, 'v) gi_op \<Rightarrow> ('k, 'v) vstore \<Rightarrow> ('k, 'v) vstore" where
  "abs_step key at r Start_undo h = vs_begin h"
| "abs_step key at r Undo h = vs_undo h"
| "abs_step key at r Squash h = vs_squash h"
| "abs_step key at r (Commit q) h = take (Suc (nat (r - q))) h"
| "abs_step key at r Undo_all h = [last h]"
| "abs_step key at r (Set_revision q) h = h"
| "abs_step key at r x h = vs_write (abs_write key at x (hd h)) h"

fun abs_revision :: "int \<Rightarrow> nat \<Rightarrow> ('p, 'v) gi_op \<Rightarrow> int" where
  "abs_revision r n Start_undo = r + 1"
| "abs_revision r n Undo = (if n = 0 then r else r - 1)"
| "abs_revision r n Squash = (if n = 0 then r else r - 1)"
| "abs_revision r n Undo_all = r - int n"
| "abs_revision r n (Set_revision q) = uint q"
| "abs_revision r n _ = r"

section \<open>One step\<close>

lemma history_current: "hd (gi_history ops s) = gi_contents ops s"
  unfolding gi_history_def by (cases "gi_stack s") simp_all

lemma history_empty: "gi_stack s = [] \<Longrightarrow> gi_history ops s = [gi_contents ops s]"
  by (simp add: gi_history_def)

lemma vs_single: "gi_stack s = [] \<Longrightarrow> vs_undo (gi_history ops s) = gi_history ops s"
  "gi_stack s = [] \<Longrightarrow> vs_squash (gi_history ops s) = gi_history ops s"
  by (simp_all add: history_empty)

definition step_correct ::
  "('c, 'p, 'k, 'v) mi_ops \<Rightarrow> ('v \<Rightarrow> 'k::linorder) \<Rightarrow> ('c \<Rightarrow> bool) \<Rightarrow> ('p, 'v) gi_op
    \<Rightarrow> ('c, 'k, 'v) gindex \<Rightarrow> ('c, 'k, 'v) gindex \<Rightarrow> bool" where
  "step_correct ops key cinv x s s' \<longleftrightarrow>
     gi_ok ops key cinv s' \<and>
     gi_history ops s' = abs_step key (mi_at ops (gi_indices s)) (gi_revision s) x (gi_history ops s) \<and>
     gi_revision s' = abs_revision (gi_revision s) (length (gi_stack s)) x"

context multi_index
begin

lemma write_correct:
  assumes ok: "gi_ok ops key cinv s" and "is_write x" "op_keeps_id key x" "gi_exec ops key x s = Inr s'"
  shows "step_correct ops key cinv x s s'" and "length (gi_stack s') = length (gi_stack s)"
proof -
  have "step_correct ops key cinv x s s' \<and> length (gi_stack s') = length (gi_stack s)"
  proof (cases x)
    case (Emplace v)
    then obtain p where e: "gi_emplace ops key v s = Inr (s', p)"
      using assms(4) by (auto simp: bindE_Inr_conv)
    show ?thesis using gi_emplace_ok [OF ok e] Emplace by (simp add: step_correct_def history_current)
  next
    case (Modify p m)
    then obtain v where v: "mi_at ops (gi_indices s) p = Some v"
      using assms(4) by (auto simp: gi_modify_def split: option.splits)
    have m: "gi_modify ops key p m s = Inr s'" "key (m v) = key v" using Modify assms(3,4) by simp_all
    show ?thesis using gi_modify_ok [OF ok m(1) v m(2)] Modify v by (simp add: step_correct_def history_current)
  next
    case (Remove p)
    then obtain v where v: "mi_at ops (gi_indices s) p = Some v"
      using assms(4) by (auto simp: gi_remove_def split: option.splits)
    show ?thesis
    proof (rule gi_remove_ok [OF ok v])
      fix t
      assume "gi_remove ops key p s = Inr t" "gi_ok ops key cinv t"
        "gi_history ops t = vs_write ((gi_contents ops s)(key v := None)) (gi_history ops s)"
        "gi_revision t = gi_revision s" "length (gi_stack t) = length (gi_stack s)"
      then show ?thesis using Remove v assms(4) by (simp add: step_correct_def history_current)
    qed
  qed (use assms(2) in simp_all)
  then show "step_correct ops key cinv x s s'" and "length (gi_stack s') = length (gi_stack s)" by simp_all
qed

lemma undo_correct:
  assumes "gi_ok ops key cinv s" "gi_undo ops key s = Inr s'"
  shows "step_correct ops key cinv Undo s s'"
proof (cases "gi_stack s")
  case Nil
  then show ?thesis using assms by (simp add: step_correct_def gi_undo_def vs_single)
next
  case (Cons u us)
  then show ?thesis using gi_undo_ok [OF assms(1) Cons assms(2)] by (simp add: step_correct_def)
qed

lemma squash_correct:
  assumes "gi_ok ops key cinv s" "squash_safe s" "gi_squash key s = Inr s'"
  shows "step_correct ops key cinv Squash s s'"
proof (cases "gi_stack s")
  case Nil
  then show ?thesis using assms by (simp add: step_correct_def gi_squash_def vs_single)
next
  case (Cons u us)
  then have "gi_enabled s" by (simp add: gi_enabled_def)
  then show ?thesis
    by (rule gi_squash_ok [OF assms(1,2)]) (use assms(3) Cons in \<open>simp add: step_correct_def\<close>)
qed

lemma set_revision_correct:
  assumes "gi_ok ops key cinv s" "gi_set_revision r s = Inr s'"
  shows "step_correct ops key cinv (Set_revision r) s s'"
  using assms by (auto simp: step_correct_def gi_set_revision_def gi_ok_def gi_contents_def gi_history_def
      split: if_splits)

lemma exec_correct:
  assumes ok: "gi_ok ops key cinv s" and al: "op_allowed key s x" and e: "gi_exec ops key x s = Inr s'"
  shows "step_correct ops key cinv x s s'"
proof (cases x)
  case Start_undo
  then show ?thesis using gi_start_undo_ok [OF ok] e by (simp add: step_correct_def)
next
  case Undo then show ?thesis using undo_correct [OF ok] e by simp
next
  case Squash then show ?thesis using squash_correct [OF ok] al e by simp
next
  case (Commit r)
  then show ?thesis using gi_commit_ok [OF ok, of r] e by (auto simp: step_correct_def)
next
  case Undo_all
  then have "gi_undo_all ops key s = Inr s'" using e by simp
  from gi_undo_all_ok [OF ok this] show ?thesis using Undo_all
    by (simp add: step_correct_def history_empty)
next
  case (Set_revision r)
  then show ?thesis using set_revision_correct [OF ok] e by simp
qed (use write_correct(1) [OF ok _ _ e] al in simp_all)

lemma new_ok: "gi_ok ops key cinv (gi_new ops n t)"
  using cinv_empty by (simp add: gi_ok_def gi_new_def)

lemma reachable_ok: "gi_reachable ops key s \<Longrightarrow> gi_ok ops key cinv s"
proof (induction rule: gi_reachable.induct)
  case (reach_step s x s')
  then show ?case using exec_correct [of s x s'] by (simp add: step_correct_def)
qed (rule new_ok)

lemma writes_history:
  assumes "gi_ok ops key cinv s" "list_all is_write xs" "list_all (op_keeps_id key) xs"
    "gi_run ops key xs s = Inr s'"
  shows "gi_ok ops key cinv s' \<and> tl (gi_history ops s') = tl (gi_history ops s) \<and>
    gi_revision s' = gi_revision s \<and> length (gi_stack s') = length (gi_stack s)"
  using assms
proof (induction xs arbitrary: s)
  case Nil
  then show ?case by (simp add: gi_run_def)
next
  case (Cons x xs)
  then obtain t where t: "gi_exec ops key x s = Inr t" "gi_run ops key xs t = Inr s'"
    by (auto simp: gi_run_def bindE_Inr_conv)
  have w: "is_write x" "op_keeps_id key x" using Cons.prems by simp_all
  note c = write_correct [OF Cons.prems(1) w t(1)]
  have "abs_revision (gi_revision s) n x = gi_revision s" for n using w(1) by (cases x) simp_all
  moreover have "tl (abs_step key a r x (gi_history ops s)) = tl (gi_history ops s)" for a r
    using w(1) unfolding gi_history_def by (cases x) simp_all
  ultimately have "gi_ok ops key cinv t" "tl (gi_history ops t) = tl (gi_history ops s)"
    "gi_revision t = gi_revision s" using c(1) by (auto simp: step_correct_def)
  then show ?case using Cons.IH [OF _ _ _ t(2)] Cons.prems c(2) by simp
qed

end

section \<open>Sample runs\<close>

text \<open>Concrete rows and runs on the container of addressed cells.\<close>

fun run_allowed ::
  "('c, 'p, 'k, 'v) mi_ops \<Rightarrow> ('v \<Rightarrow> 'k::linorder) \<Rightarrow> ('p, 'v) gi_op list \<Rightarrow> ('c, 'k, 'v) gindex \<Rightarrow> bool" where
  "run_allowed ops key [] s = True"
| "run_allowed ops key (x # xs) s =
     (op_allowed key s x \<and> (case gi_exec ops key x s of Inl e \<Rightarrow> True | Inr t \<Rightarrow> run_allowed ops key xs t))"

fun set_tk_value :: "blob \<Rightarrow> row \<Rightarrow> row" where
  "set_tk_value b (Table_key_row t) = Table_key_row (t\<lparr>tk_value := b\<rparr>)"
| "set_tk_value b r = r"

definition sample_row :: "u64 \<Rightarrow> blob \<Rightarrow> row" where
  "sample_row i b = Table_key_row \<lparr>tk_id = Sha256 i 0 0 0, tk_payer = sha256_zero, tk_value = b\<rparr>"

definition sample_index :: "(nat, row) gi_op list \<Rightarrow> (row lc, oid, row) gindex" where
  "sample_index xs =
     (case gi_run cell_ops row_id xs (gi_new cell_ops 8 8) of Inr s \<Rightarrow> s | Inl e \<Rightarrow> gi_new cell_ops 8 8)"

lemma reachable_run:
  "gi_reachable ops key s \<Longrightarrow> run_allowed ops key xs s \<Longrightarrow> gi_run ops key xs s = Inr s' \<Longrightarrow>
     gi_reachable ops key s'"
proof (induction xs arbitrary: s)
  case (Cons x xs)
  then obtain t where t: "gi_exec ops key x s = Inr t" "gi_run ops key xs t = Inr s'"
    by (auto simp: gi_run_def bindE_Inr_conv)
  have "op_allowed key s x" using Cons.prems(2) by simp
  from reach_step [OF Cons.prems(1) this t(1)] have "gi_reachable ops key t" .
  then show ?case using Cons.IH [OF _ _ t(2)] Cons.prems(2) t(1) by simp
qed (simp add: gi_run_def)

lemma sample_keeps_id: "row_id (set_tk_value b r) = row_id r"
  by (cases r) simp_all

lemma sample_reachable:
  "run_allowed cell_ops row_id xs (gi_new cell_ops 8 8) \<Longrightarrow> gi_reachable cell_ops row_id (sample_index xs)"
proof (cases "gi_run cell_ops row_id xs (gi_new cell_ops 8 8)")
  case (Inl e)
  then show "gi_reachable cell_ops row_id (sample_index xs)" by (simp add: sample_index_def reach_new)
next
  case (Inr s)
  moreover assume "run_allowed cell_ops row_id xs (gi_new cell_ops 8 8)"
  ultimately have "gi_reachable cell_ops row_id s" by (rule reachable_run [OF reach_new, rotated])
  with Inr show "gi_reachable cell_ops row_id (sample_index xs)" by (simp add: sample_index_def)
qed

definition session_writes :: "(nat, row) gi_op list" where
  "session_writes = [Modify 0 (set_tk_value [7]), Emplace (sample_row 2 []), Remove 0]"

definition sample_base :: "(nat, row) gi_op list" where
  "sample_base = [Emplace (sample_row 1 [1]), Start_undo, Emplace (sample_row 3 [3])]"

lemmas sample_defs = session_writes_def sample_base_def

lemma session_writes_ok:
  "list_all is_write session_writes" "list_all (op_keeps_id row_id) session_writes"
  by (simp_all add: session_writes_def sample_keeps_id)

lemma run_allowed_simple:
  "list_all (\<lambda>x. op_keeps_id key x \<and> x \<noteq> Squash) xs \<Longrightarrow> run_allowed ops key xs s"
proof (induction xs arbitrary: s)
  case (Cons y ys)
  then show ?case by (cases y) (simp_all split: sum.splits)
qed simp

lemma sample_simple_reachable:
  "list_all (\<lambda>x. op_keeps_id row_id x \<and> x \<noteq> Squash) xs \<Longrightarrow> gi_reachable cell_ops row_id (sample_index xs)"
  by (rule sample_reachable) (rule run_allowed_simple)

lemma sample_base_reachable: "gi_reachable cell_ops row_id (sample_index sample_base)"
  by (rule sample_simple_reachable) (simp add: sample_base_def)

lemma sample_session_reachable:
  "gi_reachable cell_ops row_id (sample_index (sample_base @ Start_undo # session_writes))"
  by (rule sample_simple_reachable) (simp add: sample_defs sample_keeps_id)

section \<open>Properties of an index\<close>

text \<open>
  C5: every state of a \<open>generic_index\<close> reachable through its operations satisfies the
  invariant: the undo states form a consistent stack over the current contents, each
  recorded id is in the right group, and the revisions count down from \<open>_revision\<close>.
\<close>

theorem index_invariant:
  assumes "multi_index ops key clash cinv" "gi_reachable ops key s"
  shows "gi_ok ops key cinv s"
  using multi_index.reachable_ok [OF assms] .

theorem index_invariant_witness:
  "gi_ok cell_ops row_id cell_inv (sample_index (sample_base @ Start_undo # session_writes))"
  by (rule index_invariant [OF cell_multi_index sample_session_reachable])

text \<open>
  C1: refinement. Each operation that succeeds on a reachable index does to the list of
  versions what the abstract version-controlled store does: a write changes the current
  version only, starting a session duplicates it, undo returns to the previous version,
  squash forgets the previous version, commit keeps the versions above the revision and
  undo-all returns to the oldest version; the revision number moves accordingly.
\<close>

theorem index_refines_vstore:
  assumes "multi_index ops key clash cinv" "gi_reachable ops key s"
    and "op_allowed key s x" "gi_exec ops key x s = Inr s'"
  shows "gi_history ops s' = abs_step key (mi_at ops (gi_indices s)) (gi_revision s) x (gi_history ops s)
    \<and> gi_revision s' = abs_revision (gi_revision s) (length (gi_stack s)) x"
  using multi_index.exec_correct [OF assms(1) multi_index.reachable_ok [OF assms(1,2)] assms(3,4)]
  by (simp add: step_correct_def)

theorem index_refines_vstore_witness:
  "gi_exec cell_ops row_id Undo (sample_index (sample_base @ Start_undo # session_writes)) =
     Inr (sample_index (sample_base @ Start_undo # session_writes @ [Undo])) \<and>
   gi_history cell_ops (sample_index (sample_base @ Start_undo # session_writes @ [Undo])) =
     vs_undo (gi_history cell_ops (sample_index (sample_base @ Start_undo # session_writes)))"
proof -
  have e: "gi_exec cell_ops row_id Undo (sample_index (sample_base @ Start_undo # session_writes)) =
     Inr (sample_index (sample_base @ Start_undo # session_writes @ [Undo]))" by code_simp
  then show ?thesis
    using index_refines_vstore [OF cell_multi_index sample_session_reachable _ e] by simp
qed

text \<open>
  C2: a session that is undone leaves no trace. If a session is started on a reachable
  index, any sequence of creations, modifications and removals runs in it, and the
  session is then undone, the contents, all the earlier versions and the revision are
  what they were.
\<close>

theorem session_undo_restores:
  assumes "multi_index ops key clash cinv" "gi_reachable ops key s"
    and "gi_start_undo s = Inr s1"
    and "list_all is_write xs" "list_all (op_keeps_id key) xs" "gi_run ops key xs s1 = Inr s2"
    and "gi_undo ops key s2 = Inr s3"
  shows "gi_contents ops s3 = gi_contents ops s \<and> gi_history ops s3 = gi_history ops s \<and>
    gi_revision s3 = gi_revision s"
proof -
  note ok = multi_index.reachable_ok [OF assms(1,2)]
  note st = multi_index.gi_start_undo_ok [OF assms(1) ok assms(3)]
  note wr = multi_index.writes_history [OF assms(1) st(1) assms(4,5,6)]
  have u: "step_correct ops key cinv Undo s2 s3"
    using multi_index.undo_correct [OF assms(1) _ assms(7)] wr by blast
  have h: "tl (gi_history ops s2) = gi_history ops s"
    using wr st(3) unfolding gi_history_def by (cases "gi_stack s") simp_all
  have "gi_stack s2 \<noteq> []" using wr assms(3) by (auto simp: gi_start_undo_def Let_def split: if_splits)
  then have "gi_history ops s3 = gi_history ops s" "gi_revision s3 = gi_revision s"
    using u h wr st(4) unfolding step_correct_def gi_history_def
    by (cases "gi_stack s2"; cases "tl (gi_stack s2)"; simp)+
  then show ?thesis using history_current [of ops s3] history_current [of ops s] by simp
qed

theorem session_undo_restores_witness:
  "gi_contents cell_ops (sample_index (sample_base @ Start_undo # session_writes @ [Undo])) =
     gi_contents cell_ops (sample_index sample_base) \<and>
   gi_contents cell_ops (sample_index (sample_base @ Start_undo # session_writes)) (Id_sha256 (Sha256 1 0 0 0)) = None \<and>
   gi_contents cell_ops (sample_index sample_base) (Id_sha256 (Sha256 1 0 0 0)) = Some (sample_row 1 [1])"
proof -
  have "gi_start_undo (sample_index sample_base) = Inr (sample_index (sample_base @ [Start_undo]))"
    by code_simp
  moreover have "gi_run cell_ops row_id session_writes (sample_index (sample_base @ [Start_undo])) =
      Inr (sample_index (sample_base @ Start_undo # session_writes))" by code_simp
  moreover have "gi_undo cell_ops row_id (sample_index (sample_base @ Start_undo # session_writes)) =
      Inr (sample_index (sample_base @ Start_undo # session_writes @ [Undo]))" by code_simp
  moreover have "gi_contents cell_ops (sample_index (sample_base @ Start_undo # session_writes))
      (Id_sha256 (Sha256 1 0 0 0)) = None" by code_simp
  moreover have "gi_contents cell_ops (sample_index sample_base) (Id_sha256 (Sha256 1 0 0 0)) =
      Some (sample_row 1 [1])" by code_simp
  ultimately show ?thesis
    using session_undo_restores [OF cell_multi_index sample_base_reachable _ session_writes_ok] by blast
qed

text \<open>
  C3: undo succeeds. On a reachable index with an active session, undo finds every object
  it has to restore and does not abort, provided no two objects with different ids, of the
  current version and the one to restore, clash on a unique key (the precondition that
  \<open>modify\<close> documents); the result is the previous version.
\<close>

theorem undo_succeeds:
  assumes "multi_index ops key clash cinv" "gi_reachable ops key s" "gi_enabled s"
    and "undo_compatible clash (gi_history ops s ! 1) (gi_contents ops s)"
  shows "\<exists>s'. gi_undo ops key s = Inr s' \<and> gi_contents ops s' = gi_history ops s ! 1 \<and>
    length (gi_stack s') = length (gi_stack s) - 1"
proof -
  obtain u us where st: "gi_stack s = u # us"
    using assms(3) by (cases "gi_stack s") (auto simp: gi_enabled_def)
  have h: "gi_history ops s ! 1 = us_restore u (gi_contents ops s)"
    using st by (cases us) (simp_all add: gi_history_def)
  note ok = multi_index.reachable_ok [OF assms(1,2)]
  obtain s' where s': "gi_undo ops key s = Inr s'"
    using multi_index.gi_undo_total [OF assms(1) ok st] assms(4) unfolding h by blast
  show ?thesis
    using multi_index.gi_undo_ok [OF assms(1) ok st s'] s' st unfolding h by simp
qed

lemma hashed_contents:
  assumes "k \<noteq> Id_sha256 (Sha256 1 0 0 0)"
  shows "gi_contents cell_ops (sample_index [Start_undo, Emplace (sample_row 1 [])]) k = None"
proof -
  have "gi_indices (sample_index [Start_undo, Emplace (sample_row 1 [])]) =
      \<lparr>lc_next = 1, lc_cells = [(0, sample_row 1 [])]\<rparr>" by code_simp
  then show ?thesis
    using assms by (simp add: gi_contents_def contents_def lc_ops_def lc_find_def sample_row_def)
qed

lemma hashed_history:
  "gi_history cell_ops (sample_index [Start_undo, Emplace (sample_row 1 [])]) ! 1 = Map.empty"
proof -
  let ?u = "\<lparr>old_values = [], removed_values = [], new_ids = [Id_sha256 (Sha256 1 0 0 0)], us_revision = 1\<rparr>"
  have "gi_stack (sample_index [Start_undo, Emplace (sample_row 1 [])]) = [?u]" by code_simp
  moreover have "us_restore ?u (gi_contents cell_ops (sample_index [Start_undo, Emplace (sample_row 1 [])])) k = None"
    for k using hashed_contents [of k]
    by (cases "k = Id_sha256 (Sha256 1 0 0 0)") (simp_all add: us_restore_def us_view_def)
  ultimately show ?thesis by (simp add: gi_history_def fun_eq_iff)
qed

theorem undo_succeeds_witness:
  "\<exists>s'. gi_undo cell_ops row_id (sample_index [Start_undo, Emplace (sample_row 1 [])]) = Inr s' \<and>
     gi_contents cell_ops s' = Map.empty"
proof -
  let ?s = "sample_index [Start_undo, Emplace (sample_row 1 [])]"
  have r: "gi_reachable cell_ops row_id ?s" by (rule sample_simple_reachable) simp
  have en: "gi_enabled ?s" by code_simp
  have "undo_compatible row_clash Map.empty (gi_contents cell_ops ?s)"
    unfolding undo_compatible_def using hashed_contents by (metis option.distinct(1))
  then show ?thesis
    using undo_succeeds [OF cell_multi_index r en] unfolding hashed_history by blast
qed

text \<open>
  C4: squash merges the newest session into the one before it. On every reachable index
  with a session, and provided the session is safe to squash (\<open>squash_safe\<close>: either it is the
  only one, or it did not remove an object and create another under the same id), squash
  does not fail (the asserts in \<open>squash\<close> hold), changes no object, forgets exactly the
  version between the two sessions, and an undo of the merged session returns to the
  version before both. Without that proviso the claim is false: \<open>squash_recreated_lost\<close>
  below is the counterexample.
\<close>

theorem squash_then_undo:
  assumes "multi_index ops key clash cinv" "gi_reachable ops key s" "gi_enabled s" "squash_safe s"
  shows "\<exists>s'. gi_squash key s = Inr s' \<and> gi_indices s' = gi_indices s \<and>
    gi_history ops s' = vs_squash (gi_history ops s) \<and> gi_revision s' = gi_revision s - 1 \<and>
    (\<forall>s''. gi_undo ops key s' = Inr s'' \<longrightarrow> gi_history ops s'' = vs_undo (vs_squash (gi_history ops s)))"
proof -
  note ok = multi_index.reachable_ok [OF assms(1,2)]
  show ?thesis
  proof (rule multi_index.gi_squash_ok [OF assms(1) ok assms(4,3)])
    fix t
    assume t: "gi_squash key s = Inr t" "gi_ok ops key cinv t" "gi_indices t = gi_indices s"
      "gi_history ops t = vs_squash (gi_history ops s)" "gi_revision t = gi_revision s - 1"
    then have "\<forall>s''. gi_undo ops key t = Inr s'' \<longrightarrow> gi_history ops s'' = vs_undo (vs_squash (gi_history ops s))"
      using multi_index.undo_correct [OF assms(1) t(2)] by (simp add: step_correct_def)
    with t show ?thesis by blast
  qed
qed

theorem squash_then_undo_witness:
  "gi_squash row_id (sample_index (sample_base @ Start_undo # session_writes)) =
     Inr (sample_index (sample_base @ Start_undo # session_writes @ [Squash])) \<and>
   gi_undo cell_ops row_id (sample_index (sample_base @ Start_undo # session_writes @ [Squash])) =
     Inr (sample_index (sample_base @ Start_undo # session_writes @ [Squash, Undo])) \<and>
   gi_history cell_ops (sample_index (sample_base @ Start_undo # session_writes @ [Squash, Undo])) =
     vs_undo (vs_squash (gi_history cell_ops (sample_index (sample_base @ Start_undo # session_writes))))"
proof -
  have "gi_enabled (sample_index (sample_base @ Start_undo # session_writes))" by code_simp
  moreover have "squash_safe (sample_index (sample_base @ Start_undo # session_writes))" by code_simp
  moreover have "gi_squash row_id (sample_index (sample_base @ Start_undo # session_writes)) =
     Inr (sample_index (sample_base @ Start_undo # session_writes @ [Squash]))" by code_simp
  moreover have "gi_undo cell_ops row_id (sample_index (sample_base @ Start_undo # session_writes @ [Squash])) =
     Inr (sample_index (sample_base @ Start_undo # session_writes @ [Squash, Undo]))" by code_simp
  ultimately show ?thesis
    using squash_then_undo [OF cell_multi_index sample_session_reachable] by auto
qed

text \<open>
  Commit discards undo information and nothing else. After \<open>commit(r)\<close> the objects
  and the revision are unchanged and the undo states that remain are exactly those of the
  revisions above \<open>r\<close>, in order; with \<open>r\<close> at or above the current revision none remains.
\<close>

theorem commit_keeps_newer:
  assumes "multi_index ops key clash cinv" "gi_reachable ops key s"
  shows "gi_indices (gi_commit r s) = gi_indices s \<and> gi_revision (gi_commit r s) = gi_revision s \<and>
    gi_stack (gi_commit r s) = filter (\<lambda>u. r < us_revision u) (gi_stack s) \<and>
    (gi_revision s \<le> r \<longrightarrow> \<not> gi_enabled (gi_commit r s))"
proof -
  note ok = multi_index.reachable_ok [OF assms]
  note c = multi_index.gi_commit_ok [OF assms(1) ok, of r]
  have "filter (\<lambda>u. r < us_revision u) us = take (nat (q - r)) us" if "revs_ok us q" for us :: "('c, 'd) undo_state list" and q
    using that
  proof (induction us arbitrary: q)
    case (Cons u us)
    then have IH: "filter (\<lambda>u. r < us_revision u) us = take (nat (q - 1 - r)) us" by simp
    have "us_revision u = q" using Cons.prems by simp
    then show ?case
    proof (cases "r < q")
      case True
      then have "nat (q - r) = Suc (nat (q - 1 - r))" by simp
      then show ?thesis using IH \<open>us_revision u = q\<close> True by simp
    qed (use IH in simp)
  qed simp
  then have "gi_stack (gi_commit r s) = filter (\<lambda>u. r < us_revision u) (gi_stack s)"
    using c(4) gi_okD(3) [OF ok] by simp
  moreover have "gi_revision s \<le> r \<longrightarrow> \<not> gi_enabled (gi_commit r s)"
    using c(4) by (simp add: gi_enabled_def)
  ultimately show ?thesis using c(2,5) by blast
qed

theorem commit_keeps_newer_witness:
  "gi_indices (gi_commit 1 (sample_index (sample_base @ Start_undo # session_writes))) =
     gi_indices (sample_index (sample_base @ Start_undo # session_writes)) \<and>
   length (gi_stack (gi_commit 1 (sample_index (sample_base @ Start_undo # session_writes)))) = 1"
proof -
  have "length (filter (\<lambda>u. 1 < us_revision u)
      (gi_stack (sample_index (sample_base @ Start_undo # session_writes)))) = 1" by code_simp
  then show ?thesis
    using commit_keeps_newer [OF cell_multi_index sample_session_reachable, of 1] by simp
qed

text \<open>
  C6: \<open>undo_all\<close> succeeds on every reachable index in which no two successive versions
  disagree on a unique key (\<open>undo_compatible\<close>, the condition under which a single undo
  succeeds, for each undo state on the stack). It then leaves an empty undo stack, the
  contents of the oldest version still known, and the revision that version had.
\<close>

theorem undo_all_oldest:
  assumes "multi_index ops key clash cinv" "gi_reachable ops key s"
    and "\<And>i. i < length (gi_stack s) \<Longrightarrow> undo_compatible clash (gi_history ops s ! Suc i) (gi_history ops s ! i)"
  shows "\<exists>s'. gi_undo_all ops key s = Inr s' \<and> gi_stack s' = [] \<and>
    gi_contents ops s' = last (gi_history ops s) \<and>
    gi_revision s' = fst (gi_undo_stack_revision_range s)"
proof -
  note ok = multi_index.reachable_ok [OF assms(1,2)]
  obtain s' where s': "gi_undo_all ops key s = Inr s'"
    using multi_index.gi_undo_all_total [OF assms(1) ok assms(3)] by blast
  note u = multi_index.gi_undo_all_ok [OF assms(1) ok s']
  have "fst (gi_undo_stack_revision_range s) = gi_revision s - int (length (gi_stack s))"
  proof (cases "gi_stack s = []")
    case False
    then have "us_revision (last (gi_stack s)) = gi_revision s - int (length (gi_stack s) - 1)"
      using multi_index.revs_ok_nth [OF assms(1) gi_okD(3) [OF ok], of "length (gi_stack s) - 1"]
      by (simp add: last_conv_nth)
    then show ?thesis using False by (simp add: gi_undo_stack_revision_range_def Suc_leI of_nat_diff)
  qed (simp add: gi_undo_stack_revision_range_def)
  then show ?thesis using u s' by simp
qed

theorem undo_all_oldest_witness:
  "\<exists>s'. gi_undo_all cell_ops row_id (sample_index [Start_undo, Emplace (sample_row 1 [])]) = Inr s' \<and>
     gi_stack s' = [] \<and> gi_contents cell_ops s' = Map.empty \<and> gi_revision s' = 0"
proof -
  let ?s = "sample_index [Start_undo, Emplace (sample_row 1 [])]"
  have r: "gi_reachable cell_ops row_id ?s" by (rule sample_simple_reachable) simp
  have l: "length (gi_stack ?s) = 1" and v: "fst (gi_undo_stack_revision_range ?s) = 0" by code_simp+
  have "gi_history cell_ops ?s ! 0 = gi_contents cell_ops ?s"
    by (cases "gi_stack ?s") (simp_all add: gi_history_def)
  moreover have "undo_compatible row_clash Map.empty (gi_contents cell_ops ?s)"
    unfolding undo_compatible_def using hashed_contents by (metis option.distinct(1))
  ultimately have c: "undo_compatible row_clash (gi_history cell_ops ?s ! Suc i) (gi_history cell_ops ?s ! i)"
    if "i < length (gi_stack ?s)" for i
    using that l hashed_history by simp
  have "length (gi_history cell_ops ?s) = 2" using l unfolding gi_history_def history_length by simp
  then have "last (gi_history cell_ops ?s) = Map.empty"
    using hashed_history last_conv_nth [of "gi_history cell_ops ?s"] by force
  then show ?thesis using undo_all_oldest [OF cell_multi_index r c] v by simp
qed

text \<open>
  C7: creating an object fails exactly when it clashes with an existing one on a unique
  key, and then with the uniqueness error; otherwise the object is stored under its id and
  every other object is untouched.
\<close>

theorem emplace_outcome:
  assumes "multi_index ops key clash cinv" "gi_reachable ops key s"
  shows "(\<exists>k w. gi_contents ops s k = Some w \<and> clash v w) \<and>
      gi_emplace ops key v s =
        Inl (Logic_error ''could not insert object, most likely a uniqueness constraint was violated'') \<or>
    \<not> (\<exists>k w. gi_contents ops s k = Some w \<and> clash v w) \<and>
      (\<exists>s' p. gi_emplace ops key v s = Inr (s', p) \<and> mi_at ops (gi_indices s') p = Some v \<and>
        gi_contents ops s' = (gi_contents ops s)(key v \<mapsto> v))"
proof -
  note ok = multi_index.reachable_ok [OF assms]
  show ?thesis
  proof (cases "gi_emplace ops key v s")
    case (Inl e)
    then have "e = Logic_error ''could not insert object, most likely a uniqueness constraint was violated''"
      by (auto simp: gi_emplace_def split: option.splits)
    then show ?thesis using multi_index.gi_emplace_fails [OF assms(1) ok, of v] Inl by auto
  next
    case (Inr r)
    then obtain s' p where e: "gi_emplace ops key v s = Inr (s', p)" by (cases r) auto
    then have "\<not> (\<exists>k w. gi_contents ops s k = Some w \<and> clash v w)"
      using multi_index.gi_emplace_fails [OF assms(1) ok, of v] by auto
    then show ?thesis using multi_index.gi_emplace_ok [OF assms(1) ok e] e by blast
  qed
qed

theorem emplace_outcome_witness:
  "gi_emplace cell_ops row_id (sample_row 1 []) (sample_index sample_base) =
     Inl (Logic_error ''could not insert object, most likely a uniqueness constraint was violated'')"
proof -
  have "gi_contents cell_ops (sample_index sample_base) (Id_sha256 (Sha256 1 0 0 0)) = Some (sample_row 1 [1])"
    by code_simp
  moreover have "row_clash (sample_row 1 []) (sample_row 1 [1])" by code_simp
  ultimately show ?thesis
    using emplace_outcome [OF cell_multi_index sample_base_reachable, of "sample_row 1 []"] by blast
qed

text \<open>
  Squashing a session that removed an object and created a new one under the same id
  loses the undo information. After such a session is squashed into an enclosing one, the
  undo of the enclosing session keeps the new object, while undoing the two sessions
  separately brings the original one back.
\<close>

theorem squash_recreated_lost:
  "gi_contents cell_ops (sample_index
      [Emplace (sample_row 1 [1]), Start_undo, Start_undo, Remove 0, Emplace (sample_row 1 [2]), Undo, Undo])
      (Id_sha256 (Sha256 1 0 0 0)) = Some (sample_row 1 [1]) \<and>
   gi_contents cell_ops (sample_index
      [Emplace (sample_row 1 [1]), Start_undo, Start_undo, Remove 0, Emplace (sample_row 1 [2]), Squash, Undo])
      (Id_sha256 (Sha256 1 0 0 0)) = Some (sample_row 1 [2])"
  by (rule conjI) code_simp+

end
