(* ===== verification/Exec_Monad.thy ===== *)
theory Exec_Monad
  imports SD_Prelude
begin

text \<open>
  Computations of the layers above a single index: a function from a state to a result
  and the state afterwards. The state is returned for an error as well, because a C++
  exception leaves the changes made before it in place. \<open>bindX\<close> sequences, \<open>eachX\<close> is a
  loop over a list that stops at the first error, and \<open>liftX\<close> runs a step of a part of
  the state (a lens: a getter and a setter). \<open>succeeds\<close> is the case without an error.
\<close>

type_synonym ('s, 'a) exec = "'s \<Rightarrow> 'a res \<times> 's"

definition returnX :: "'a \<Rightarrow> ('s, 'a) exec" where
  "returnX x s = (Inr x, s)"

definition throwX :: "db_error \<Rightarrow> ('s, 'a) exec" where
  "throwX e s = (Inl e, s)"

definition bindX :: "('s, 'a) exec \<Rightarrow> ('a \<Rightarrow> ('s, 'b) exec) \<Rightarrow> ('s, 'b) exec" where
  "bindX m f s = (case m s of (Inl e, t) \<Rightarrow> (Inl e, t) | (Inr x, t) \<Rightarrow> f x t)"

definition getX :: "('s, 's) exec" where
  "getX s = (Inr s, s)"

definition modifyX :: "('s \<Rightarrow> 's) \<Rightarrow> ('s, unit) exec" where
  "modifyX f s = (Inr (), f s)"

definition resX :: "'a res \<Rightarrow> ('s, 'a) exec" where
  "resX r s = (r, s)"

definition assertX :: "bool \<Rightarrow> string \<Rightarrow> ('s, unit) exec" where
  "assertX b msg = resX (assertE b msg)"

primrec eachX :: "('a \<Rightarrow> ('s, unit) exec) \<Rightarrow> 'a list \<Rightarrow> ('s, unit) exec" where
  "eachX f [] = returnX ()"
| "eachX f (x # xs) = bindX (f x) (\<lambda>_. eachX f xs)"

primrec mapX :: "('a \<Rightarrow> ('s, 'b) exec) \<Rightarrow> 'a list \<Rightarrow> ('s, 'b list) exec" where
  "mapX f [] = returnX []"
| "mapX f (x # xs) = bindX (f x) (\<lambda>y. bindX (mapX f xs) (\<lambda>ys. returnX (y # ys)))"

text \<open>Running a computation of a component inside the state that holds it.\<close>

definition liftX :: "('s \<Rightarrow> 't) \<Rightarrow> ('t \<Rightarrow> 's \<Rightarrow> 's) \<Rightarrow> ('t, 'a) exec \<Rightarrow> ('s, 'a) exec" where
  "liftX get put m s = (case m (get s) of (r, t) \<Rightarrow> (r, put t s))"

named_theorems exec_simps \<open>evaluation of computations\<close>

lemma returnX_run [simp, exec_simps]: "returnX x s = (Inr x, s)"
  by (simp add: returnX_def)

lemma throwX_run [simp, exec_simps]: "throwX e s = (Inl e, s)"
  by (simp add: throwX_def)

lemma getX_run [simp, exec_simps]: "getX s = (Inr s, s)"
  by (simp add: getX_def)

lemma modifyX_run [simp, exec_simps]: "modifyX f s = (Inr (), f s)"
  by (simp add: modifyX_def)

lemma resX_run [simp, exec_simps]: "resX r s = (r, s)"
  by (simp add: resX_def)

lemma assertX_run [simp, exec_simps]: "assertX b msg s = (assertE b msg, s)"
  by (simp add: assertX_def)

lemma bindX_Inr_conv [exec_simps]:
  "bindX m f s = (Inr y, u) \<longleftrightarrow> (\<exists>x t. m s = (Inr x, t) \<and> f x t = (Inr y, u))"
  by (auto simp: bindX_def split: prod.splits sum.splits)

lemma bindX_Inl_conv:
  "bindX m f s = (Inl e, u) \<longleftrightarrow> m s = (Inl e, u) \<or> (\<exists>x t. m s = (Inr x, t) \<and> f x t = (Inl e, u))"
  by (auto simp: bindX_def split: prod.splits sum.splits)

lemma bindX_run: "m s = (Inr x, t) \<Longrightarrow> bindX m f s = f x t"
  by (simp add: bindX_def)

lemma bindX_fail: "m s = (Inl e, t) \<Longrightarrow> bindX m f s = (Inl e, t)"
  by (simp add: bindX_def)

lemma bindX_return [simp]: "bindX (returnX x) f s = f x s"
  by (simp add: bindX_def)

lemma bindX_throw [simp]: "bindX (throwX e) f s = (Inl e, s)"
  by (simp add: bindX_def)

lemma bindX_get [simp]: "bindX getX f s = f s s"
  by (simp add: bindX_def)

lemma bindX_modify [simp]: "bindX (modifyX g) f s = f () (g s)"
  by (simp add: bindX_def)

lemma bindX_res [simp]: "bindX (resX (Inr x)) f s = f x s" "bindX (resX (Inl e)) f s = (Inl e, s)"
  by (simp_all add: bindX_def)

lemma bindX_assert [simp]:
  "bindX (assertX True msg) f s = f () s"
  "bindX (assertX False msg) f s = (Inl (Assert_failed msg), s)"
  by (simp_all add: bindX_def)

lemma bindX_assertI: "b \<Longrightarrow> bindX (assertX b msg) f s = f () s"
  by simp

lemma resX_Inr_conv [exec_simps]: "resX r s = (Inr x, t) \<longleftrightarrow> r = Inr x \<and> t = s"
  by auto

lemma liftX_conv [exec_simps]:
  "liftX get put m s = (r, u) \<longleftrightarrow> (\<exists>t. m (get s) = (r, t) \<and> u = put t s)"
  by (auto simp: liftX_def split: prod.splits)

lemma liftX_run: "m (get s) = (r, t) \<Longrightarrow> liftX get put m s = (r, put t s)"
  by (simp add: liftX_def)

lemma eachX_append: "eachX f (xs @ ys) s = bindX (eachX f xs) (\<lambda>_. eachX f ys) s"
  by (induction xs arbitrary: s) (auto simp: bindX_def split: prod.splits sum.splits)

text \<open>The invariant rule of a loop: \<open>P\<close> relates the items done to the state.\<close>

lemma eachX_invariant:
  assumes "eachX f xs s = (Inr u, t)" "P [] s"
    and step: "\<And>ys x zs s u t. xs = ys @ x # zs \<Longrightarrow> P ys s \<Longrightarrow> f x s = (Inr u, t) \<Longrightarrow> P (ys @ [x]) t"
  shows "P xs t"
proof -
  have "eachX f zs s' = (Inr u, t) \<Longrightarrow> xs = ys @ zs \<Longrightarrow> P ys s' \<Longrightarrow> P xs t" for ys zs s'
  proof (induction zs arbitrary: ys s')
    case (Cons z zs)
    then obtain v w where v: "f z s' = (Inr v, w)" "eachX f zs w = (Inr u, t)"
      by (auto simp: bindX_Inr_conv)
    have "P (ys @ [z]) w" using step [OF Cons.prems(2,3) v(1)] .
    then show ?case using Cons.IH [OF v(2), of "ys @ [z]"] Cons.prems(2) by simp
  qed simp
  then show ?thesis using assms(1,2) by blast
qed

lemma eachX_total:
  assumes "P [] s"
    and step: "\<And>ys x zs s. xs = ys @ x # zs \<Longrightarrow> P ys s \<Longrightarrow> \<exists>t. f x s = (Inr (), t) \<and> P (ys @ [x]) t"
  shows "\<exists>t. eachX f xs s = (Inr (), t) \<and> P xs t"
proof -
  have "xs = ys @ zs \<Longrightarrow> P ys s' \<Longrightarrow> \<exists>t. eachX f zs s' = (Inr (), t) \<and> P xs t" for ys zs s'
  proof (induction zs arbitrary: ys s')
    case (Cons z zs)
    then obtain w where w: "f z s' = (Inr (), w)" "P (ys @ [z]) w" using step by blast
    with Cons.IH [of "ys @ [z]" w] Cons.prems(1) show ?case by (simp add: bindX_run)
  qed simp
  then show ?thesis using assms(1) by (metis append_Nil)
qed

end
