(* ===== verification/Database.thy ===== *)
theory Database
  imports Exec_Monad Index_Runs "HOL-Library.Multiset"
begin

text \<open>
  \<open>chainbase::database\<close> (chainbase.hpp, chainbase.cpp): the registry of indices and the
  operations that act on all of them. The memory segment maps a type to the index object
  constructed in it under the name of the type; \<open>_index_list\<close> holds the indices in the
  order they were added, \<open>_index_map\<close> finds one by the number of its type. An abstract
  index is a pointer to the index object, here the type it is registered for. The
  environment holds what comes from outside: the container's operations, the demangled
  type names and the sizes that \<open>validate\<close> compares.
\<close>

section \<open>State\<close>

record ('c, 'p) env =
  env_ops :: "('c, 'p, oid, row) mi_ops"
  env_type_name :: "table_type \<Rightarrow> string"
  env_node_size :: "table_type \<Rightarrow> u32"
  env_this_size :: "table_type \<Rightarrow> u32"

type_synonym 'c row_index = "('c, oid, row) gindex"

datatype open_flags = Read_only | Read_write

record 'c database =
  db_segment :: "table_type \<rightharpoonup> 'c row_index"
  db_read_only :: bool
  db_index_list :: "table_type list"
  db_index_map :: "table_type option list"

fun type_id :: "table_type \<Rightarrow> nat" where
  "type_id Reversible_block_object_type = 0"
| "type_id Table_id_object_type = 1"
| "type_id Key_value_object_type = 2"
| "type_id Index64_object_type = 3"
| "type_id Index128_object_type = 4"
| "type_id Index256_object_type = 5"
| "type_id Table_key_value_object_type = 6"

definition database_open :: "open_flags \<Rightarrow> (table_type \<rightharpoonup> 'c row_index) \<Rightarrow> 'c database" where
  "database_open flags seg =
     \<lparr>db_segment = seg, db_read_only = (flags = Read_only), db_index_list = [], db_index_map = []\<rparr>"

definition database_close :: "'c database \<Rightarrow> 'c database" where
  "database_close db = db\<lparr>db_index_list := [], db_index_map := []\<rparr>"

text \<open>Calling an operation of the index object a pointer refers to.\<close>

definition index_call :: "table_type \<Rightarrow> ('c row_index \<Rightarrow> ('c row_index \<times> 'a) res) \<Rightarrow> ('c database, 'a) exec" where
  "index_call ty f db =
     (case db_segment db ty of
        None \<Rightarrow> (Inl Undefined_behaviour, db)
      | Some s \<Rightarrow>
          (case f s of
             Inl e \<Rightarrow> (Inl e, db)
           | Inr (s', x) \<Rightarrow> (Inr x, db\<lparr>db_segment := (db_segment db)(ty \<mapsto> s')\<rparr>)))"

definition index_do :: "table_type \<Rightarrow> ('c row_index \<Rightarrow> 'c row_index res) \<Rightarrow> ('c database, unit) exec" where
  "index_do ty f = index_call ty (\<lambda>s. bindE (f s) (\<lambda>s'. Inr (s', ())))"

definition each_index :: "('c row_index \<Rightarrow> 'c row_index res) \<Rightarrow> ('c database, unit) exec" where
  "each_index f = bindX getX (\<lambda>db. eachX (\<lambda>ty. index_do ty f) (db_index_list db))"

section \<open>Operations on all indices\<close>

definition database_undo :: "('c, 'p) env \<Rightarrow> ('c database, unit) exec" where
  "database_undo env = each_index (gi_undo (env_ops env) row_id)"

definition database_squash :: "('c database, unit) exec" where
  "database_squash = each_index (gi_squash row_id)"

definition database_commit :: "int \<Rightarrow> ('c database, unit) exec" where
  "database_commit r = each_index (\<lambda>s. Inr (gi_commit r s))"

definition database_undo_all :: "('c, 'p) env \<Rightarrow> ('c database, unit) exec" where
  "database_undo_all env = each_index (gi_undo_all (env_ops env) row_id)"

definition database_set_revision :: "u64 \<Rightarrow> ('c database, unit) exec" where
  "database_set_revision r = each_index (gi_set_revision r)"

definition database_revision :: "'c database \<Rightarrow> int res" where
  "database_revision db =
     (case db_index_list db of
        [] \<Rightarrow> Inr (-1)
      | ty # _ \<Rightarrow> bindE (someE (db_segment db ty) Undefined_behaviour) (\<lambda>s. Inr (gi_revision s)))"

section \<open>Sessions\<close>

record db_session =
  ds_index_sessions :: "(table_type \<times> gi_session) list"
  ds_revision :: int

definition ds_new :: "(table_type \<times> gi_session) list \<Rightarrow> db_session" where
  "ds_new subs =
     \<lparr>ds_index_sessions = subs,
      ds_revision = (case subs of [] \<Rightarrow> -1 | (_, g) # _ \<Rightarrow> gs_revision g)\<rparr>"

text \<open>
  \<open>index_impl::start_undo_session\<close> moves the session of the index into a \<open>session_impl\<close>.
\<close>

definition index_start_undo_session :: "bool \<Rightarrow> table_type \<Rightarrow> ('c database, table_type \<times> gi_session) exec" where
  "index_start_undo_session en ty =
     index_call ty (\<lambda>s. bindE (gi_start_undo_session en s) (\<lambda>r. Inr (fst r, (ty, fst (gs_move (snd r))))))"

definition database_start_undo_session :: "bool \<Rightarrow> ('c database, db_session) exec" where
  "database_start_undo_session en =
     (if en
      then bindX getX (\<lambda>db.
           bindX (mapX (index_start_undo_session en) (db_index_list db)) (\<lambda>subs.
           returnX (ds_new subs)))
      else returnX \<lparr>ds_index_sessions = [], ds_revision = -1\<rparr>)"

definition ds_push :: "db_session \<Rightarrow> ('c database, db_session) exec" where
  "ds_push ds = returnX (ds\<lparr>ds_index_sessions := []\<rparr>)"

definition ds_squash :: "db_session \<Rightarrow> ('c database, db_session) exec" where
  "ds_squash ds =
     bindX (eachX (\<lambda>i. index_do (fst i) (\<lambda>s. bindE (gs_squash row_id (snd i, s)) (\<lambda>r. Inr (snd r))))
              (ds_index_sessions ds)) (\<lambda>_.
     returnX (ds\<lparr>ds_index_sessions := []\<rparr>))"

definition ds_undo :: "('c, 'p) env \<Rightarrow> db_session \<Rightarrow> ('c database, db_session) exec" where
  "ds_undo env ds =
     bindX (eachX (\<lambda>i. index_do (fst i) (\<lambda>s. bindE (gs_undo (env_ops env) row_id (snd i, s)) (\<lambda>r. Inr (snd r))))
              (ds_index_sessions ds)) (\<lambda>_.
     returnX (ds\<lparr>ds_index_sessions := []\<rparr>))"

definition ds_destroy :: "('c, 'p) env \<Rightarrow> db_session \<Rightarrow> ('c database, unit) exec" where
  "ds_destroy env ds = bindX (ds_undo env ds) (\<lambda>_. returnX ())"

section \<open>Adding an index\<close>

lemma gi_start_undo_revision: "gi_start_undo s = Inr s' \<Longrightarrow> gi_revision s' = gi_revision s + 1"
  by (auto simp: gi_start_undo_def Let_def split: if_splits)

text \<open>The loop that gives a new index as many undo states as the other indices have.\<close>

function catch_up :: "int \<Rightarrow> 'c row_index \<Rightarrow> 'c row_index res" where
  "catch_up e s =
     (if gi_revision s < e
      then bindE (gi_start_undo_session True s) (\<lambda>r. catch_up e (fst r))
      else Inr s)"
  by pat_completeness auto
termination
  by (relation "measure (\<lambda>(e, s). nat (e - gi_revision s))")
    (auto simp: gi_start_undo_session_def bindE_Inr_conv dest!: gi_start_undo_revision)

declare catch_up.simps [simp del]

definition index_find_or_construct :: "('c, 'p) env \<Rightarrow> table_type \<Rightarrow> ('c database, bool) exec" where
  "index_find_or_construct env ty =
     bindX getX (\<lambda>db.
     case db_segment db ty of
       Some s \<Rightarrow> returnX False
     | None \<Rightarrow>
         if db_read_only db
         then throwX (Runtime_error (''unable to find index for '' @ env_type_name env ty @ '' in read only database''))
         else bindX (modifyX (\<lambda>db. db\<lparr>db_segment := (db_segment db)
                (ty \<mapsto> gi_new (env_ops env) (env_node_size env ty) (env_this_size env ty))\<rparr>)) (\<lambda>_.
              returnX True))"

definition inconsistent_stack_error :: "string \<Rightarrow> int \<times> int \<Rightarrow> int \<times> int \<Rightarrow> db_error" where
  "inconsistent_stack_error tn added expected =
     Logic_error (''existing index for '' @ tn @ '' has an undo stack (revision range ['' @
       std_to_string (fst added) @ '', '' @ std_to_string (snd added) @
       '']) that is inconsistent with other indices in the database (revision range ['' @
       std_to_string (fst expected) @ '', '' @ std_to_string (snd expected) @ '']); corrupted database?'')"

definition index_align :: "('c, 'p) env \<Rightarrow> table_type \<Rightarrow> bool \<Rightarrow> ('c database, unit) exec" where
  "index_align env ty first_time_adding =
     bindX getX (\<lambda>db.
     case db_index_list db of
       [] \<Rightarrow> returnX ()
     | front # _ \<Rightarrow>
         bindX (resX (someE (db_segment db front) Undefined_behaviour)) (\<lambda>f.
         bindX (resX (someE (db_segment db ty) Undefined_behaviour)) (\<lambda>s.
         let expected = gi_undo_stack_revision_range f; added = gi_undo_stack_revision_range s in
         if fst added \<noteq> fst expected \<or> snd added \<noteq> snd expected
         then if \<not> first_time_adding then throwX (inconsistent_stack_error (env_type_name env ty) added expected)
              else if db_read_only db
              then throwX (Logic_error (''new index for '' @ env_type_name env ty @
                     '' requires an undo stack that is consistent with other indices in the database; cannot fix in read-only mode''))
              else bindX (index_do ty (gi_set_revision (word_of_int (fst expected)))) (\<lambda>_.
                   index_do ty (catch_up (snd expected)))
         else returnX ())))"

definition index_register :: "table_type \<Rightarrow> 'c database \<Rightarrow> 'c database" where
  "index_register ty db =
     (let m = db_index_map db;
          m' = (if type_id ty \<ge> length m then m @ replicate (type_id ty + 1 - length m) None else m)
      in db\<lparr>db_index_map := m'[type_id ty := Some ty], db_index_list := db_index_list db @ [ty]\<rparr>)"

definition add_index :: "('c, 'p) env \<Rightarrow> table_type \<Rightarrow> ('c database, unit) exec" where
  "add_index env ty =
     bindX getX (\<lambda>db.
     if \<not> (length (db_index_map db) \<le> type_id ty \<or> db_index_map db ! type_id ty = None)
     then throwX (Logic_error (env_type_name env ty @ ''::type_id is already in use''))
     else bindX (index_find_or_construct env ty) (\<lambda>first_time_adding.
          bindX (index_call ty (\<lambda>s. bindE (gi_validate (env_node_size env ty) (env_this_size env ty) s) (\<lambda>_. Inr (s, ())))) (\<lambda>_.
          bindX (index_align env ty first_time_adding) (\<lambda>_.
          modifyX (index_register ty)))))"

section \<open>Objects\<close>

definition get_index :: "table_type \<Rightarrow> ('c database, 'c row_index) exec" where
  "get_index ty =
     bindX getX (\<lambda>db.
     bindX (assertX (length (db_index_map db) > type_id ty) ''_index_map.size() > type_id'') (\<lambda>_.
     bindX (assertX (db_index_map db ! type_id ty \<noteq> None) ''_index_map[type_id]'') (\<lambda>_.
     resX (someE (db_segment db ty) Undefined_behaviour))))"

definition database_find :: "table_type \<Rightarrow> ('c \<Rightarrow> 'p option) \<Rightarrow> ('c database, 'p option) exec" where
  "database_find ty look = bindX (get_index ty) (\<lambda>s. returnX (look (gi_indices s)))"

definition database_get :: "table_type \<Rightarrow> ('c \<Rightarrow> 'p option) \<Rightarrow> ('c database, 'p) exec" where
  "database_get ty look =
     bindX (database_find ty look) (\<lambda>r. resX (someE r Out_of_range))"

definition database_modify :: "('c, 'p) env \<Rightarrow> table_type \<Rightarrow> 'p \<Rightarrow> (row \<Rightarrow> row) \<Rightarrow> ('c database, unit) exec" where
  "database_modify env ty p m =
     bindX (get_index ty) (\<lambda>_. index_do ty (gi_modify (env_ops env) row_id p m))"

definition database_remove :: "('c, 'p) env \<Rightarrow> table_type \<Rightarrow> 'p \<Rightarrow> ('c database, unit) exec" where
  "database_remove env ty p =
     bindX (get_index ty) (\<lambda>_. index_do ty (gi_remove (env_ops env) row_id p))"

definition database_create :: "('c, 'p) env \<Rightarrow> table_type \<Rightarrow> row \<Rightarrow> ('c database, 'p) exec" where
  "database_create env ty v =
     bindX (get_index ty) (\<lambda>_. index_call ty (gi_emplace (env_ops env) row_id v))"

definition row_count_per_index :: "('c, 'p) env \<Rightarrow> 'c database \<Rightarrow> (u32 \<times> string) multiset res" where
  "row_count_per_index env db =
     foldE (\<lambda>ai ret.
        case ai of
          None \<Rightarrow> Inr ret
        | Some ty \<Rightarrow>
            bindE (someE (db_segment db ty) Undefined_behaviour) (\<lambda>s.
            Inr (add_mset (of_nat (mi_size (env_ops env) (gi_indices s)), env_type_name env ty) ret)))
       (db_index_map db) {#}"

end
