(* ===== verification/Database_Correct.thy ===== *)
theory Database_Correct
  imports Database
begin

text \<open>
  Correctness of \<open>chainbase::database\<close>. The invariant \<open>db_ok\<close>: the registered indices are
  distinct objects of the segment, each satisfies the invariant of an index, all have undo
  stacks of the same depth at the same revision, and the map from type numbers agrees
  with the list. The locale \<open>database_env\<close> is the interface to the container for rows;
  it is interpreted on the container of addressed cells.
\<close>

section \<open>The invariant\<close>

definition uniform :: "(table_type \<rightharpoonup> 'c row_index) \<Rightarrow> table_type list \<Rightarrow> int \<Rightarrow> nat \<Rightarrow> bool" where
  "uniform seg tys r n \<longleftrightarrow>
     (\<forall>ty \<in> set tys. case seg ty of None \<Rightarrow> False | Some s \<Rightarrow> gi_revision s = r \<and> length (gi_stack s) = n)"

definition map_ok :: "table_type list \<Rightarrow> table_type option list \<Rightarrow> bool" where
  "map_ok tys m \<longleftrightarrow> (\<forall>ty. (type_id ty < length m \<and> m ! type_id ty \<noteq> None) \<longleftrightarrow> ty \<in> set tys)"

definition db_ok :: "('c, 'p) env \<Rightarrow> ('c \<Rightarrow> bool) \<Rightarrow> 'c database \<Rightarrow> bool" where
  "db_ok env cinv db \<longleftrightarrow>
     distinct (db_index_list db) \<and> map_ok (db_index_list db) (db_index_map db) \<and>
     (\<exists>r n. uniform (db_segment db) (db_index_list db) r n) \<and>
     (\<forall>ty \<in> set (db_index_list db). case db_segment db ty of None \<Rightarrow> False | Some s \<Rightarrow> gi_ok (env_ops env) row_id cinv s)"

text \<open>The versions of the contents of an index of the database.\<close>

definition db_history :: "('c, 'p) env \<Rightarrow> 'c database \<Rightarrow> table_type \<Rightarrow> (oid, row) vstore" where
  "db_history env db ty =
     (case db_segment db ty of None \<Rightarrow> [] | Some s \<Rightarrow> gi_history (env_ops env) s)"

definition db_contents :: "('c, 'p) env \<Rightarrow> 'c database \<Rightarrow> table_type \<Rightarrow> (oid \<rightharpoonup> row)" where
  "db_contents env db ty =
     (case db_segment db ty of None \<Rightarrow> Map.empty | Some s \<Rightarrow> gi_contents (env_ops env) s)"

lemma type_id_inj [simp]: "type_id a = type_id b \<longleftrightarrow> a = b"
  by (cases a; cases b) simp_all

lemma uniform_Some:
  "uniform seg tys r n \<Longrightarrow> ty \<in> set tys \<Longrightarrow> \<exists>s. seg ty = Some s \<and> gi_revision s = r \<and> length (gi_stack s) = n"
  unfolding uniform_def by (cases "seg ty") fastforce+

lemma uniformI:
  "(\<And>ty. ty \<in> set tys \<Longrightarrow> \<exists>s. seg ty = Some s \<and> gi_revision s = r \<and> length (gi_stack s) = n) \<Longrightarrow> uniform seg tys r n"
  unfolding uniform_def by (auto split: option.splits) fastforce+

lemma db_okD:
  assumes "db_ok env cinv db"
  shows "distinct (db_index_list db)" "map_ok (db_index_list db) (db_index_map db)"
    "\<exists>r n. uniform (db_segment db) (db_index_list db) r n"
    "\<And>ty. ty \<in> set (db_index_list db) \<Longrightarrow> \<exists>s. db_segment db ty = Some s \<and> gi_ok (env_ops env) row_id cinv s"
proof -
  show "distinct (db_index_list db)" "map_ok (db_index_list db) (db_index_map db)"
    "\<exists>r n. uniform (db_segment db) (db_index_list db) r n"
    using assms by (simp_all add: db_ok_def)
  fix ty
  assume "ty \<in> set (db_index_list db)"
  then show "\<exists>s. db_segment db ty = Some s \<and> gi_ok (env_ops env) row_id cinv s"
    using assms unfolding db_ok_def by (cases "db_segment db ty") force+
qed

lemma db_okI:
  assumes "distinct (db_index_list db)" "map_ok (db_index_list db) (db_index_map db)"
    "\<And>ty. ty \<in> set (db_index_list db) \<Longrightarrow>
      \<exists>s. db_segment db ty = Some s \<and> gi_ok (env_ops env) row_id cinv s \<and> gi_revision s = r \<and> length (gi_stack s) = n"
  shows "db_ok env cinv db"
  unfolding db_ok_def
proof (intro conjI exI ballI)
  show "uniform (db_segment db) (db_index_list db) r n" using assms(3) by (intro uniformI) blast
  fix ty
  assume "ty \<in> set (db_index_list db)"
  then show "case db_segment db ty of None \<Rightarrow> False | Some s \<Rightarrow> gi_ok (env_ops env) row_id cinv s"
    using assms(3) by (auto dest!: assms(3))
qed (use assms in simp_all)

section \<open>One index and all indices\<close>

definition db_frame :: "'c database \<Rightarrow> 'c database \<Rightarrow> bool" where
  "db_frame db db' \<longleftrightarrow> db_index_list db' = db_index_list db \<and> db_index_map db' = db_index_map db \<and>
     db_read_only db' = db_read_only db"

lemma index_call_conv:
  "index_call ty f db = (Inr x, db') \<longleftrightarrow>
     (\<exists>s s'. db_segment db ty = Some s \<and> f s = Inr (s', x) \<and>
        db' = db\<lparr>db_segment := (db_segment db)(ty \<mapsto> s')\<rparr>)"
  by (auto simp: index_call_def split: option.splits sum.splits)

lemma index_call_error: "index_call ty f db = (Inl e, db') \<Longrightarrow> db' = db"
  by (auto simp: index_call_def split: option.splits sum.splits)

lemma index_do_conv:
  "index_do ty f db = (Inr x, db') \<longleftrightarrow>
     (\<exists>s s'. db_segment db ty = Some s \<and> f s = Inr s' \<and>
        db' = db\<lparr>db_segment := (db_segment db)(ty \<mapsto> s')\<rparr>)"
  by (auto simp: index_do_def index_call_conv bindE_Inr_conv)

lemma index_do_run:
  "db_segment db ty = Some s \<Longrightarrow> f s = Inr s' \<Longrightarrow>
     index_do ty f db = (Inr (), db\<lparr>db_segment := (db_segment db)(ty \<mapsto> s')\<rparr>)"
  by (simp add: index_do_conv)

text \<open>A loop over the indices applies the step to each of them and changes nothing else.\<close>

definition stepped ::
  "('a \<Rightarrow> table_type) \<Rightarrow> ('a \<Rightarrow> 'c row_index \<Rightarrow> 'c row_index res) \<Rightarrow> 'a list \<Rightarrow> 'c database \<Rightarrow> 'c database \<Rightarrow> bool" where
  "stepped t f xs db db' \<longleftrightarrow> db_frame db db' \<and>
     (\<forall>x \<in> set xs. \<exists>s s'. db_segment db (t x) = Some s \<and> f x s = Inr s' \<and> db_segment db' (t x) = Some s') \<and>
     (\<forall>ty. ty \<notin> t ` set xs \<longrightarrow> db_segment db' ty = db_segment db ty)"

lemma each_stepped:
  assumes "eachX (\<lambda>x. index_do (t x) (f x)) xs db = (Inr u, db')" "distinct (map t xs)"
  shows "stepped t f xs db db'"
proof (rule eachX_invariant [OF assms(1)])
  show "stepped t f [] db db" by (simp add: stepped_def db_frame_def)
next
  fix ys x zs a u b
  assume xs: "xs = ys @ x # zs" and P: "stepped t f ys db a" and e: "index_do (t x) (f x) a = (Inr u, b)"
  obtain s s' where s: "db_segment a (t x) = Some s" "f x s = Inr s'"
    "b = a\<lparr>db_segment := (db_segment a)(t x \<mapsto> s')\<rparr>" using e by (auto simp: index_do_conv)
  have new: "t x \<notin> t ` set ys" using assms(2) xs by auto
  then have "db_segment db (t x) = Some s" using P s(1) by (simp add: stepped_def)
  moreover have "t y \<noteq> t x" if "y \<in> set ys" for y using new that by (metis imageI)
  ultimately show "stepped t f (ys @ [x]) db b"
    using P s unfolding stepped_def by (auto simp: db_frame_def)
qed

lemma each_steps:
  fixes db :: "'c database"
  assumes "distinct (map t xs)" "\<And>x. x \<in> set xs \<Longrightarrow> \<exists>s s'. db_segment db (t x) = Some s \<and> f x s = Inr s'"
  shows "\<exists>db'. eachX (\<lambda>x. index_do (t x) (f x)) xs db = (Inr (), db')"
proof -
  have "\<exists>db'. eachX (\<lambda>x. index_do (t x) (f x)) xs db = (Inr (), db') \<and>
      (\<forall>ty. ty \<notin> t ` set xs \<longrightarrow> db_segment db' ty = db_segment db ty)"
  proof (rule eachX_total)
    fix ys x zs and a :: "'c database"
    assume xs: "xs = ys @ x # zs" and P: "\<forall>ty. ty \<notin> t ` set ys \<longrightarrow> db_segment a ty = db_segment db ty"
    then obtain s s' where "db_segment a (t x) = Some s" "f x s = Inr s'"
      using assms by force
    then show "\<exists>b. index_do (t x) (f x) a = (Inr (), b) \<and> (\<forall>ty. ty \<notin> t ` set (ys @ [x]) \<longrightarrow> db_segment b ty = db_segment db ty)"
      using P by (auto simp: index_do_conv)
  qed simp
  then show ?thesis by blast
qed

lemma each_index_stepped:
  assumes "each_index f db = (Inr u, db')" "distinct (db_index_list db)"
  shows "stepped (\<lambda>ty. ty) (\<lambda>_. f) (db_index_list db) db db'"
  using each_stepped [of "\<lambda>ty. ty" "\<lambda>_. f" "db_index_list db" db u db'] assms by (simp add: each_index_def)

lemma stepped_index:
  assumes "stepped (\<lambda>ty. ty) (\<lambda>_. f) (db_index_list db) db db'" "ty \<in> set (db_index_list db)"
    "db_segment db ty = Some s"
  obtains s' where "f s = Inr s'" "db_segment db' ty = Some s'"
  using assms by (auto simp: stepped_def)

text \<open>
  When the step keeps the invariant of each index and moves depth and revision of all
  indices in the same way, the invariant of the database is kept.
\<close>

lemma stepped_ok:
  assumes ok: "db_ok env cinv db" and st: "stepped (\<lambda>ty. ty) (\<lambda>_. f) (db_index_list db) db db'"
    and f: "\<And>ty s s'. ty \<in> set (db_index_list db) \<Longrightarrow> db_segment db ty = Some s \<Longrightarrow>
      gi_ok (env_ops env) row_id cinv s \<Longrightarrow> f s = Inr s' \<Longrightarrow>
      gi_ok (env_ops env) row_id cinv s' \<and> gi_revision s' = g (gi_revision s) (length (gi_stack s)) \<and>
      length (gi_stack s') = h (gi_revision s) (length (gi_stack s))"
  shows "db_ok env cinv db'"
proof -
  note d = db_okD [OF ok]
  obtain r n where u: "uniform (db_segment db) (db_index_list db) r n" using d(3) by blast
  have fr: "db_index_list db' = db_index_list db" "db_index_map db' = db_index_map db"
    using st by (auto simp: stepped_def db_frame_def)
  show ?thesis
  proof (rule db_okI [of _ _ _ "g r n" "h r n"])
    fix ty
    assume "ty \<in> set (db_index_list db')"
    then have ty: "ty \<in> set (db_index_list db)" by (simp add: fr)
    obtain s where s: "db_segment db ty = Some s" "gi_ok (env_ops env) row_id cinv s" using d(4) [OF ty] by blast
    obtain s' where s': "f s = Inr s'" "db_segment db' ty = Some s'" using stepped_index [OF st ty s(1)] .
    have "gi_revision s = r \<and> length (gi_stack s) = n" using uniform_Some [OF u ty] s(1) by auto
    then show "\<exists>s. db_segment db' ty = Some s \<and> gi_ok (env_ops env) row_id cinv s \<and>
        gi_revision s = g r n \<and> length (gi_stack s) = h r n"
      using f [OF ty s s'(1)] s'(2) by auto
  qed (use d fr in simp_all)
qed

section \<open>Steps of the whole database\<close>

fun abs_depth :: "int \<Rightarrow> nat \<Rightarrow> ('p, 'v) gi_op \<Rightarrow> nat" where
  "abs_depth r n Start_undo = Suc n"
| "abs_depth r n Undo = n - 1"
| "abs_depth r n Squash = n - 1"
| "abs_depth r n (Commit q) = min n (nat (r - q))"
| "abs_depth r n Undo_all = 0"
| "abs_depth r n _ = n"

lemma length_vs_write [simp]: "length (vs_write C h) = length h"
  by (cases h) simp_all

lemma length_abs_step: "length h = Suc n \<Longrightarrow> length (abs_step key a r x h) = Suc (abs_depth r n x)"
proof -
  assume n: "length h = Suc n"
  show ?thesis
  proof (cases x)
    case Start_undo then show ?thesis using n by (cases h) simp_all
  next
    case Undo then show ?thesis using n by (cases h rule: vs_undo.cases) simp_all
  next
    case Squash then show ?thesis using n by (cases h rule: vs_undo.cases) simp_all
  qed (use n in simp_all)
qed

lemma step_depth:
  assumes "step_correct ops key cinv x s s'"
  shows "length (gi_stack s') = abs_depth (gi_revision s) (length (gi_stack s)) x"
proof -
  have "length (gi_history ops s') =
      length (abs_step key (mi_at ops (gi_indices s)) (gi_revision s) x (gi_history ops s))"
    using assms unfolding step_correct_def by metis
  also have "\<dots> = Suc (abs_depth (gi_revision s) (length (gi_stack s)) x)"
    by (rule length_abs_step) (simp add: gi_history_def)
  finally show ?thesis by (simp add: gi_history_def)
qed

text \<open>Object operations of the database, as a list a program runs.\<close>

datatype 'p write_req =
    Create_obj table_type row
  | Modify_obj table_type 'p "row \<Rightarrow> row"
  | Remove_obj table_type 'p

fun write_type :: "'p write_req \<Rightarrow> table_type" where
  "write_type (Create_obj ty v) = ty"
| "write_type (Modify_obj ty p m) = ty"
| "write_type (Remove_obj ty p) = ty"

fun write_op :: "'p write_req \<Rightarrow> ('p, row) gi_op" where
  "write_op (Create_obj ty v) = Emplace v"
| "write_op (Modify_obj ty p m) = Modify p m"
| "write_op (Remove_obj ty p) = Remove p"

fun db_write :: "('c, 'p) env \<Rightarrow> 'p write_req \<Rightarrow> ('c database, unit) exec" where
  "db_write env (Create_obj ty v) = bindX (database_create env ty v) (\<lambda>_. returnX ())"
| "db_write env (Modify_obj ty p m) = database_modify env ty p m"
| "db_write env (Remove_obj ty p) = database_remove env ty p"

lemma get_index_conv:
  assumes "map_ok (db_index_list db) (db_index_map db)" "get_index ty db = (Inr s, db')"
  shows "ty \<in> set (db_index_list db)" "db_segment db ty = Some s" "db' = db"
  using assms by (auto simp: get_index_def exec_simps map_ok_def)

lemma db_write_step:
  assumes "map_ok (db_index_list db) (db_index_map db)" "db_write env w db = (Inr u, db')"
  shows "write_type w \<in> set (db_index_list db) \<and>
    (\<exists>s s'. db_segment db (write_type w) = Some s \<and> gi_exec (env_ops env) row_id (write_op w) s = Inr s' \<and>
      db' = db\<lparr>db_segment := (db_segment db)(write_type w \<mapsto> s')\<rparr>)"
proof (cases w)
  case (Create_obj ty v)
  then obtain p t x where "get_index ty db = (Inr x, t)" "index_call ty (gi_emplace (env_ops env) row_id v) t = (Inr p, db')"
    using assms(2) by (auto simp: database_create_def exec_simps)
  then show ?thesis using get_index_conv [OF assms(1)] Create_obj by (fastforce simp: index_call_conv)
next
  case (Modify_obj ty p m)
  then obtain t x where "get_index ty db = (Inr x, t)" "index_do ty (gi_modify (env_ops env) row_id p m) t = (Inr u, db')"
    using assms(2) by (auto simp: database_modify_def exec_simps)
  then show ?thesis using get_index_conv [OF assms(1)] Modify_obj by (fastforce simp: index_do_conv)
next
  case (Remove_obj ty p)
  then obtain t x where "get_index ty db = (Inr x, t)" "index_do ty (gi_remove (env_ops env) row_id p) t = (Inr u, db')"
    using assms(2) by (auto simp: database_remove_def exec_simps)
  then show ?thesis using get_index_conv [OF assms(1)] Remove_obj by (fastforce simp: index_do_conv)
qed

lemma is_write_op: "is_write (write_op w)"
  by (cases w) simp_all

locale database_env = multi_index "env_ops env" row_id row_clash cinv
  for env :: "('c, 'p) env" and cinv :: "'c \<Rightarrow> bool"
begin

text \<open>An operation run on every index.\<close>

lemma each_exec:
  assumes ok: "db_ok env cinv db" and e: "each_index (gi_exec (env_ops env) row_id x) db = (Inr u, db')"
    and al: "\<And>ty s. ty \<in> set (db_index_list db) \<Longrightarrow> db_segment db ty = Some s \<Longrightarrow> op_allowed row_id s x"
  shows "db_ok env cinv db'" and "db_frame db db'"
    and "ty \<in> set (db_index_list db) \<Longrightarrow> \<exists>s s'. db_segment db ty = Some s \<and> db_segment db' ty = Some s' \<and>
      gi_ok (env_ops env) row_id cinv s \<and> step_correct (env_ops env) row_id cinv x s s'"
    and "ty \<notin> set (db_index_list db) \<Longrightarrow> db_segment db' ty = db_segment db ty"
proof -
  note d = db_okD [OF ok]
  note st = each_index_stepped [OF e d(1)]
  show "db_frame db db'" "ty \<notin> set (db_index_list db) \<Longrightarrow> db_segment db' ty = db_segment db ty"
    using st by (simp_all add: stepped_def)
  have c: "step_correct (env_ops env) row_id cinv x s s'"
    if "ty \<in> set (db_index_list db)" "db_segment db ty = Some s" "gi_ok (env_ops env) row_id cinv s"
      "gi_exec (env_ops env) row_id x s = Inr s'" for ty s s'
    using exec_correct [OF that(3) al [OF that(1,2)] that(4)] .
  have c': "gi_ok (env_ops env) row_id cinv s' \<and> gi_revision s' = abs_revision (gi_revision s) (length (gi_stack s)) x \<and>
      length (gi_stack s') = abs_depth (gi_revision s) (length (gi_stack s)) x"
    if "ty \<in> set (db_index_list db)" "db_segment db ty = Some s" "gi_ok (env_ops env) row_id cinv s"
      "gi_exec (env_ops env) row_id x s = Inr s'" for ty s s'
    using c [OF that] step_depth [OF c [OF that]] unfolding step_correct_def by blast
  show "db_ok env cinv db'"
    by (rule stepped_ok [OF ok st, of "\<lambda>r n. abs_revision r n x" "\<lambda>r n. abs_depth r n x"]) (rule c')
  assume ty: "ty \<in> set (db_index_list db)"
  then obtain s where s: "db_segment db ty = Some s" "gi_ok (env_ops env) row_id cinv s" using d(4) by blast
  obtain s' where s': "gi_exec (env_ops env) row_id x s = Inr s'" "db_segment db' ty = Some s'"
    using stepped_index [OF st ty s(1)] .
  show "\<exists>s s'. db_segment db ty = Some s \<and> db_segment db' ty = Some s' \<and>
      gi_ok (env_ops env) row_id cinv s \<and> step_correct (env_ops env) row_id cinv x s s'"
    using s s'(2) c [OF ty s s'(1)] by blast
qed

text \<open>A write to one index.\<close>

lemma write_ok:
  assumes ok: "db_ok env cinv db" and e: "db_write env w db = (Inr u, db')"
    and id: "op_keeps_id row_id (write_op w)"
  shows "db_ok env cinv db'" "db_frame db db'" "tl (db_history env db' ty) = tl (db_history env db ty)"
    and "ty \<noteq> write_type w \<Longrightarrow> db_segment db' ty = db_segment db ty"
proof -
  note d = db_okD [OF ok]
  let ?t = "write_type w"
  obtain s s' where s: "?t \<in> set (db_index_list db)" "db_segment db ?t = Some s"
    "gi_exec (env_ops env) row_id (write_op w) s = Inr s'" "db' = db\<lparr>db_segment := (db_segment db)(?t \<mapsto> s')\<rparr>"
    using db_write_step [OF d(2) e] by blast
  have sok: "gi_ok (env_ops env) row_id cinv s" using d(4) [OF s(1)] s(2) by auto
  have "gi_run (env_ops env) row_id [write_op w] s = Inr s'" using s(3) by (simp add: gi_run_def)
  from writes_history [OF sok _ _ this] id is_write_op [of w]
  have w: "gi_ok (env_ops env) row_id cinv s'" "tl (gi_history (env_ops env) s') = tl (gi_history (env_ops env) s)"
    "gi_revision s' = gi_revision s" "length (gi_stack s') = length (gi_stack s)" by auto
  show "db_frame db db'" by (simp add: s(4) db_frame_def)
  show "tl (db_history env db' ty) = tl (db_history env db ty)"
    using w(2) s(2) by (cases "ty = ?t") (simp_all add: s(4) db_history_def)
  show "ty \<noteq> ?t \<Longrightarrow> db_segment db' ty = db_segment db ty" by (simp add: s(4))
  obtain r n where u: "uniform (db_segment db) (db_index_list db) r n" using d(3) by blast
  show "db_ok env cinv db'"
  proof (rule db_okI [of _ _ _ r n])
    fix ty
    assume "ty \<in> set (db_index_list db')"
    then have ty: "ty \<in> set (db_index_list db)" by (simp add: s(4))
    show "\<exists>s. db_segment db' ty = Some s \<and> gi_ok (env_ops env) row_id cinv s \<and> gi_revision s = r \<and> length (gi_stack s) = n"
    proof (cases "ty = ?t")
      case True
      then show ?thesis using uniform_Some [OF u s(1)] s(2) w by (auto simp: s(4))
    next
      case False
      then show ?thesis using uniform_Some [OF u ty] d(4) [OF ty] by (auto simp: s(4))
    qed
  qed (use d in \<open>simp_all add: s(4)\<close>)
qed

lemma writes_ok:
  assumes "db_ok env cinv db" "eachX (db_write env) ws db = (Inr u, db')"
    "list_all (\<lambda>w. op_keeps_id row_id (write_op w)) ws"
  shows "db_ok env cinv db' \<and> db_frame db db' \<and> (\<forall>ty. tl (db_history env db' ty) = tl (db_history env db ty))"
  using assms
proof (induction ws arbitrary: db)
  case (Cons w ws)
  then obtain a t where t: "db_write env w db = (Inr a, t)" "eachX (db_write env) ws t = (Inr u, db')"
    by (auto simp: exec_simps)
  note w = write_ok [OF Cons.prems(1) t(1)]
  show ?case using Cons.IH [OF _ t(2)] w Cons.prems(3) by (auto simp: db_frame_def)
qed (simp add: db_frame_def)

end

section \<open>Sessions of the database\<close>

definition subs_ok :: "(table_type \<times> gi_session) list \<Rightarrow> table_type list \<Rightarrow> bool" where
  "subs_ok subs tys \<longleftrightarrow> map fst subs = tys \<and> list_all (\<lambda>i. gs_apply (snd i) \<and> gs_revision (snd i) = 0) subs"

lemma start_sessions:
  assumes "mapX (index_start_undo_session True) tys db = (Inr subs, db')" "distinct tys"
    and "\<And>ty. ty \<in> set tys \<Longrightarrow> \<exists>s. db_segment db ty = Some s \<and> 0 \<le> gi_revision s"
  shows "eachX (\<lambda>ty. index_do ty gi_start_undo) tys db = (Inr (), db') \<and> subs_ok subs tys"
  using assms
proof (induction tys arbitrary: db subs)
  case Nil
  then show ?case by (simp add: subs_ok_def)
next
  case (Cons ty tys)
  obtain s where s: "db_segment db ty = Some s" "0 \<le> gi_revision s" using Cons.prems(3) [of ty] by auto
  obtain i rs t where t: "index_start_undo_session True ty db = (Inr i, t)"
    "mapX (index_start_undo_session True) tys t = (Inr rs, db')" "subs = i # rs"
    using Cons.prems(1) by (auto simp: exec_simps)
  then obtain s' where s': "gi_start_undo s = Inr s'" "t = db\<lparr>db_segment := (db_segment db)(ty \<mapsto> s')\<rparr>"
    "i = (ty, fst (gs_move (gs_new (gi_revision s'))))"
    using s(1) by (auto simp: index_start_undo_session_def index_call_conv bindE_Inr_conv gi_start_undo_session_def)
  have r: "gi_revision s' \<noteq> -1" using gi_start_undo_revision [OF s'(1)] s(2) by simp
  have "\<exists>x. db_segment t ty' = Some x \<and> 0 \<le> gi_revision x" if "ty' \<in> set tys" for ty'
    using Cons.prems(2,3) that s'(2) by auto
  then have IH: "eachX (\<lambda>ty. index_do ty gi_start_undo) tys t = (Inr (), db') \<and> subs_ok rs tys"
    using Cons.IH [OF t(2)] Cons.prems(2) by simp
  have "index_do ty gi_start_undo db = (Inr (), t)" using s(1) s'(1,2) by (simp add: index_do_conv)
  then show ?case using IH t(3) s'(3) r by (simp add: bindX_run subs_ok_def gs_move_def gs_new_def)
qed

lemma sub_apply:
  assumes "gs_apply g"
  shows "bindE (gs_undo ops key (g, s)) (\<lambda>r. Inr (snd r)) = gi_undo ops key s"
    and "bindE (gs_squash key (g, s)) (\<lambda>r. Inr (snd r)) = gi_squash key s"
  using assms by (simp_all add: gs_undo_def gs_squash_def bindE_def split: sum.splits)

lemma eachX_map: "eachX f (map g xs) = eachX (\<lambda>x. f (g x)) xs"
  by (induction xs) simp_all

lemma eachX_cong: "(\<And>x. x \<in> set xs \<Longrightarrow> f x = g x) \<Longrightarrow> eachX f xs = eachX g xs"
  by (induction xs) simp_all

lemma ds_undo_eq:
  assumes "subs_ok (ds_index_sessions ds) (db_index_list db)"
  shows "ds_undo env ds db = bindX (database_undo env) (\<lambda>_. returnX (ds\<lparr>ds_index_sessions := []\<rparr>)) db"
proof -
  let ?subs = "ds_index_sessions ds" and ?u = "gi_undo (env_ops env) row_id"
  have "eachX (\<lambda>i. index_do (fst i) (\<lambda>s. bindE (gs_undo (env_ops env) row_id (snd i, s)) (\<lambda>r. Inr (snd r)))) ?subs db =
      eachX (\<lambda>i. index_do (fst i) ?u) ?subs db"
    using assms by (intro eachX_cong [THEN fun_cong]) (auto simp: subs_ok_def list_all_iff sub_apply)
  also have "\<dots> = eachX (\<lambda>ty. index_do ty ?u) (db_index_list db) db"
    using assms eachX_map [of "\<lambda>ty. index_do ty ?u" fst ?subs] by (simp add: subs_ok_def)
  finally show ?thesis by (simp add: ds_undo_def database_undo_def each_index_def bindX_def)
qed

lemma ds_squash_eq:
  fixes db :: "'c database"
  assumes "subs_ok (ds_index_sessions ds) (db_index_list db)"
  shows "ds_squash ds db = bindX database_squash (\<lambda>_. returnX (ds\<lparr>ds_index_sessions := []\<rparr>)) db"
proof -
  let ?subs = "ds_index_sessions ds"
  have "eachX (\<lambda>i. index_do (fst i) (\<lambda>s. bindE (gs_squash row_id (snd i, s)) (\<lambda>r. Inr (snd r)))) ?subs db =
      eachX (\<lambda>i. index_do (fst i) (gi_squash row_id)) ?subs db"
    using assms by (intro eachX_cong [THEN fun_cong]) (auto simp: subs_ok_def list_all_iff sub_apply)
  also have "\<dots> = eachX (\<lambda>ty. index_do ty (gi_squash row_id)) (db_index_list db) db"
    using assms eachX_map [of "\<lambda>ty. index_do ty (gi_squash row_id :: 'c row_index \<Rightarrow> _)" fst ?subs] by (simp add: subs_ok_def)
  finally show ?thesis by (simp add: ds_squash_def database_squash_def each_index_def bindX_def)
qed

context database_env
begin

lemma start_ok:
  assumes ok: "db_ok env cinv db" and e: "database_start_undo_session True db = (Inr ds, db')"
  shows "db_ok env cinv db'" "db_frame db db'" "subs_ok (ds_index_sessions ds) (db_index_list db)"
    and "ds_revision ds = (if db_index_list db = [] then -1 else 0)"
    and "ty \<in> set (db_index_list db) \<Longrightarrow> db_history env db' ty = vs_begin (db_history env db ty)"
    and "ty \<notin> set (db_index_list db) \<Longrightarrow> db_segment db' ty = db_segment db ty"
proof -
  note d = db_okD [OF ok]
  obtain subs where m: "mapX (index_start_undo_session True) (db_index_list db) db = (Inr subs, db')" "ds = ds_new subs"
    using e by (auto simp: database_start_undo_session_def exec_simps)
  have "\<exists>s. db_segment db ty = Some s \<and> 0 \<le> gi_revision s" if ty: "ty \<in> set (db_index_list db)" for ty
    using d(4) [OF ty] gi_okD(4) by fastforce
  from start_sessions [OF m(1) d(1) this]
  have s: "eachX (\<lambda>ty. index_do ty gi_start_undo) (db_index_list db) db = (Inr (), db')" "subs_ok subs (db_index_list db)"
    by auto
  have fe: "gi_exec (env_ops env) row_id Start_undo = gi_start_undo" by (rule ext) simp
  have ee: "each_index (gi_exec (env_ops env) row_id Start_undo) db = (Inr (), db')"
    using s(1) unfolding each_index_def fe by simp
  note x = each_exec [OF ok ee]
  show "db_ok env cinv db'" "db_frame db db'" by (rule x; simp)+
  show "subs_ok (ds_index_sessions ds) (db_index_list db)" using s(2) m(2) by (simp add: ds_new_def)
  show "ds_revision ds = (if db_index_list db = [] then -1 else 0)"
    using s(2) m(2) by (cases subs) (auto simp: ds_new_def subs_ok_def)
  show "ty \<in> set (db_index_list db) \<Longrightarrow> db_history env db' ty = vs_begin (db_history env db ty)"
    using x(3) [of ty] by (auto simp: db_history_def step_correct_def)
  show "ty \<notin> set (db_index_list db) \<Longrightarrow> db_segment db' ty = db_segment db ty" using x(4) by simp
qed

lemma undo_ok:
  assumes ok: "db_ok env cinv db" and e: "database_undo env db = (Inr u, db')"
  shows "db_ok env cinv db'" "db_frame db db'"
    and "ty \<in> set (db_index_list db) \<Longrightarrow> db_history env db' ty = vs_undo (db_history env db ty)"
    and "ty \<notin> set (db_index_list db) \<Longrightarrow> db_segment db' ty = db_segment db ty"
proof -
  have fe: "gi_exec (env_ops env) row_id Undo = gi_undo (env_ops env) row_id" by (rule ext) simp
  have ee: "each_index (gi_exec (env_ops env) row_id Undo) db = (Inr u, db')"
    using e unfolding database_undo_def fe .
  note x = each_exec [OF ok ee]
  show "db_ok env cinv db'" "db_frame db db'" by (rule x; simp)+
  show "ty \<in> set (db_index_list db) \<Longrightarrow> db_history env db' ty = vs_undo (db_history env db ty)"
    using x(3) [of ty] by (auto simp: db_history_def step_correct_def)
  show "ty \<notin> set (db_index_list db) \<Longrightarrow> db_segment db' ty = db_segment db ty" using x(4) by simp
qed

lemma session_round_trip:
  assumes ok: "db_ok env cinv db" and st: "database_start_undo_session True db = (Inr ds, db1)"
    and w: "eachX (db_write env) ws db1 = (Inr u, db2)" "list_all (\<lambda>w. op_keeps_id row_id (write_op w)) ws"
    and un: "ds_undo env ds db2 = (Inr ds', db3)" and ty: "ty \<in> set (db_index_list db)"
  shows "db_history env db3 ty = db_history env db ty"
proof -
  note s = start_ok [OF ok st]
  note wr = writes_ok [OF s(1) w]
  have l: "db_index_list db2 = db_index_list db" using s(2) wr by (simp add: db_frame_def)
  then have "ds_undo env ds db2 = bindX (database_undo env) (\<lambda>_. returnX (ds\<lparr>ds_index_sessions := []\<rparr>)) db2"
    using s(3) by (intro ds_undo_eq) simp
  then have "bindX (database_undo env) (\<lambda>_. returnX (ds\<lparr>ds_index_sessions := []\<rparr>)) db2 = (Inr ds', db3)"
    using un by simp
  then obtain v where u: "database_undo env db2 = (Inr v, db3)" by (auto simp: exec_simps)
  have "db_history env db3 ty = vs_undo (db_history env db2 ty)"
    using undo_ok(3) [OF _ u] wr ty l by simp
  moreover have "tl (db_history env db2 ty) = tl (vs_begin (db_history env db ty))"
    using wr s(5) [OF ty] by simp
  moreover have ne: "db_history env db ty \<noteq> []"
    using db_okD(4) [OF ok ty] by (auto simp: db_history_def gi_history_def dest: arg_cong [of _ _ length])
  moreover have "db_history env db2 ty \<noteq> []"
    using db_okD(4) [of env cinv db2 ty] wr ty l by (auto simp: db_history_def gi_history_def dest: arg_cong [of _ _ length])
  ultimately show ?thesis
    by (cases "db_history env db ty"; cases "db_history env db2 ty"; simp)
qed

end

section \<open>Adding an index\<close>

lemma uint_u64: "0 \<le> b \<Longrightarrow> b \<le> int64_max \<Longrightarrow> uint (word_of_int b :: u64) = b"
  by (simp add: uint_word_of_int)

lemma catch_up_correct:
  "catch_up e s = Inr s' \<Longrightarrow> gi_revision s \<le> e \<Longrightarrow>
     gi_indices s' = gi_indices s \<and> gi_revision s' = e \<and>
     length (gi_stack s') = length (gi_stack s) + nat (e - gi_revision s)"
proof (induction "nat (e - gi_revision s)" arbitrary: s)
  case 0
  then have "catch_up e s = Inr s" by (subst catch_up.simps) simp
  then show ?case using 0 by simp
next
  case (Suc n)
  then have lt: "gi_revision s < e" by simp
  then obtain t where t: "gi_start_undo s = Inr t" "catch_up e t = Inr s'"
    using Suc.prems(1) by (subst (asm) catch_up.simps) (auto simp: gi_start_undo_session_def bindE_Inr_conv)
  have r: "gi_revision t = gi_revision s + 1" "gi_indices t = gi_indices s" "length (gi_stack t) = Suc (length (gi_stack s))"
    using t(1) by (auto simp: gi_start_undo_def Let_def split: if_splits)
  have "n = nat (e - gi_revision t)" using Suc.hyps(2) r(1) by simp
  from Suc.hyps(1) [OF this t(2)] show ?case using r lt by simp
qed

context database_env
begin

lemma catch_up_ok:
  "catch_up e s = Inr s' \<Longrightarrow> gi_ok (env_ops env) row_id cinv s \<Longrightarrow> gi_ok (env_ops env) row_id cinv s'"
proof (induction e s rule: catch_up.induct)
  case (1 e s)
  show ?case
  proof (cases "gi_revision s < e")
    case True
    then obtain t where t: "gi_start_undo s = Inr t" "catch_up e t = Inr s'"
      using "1.prems"(1) by (subst (asm) catch_up.simps) (auto simp: gi_start_undo_session_def bindE_Inr_conv)
    then have "gi_start_undo_session True s = Inr (t, gs_new (gi_revision t))"
      by (simp add: gi_start_undo_session_def)
    from "1.IH" [OF True this] show ?thesis
      using t gi_start_undo_ok(1) [OF "1.prems"(2) t(1)] by simp
  next
    case False
    then show ?thesis using "1.prems" by (subst (asm) (1) catch_up.simps) simp
  qed
qed

end

lemma map_ok_register:
  assumes "map_ok tys m"
  shows "map_ok (tys @ [ty]) ((if type_id ty \<ge> length m then m @ replicate (type_id ty + 1 - length m) None else m)
    [type_id ty := Some ty])"
    (is "map_ok _ (?m [_ := _])")
  unfolding map_ok_def
proof
  fix t
  have old: "(type_id t < length m \<and> m ! type_id t \<noteq> None) \<longleftrightarrow> t \<in> set tys"
    using assms by (simp add: map_ok_def)
  have len: "type_id ty < length ?m" by simp
  show "(type_id t < length (?m [type_id ty := Some ty]) \<and> ?m [type_id ty := Some ty] ! type_id t \<noteq> None) \<longleftrightarrow>
      t \<in> set (tys @ [ty])"
  proof (cases "t = ty")
    case True
    then show ?thesis using len by simp
  next
    case False
    then have "?m [type_id ty := Some ty] ! type_id t = ?m ! type_id t" by simp
    moreover have "(type_id t < length ?m \<and> ?m ! type_id t \<noteq> None) \<longleftrightarrow> type_id t < length m \<and> m ! type_id t \<noteq> None"
      by (auto simp: nth_append split: if_splits)
    ultimately show ?thesis using old False by simp
  qed
qed

context database_env
begin

lemma revision_range:
  assumes "gi_ok (env_ops env) row_id cinv s"
  shows "gi_undo_stack_revision_range s = (gi_revision s - int (length (gi_stack s)), gi_revision s)"
proof (cases "gi_stack s = []")
  case False
  note n = revs_ok_nth [OF gi_okD(3) [OF assms]]
  have "us_revision (last (gi_stack s)) = gi_revision s - int (length (gi_stack s) - 1)"
    using False n [of "length (gi_stack s) - 1"] by (simp add: last_conv_nth)
  moreover have "us_revision (hd (gi_stack s)) = gi_revision s"
    using False n [of 0] by (simp add: hd_conv_nth)
  ultimately show ?thesis using False
    by (simp add: gi_undo_stack_revision_range_def Suc_leI of_nat_diff)
qed (simp add: gi_undo_stack_revision_range_def)

text \<open>The index that is registered has the depth and revision of the first one.\<close>

lemma index_align_ok:
  assumes e: "index_align env ty first db = (Inr u, db')"
    and f: "db_index_list db = front # rest" "db_segment db front = Some f" "gi_ok (env_ops env) row_id cinv f"
    and s: "db_segment db ty = Some s" "gi_ok (env_ops env) row_id cinv s"
    and new: "first \<Longrightarrow> gi_stack s = []"
  shows "\<exists>s'. db' = db\<lparr>db_segment := (db_segment db)(ty \<mapsto> s')\<rparr> \<and> gi_ok (env_ops env) row_id cinv s' \<and>
    gi_indices s' = gi_indices s \<and> gi_revision s' = gi_revision f \<and> length (gi_stack s') = length (gi_stack f)"
proof -
  note rf = revision_range [OF f(3)] and rs = revision_range [OF s(2)]
  let ?b = "gi_revision f - int (length (gi_stack f))"
  show ?thesis
  proof (cases "gi_undo_stack_revision_range s = gi_undo_stack_revision_range f")
    case True
    then have "db' = db" using e f s by (simp add: index_align_def)
    moreover have "(db_segment db)(ty \<mapsto> s) = db_segment db" using s(1) by (rule fun_upd_idem)
    ultimately show ?thesis using True rf rs s by (intro exI [of _ s]) auto
  next
    case False
    then have d: "fst (gi_undo_stack_revision_range s) \<noteq> ?b \<or> snd (gi_undo_stack_revision_range s) \<noteq> gi_revision f"
      using rf by (auto simp: prod_eq_iff)
    have fst: "first" "\<not> db_read_only db"
      using e f s d rf by (auto simp: index_align_def Let_def split: if_splits)
    have "0 \<le> ?b" "?b \<le> int64_max" using gi_okD(4,5) [OF f(3)] by simp_all
    then have b: "uint (word_of_int ?b :: u64) = ?b" by (rule uint_u64)
    obtain t x where t: "index_do ty (gi_set_revision (word_of_int ?b)) db = (Inr x, t)"
      "index_do ty (catch_up (gi_revision f)) t = (Inr u, db')"
      using e f s d rf fst by (auto simp: index_align_def Let_def exec_simps split: if_splits)
    then obtain s1 where s1: "gi_set_revision (word_of_int ?b) s = Inr s1"
      "t = db\<lparr>db_segment := (db_segment db)(ty \<mapsto> s1)\<rparr>" using s(1) by (auto simp: index_do_conv)
    then obtain s' where s': "catch_up (gi_revision f) s1 = Inr s'"
      "db' = db\<lparr>db_segment := (db_segment db)(ty \<mapsto> s')\<rparr>" using t(2) by (auto simp: index_do_conv)
    have "step_correct (env_ops env) row_id cinv (Set_revision (word_of_int ?b)) s s1"
      by (rule set_revision_correct [OF s(2) s1(1)])
    then have ok1: "gi_ok (env_ops env) row_id cinv s1" "gi_revision s1 = ?b" using b by (simp_all add: step_correct_def)
    have i1: "gi_indices s1 = gi_indices s" "gi_stack s1 = []"
      using s1(1) new [OF fst(1)] by (auto simp: gi_set_revision_def split: if_splits)
    have "gi_revision s1 \<le> gi_revision f" using ok1(2) by simp
    note c = catch_up_correct [OF s'(1) this] and co = catch_up_ok [OF s'(1) ok1(1)]
    show ?thesis using c co s'(2) i1 ok1(2) by (intro exI [of _ s']) simp
  qed
qed

end

context database_env
begin

lemma add_index_ok:
  assumes ok: "db_ok env cinv db" and e: "add_index env ty db = (Inr u, db')"
    and old: "\<And>s. db_segment db ty = Some s \<Longrightarrow> gi_ok (env_ops env) row_id cinv s"
  shows "db_ok env cinv db'" "db_index_list db' = db_index_list db @ [ty]"
    and "db_contents env db' = db_contents env db"
    and "ty' \<noteq> ty \<Longrightarrow> db_segment db' ty' = db_segment db ty'"
proof -
  note d = db_okD [OF ok]
  have free: "length (db_index_map db) \<le> type_id ty \<or> db_index_map db ! type_id ty = None"
    using e by (auto simp: add_index_def split: if_splits)
  moreover have "(type_id ty < length (db_index_map db) \<and> db_index_map db ! type_id ty \<noteq> None) \<longleftrightarrow> ty \<in> set (db_index_list db)"
    using d(2) unfolding map_ok_def by blast
  ultimately have new: "ty \<notin> set (db_index_list db)" by auto
  obtain first a b c where st: "index_find_or_construct env ty db = (Inr first, a)"
    "index_call ty (\<lambda>s. bindE (gi_validate (env_node_size env ty) (env_this_size env ty) s) (\<lambda>_. Inr (s, ()))) a = (Inr (), b)"
    "index_align env ty first b = (Inr (), c)" "db' = index_register ty c"
    using e free by (auto simp: add_index_def exec_simps split: if_splits)
  define s where "s = (case db_segment db ty of Some s \<Rightarrow> s
    | None \<Rightarrow> gi_new (env_ops env) (env_node_size env ty) (env_this_size env ty))"
  have a: "a = db\<lparr>db_segment := (db_segment db)(ty \<mapsto> s)\<rparr>" "first \<Longrightarrow> gi_stack s = []"
  proof -
    show "a = db\<lparr>db_segment := (db_segment db)(ty \<mapsto> s)\<rparr>"
      using st(1) by (auto simp: index_find_or_construct_def s_def fun_upd_idem exec_simps split: option.splits if_splits)
    show "first \<Longrightarrow> gi_stack s = []"
      using st(1) by (auto simp: index_find_or_construct_def s_def gi_new_def exec_simps split: option.splits if_splits)
  qed
  have b: "b = a" using st(2) a(1) by (auto simp: index_call_conv bindE_Inr_conv)
  have sok: "gi_ok (env_ops env) row_id cinv s" using old new_ok by (simp add: s_def split: option.splits)
  have scont: "gi_contents (env_ops env) s = db_contents env db ty"
    using contents_empty by (simp add: s_def db_contents_def gi_contents_def gi_new_def split: option.splits)
  have "\<exists>s'. c = db\<lparr>db_segment := (db_segment db)(ty \<mapsto> s')\<rparr> \<and> gi_ok (env_ops env) row_id cinv s' \<and>
      gi_indices s' = gi_indices s \<and>
      (\<forall>t \<in> set (db_index_list db). \<exists>f. db_segment db t = Some f \<and> gi_revision s' = gi_revision f \<and> length (gi_stack s') = length (gi_stack f))"
  proof (cases "db_index_list db")
    case Nil
    then have "c = a" using st(3) a(1) b by (simp add: index_align_def)
    then show ?thesis using a(1) sok Nil by auto
  next
    case (Cons front rest)
    then have front: "front \<in> set (db_index_list db)" by simp
    obtain f where f: "db_segment db front = Some f" "gi_ok (env_ops env) row_id cinv f" using d(4) [OF front] by blast
    obtain r n where u: "uniform (db_segment db) (db_index_list db) r n" using d(3) by blast
    have "front \<noteq> ty" using front new by blast
    then obtain s' where s': "c = b\<lparr>db_segment := (db_segment b)(ty \<mapsto> s')\<rparr>" "gi_ok (env_ops env) row_id cinv s'"
      "gi_indices s' = gi_indices s" "gi_revision s' = gi_revision f" "length (gi_stack s') = length (gi_stack f)"
      using index_align_ok [OF st(3), of front rest f s] Cons f sok a b by auto
    have "gi_revision f = r" "length (gi_stack f) = n" using uniform_Some [OF u front] f(1) by auto
    then have "\<exists>f. db_segment db t = Some f \<and> gi_revision s' = gi_revision f \<and> length (gi_stack s') = length (gi_stack f)"
      if "t \<in> set (db_index_list db)" for t using uniform_Some [OF u that] s'(4,5) by auto
    then show ?thesis using s' a(1) b by (intro exI [of _ s']) simp
  qed
  then obtain s' where s': "c = db\<lparr>db_segment := (db_segment db)(ty \<mapsto> s')\<rparr>" "gi_ok (env_ops env) row_id cinv s'"
    "gi_indices s' = gi_indices s"
    "\<And>t. t \<in> set (db_index_list db) \<Longrightarrow> \<exists>f. db_segment db t = Some f \<and> gi_revision s' = gi_revision f \<and> length (gi_stack s') = length (gi_stack f)"
    by blast
  show l: "db_index_list db' = db_index_list db @ [ty]" by (simp add: st(4) s'(1) index_register_def Let_def)
  have seg: "db_segment db' = (db_segment db)(ty \<mapsto> s')" by (simp add: st(4) s'(1) index_register_def Let_def)
  show "ty' \<noteq> ty \<Longrightarrow> db_segment db' ty' = db_segment db ty'" by (simp add: seg)
  show "db_contents env db' = db_contents env db"
    using scont s'(3) by (auto simp: db_contents_def seg gi_contents_def fun_eq_iff)
  show "db_ok env cinv db'"
  proof (rule db_okI [of _ _ _ "gi_revision s'" "length (gi_stack s')"])
    show "distinct (db_index_list db')" using d(1) new by (simp add: l)
    show "map_ok (db_index_list db') (db_index_map db')"
      using map_ok_register [OF d(2), of ty] unfolding l by (simp add: st(4) s'(1) index_register_def Let_def)
    fix t
    assume t: "t \<in> set (db_index_list db')"
    show "\<exists>s. db_segment db' t = Some s \<and> gi_ok (env_ops env) row_id cinv s \<and>
        gi_revision s = gi_revision s' \<and> length (gi_stack s) = length (gi_stack s')"
    proof (cases "t = ty")
      case True
      then show ?thesis using s'(2) by (simp add: seg)
    next
      case False
      then have "t \<in> set (db_index_list db)" using t by (simp add: l)
      then show ?thesis using s'(4) d(4) False by (fastforce simp: seg)
    qed
  qed
qed

end

end
