(* ===== verification/Database_Runs.thy ===== *)
theory Database_Runs
  imports Database_Correct
begin

text \<open>
  Programs that use a database: adding indices, object operations, the operations on all
  indices, and the session objects the program holds, which it starts, pushes, squashes, undoes
  and destroys; with the exceptions that such a program survives. A database may be closed and
  opened again on its segment. Every state such a program can reach satisfies the invariant, a
  session over all indices that is undone restores them, and \<open>add_index\<close> has its outcome on
  every branch. \<open>D_session\<close> is a session that is pushed at once.
\<close>

section \<open>Programs\<close>

datatype 'p db_op =
    D_add_index table_type
  | D_write "'p write_req"
  | D_session bool
  | D_undo
  | D_squash
  | D_commit int
  | D_undo_all
  | D_set_revision u64

fun db_exec :: "('c, 'p) env \<Rightarrow> 'p db_op \<Rightarrow> ('c database, unit) exec" where
  "db_exec env (D_add_index ty) = add_index env ty"
| "db_exec env (D_write w) = db_write env w"
| "db_exec env (D_session en) =
     bindX (database_start_undo_session en) (\<lambda>ds. bindX (ds_push ds) (\<lambda>_. returnX ()))"
| "db_exec env D_undo = database_undo env"
| "db_exec env D_squash = database_squash"
| "db_exec env (D_commit r) = database_commit r"
| "db_exec env D_undo_all = database_undo_all env"
| "db_exec env (D_set_revision r) = database_set_revision r"

text \<open>An exception can be caught; an abort, a failed assertion or undefined behaviour cannot.\<close>

fun survives :: "'a res \<Rightarrow> bool" where
  "survives (Inr x) = True"
| "survives (Inl (Logic_error m)) = True"
| "survives (Inl (Runtime_error m)) = True"
| "survives (Inl Out_of_range) = True"
| "survives (Inl e) = False"

text \<open>
  The session objects a program holds are part of its state. A session that was pushed,
  squashed or undone holds no index sessions any more.
\<close>

datatype session_op = S_push | S_squash | S_undo

fun ds_exec :: "('c, 'p) env \<Rightarrow> session_op \<Rightarrow> db_session \<Rightarrow> ('c database, db_session) exec" where
  "ds_exec env S_push ds = ds_push ds"
| "ds_exec env S_squash ds = ds_squash ds"
| "ds_exec env S_undo ds = ds_undo env ds"

definition ds_closed :: "db_session \<Rightarrow> bool" where
  "ds_closed ds \<longleftrightarrow> ds_index_sessions ds = []"

definition squash_allowed :: "'c database \<Rightarrow> bool" where
  "squash_allowed db \<longleftrightarrow>
     list_all (\<lambda>ty. case db_segment db ty of None \<Rightarrow> True | Some s \<Rightarrow> squash_safe s) (db_index_list db)"

text \<open>
  What a program may do: a change of an object keeps its id, a session is squashed only when
  that is safe, and no index is added while a session is open (such a session does not cover
  the new index, see \<open>session_misses_new_index\<close>).
\<close>

fun db_allowed :: "'c database \<Rightarrow> db_session list \<Rightarrow> 'p db_op \<Rightarrow> bool" where
  "db_allowed db dss (D_add_index ty) = list_all ds_closed dss"
| "db_allowed db dss (D_write w) = op_keeps_id row_id (write_op w)"
| "db_allowed db dss D_squash = squash_allowed db"
| "db_allowed db dss _ = True"

inductive db_program :: "('c, 'p) env \<Rightarrow> 'c database \<Rightarrow> db_session list \<Rightarrow> bool" for env where
  prog_fresh: "db_program env (database_open Read_write Map.empty) []"
| prog_reopen: "db_program env db dss \<Longrightarrow> list_all ds_closed dss \<Longrightarrow>
    db_program env (database_open flags (db_segment (database_close db))) dss"
| prog_step: "db_program env db dss \<Longrightarrow> db_allowed db dss x \<Longrightarrow> db_exec env x db = (r, db') \<Longrightarrow> survives r \<Longrightarrow>
    db_program env db' dss"
| prog_begin: "db_program env db dss \<Longrightarrow> database_start_undo_session en db = (Inr ds, db') \<Longrightarrow>
    db_program env db' (dss @ [ds])"
| prog_session: "db_program env db dss \<Longrightarrow> i < length dss \<Longrightarrow> (y = S_squash \<Longrightarrow> squash_allowed db) \<Longrightarrow>
    ds_exec env y (dss ! i) db = (r, db') \<Longrightarrow> survives r \<Longrightarrow>
    db_program env db' (case r of Inl e \<Rightarrow> dss | Inr ds \<Rightarrow> dss[i := ds])"
| prog_destroy: "db_program env db dss \<Longrightarrow> i < length dss \<Longrightarrow> ds_destroy env (dss ! i) db = (Inr u, db') \<Longrightarrow>
    db_program env db' (take i dss @ drop (Suc i) dss)"

definition db_reachable :: "('c, 'p) env \<Rightarrow> 'c database \<Rightarrow> bool" where
  "db_reachable env db \<longleftrightarrow> (\<exists>dss. db_program env db dss)"

definition db_inv :: "('c, 'p) env \<Rightarrow> ('c \<Rightarrow> bool) \<Rightarrow> 'c database \<Rightarrow> bool" where
  "db_inv env cinv db \<longleftrightarrow> db_ok env cinv db \<and>
     (\<forall>ty. case db_segment db ty of None \<Rightarrow> True | Some s \<Rightarrow> gi_ok (env_ops env) row_id cinv s)"

lemma db_invI:
  "db_ok env cinv db \<Longrightarrow> (\<And>ty s. db_segment db ty = Some s \<Longrightarrow> gi_ok (env_ops env) row_id cinv s) \<Longrightarrow>
     db_inv env cinv db"
  by (auto simp: db_inv_def split: option.splits)

lemma db_invD:
  "db_inv env cinv db \<Longrightarrow> db_ok env cinv db"
  "db_inv env cinv db \<Longrightarrow> db_segment db ty = Some s \<Longrightarrow> gi_ok (env_ops env) row_id cinv s"
  by (auto simp: db_inv_def split: option.splits dest: spec [of _ ty])

section \<open>Exceptions\<close>

lemma gi_undo_dies: "gi_undo ops key s = Inl e \<Longrightarrow> \<not> survives (Inl e)"
proof -
  have n: "foldE (undo_new ops) xs c = Inl e \<Longrightarrow> e = Undefined_behaviour" for xs c
    by (induction xs arbitrary: c) (auto simp: bindE_Inl_conv undo_new_def split: option.splits)
  have o: "foldE (undo_old ops key) xs c = Inl e \<Longrightarrow> e = Undefined_behaviour \<or> e = Abort" for xs c
    by (induction xs arbitrary: c) (auto simp: bindE_Inl_conv undo_old_def split: option.splits)
  have r: "foldE (undo_removed ops) xs c = Inl e \<Longrightarrow> e = Abort" for xs c
    by (induction xs arbitrary: c) (auto simp: bindE_Inl_conv undo_removed_def split: option.splits)
  assume "gi_undo ops key s = Inl e"
  then have "e = Undefined_behaviour \<or> e = Abort"
    by (auto simp: gi_undo_def bindE_Inl_conv split: list.splits dest: n o r)
  then show ?thesis by auto
qed

lemma gi_undo_all_dies: "gi_undo_all ops key s = Inl e \<Longrightarrow> \<not> survives (Inl e)"
proof (induction ops key s rule: gi_undo_all.induct)
  case (1 ops key s)
  then have "gi_enabled s" by (subst (asm) (2) gi_undo_all.simps) (auto split: if_splits)
  moreover from this have "gi_undo ops key s = Inl e \<or> (\<exists>t. gi_undo ops key s = Inr t \<and> gi_undo_all ops key t = Inl e)"
    using "1.prems" by (subst (asm) gi_undo_all.simps) (auto simp: bindE_Inl_conv)
  ultimately show ?case using "1.IH" gi_undo_dies by blast
qed

lemma squash_new_throws: "foldE squash_new xs c \<noteq> Inl e"
  by (induction xs arbitrary: c) (auto simp: bindE_Inl_conv squash_new_def)

lemma gi_squash_dies: "gi_squash key s = Inl e \<Longrightarrow> \<not> survives (Inl e)"
proof -
  have o: "foldE (squash_old key) xs c = Inl e \<Longrightarrow> \<exists>m. e = Assert_failed m" for xs c
    by (induction xs arbitrary: c) (auto simp: bindE_Inl_conv squash_old_def split: if_splits)
  have r: "foldE (squash_removed key) xs c = Inl e \<Longrightarrow> \<exists>m. e = Assert_failed m" for xs c
    by (induction xs arbitrary: c) (auto simp: bindE_Inl_conv squash_removed_def split: if_splits option.splits)
  assume "gi_squash key s = Inl e"
  then have "\<exists>m. e = Assert_failed m"
    by (auto simp: gi_squash_def squash_states_def bindE_Inl_conv squash_new_throws split: list.splits dest: o r)
  then show ?thesis by auto
qed

lemma gi_start_undo_dies: "gi_start_undo s = Inl e \<Longrightarrow> e = Undefined_behaviour"
  by (auto simp: gi_start_undo_def Let_def split: if_splits)

lemma catch_up_dies: "catch_up e s = Inl x \<Longrightarrow> x = Undefined_behaviour"
proof (induction e s rule: catch_up.induct)
  case (1 e s)
  then have lt: "gi_revision s < e" by (subst (asm) (2) catch_up.simps) (auto split: if_splits)
  have "gi_start_undo s = Inl x \<or> (\<exists>t. gi_start_undo_session True s = Inr t \<and> catch_up e (fst t) = Inl x)"
    using "1.prems" lt
    by (subst (asm) catch_up.simps) (auto simp: gi_start_undo_session_def bindE_Inl_conv bindE_Inr_conv)
  then show ?case using "1.IH" [OF lt] gi_start_undo_dies by blast
qed

text \<open>A loop over the indices whose step cannot throw does not throw.\<close>

lemma each_dies:
  assumes "eachX (\<lambda>ty. index_do ty f) xs db = (Inl e, db')"
    and "\<And>s e. f s = Inl e \<Longrightarrow> \<not> survives (Inl e :: unit res)"
  shows "\<not> survives (Inl e :: unit res)"
  using assms(1)
proof (induction xs arbitrary: db)
  case (Cons x xs)
  then consider "index_do x f db = (Inl e, db')" | t where "eachX (\<lambda>ty. index_do ty f) xs t = (Inl e, db')"
    by (auto simp: bindX_Inl_conv)
  then show ?case
  proof cases
    case 1
    then have "e = Undefined_behaviour \<or> (\<exists>s. f s = Inl e)"
      by (auto simp: index_do_def index_call_def bindE_Inl_conv split: option.splits sum.splits)
    then show ?thesis using assms(2) by auto
  qed (rule Cons.IH)
qed simp

lemma mapX_start_dies:
  "mapX (index_start_undo_session True) xs db = (Inl e, db') \<Longrightarrow> e = Undefined_behaviour"
proof (induction xs arbitrary: db)
  case (Cons x xs)
  then consider "index_start_undo_session True x db = (Inl e, db')"
    | t where "mapX (index_start_undo_session True) xs t = (Inl e, db')"
    by (auto simp: bindX_Inl_conv)
  then show ?case
  proof cases
    case 1
    then show ?thesis
      by (auto simp: index_start_undo_session_def index_call_def gi_start_undo_session_def bindE_Inl_conv
          split: option.splits sum.splits dest: gi_start_undo_dies)
  qed (rule Cons.IH)
qed simp

text \<open>A failed write changes nothing.\<close>

lemma get_index_state: "get_index ty db = (r, db') \<Longrightarrow> db' = db"
  by (auto simp: get_index_def bindX_def split: sum.splits prod.splits)

lemma db_write_throws: "db_write env w db = (Inl e, db') \<Longrightarrow> db' = db"
proof (cases w)
  case (Create_obj ty v)
  assume "db_write env w db = (Inl e, db')"
  then show ?thesis using Create_obj
    by (auto simp: database_create_def bindX_Inl_conv dest: get_index_state index_call_error)
next
  case (Modify_obj ty p m)
  assume "db_write env w db = (Inl e, db')"
  then show ?thesis using Modify_obj
    by (auto simp: database_modify_def bindX_Inl_conv index_do_def dest: get_index_state index_call_error)
next
  case (Remove_obj ty p)
  assume "db_write env w db = (Inl e, db')"
  then show ?thesis using Remove_obj
    by (auto simp: database_remove_def bindX_Inl_conv index_do_def dest: get_index_state index_call_error)
qed

text \<open>
  All indices have undo stacks of the same depth, so \<open>set_revision\<close> fails on the first
  index or on none, and a failure changes nothing.
\<close>

lemma set_revision_throws:
  assumes ok: "db_ok env cinv db" and e: "database_set_revision r db = (Inl e, db')"
  shows "db' = db"
proof -
  note d = db_okD [OF ok]
  obtain q n where u: "uniform (db_segment db) (db_index_list db) q n" using d(3) by blast
  have each: "eachX (\<lambda>ty. index_do ty (gi_set_revision r)) (db_index_list db) db = (Inl e, db')"
    using e by (simp add: database_set_revision_def each_index_def)
  have good: "n \<noteq> 0 \<or> uint r > int64_max"
  proof (rule ccontr)
    assume g: "\<not> ?thesis"
    have "\<exists>s s'. db_segment db ty = Some s \<and> gi_set_revision r s = Inr s'" if "ty \<in> set (db_index_list db)" for ty
      using uniform_Some [OF u that] g by (auto simp: gi_set_revision_def)
    then show False using each_steps [of "\<lambda>ty. ty" "db_index_list db" db "\<lambda>_. gi_set_revision r"] d(1) each by auto
  qed
  show ?thesis
  proof (cases "db_index_list db")
    case Nil
    then show ?thesis using each by simp
  next
    case (Cons ty tys)
    then obtain s where "db_segment db ty = Some s" "length (gi_stack s) = n"
      using uniform_Some [OF u, of ty] by auto
    then have "\<exists>x. index_do ty (gi_set_revision r) db = (Inl x, db)"
      using good by (auto simp: index_do_def index_call_def gi_set_revision_def)
    then show ?thesis using each Cons by (auto simp: bindX_fail)
  qed
qed

lemma add_index_throws:
  assumes e: "add_index env ty db = (Inl e, db')" and sv: "survives (Inl e :: unit res)" and ok: "db_ok env cinv db"
  shows "db' = db \<or> ty \<notin> set (db_index_list db) \<and> db_segment db ty = None \<and>
    db' = db\<lparr>db_segment := (db_segment db)(ty \<mapsto> gi_new (env_ops env) (env_node_size env ty) (env_this_size env ty))\<rparr>"
proof -
  have mo: "(type_id ty < length (db_index_map db) \<and> db_index_map db ! type_id ty \<noteq> None) \<longleftrightarrow> ty \<in> set (db_index_list db)"
    using db_okD(2) [OF ok] unfolding map_ok_def by blast
  show ?thesis
  proof (cases "ty \<in> set (db_index_list db)")
    case True
    then have "db' = db" using e mo by (auto simp: add_index_def)
    then show ?thesis by simp
  next
    case new: False
    then have free: "length (db_index_map db) \<le> type_id ty \<or> db_index_map db ! type_id ty = None" using mo by auto
    have "index_find_or_construct env ty db = (Inl e, db') \<or>
       (\<exists>first a. index_find_or_construct env ty db = (Inr first, a) \<and>
         (index_call ty (\<lambda>s. bindE (gi_validate (env_node_size env ty) (env_this_size env ty) s) (\<lambda>_. Inr (s, ()))) a = (Inl e, db') \<or>
          (\<exists>b. index_call ty (\<lambda>s. bindE (gi_validate (env_node_size env ty) (env_this_size env ty) s) (\<lambda>_. Inr (s, ()))) a = (Inr (), b) \<and>
             index_align env ty first b = (Inl e, db'))))"
      using e free by (auto simp: add_index_def bindX_Inl_conv)
    moreover have "db' = db" if "index_find_or_construct env ty db = (Inl e, db')"
      using that by (auto simp: index_find_or_construct_def bindX_Inl_conv split: option.splits if_splits)
    moreover have "a = db \<or> db_segment db ty = None \<and>
        a = db\<lparr>db_segment := (db_segment db)(ty \<mapsto> gi_new (env_ops env) (env_node_size env ty) (env_this_size env ty))\<rparr>"
      if "index_find_or_construct env ty db = (Inr first, a)" for first a
      using that by (auto simp: index_find_or_construct_def exec_simps split: option.splits if_splits)
    moreover have "b = a" if "index_call ty (\<lambda>s. bindE (gi_validate (env_node_size env ty) (env_this_size env ty) s) (\<lambda>_. Inr (s, ()))) a = (Inr (), b)" for a b
      using that by (auto simp: index_call_conv bindE_Inr_conv fun_upd_idem)
    moreover have "db' = b" if a: "index_align env ty first b = (Inl e, db')" for first b
    proof -
      have "\<not> index_do ty (catch_up x) t = (Inl e, db')" for x t
        using sv by (auto simp: index_do_def index_call_def bindE_Inl_conv split: option.splits sum.splits dest: catch_up_dies)
      then show ?thesis using a
        by (auto simp: index_align_def Let_def bindX_Inl_conv index_do_def dest: index_call_error split: list.splits if_splits)
    qed
    ultimately show ?thesis using new index_call_error by blast
  qed
qed

text \<open>Only \<open>add_index\<close> changes the list of registered indices.\<close>

lemma index_call_list: "index_call ty f db = (r, db') \<Longrightarrow> db_index_list db' = db_index_list db"
  by (auto simp: index_call_def split: option.splits sum.splits prod.splits)

lemma index_do_list: "index_do ty f db = (r, db') \<Longrightarrow> db_index_list db' = db_index_list db"
  unfolding index_do_def by (rule index_call_list)

lemma each_do_list:
  "eachX (\<lambda>x. index_do (t x) (f x)) xs db = (r, db') \<Longrightarrow> db_index_list db' = db_index_list db"
proof (induction xs arbitrary: db)
  case (Cons x xs)
  obtain q a where q: "index_do (t x) (f x) db = (q, a)" by (cases "index_do (t x) (f x) db")
  show ?case using Cons index_do_list [OF q] q by (cases q) (auto simp: bindX_def)
qed simp

lemma each_index_list: "each_index f db = (r, db') \<Longrightarrow> db_index_list db' = db_index_list db"
  using each_do_list [of "\<lambda>ty. ty" "\<lambda>_. f" "db_index_list db" db] by (simp add: each_index_def)

lemma map_start_list:
  "mapX (index_start_undo_session en) xs db = (r, db') \<Longrightarrow> db_index_list db' = db_index_list db"
proof (induction xs arbitrary: db r db')
  case (Cons x xs)
  obtain q a where q: "index_start_undo_session en x db = (q, a)" by (cases "index_start_undo_session en x db")
  then have a: "db_index_list a = db_index_list db" by (auto simp: index_start_undo_session_def dest: index_call_list)
  obtain p b where p: "mapX (index_start_undo_session en) xs a = (p, b)" by (cases "mapX (index_start_undo_session en) xs a")
  show ?case using Cons.prems Cons.IH [OF p] a q p by (cases q; cases p) (auto simp: bindX_def)
qed simp

lemma start_list:
  assumes "database_start_undo_session en db = (r, db')"
  shows "db_index_list db' = db_index_list db"
proof (cases en)
  case True
  obtain q a where q: "mapX (index_start_undo_session en) (db_index_list db) db = (q, a)"
    by (cases "mapX (index_start_undo_session en) (db_index_list db) db")
  then show ?thesis using True assms map_start_list [OF q]
    by (cases q) (auto simp: database_start_undo_session_def bindX_def)
qed (use assms in \<open>simp add: database_start_undo_session_def\<close>)

lemma session_list:
  assumes "ds_exec env y ds db = (r, db')"
  shows "db_index_list db' = db_index_list db"
proof (cases y)
  case S_push
  then show ?thesis using assms by (simp add: ds_push_def)
next
  case S_squash
  then show ?thesis using assms
    by (auto simp: ds_squash_def bindX_def split: prod.splits sum.splits dest: each_do_list)
next
  case S_undo
  then show ?thesis using assms
    by (auto simp: ds_undo_def bindX_def split: prod.splits sum.splits dest: each_do_list)
qed

lemma destroy_list: "ds_destroy env ds db = (Inr u, db') \<Longrightarrow> db_index_list db' = db_index_list db"
  using session_list [of env S_undo ds db] by (auto simp: ds_destroy_def exec_simps)

lemma db_write_list:
  assumes "db_write env w db = (r, db')"
  shows "db_index_list db' = db_index_list db"
proof (cases w)
  case (Create_obj ty v)
  then show ?thesis using assms
    by (auto simp: database_create_def bindX_def split: prod.splits sum.splits dest!: get_index_state index_call_list)
next
  case (Modify_obj ty p m)
  then show ?thesis using assms
    by (auto simp: database_modify_def bindX_def split: prod.splits sum.splits dest!: get_index_state index_do_list)
next
  case (Remove_obj ty p)
  then show ?thesis using assms
    by (auto simp: database_remove_def bindX_def split: prod.splits sum.splits dest!: get_index_state index_do_list)
qed

lemma exec_list:
  assumes "db_exec env x db = (r, db')" "\<And>ty. x \<noteq> D_add_index ty"
  shows "db_index_list db' = db_index_list db"
proof (cases x)
  case (D_session en)
  then show ?thesis using assms(1)
    by (auto simp: bindX_def ds_push_def split: prod.splits sum.splits dest: start_list)
qed (use assms db_write_list in \<open>auto simp: database_undo_def database_squash_def database_commit_def
    database_undo_all_def database_set_revision_def dest: each_index_list\<close>)

text \<open>A session is closed, or it has an index session for every registered index.\<close>

definition ds_live :: "'c database \<Rightarrow> db_session \<Rightarrow> bool" where
  "ds_live db ds \<longleftrightarrow> ds_closed ds \<or> subs_ok (ds_index_sessions ds) (db_index_list db)"

lemma live_step:
  assumes "db_exec env x db = (r, db')" "db_allowed db dss x" "list_all (ds_live db) dss"
  shows "list_all (ds_live db') dss"
proof (cases "\<exists>ty. x = D_add_index ty")
  case True
  then show ?thesis using assms by (auto simp: list_all_iff ds_live_def)
next
  case False
  then have "db_index_list db' = db_index_list db" using exec_list [OF assms(1)] by blast
  then show ?thesis using assms(3) by (simp add: list_all_iff ds_live_def)
qed

lemma live_replaced:
  assumes "db_index_list db' = db_index_list db" "list_all (ds_live db) dss" "\<forall>ds. r = Inr ds \<longrightarrow> ds_closed ds"
  shows "list_all (ds_live db') (case r of Inl e \<Rightarrow> dss | Inr ds \<Rightarrow> dss[i := ds])"
proof (cases r)
  case (Inl e)
  then show ?thesis using assms by (simp add: list_all_iff ds_live_def)
next
  case (Inr ds)
  then have "ds_live db' (dss[i := ds] ! n)" if "n < length dss" for n
    using that assms by (cases "n = i") (simp_all add: list_all_length ds_live_def)
  then show ?thesis using Inr by (simp add: list_all_length)
qed

section \<open>The invariant\<close>

context database_env
begin

lemma open_ok:
  "(\<And>ty s. seg ty = Some s \<Longrightarrow> gi_ok (env_ops env) row_id cinv s) \<Longrightarrow> db_inv env cinv (database_open flags seg)"
  by (intro db_invI db_okI [of _ _ _ 0 0]) (auto simp: database_open_def map_ok_def)

lemma each_exec_inv:
  assumes inv: "db_inv env cinv db" and e: "each_index (gi_exec (env_ops env) row_id x) db = (Inr u, db')"
    and al: "\<And>ty s. ty \<in> set (db_index_list db) \<Longrightarrow> db_segment db ty = Some s \<Longrightarrow> op_allowed row_id s x"
  shows "db_inv env cinv db'"
proof -
  note x = each_exec [OF db_invD(1) [OF inv] e]
  show ?thesis
  proof (rule db_invI)
    show "db_ok env cinv db'" by (rule x(1)) (rule al)
    fix ty s
    assume s: "db_segment db' ty = Some s"
    show "gi_ok (env_ops env) row_id cinv s"
    proof (cases "ty \<in> set (db_index_list db)")
      case True
      then show ?thesis using x(3) [of ty] al s by (auto simp: step_correct_def)
    next
      case False
      then have "db_segment db ty = Some s" using x(4) [of ty] al s by simp
      then show ?thesis by (rule db_invD(2) [OF inv])
    qed
  qed
qed

lemma write_inv:
  assumes inv: "db_inv env cinv db" and e: "db_write env w db = (Inr u, db')" "op_keeps_id row_id (write_op w)"
  shows "db_inv env cinv db'"
proof (rule db_invI)
  note w = write_ok [OF db_invD(1) [OF inv] e]
  show ok': "db_ok env cinv db'" by (rule w(1))
  fix ty s
  assume s: "db_segment db' ty = Some s"
  show "gi_ok (env_ops env) row_id cinv s"
  proof (cases "ty = write_type w")
    case True
    then have "ty \<in> set (db_index_list db')"
      using db_write_step [OF db_okD(2) [OF db_invD(1) [OF inv]] e(1)] w(2) by (simp add: db_frame_def)
    then show ?thesis using db_okD(4) [OF ok'] s by fastforce
  next
    case False
    then show ?thesis using w(4) s db_invD(2) [OF inv] by simp
  qed
qed

lemma start_inv:
  assumes inv: "db_inv env cinv db" and e: "database_start_undo_session True db = (Inr ds, db')"
  shows "db_inv env cinv db'"
proof (rule db_invI)
  note st = start_ok [OF db_invD(1) [OF inv] e]
  show ok': "db_ok env cinv db'" by (rule st(1))
  fix ty s
  assume s: "db_segment db' ty = Some s"
  show "gi_ok (env_ops env) row_id cinv s"
  proof (cases "ty \<in> set (db_index_list db)")
    case True
    then show ?thesis using st(2) db_okD(4) [OF ok', of ty] s by (auto simp: db_frame_def)
  next
    case False
    then show ?thesis using st(6) s db_invD(2) [OF inv] by simp
  qed
qed

lemma add_inv:
  assumes inv: "db_inv env cinv db" and e: "add_index env ty db = (r, db')" "survives r"
  shows "db_inv env cinv db'"
proof (cases r)
  case (Inr u)
  note a = add_index_ok [OF db_invD(1) [OF inv] e(1) [unfolded Inr] db_invD(2) [OF inv]]
  show ?thesis
  proof (rule db_invI)
    show ok': "db_ok env cinv db'" by (rule a(1))
    fix t s
    assume s: "db_segment db' t = Some s"
    show "gi_ok (env_ops env) row_id cinv s"
    proof (cases "t = ty")
      case True
      then show ?thesis using db_okD(4) [OF ok', of t] a(2) s by auto
    next
      case False
      then show ?thesis using a(4) s db_invD(2) [OF inv] by simp
    qed
  qed
next
  case (Inl x)
  then have sv: "survives (Inl x :: unit res)" using e(2) by simp
  from add_index_throws [OF e(1) [unfolded Inl] sv db_invD(1) [OF inv]] show ?thesis
  proof (elim disjE conjE)
    assume "db' = db"
    then show ?thesis using inv by simp
  next
    assume t: "ty \<notin> set (db_index_list db)"
      "db' = db\<lparr>db_segment := (db_segment db)(ty \<mapsto> gi_new (env_ops env) (env_node_size env ty) (env_this_size env ty))\<rparr>"
    note d = db_okD [OF db_invD(1) [OF inv]]
    obtain q n where u: "uniform (db_segment db) (db_index_list db) q n" using d(3) by blast
    have neq: "t' \<noteq> ty" if "t' \<in> set (db_index_list db)" for t' using that t(1) by blast
    show ?thesis
    proof (rule db_invI)
      show "db_ok env cinv db'"
      proof (rule db_okI [of _ _ _ q n])
        fix t'
        assume "t' \<in> set (db_index_list db')"
        then have t': "t' \<in> set (db_index_list db)" by (simp add: t(2))
        then show "\<exists>s. db_segment db' t' = Some s \<and> gi_ok (env_ops env) row_id cinv s \<and> gi_revision s = q \<and> length (gi_stack s) = n"
          using d(4) [OF t'] uniform_Some [OF u t'] neq by (auto simp: t(2))
      qed (use d in \<open>simp_all add: t(2)\<close>)
      fix t' s
      assume "db_segment db' t' = Some s"
      then show "gi_ok (env_ops env) row_id cinv s"
        using new_ok db_invD(2) [OF inv] by (auto simp: t(2) split: if_splits)
    qed
  qed
qed

lemma pushed_inv:
  assumes inv: "db_inv env cinv db"
    and e: "bindX (database_start_undo_session en) (\<lambda>ds. bindX (ds_push ds) (\<lambda>_. returnX ())) db = (r, db')" "survives r"
  shows "db_inv env cinv db'"
proof (cases en)
  case False
  then show ?thesis using e inv by (auto simp: database_start_undo_session_def ds_push_def)
next
  case True
  show ?thesis
  proof (cases r)
    case (Inr u)
    then obtain ds where "database_start_undo_session True db = (Inr ds, db')"
      using True e(1) by (auto simp: exec_simps ds_push_def)
    then show ?thesis by (rule start_inv [OF inv])
  next
    case (Inl z)
    then have "mapX (index_start_undo_session True) (db_index_list db) db = (Inl z, db')"
      using True e(1) by (auto simp: bindX_Inl_conv ds_push_def database_start_undo_session_def)
    then have "z = Undefined_behaviour" by (rule mapX_start_dies)
    then show ?thesis using e(2) Inl by simp
  qed
qed

lemma exec_inv:
  assumes inv: "db_inv env cinv db" and al: "db_allowed db dss x" and e: "db_exec env x db = (r, db')" "survives r"
  shows "db_inv env cinv db'"
proof -
  have each: "db_inv env cinv db'"
    if x: "each_index (gi_exec (env_ops env) row_id y) db = (r, db')"
      and dies: "\<And>s e. gi_exec (env_ops env) row_id y s = Inl e \<Longrightarrow> \<not> survives (Inl e :: unit res)"
      and al: "\<And>ty s. ty \<in> set (db_index_list db) \<Longrightarrow> db_segment db ty = Some s \<Longrightarrow> op_allowed row_id s y" for y
  proof (cases r)
    case (Inr u)
    then show ?thesis using each_exec_inv [OF inv _ al] x by simp
  next
    case (Inl z)
    then have "eachX (\<lambda>ty. index_do ty (gi_exec (env_ops env) row_id y)) (db_index_list db) db = (Inl z, db')"
      using x by (simp add: each_index_def)
    then have "\<not> survives (Inl z :: unit res)" by (rule each_dies) (rule dies)
    then show ?thesis using e(2) Inl by simp
  qed
  show ?thesis
  proof (cases x)
    case (D_add_index ty)
    then show ?thesis using add_inv [OF inv, of ty r db'] e by simp
  next
    case (D_write w)
    then show ?thesis
      using write_inv [OF inv, of w _ db'] db_write_throws [of env w db _ db'] e al inv by (cases r) auto
  next
    case (D_session en)
    then show ?thesis using pushed_inv [OF inv] e by simp
  next
    case D_undo
    have f: "gi_exec (env_ops env) row_id Undo = gi_undo (env_ops env) row_id" by (rule ext) simp
    show ?thesis by (rule each [of Undo]) (use D_undo e gi_undo_dies in \<open>auto simp: f database_undo_def\<close>)
  next
    case D_squash
    have f: "gi_exec (env_ops env) row_id Squash = gi_squash row_id" by (rule ext) simp
    show ?thesis
    proof (rule each [of Squash])
      fix ty s
      assume "ty \<in> set (db_index_list db)" "db_segment db ty = Some s"
      then show "op_allowed row_id s Squash" using al D_squash by (auto simp: list_all_iff squash_allowed_def)
    qed (use D_squash e gi_squash_dies in \<open>auto simp: f database_squash_def\<close>)
  next
    case (D_commit q)
    have f: "gi_exec (env_ops env) row_id (Commit q) = (\<lambda>s. Inr (gi_commit q s))" by (rule ext) simp
    show ?thesis by (rule each [of "Commit q"]) (use D_commit e in \<open>auto simp: f database_commit_def\<close>)
  next
    case D_undo_all
    have f: "gi_exec (env_ops env) row_id Undo_all = gi_undo_all (env_ops env) row_id" by (rule ext) simp
    show ?thesis by (rule each [of Undo_all]) (use D_undo_all e gi_undo_all_dies in \<open>auto simp: f database_undo_all_def\<close>)
  next
    case (D_set_revision q)
    have f: "gi_exec (env_ops env) row_id (Set_revision q) = gi_set_revision q" by (rule ext) simp
    show ?thesis
    proof (cases r)
      case (Inr u)
      then show ?thesis
        using each_exec_inv [OF inv, of "Set_revision q" u db'] D_set_revision e by (simp add: f database_set_revision_def)
    next
      case (Inl z)
      then have "db' = db" using set_revision_throws [OF db_invD(1) [OF inv]] D_set_revision e by simp
      then show ?thesis using inv by simp
    qed
  qed
qed

text \<open>Sessions that are open cover every registered index.\<close>

lemma session_inv:
  assumes inv: "db_inv env cinv db" and live: "ds_live db ds" and e: "ds_exec env y ds db = (r, db')" "survives r"
    and sq: "y = S_squash \<Longrightarrow> squash_allowed db"
  shows "db_inv env cinv db' \<and> (\<forall>ds'. r = Inr ds' \<longrightarrow> ds_closed ds')"
proof (cases "ds_closed ds \<or> y = S_push")
  case True
  then show ?thesis using e inv
    by (cases y) (auto simp: ds_push_def ds_squash_def ds_undo_def ds_closed_def bindX_def)
next
  case False
  then have subs: "subs_ok (ds_index_sessions ds) (db_index_list db)"
    using live by (simp add: ds_live_def)
  let ?x = "if y = S_squash then D_squash else D_undo :: 'p db_op"
  have run: "ds_exec env y ds db = bindX (db_exec env ?x) (\<lambda>_. returnX (ds\<lparr>ds_index_sessions := []\<rparr>)) db"
    using False ds_undo_eq [OF subs, of env] ds_squash_eq [OF subs] by (cases y) simp_all
  obtain q t where q: "db_exec env ?x db = (q, t)" by (cases "db_exec env ?x db")
  have t: "t = db'" "survives q" "\<forall>ds'. r = Inr ds' \<longrightarrow> ds_closed ds'"
    using e run q by (cases q; auto simp: bindX_def ds_closed_def elim!: survives.elims)+
  have "db_allowed db [] ?x" using sq by simp
  then show ?thesis using exec_inv [OF inv _ q t(2)] t(1,3) by blast
qed

lemma destroy_inv:
  assumes "db_inv env cinv db" "ds_live db ds" "ds_destroy env ds db = (Inr u, db')"
  shows "db_inv env cinv db'"
proof -
  obtain ds' where "ds_exec env S_undo ds db = (Inr ds', db')"
    using assms(3) by (auto simp: ds_destroy_def exec_simps)
  then show ?thesis using session_inv [OF assms(1,2)] by fastforce
qed

lemma begin_inv:
  assumes "db_inv env cinv db" "database_start_undo_session en db = (Inr ds, db')"
  shows "db_inv env cinv db' \<and> ds_live db ds"
proof (cases en)
  case True
  then show ?thesis
    using assms start_inv [of db ds db'] start_ok(3) [OF db_invD(1), of db ds db'] by (simp add: ds_live_def)
next
  case False
  then show ?thesis using assms by (auto simp: database_start_undo_session_def ds_live_def ds_closed_def)
qed

lemma program_inv:
  "db_program env db dss \<Longrightarrow> db_inv env cinv db \<and> list_all (ds_live db) dss"
proof (induction rule: db_program.induct)
  case prog_fresh
  have "db_inv env cinv (database_open Read_write Map.empty)" by (rule open_ok) simp
  then show ?case by simp
next
  case (prog_reopen db dss flags)
  then have "db_inv env cinv (database_open flags (db_segment (database_close db)))"
    by (intro open_ok) (auto simp: database_close_def dest: db_invD(2))
  then show ?case using prog_reopen by (auto simp: list_all_iff ds_live_def)
next
  case (prog_step db dss x r db')
  then have "db_inv env cinv db'" using exec_inv by blast
  then show ?case using prog_step live_step by blast
next
  case (prog_begin db dss en ds db')
  have "db_index_list db' = db_index_list db" by (rule start_list [OF prog_begin.hyps(2)])
  moreover have "db_inv env cinv db' \<and> ds_live db ds" using begin_inv prog_begin by blast
  ultimately show ?case using prog_begin.IH by (simp add: list_all_iff ds_live_def)
next
  case (prog_session db dss i y r db')
  have live: "ds_live db (dss ! i)" using prog_session by (simp add: list_all_length)
  have l: "db_index_list db' = db_index_list db" by (rule session_list [OF prog_session.hyps(4)])
  have s: "db_inv env cinv db' \<and> (\<forall>ds'. r = Inr ds' \<longrightarrow> ds_closed ds')"
    using session_inv [OF _ live] prog_session by blast
  then show ?case using live_replaced [OF l, of dss r i] prog_session.IH by blast
next
  case (prog_destroy db dss i u db')
  have live: "ds_live db (dss ! i)" using prog_destroy by (simp add: list_all_length)
  have "db_index_list db' = db_index_list db" by (rule destroy_list [OF prog_destroy.hyps(3)])
  then show ?case
    using destroy_inv [OF _ live] prog_destroy
    by (auto simp: list_all_iff ds_live_def dest: in_set_takeD in_set_dropD)
qed

lemma reachable_inv: "db_reachable env db \<Longrightarrow> db_inv env cinv db"
  using program_inv by (auto simp: db_reachable_def)

end

section \<open>A sample database\<close>

definition sample_type_name :: "table_type \<Rightarrow> string" where
  "sample_type_name ty = (case ty of Table_key_value_object_type \<Rightarrow> ''table_key_object'' | _ \<Rightarrow> ''object'')"

definition cell_env :: "(row lc, nat) env" where
  "cell_env =
     \<lparr>env_ops = cell_ops, env_type_name = sample_type_name, env_node_size = (\<lambda>_. 64), env_this_size = (\<lambda>_. 128)\<rparr>"

lemma cell_env_ops [simp]: "env_ops cell_env = cell_ops"
  by (simp add: cell_env_def)

interpretation cell_db: database_env cell_env cell_inv
  unfolding database_env_def cell_env_ops by (rule cell_multi_index)

definition db_run :: "nat db_op list \<Rightarrow> row lc database" where
  "db_run xs = snd (eachX (db_exec cell_env) xs (database_open Read_write Map.empty))"

definition sample_setup :: "nat db_op list" where
  "sample_setup =
     [D_add_index Table_key_value_object_type, D_write (Create_obj Table_key_value_object_type (sample_row 1 [1])),
      D_session True, D_add_index Key_value_object_type, D_write (Create_obj Table_key_value_object_type (sample_row 2 []))]"

lemma eachX_program:
  "db_program env db [] \<Longrightarrow> eachX (db_exec env) xs db = (Inr u, db') \<Longrightarrow>
     list_all (\<lambda>x. \<forall>d :: 'c database. db_allowed d [] x) xs \<Longrightarrow> db_program env (db' :: 'c database) []"
proof (induction xs arbitrary: db)
  case (Cons x xs)
  then obtain v t where t: "db_exec env x db = (Inr v, t)" "eachX (db_exec env) xs t = (Inr u, db')"
    by (auto simp: exec_simps)
  have "db_program env t []" by (rule prog_step [OF Cons.prems(1) _ t(1)]) (use Cons.prems(3) in simp_all)
  then show ?case using Cons.IH [OF _ t(2)] Cons.prems(3) by simp
qed simp

lemma eachX_reachable:
  "eachX (db_exec env) xs (database_open Read_write Map.empty) = (Inr u, db') \<Longrightarrow>
     list_all (\<lambda>x. \<forall>d :: 'c database. db_allowed d [] x) xs \<Longrightarrow> db_reachable env (db' :: 'c database)"
  using eachX_program [OF prog_fresh] by (auto simp: db_reachable_def)

lemma sample_program: "db_program cell_env (db_run sample_setup) []"
proof -
  have "fst (eachX (db_exec cell_env) sample_setup (database_open Read_write Map.empty)) = Inr ()" by code_simp
  then have "eachX (db_exec cell_env) sample_setup (database_open Read_write Map.empty) = (Inr (), db_run sample_setup)"
    by (simp add: db_run_def prod_eq_iff)
  then show ?thesis
    by (rule eachX_program [OF prog_fresh]) (simp add: sample_setup_def)
qed

lemma sample_reachable_db: "db_reachable cell_env (db_run sample_setup)"
  using sample_program by (auto simp: db_reachable_def)

section \<open>Properties of the database\<close>

lemma not_isl_Inr:
  assumes "\<not> isl (fst m)"
  obtains x s where "m = (Inr x, s)"
  using assms by (cases m; cases "fst m") auto

text \<open>
  C10: every database that a program can reach satisfies the invariant. The program may add
  indices, create, modify and remove objects, start sessions and push, squash, undo or
  destroy each of the session objects it holds, in any order, use undo, undo_all, squash, commit and
  set_revision of the database, catch exceptions, and close and open the database again. It
  keeps the rules of \<open>db_program\<close>: a modifier keeps the id, a squash is safe
  (\<open>squash_safe\<close>), and no index is added and the database is not closed while a session is
  open. The invariant: registered indices are
  distinct, found through the type map, internally consistent, and all at the same
  revision with undo stacks of the same depth; every index object of the segment,
  registered or not, is internally consistent; and every session object held is closed or
  has one applying index session for each registered index, in order.
\<close>

theorem database_invariant:
  assumes "multi_index (env_ops env) row_id row_clash cinv" "db_program env db dss"
  shows "db_inv env cinv db \<and> list_all (ds_live db) dss"
  by (rule database_env.program_inv [OF database_env.intro [OF assms(1)] assms(2)])

theorem database_invariant_witness:
  "\<exists>ds1 db1 ds2 db2. database_start_undo_session True (db_run sample_setup) = (Inr ds1, db1) \<and>
     ds_undo cell_env ds1 db1 = (Inr ds2, db2) \<and>
     db_inv cell_env cell_inv db1 \<and> list_all (ds_live db1) [ds1] \<and>
     db_inv cell_env cell_inv db2 \<and> list_all (ds_live db2) [ds2]"
proof -
  let ?m = "bindX (database_start_undo_session True) (ds_undo cell_env) (db_run sample_setup)"
  have "\<not> isl (fst ?m)" by code_simp
  then obtain ds2 db2 where "?m = (Inr ds2, db2)" by (rule not_isl_Inr)
  then obtain ds1 db1 where r: "database_start_undo_session True (db_run sample_setup) = (Inr ds1, db1)"
    "ds_undo cell_env ds1 db1 = (Inr ds2, db2)"
    by (auto simp: exec_simps)
  have p1: "db_program cell_env db1 [ds1]" using prog_begin [OF sample_program r(1)] by simp
  have p2: "db_program cell_env db2 [ds2]" using prog_session [OF p1, of 0 S_undo "Inr ds2" db2] r(2) by simp
  have m: "multi_index (env_ops cell_env) row_id row_clash cell_inv" by (simp add: cell_multi_index)
  show ?thesis using database_invariant [OF m p1] database_invariant [OF m p2] r by blast
qed

text \<open>
  A session covers the indices registered when it was started and no other. When an index is
  added while the session is open, the new index is given an undo state for it, which the undo
  of the session does not remove: the indices are left at different revisions, and the next
  \<open>database\<close> operation works on undo states of different sessions.
\<close>

theorem session_misses_new_index:
  "map (\<lambda>ty. map_option (\<lambda>s. (gi_revision s, length (gi_stack s)))
       (db_segment (snd (bindX (add_index cell_env Table_key_value_object_type) (\<lambda>_.
          bindX (database_start_undo_session True) (\<lambda>ds.
          bindX (add_index cell_env Key_value_object_type) (\<lambda>_.
          ds_undo cell_env ds))) (database_open Read_write Map.empty))) ty))
     [Table_key_value_object_type, Key_value_object_type] = [Some (0, 0), Some (1, 1)]"
  by code_simp

text \<open>
  C11: a session over the whole database that is undone leaves no trace. After a session
  is started, any sequence of object operations on any of the indices and the undo of the
  session, every registered index has the contents and all the earlier versions it had.
\<close>

theorem database_session_undo:
  assumes "multi_index (env_ops env) row_id row_clash cinv" "db_reachable env db"
    and "database_start_undo_session True db = (Inr ds, db1)"
    and "eachX (db_write env) ws db1 = (Inr u, db2)" "list_all (\<lambda>w. op_keeps_id row_id (write_op w)) ws"
    and "ds_undo env ds db2 = (Inr ds', db3)"
    and "ty \<in> set (db_index_list db)"
  shows "db_history env db3 ty = db_history env db ty \<and> db_contents env db3 ty = db_contents env db ty"
proof -
  note env = database_env.intro [OF assms(1)]
  note ok = db_invD(1) [OF database_env.reachable_inv [OF env assms(2)]]
  have h: "db_history env db3 ty = db_history env db ty"
    by (rule database_env.session_round_trip [OF env ok assms(3-7)])
  have "db_contents env d t = hd (db_history env d t)" if "db_history env d t \<noteq> []" for d t
    using that by (auto simp: db_history_def db_contents_def history_current split: option.splits)
  moreover have "db_history env db ty \<noteq> []"
    using db_okD(4) [OF ok assms(7)] by (auto simp: db_history_def gi_history_def dest: arg_cong [of _ _ length])
  ultimately show ?thesis using h by simp
qed

definition sample_db_writes :: "nat write_req list" where
  "sample_db_writes =
     [Remove_obj Table_key_value_object_type 0, Create_obj Table_key_value_object_type (sample_row 9 [9]),
      Modify_obj Table_key_value_object_type 1 (set_tk_value [4])]"

theorem database_session_undo_witness:
  "db_contents cell_env (snd (bindX (database_start_undo_session True) (\<lambda>ds.
       bindX (eachX (db_write cell_env) sample_db_writes) (\<lambda>_. ds_undo cell_env ds)) (db_run sample_setup)))
     Table_key_value_object_type =
   db_contents cell_env (db_run sample_setup) Table_key_value_object_type"
proof -
  let ?m = "bindX (database_start_undo_session True) (\<lambda>ds.
       bindX (eachX (db_write cell_env) sample_db_writes) (\<lambda>_. ds_undo cell_env ds)) (db_run sample_setup)"
  have "\<not> isl (fst ?m)" by code_simp
  then obtain x db3 where m: "?m = (Inr x, db3)" by (rule not_isl_Inr)
  then obtain ds db1 u db2 where r: "database_start_undo_session True (db_run sample_setup) = (Inr ds, db1)"
    "eachX (db_write cell_env) sample_db_writes db1 = (Inr u, db2)" "ds_undo cell_env ds db2 = (Inr x, db3)"
    by (auto simp: exec_simps)
  have "list_all (\<lambda>w. op_keeps_id row_id (write_op w)) sample_db_writes"
    by (simp add: sample_db_writes_def sample_keeps_id)
  moreover have "Table_key_value_object_type \<in> set (db_index_list (db_run sample_setup))" by code_simp
  ultimately show ?thesis
    using database_session_undo [OF _ sample_reachable_db r(1,2) _ r(3)] m cell_multi_index by simp
qed

text \<open>
  C12: adding an index to a reachable database. When it succeeds the type was not
  registered before, the index is registered last, the database satisfies the invariant (in
  particular the new index has the revision and the undo depth of the others), the index
  objects of all the other types are exactly what they were, undo states included, and the
  contents of the added index are those it had in the segment (empty when it is new).
\<close>

theorem add_index_registers:
  assumes "multi_index (env_ops env) row_id row_clash cinv" "db_reachable env db"
    and "add_index env ty db = (Inr u, db')"
  shows "db_ok env cinv db' \<and> db_index_list db' = db_index_list db @ [ty] \<and> ty \<notin> set (db_index_list db) \<and>
    (\<forall>ty'. ty' \<noteq> ty \<longrightarrow> db_segment db' ty' = db_segment db ty') \<and> db_contents env db' = db_contents env db"
proof -
  note env = database_env.intro [OF assms(1)]
  note inv = database_env.reachable_inv [OF env assms(2)]
  note a = database_env.add_index_ok [OF env db_invD(1) [OF inv] assms(3) db_invD(2) [OF inv]]
  have "distinct (db_index_list db')" by (rule db_okD(1) [OF a(1)])
  then show ?thesis using a by simp
qed

theorem add_index_registers_witness:
  "db_index_list (snd (add_index cell_env Table_id_object_type (db_run sample_setup))) =
     [Table_key_value_object_type, Key_value_object_type, Table_id_object_type]"
proof -
  have "\<not> isl (fst (add_index cell_env Table_id_object_type (db_run sample_setup)))" by code_simp
  then obtain u db' where e: "add_index cell_env Table_id_object_type (db_run sample_setup) = (Inr u, db')"
    by (rule not_isl_Inr)
  have "db_index_list (db_run sample_setup) = [Table_key_value_object_type, Key_value_object_type]" by code_simp
  then show ?thesis
    using add_index_registers [OF _ sample_reachable_db e] cell_multi_index e by simp
qed

text \<open>
  What adding an index of a type that is not registered does, for an index object that is
  in the segment already and for a new one.
\<close>

definition sizes_match :: "('c, 'p) env \<Rightarrow> table_type \<Rightarrow> 'c row_index \<Rightarrow> bool" where
  "sizes_match env ty s \<longleftrightarrow> env_node_size env ty = gi_size_of_value_type s \<and> env_this_size env ty = gi_size_of_this s"

definition stack_ranges :: "'c database \<Rightarrow> (int \<times> int) list" where
  "stack_ranges db =
     map (\<lambda>ty. case db_segment db ty of None \<Rightarrow> (0, 0) | Some s \<Rightarrow> gi_undo_stack_revision_range s) (db_index_list db)"

lemma catch_up_total: "gi_revision s \<le> e \<Longrightarrow> e \<le> int64_max \<Longrightarrow> \<exists>s'. catch_up e s = Inr s'"
proof (induction "nat (e - gi_revision s)" arbitrary: s)
  case 0
  then have "catch_up e s = Inr s" by (subst catch_up.simps) simp
  then show ?case by blast
next
  case (Suc n)
  then have lt: "gi_revision s < e" by simp
  then obtain t where t: "gi_start_undo s = Inr t" using Suc.prems(2) by (auto simp: gi_start_undo_def Let_def)
  have "gi_revision t = gi_revision s + 1" by (rule gi_start_undo_revision [OF t])
  moreover from this have "n = nat (e - gi_revision t)" using Suc.hyps(2) by simp
  ultimately obtain s' where "catch_up e t = Inr s'" using Suc.hyps(1) [of t] Suc.prems(2) lt by auto
  then show ?case using lt t by (subst catch_up.simps) (simp add: gi_start_undo_session_def)
qed

lemma add_index_start:
  assumes "map_ok (db_index_list db) (db_index_map db)" "ty \<notin> set (db_index_list db)"
  shows "add_index env ty db = bindX (index_find_or_construct env ty) (\<lambda>first.
    bindX (index_call ty (\<lambda>s. bindE (gi_validate (env_node_size env ty) (env_this_size env ty) s) (\<lambda>_. Inr (s, ())))) (\<lambda>_.
    bindX (index_align env ty first) (\<lambda>_. modifyX (index_register ty)))) db"
proof -
  have "length (db_index_map db) \<le> type_id ty \<or> db_index_map db ! type_id ty = None"
    using assms unfolding map_ok_def by (metis not_le)
  then show ?thesis by (auto simp: add_index_def)
qed

lemma add_index_existing:
  assumes ok: "db_ok env cinv db" and new: "ty \<notin> set (db_index_list db)" and s: "db_segment db ty = Some s"
  shows "add_index env ty db =
    (if \<not> sizes_match env ty s
     then (Inl (Runtime_error ''content of memory does not match data expected by executable''), db)
     else if stack_ranges db \<noteq> [] \<and> gi_undo_stack_revision_range s \<noteq> hd (stack_ranges db)
     then (Inl (inconsistent_stack_error (env_type_name env ty) (gi_undo_stack_revision_range s) (hd (stack_ranges db))), db)
     else (Inr (), index_register ty db))"
proof -
  note d = db_okD [OF ok]
  have find: "index_find_or_construct env ty db = (Inr False, db)"
    using s by (simp add: index_find_or_construct_def)
  have idem: "db\<lparr>db_segment := (db_segment db)(ty \<mapsto> s)\<rparr> = db" using s by (simp add: fun_upd_idem)
  have val: "index_call ty (\<lambda>s. bindE (gi_validate (env_node_size env ty) (env_this_size env ty) s) (\<lambda>_. Inr (s, ()))) db =
      (if sizes_match env ty s then Inr () else Inl (Runtime_error ''content of memory does not match data expected by executable''), db)"
    using s idem by (simp add: index_call_def gi_validate_def sizes_match_def)
  have align: "index_align env ty False db =
      (if stack_ranges db \<noteq> [] \<and> gi_undo_stack_revision_range s \<noteq> hd (stack_ranges db)
       then Inl (inconsistent_stack_error (env_type_name env ty) (gi_undo_stack_revision_range s) (hd (stack_ranges db)))
       else Inr (), db)"
  proof (cases "db_index_list db")
    case Nil
    then show ?thesis by (simp add: index_align_def stack_ranges_def)
  next
    case (Cons front rest)
    then obtain f where "db_segment db front = Some f" using d(4) [of front] by auto
    then show ?thesis using Cons s by (auto simp: index_align_def stack_ranges_def Let_def prod_eq_iff)
  qed
  show ?thesis unfolding add_index_start [OF d(2) new]
    by (auto simp: bindX_def find val align)
qed

context database_env
begin

lemma index_align_new:
  assumes "db_ok env cinv db" "db_segment db' ty = Some s" "gi_stack s = []" "ty \<notin> set (db_index_list db)"
    and db': "db' = db\<lparr>db_segment := (db_segment db)(ty \<mapsto> s)\<rparr>" "\<not> db_read_only db"
  shows "\<exists>t. index_align env ty True db' = (Inr (), db\<lparr>db_segment := (db_segment db)(ty \<mapsto> t)\<rparr>)"
proof (cases "db_index_list db")
  case Nil
  then show ?thesis using db' by (auto simp: index_align_def)
next
  case (Cons front rest)
  then obtain f where f: "db_segment db front = Some f" "gi_ok (env_ops env) row_id cinv f"
    using db_okD(4) [OF assms(1), of front] by auto
  have "front \<noteq> ty" using Cons assms(4) by auto
  note r = revision_range [OF f(2)] and k = gi_okD(4,5) [OF f(2)]
  let ?b = "gi_revision f - int (length (gi_stack f))"
  have "uint (word_of_int ?b :: u64) = ?b" by (rule uint_u64) (use k in simp_all)
  then have set: "gi_set_revision (word_of_int ?b) s = Inr (s\<lparr>gi_revision := ?b\<rparr>)"
    using assms(3) k by (simp add: gi_set_revision_def)
  obtain t where t: "catch_up (gi_revision f) (s\<lparr>gi_revision := ?b\<rparr>) = Inr t"
    using catch_up_total [of "s\<lparr>gi_revision := ?b\<rparr>" "gi_revision f"] k by auto
  show ?thesis
  proof (cases "gi_undo_stack_revision_range s = gi_undo_stack_revision_range f")
    case True
    then show ?thesis using Cons f \<open>front \<noteq> ty\<close> db' by (auto simp: index_align_def)
  next
    case False
    then have "fst (gi_undo_stack_revision_range s) \<noteq> ?b \<or> snd (gi_undo_stack_revision_range s) \<noteq> gi_revision f"
      using r by (simp add: prod_eq_iff)
    then have "index_align env ty True db' =
        bindX (index_do ty (gi_set_revision (word_of_int ?b))) (\<lambda>_. index_do ty (catch_up (gi_revision f))) db'"
      using Cons f \<open>front \<noteq> ty\<close> db' r by (simp add: index_align_def Let_def)
    also have "\<dots> = (Inr (), db\<lparr>db_segment := (db_segment db)(ty \<mapsto> t)\<rparr>)"
      using set t by (simp add: bindX_def index_do_def index_call_def db')
    finally show ?thesis by blast
  qed
qed

lemma add_index_new:
  assumes "db_ok env cinv db" "ty \<notin> set (db_index_list db)" "db_segment db ty = None" "\<not> db_read_only db"
  shows "\<exists>t. add_index env ty db = (Inr (), index_register ty (db\<lparr>db_segment := (db_segment db)(ty \<mapsto> t)\<rparr>))"
proof -
  let ?s = "gi_new (env_ops env) (env_node_size env ty) (env_this_size env ty)"
  let ?a = "db\<lparr>db_segment := (db_segment db)(ty \<mapsto> ?s)\<rparr>"
  have find: "index_find_or_construct env ty db = (Inr True, ?a)"
    using assms(3,4) by (simp add: index_find_or_construct_def bindX_def)
  have val: "index_call ty (\<lambda>s. bindE (gi_validate (env_node_size env ty) (env_this_size env ty) s) (\<lambda>_. Inr (s, ()))) ?a =
      (Inr (), ?a)"
    by (simp add: index_call_def gi_validate_def gi_new_def)
  obtain t where "index_align env ty True ?a = (Inr (), db\<lparr>db_segment := (db_segment db)(ty \<mapsto> t)\<rparr>)"
    using index_align_new [OF assms(1) _ _ assms(2) refl assms(4), of ?s] by (auto simp: gi_new_def)
  then show ?thesis
    unfolding add_index_start [OF db_okD(2) [OF assms(1)] assms(2)] by (auto simp: bindX_def find val)
qed

end

text \<open>
  C13: the outcome of adding an index to a reachable database, on every branch. A registered
  type is refused as in use. For a type that is not registered but has an index object in the
  segment: when the sizes recorded in it differ from the expected ones the memory does not
  match, when its revision range differs from that of the first registered index the undo
  stack is reported as inconsistent, and otherwise the index is registered and nothing else
  changes. For a type without an index object: a read-only database reports the missing index,
  and a writable one creates and registers it. Every error leaves the database as it was.
\<close>

theorem add_index_errors:
  assumes "multi_index (env_ops env) row_id row_clash cinv" "db_reachable env db"
  shows "(ty \<in> set (db_index_list db) \<longrightarrow>
      add_index env ty db = (Inl (Logic_error (env_type_name env ty @ ''::type_id is already in use'')), db)) \<and>
    (\<forall>s. ty \<notin> set (db_index_list db) \<and> db_segment db ty = Some s \<longrightarrow>
      add_index env ty db =
        (if \<not> sizes_match env ty s
         then (Inl (Runtime_error ''content of memory does not match data expected by executable''), db)
         else if stack_ranges db \<noteq> [] \<and> gi_undo_stack_revision_range s \<noteq> hd (stack_ranges db)
         then (Inl (inconsistent_stack_error (env_type_name env ty)
                 (gi_undo_stack_revision_range s) (hd (stack_ranges db))), db)
         else (Inr (), index_register ty db))) \<and>
    (ty \<notin> set (db_index_list db) \<and> db_segment db ty = None \<and> db_read_only db \<longrightarrow>
      add_index env ty db =
        (Inl (Runtime_error (''unable to find index for '' @ env_type_name env ty @ '' in read only database'')), db)) \<and>
    (ty \<notin> set (db_index_list db) \<and> db_segment db ty = None \<and> \<not> db_read_only db \<longrightarrow>
      (\<exists>t. add_index env ty db = (Inr (), index_register ty (db\<lparr>db_segment := (db_segment db)(ty \<mapsto> t)\<rparr>))))"
proof (intro conjI allI impI; (elim conjE)?)
  note env = database_env.intro [OF assms(1)]
  note ok = db_invD(1) [OF database_env.reachable_inv [OF env assms(2)]]
  note m = db_okD(2) [OF ok]
  show "add_index env ty db = (Inl (Logic_error (env_type_name env ty @ ''::type_id is already in use'')), db)"
    if "ty \<in> set (db_index_list db)"
  proof -
    have "type_id ty < length (db_index_map db) \<and> db_index_map db ! type_id ty \<noteq> None"
      using m that by (simp add: map_ok_def)
    then show ?thesis by (auto simp: add_index_def)
  qed
  show "add_index env ty db =
      (Inl (Runtime_error (''unable to find index for '' @ env_type_name env ty @ '' in read only database'')), db)"
    if "ty \<notin> set (db_index_list db)" "db_segment db ty = None" "db_read_only db"
    using that unfolding add_index_start [OF m that(1)] by (simp add: index_find_or_construct_def bindX_def)
  show "\<exists>t. add_index env ty db = (Inr (), index_register ty (db\<lparr>db_segment := (db_segment db)(ty \<mapsto> t)\<rparr>))"
    if "ty \<notin> set (db_index_list db)" "db_segment db ty = None" "\<not> db_read_only db"
    by (rule database_env.add_index_new [OF env ok that])
qed (rule add_index_existing [OF db_invD(1) [OF database_env.reachable_inv [OF database_env.intro [OF assms(1)] assms(2)]]]; assumption)

text \<open>
  A database with one session that is opened again, has only one of its two indices added,
  starts another session and then adds the second index.
\<close>

definition sample_reopened :: "nat db_op list" where
  "sample_reopened = [D_add_index Table_key_value_object_type, D_session True]"

lemma sample_reopened_reachable:
  "db_reachable cell_env (snd (eachX (db_exec cell_env) sample_reopened
     (database_open Read_write (db_segment (database_close (db_run sample_setup))))))" (is "db_reachable _ (snd ?m)")
proof -
  have "\<not> isl (fst ?m)" by code_simp
  then obtain u db' where m: "?m = (Inr u, db')" by (rule not_isl_Inr)
  have "db_program cell_env (database_open Read_write (db_segment (database_close (db_run sample_setup)))) []"
    by (rule prog_reopen [OF sample_program]) simp
  from eachX_program [OF this m] have "db_program cell_env db' []" by (simp add: sample_reopened_def)
  then show ?thesis by (auto simp: db_reachable_def m)
qed

theorem add_index_errors_witness:
  "add_index cell_env Key_value_object_type (db_run sample_setup) =
     (Inl (Logic_error ''object::type_id is already in use''), db_run sample_setup) \<and>
   fst (add_index cell_env Key_value_object_type (snd (eachX (db_exec cell_env) sample_reopened
     (database_open Read_write (db_segment (database_close (db_run sample_setup))))))) =
     Inl (inconsistent_stack_error ''object'' (0, 1) (0, 2))"
proof -
  let ?d = "snd (eachX (db_exec cell_env) sample_reopened
     (database_open Read_write (db_segment (database_close (db_run sample_setup)))))"
  have m: "multi_index (env_ops cell_env) row_id row_clash cell_inv" by (simp add: cell_multi_index)
  have n: "env_type_name cell_env Key_value_object_type = ''object''" by code_simp
  have a: "Key_value_object_type \<in> set (db_index_list (db_run sample_setup))" by code_simp
  have new: "Key_value_object_type \<notin> set (db_index_list ?d)" by code_simp
  have "db_segment ?d Key_value_object_type \<noteq> None" by code_simp
  then obtain s where s: "db_segment ?d Key_value_object_type = Some s" by blast
  have "map_option (\<lambda>s. (sizes_match cell_env Key_value_object_type s, gi_undo_stack_revision_range s, stack_ranges ?d))
      (db_segment ?d Key_value_object_type) = Some (True, (0, 1), [(0, 2)])" by code_simp
  then have "sizes_match cell_env Key_value_object_type s" "gi_undo_stack_revision_range s = (0, 1)"
    "stack_ranges ?d = [(0, 2)]" unfolding s by simp_all
  then show ?thesis
    using add_index_errors [OF m sample_reachable_db, of Key_value_object_type] a n
      add_index_errors [OF m sample_reopened_reachable, of Key_value_object_type] new s by simp
qed

text \<open>
  The revision a session of the database reports is 0, whatever the revision of the
  indices: \<open>index_impl::start_undo_session\<close> moves the session of the index, and the move
  constructor does not carry \<open>_revision\<close> over.
\<close>

theorem session_revision_lost:
  assumes "multi_index (env_ops env) row_id row_clash cinv" "db_reachable env db"
    and "database_start_undo_session True db = (Inr ds, db')" "db_index_list db \<noteq> []"
  shows "ds_revision ds = 0 \<and> (\<exists>r. database_revision db' = Inr r \<and> 1 \<le> r)"
proof -
  note env = database_env.intro [OF assms(1)]
  note st = database_env.start_ok [OF env db_invD(1) [OF database_env.reachable_inv [OF env assms(2)]] assms(3)]
  obtain ty tys where l: "db_index_list db = ty # tys" using assms(4) by (cases "db_index_list db") auto
  then have ty: "ty \<in> set (db_index_list db)" "db_index_list db' = ty # tys"
    using st(2) by (simp_all add: db_frame_def)
  obtain s where s: "db_segment db' ty = Some s" "gi_ok (env_ops env) row_id cinv s"
    using db_okD(4) [OF st(1), of ty] ty by auto
  have "length (db_history env db' ty) \<ge> 2"
  proof -
    have "db_history env db ty \<noteq> []"
      using db_okD(4) [OF db_invD(1) [OF database_env.reachable_inv [OF env assms(2)]] ty(1)]
      by (auto simp: db_history_def gi_history_def dest: arg_cong [of _ _ length])
    then show ?thesis using st(5) [OF ty(1)] by (cases "db_history env db ty") simp_all
  qed
  then have "1 \<le> gi_revision s" using s gi_okD(4) [OF s(2)] by (simp add: db_history_def gi_history_def)
  then show ?thesis using st(4) assms(4) ty(2) s(1) by (simp add: database_revision_def)
qed

theorem session_revision_lost_witness:
  "\<exists>ds db'. database_start_undo_session True (db_run sample_setup) = (Inr ds, db') \<and> ds_revision ds = 0 \<and>
     database_revision db' = Inr 2"
proof -
  have "\<not> isl (fst (database_start_undo_session True (db_run sample_setup)))" by code_simp
  then obtain ds db' where e: "database_start_undo_session True (db_run sample_setup) = (Inr ds, db')"
    by (rule not_isl_Inr)
  have "db_index_list (db_run sample_setup) \<noteq> []" by code_simp
  moreover have "database_revision (snd (database_start_undo_session True (db_run sample_setup))) = Inr 2" by code_simp
  ultimately show ?thesis
    using session_revision_lost [OF _ sample_reachable_db e] cell_multi_index e by simp
qed

end
