(* ===== verification/Ordered_Index.thy ===== *)
theory Ordered_Index
  imports Contract_Tables "HOL-Library.Product_Lexorder"
begin

text \<open>
  The ordered indices of a multi-index container that the tables are searched through.
  Boost's iterators are addresses of objects, \<open>None\<close> is \<open>end()\<close>. \<open>unique_index\<close> is the
  interface of \<open>find\<close> on a unique key; \<open>ordered_index\<close> extends it with the bounds and the
  steps of an iterator in the order of a composite key (compared lexicographically; a
  search by the first component compares only that). \<open>okey\<close> is the key of an object in
  the index, if the object has one. Both are interpreted on the container of cells.
\<close>

section \<open>Interfaces\<close>

record ('c, 'p, 'a, 'b) oi_ops =
  oi_find :: "'c \<Rightarrow> 'a \<times> 'b \<Rightarrow> 'p option"
  oi_begin :: "'c \<Rightarrow> 'p option"
  oi_lower_bound :: "'c \<Rightarrow> 'a \<times> 'b \<Rightarrow> 'p option"
  oi_upper_bound :: "'c \<Rightarrow> 'a \<times> 'b \<Rightarrow> 'p option"
  oi_upper_bound1 :: "'c \<Rightarrow> 'a \<Rightarrow> 'p option"
  oi_next :: "'c \<Rightarrow> 'p \<Rightarrow> 'p option"
  oi_prev :: "'c \<Rightarrow> 'p option \<Rightarrow> 'p option"

locale unique_index = multi_index ops key clash cinv
  for ops :: "('c, 'p, 'k::linorder, 'v) mi_ops" and key clash cinv +
  fixes okey :: "'v \<Rightarrow> 'o option" and ofind :: "'c \<Rightarrow> 'o \<Rightarrow> 'p option"
  assumes okey_clash: "okey v = Some k \<Longrightarrow> okey w = Some k \<Longrightarrow> clash v w"
    and ofind_iff: "cinv c \<Longrightarrow> ofind c k = Some p \<longleftrightarrow> (\<exists>v. mi_at ops c p = Some v \<and> okey v = Some k)"
begin

lemma ofind_at: "cinv c \<Longrightarrow> ofind c k = Some p \<Longrightarrow> \<exists>v. mi_at ops c p = Some v \<and> okey v = Some k"
  by (simp add: ofind_iff)

lemma ofind_None: "cinv c \<Longrightarrow> ofind c k = None \<longleftrightarrow> (\<forall>p v. mi_at ops c p = Some v \<longrightarrow> okey v \<noteq> Some k)"
  by (metis ofind_iff not_None_eq)

lemma okey_inj:
  "cinv c \<Longrightarrow> mi_at ops c p = Some v \<Longrightarrow> mi_at ops c q = Some w \<Longrightarrow> okey v = Some k \<Longrightarrow> okey w = Some k \<Longrightarrow> p = q"
  using no_clash okey_clash by blast

lemma ofind_contents:
  assumes "cinv c"
  shows "ofind c k = None \<longleftrightarrow> (\<forall>i v. contents ops c i = Some v \<longrightarrow> okey v \<noteq> Some k)"
  unfolding ofind_None [OF assms] contents_iff [OF assms] by blast

end

text \<open>The first and the last object whose key satisfies a property.\<close>

definition is_first :: "('p \<rightharpoonup> 'o::linorder) \<Rightarrow> ('o \<Rightarrow> bool) \<Rightarrow> 'p \<Rightarrow> bool" where
  "is_first keys P p \<longleftrightarrow> (\<exists>k. keys p = Some k \<and> P k \<and> (\<forall>q j. keys q = Some j \<longrightarrow> P j \<longrightarrow> k \<le> j))"

definition is_last :: "('p \<rightharpoonup> 'o::linorder) \<Rightarrow> ('o \<Rightarrow> bool) \<Rightarrow> 'p \<Rightarrow> bool" where
  "is_last keys P p \<longleftrightarrow> (\<exists>k. keys p = Some k \<and> P k \<and> (\<forall>q j. keys q = Some j \<longrightarrow> P j \<longrightarrow> j \<le> k))"

definition found :: "('p \<Rightarrow> bool) \<Rightarrow> ('o \<Rightarrow> bool) \<Rightarrow> ('p \<rightharpoonup> 'o) \<Rightarrow> 'p option \<Rightarrow> bool" where
  "found F P keys r \<longleftrightarrow> (case r of Some p \<Rightarrow> F p | None \<Rightarrow> (\<forall>q k. keys q = Some k \<longrightarrow> \<not> P k))"

locale ordered_index = unique_index ops key clash cinv okey "oi_find oi"
  for ops :: "('c, 'p, 'k::linorder, 'v) mi_ops" and key clash cinv
    and okey :: "'v \<Rightarrow> ('a::linorder \<times> 'b::linorder) option" and oi :: "('c, 'p, 'a, 'b) oi_ops" +
  fixes keys :: "'c \<Rightarrow> 'p \<rightharpoonup> 'a \<times> 'b"
  assumes keys_eq: "keys c p = Option.bind (mi_at ops c p) okey"
    and begin_first: "cinv c \<Longrightarrow> found (is_first (keys c) (\<lambda>_. True)) (\<lambda>_. True) (keys c) (oi_begin oi c)"
    and lower_first: "cinv c \<Longrightarrow> found (is_first (keys c) (\<lambda>x. k \<le> x)) (\<lambda>x. k \<le> x) (keys c) (oi_lower_bound oi c k)"
    and upper_first: "cinv c \<Longrightarrow> found (is_first (keys c) (\<lambda>x. k < x)) (\<lambda>x. k < x) (keys c) (oi_upper_bound oi c k)"
    and upper1_first: "cinv c \<Longrightarrow> found (is_first (keys c) (\<lambda>x. a < fst x)) (\<lambda>x. a < fst x) (keys c) (oi_upper_bound1 oi c a)"
    and next_first: "cinv c \<Longrightarrow> keys c p = Some k \<Longrightarrow> found (is_first (keys c) (\<lambda>x. k < x)) (\<lambda>x. k < x) (keys c) (oi_next oi c p)"
    and prev_last: "cinv c \<Longrightarrow> keys c p = Some k \<Longrightarrow> found (is_last (keys c) (\<lambda>x. x < k)) (\<lambda>x. x < k) (keys c) (oi_prev oi c (Some p))"
    and prev_end: "cinv c \<Longrightarrow> found (is_last (keys c) (\<lambda>_. True)) (\<lambda>_. True) (keys c) (oi_prev oi c None)"
begin

lemma keys_inj: "cinv c \<Longrightarrow> keys c p = Some k \<Longrightarrow> keys c q = Some k \<Longrightarrow> p = q"
  unfolding keys_eq bind_eq_Some_conv using okey_inj by blast

lemma begin_iff: "cinv c \<Longrightarrow> keys c p = Some k \<Longrightarrow> oi_begin oi c = Some p \<longleftrightarrow> (\<forall>q j. keys c q = Some j \<longrightarrow> k \<le> j)"
proof -
  assume c: "cinv c" and p: "keys c p = Some k"
  have f: "found (is_first (keys c) (\<lambda>_. True)) (\<lambda>_. True) (keys c) (oi_begin oi c)" by (rule begin_first [OF c])
  show ?thesis
  proof
    assume "oi_begin oi c = Some p"
    then show "\<forall>q j. keys c q = Some j \<longrightarrow> k \<le> j" using f p by (auto simp: found_def is_first_def)
  next
    assume min: "\<forall>q j. keys c q = Some j \<longrightarrow> k \<le> j"
    obtain r where r: "oi_begin oi c = Some r" using f p by (auto simp: found_def split: option.splits)
    then have "is_first (keys c) (\<lambda>_. True) r" using f by (simp add: found_def)
    then obtain j where "keys c r = Some j" "j \<le> k" unfolding is_first_def using p by blast
    then have "keys c r = Some k" using min by (metis antisym)
    then show "oi_begin oi c = Some p" using r keys_inj [OF c p] by simp
  qed
qed

end

section \<open>Indices of the container of cells\<close>

text \<open>The cell whose key is best for a strict order \<open>lt\<close>.\<close>

fun best_cell :: "('o \<Rightarrow> 'o \<Rightarrow> bool) \<Rightarrow> ('v \<Rightarrow> 'o option) \<Rightarrow> (nat \<times> 'v) list \<Rightarrow> (nat \<times> 'o) option" where
  "best_cell lt ok [] = None"
| "best_cell lt ok ((p, v) # xs) =
     (case ok v of
        None \<Rightarrow> best_cell lt ok xs
      | Some k \<Rightarrow>
          (case best_cell lt ok xs of None \<Rightarrow> Some (p, k) | Some (q, j) \<Rightarrow> if lt k j then Some (p, k) else Some (q, j)))"

definition key_where :: "('v \<Rightarrow> 'o option) \<Rightarrow> ('o \<Rightarrow> bool) \<Rightarrow> 'v \<Rightarrow> 'o option" where
  "key_where ok P v = (case ok v of None \<Rightarrow> None | Some k \<Rightarrow> if P k then Some k else None)"

definition lc_first :: "('v \<Rightarrow> 'o::linorder option) \<Rightarrow> ('o \<Rightarrow> bool) \<Rightarrow> 'v lc \<Rightarrow> nat option" where
  "lc_first ok P c = map_option fst (best_cell (<) (key_where ok P) (lc_cells c))"

definition lc_last :: "('v \<Rightarrow> 'o::linorder option) \<Rightarrow> ('o \<Rightarrow> bool) \<Rightarrow> 'v lc \<Rightarrow> nat option" where
  "lc_last ok P c = map_option fst (best_cell (>) (key_where ok P) (lc_cells c))"

definition lc_keys :: "('v \<Rightarrow> 'o option) \<Rightarrow> 'v lc \<Rightarrow> nat \<rightharpoonup> 'o" where
  "lc_keys ok c p = Option.bind (lc_at c p) ok"

definition lc_ofind :: "('v \<Rightarrow> 'o option) \<Rightarrow> 'v lc \<Rightarrow> 'o \<Rightarrow> nat option" where
  "lc_ofind ok c k = map_option fst (List.find (\<lambda>x. ok (snd x) = Some k) (lc_cells c))"

definition lc_oi :: "('v \<Rightarrow> ('a::linorder \<times> 'b::linorder) option) \<Rightarrow> ('v lc, nat, 'a, 'b) oi_ops" where
  "lc_oi ok =
     \<lparr>oi_find = lc_ofind ok,
      oi_begin = lc_first ok (\<lambda>_. True),
      oi_lower_bound = (\<lambda>c k. lc_first ok (\<lambda>x. k \<le> x) c),
      oi_upper_bound = (\<lambda>c k. lc_first ok (\<lambda>x. k < x) c),
      oi_upper_bound1 = (\<lambda>c a. lc_first ok (\<lambda>x. a < fst x) c),
      oi_next = (\<lambda>c p. case lc_keys ok c p of None \<Rightarrow> None | Some k \<Rightarrow> lc_first ok (\<lambda>x. k < x) c),
      oi_prev = (\<lambda>c p. case p of
          None \<Rightarrow> lc_last ok (\<lambda>_. True) c
        | Some q \<Rightarrow> (case lc_keys ok c q of None \<Rightarrow> None | Some k \<Rightarrow> lc_last ok (\<lambda>x. x < k) c))\<rparr>"

lemma best_cell_None: "best_cell lt ok xs = None \<Longrightarrow> (q, v) \<in> set xs \<Longrightarrow> ok v = None"
  by (induction lt ok xs rule: best_cell.induct) (auto split: option.splits if_splits)

lemma best_cell_in: "best_cell lt ok xs = Some (p, k) \<Longrightarrow> \<exists>v. (p, v) \<in> set xs \<and> ok v = Some k"
  by (induction lt ok xs rule: best_cell.induct) (fastforce split: option.splits if_splits)+

lemma best_cell_le:
  assumes "best_cell lt ok xs = Some (p, k)" "(q, v) \<in> set xs" "ok v = Some j"
    and refl: "\<And>x. le x x" and trans: "\<And>x y z. le x y \<Longrightarrow> le y z \<Longrightarrow> le x z"
    and lt: "\<And>x y. lt x y \<Longrightarrow> le x y" and nlt: "\<And>x y. \<not> lt x y \<Longrightarrow> le y x"
  shows "le k j"
  using assms(1,2)
proof (induction xs arbitrary: p k)
  case (Cons x xs)
  obtain r w where x: "x = (r, w)" by (cases x)
  show ?case
  proof (cases "ok w")
    case None
    then show ?thesis using Cons assms(3) x by auto
  next
    case (Some i)
    show ?thesis
    proof (cases "best_cell lt ok xs")
      case None
      then have "k = i" "(q, v) = x"
        using Cons.prems x Some best_cell_None [OF None, of q v] assms(3) by auto
      then show ?thesis using x Some assms(3) refl by simp
    next
      case b: (Some b)
      obtain p' i' where p': "b = (p', i')" by (cases b)
      have k: "k = (if lt i i' then i else i')" using Cons.prems(1) x Some b p' by (auto split: if_splits)
      have ki: "le k i" "le k i'" using k lt nlt refl by auto
      show ?thesis
      proof (cases "(q, v) = x")
        case True
        then show ?thesis using ki x Some assms(3) by simp
      next
        case False
        then have "le i' j" using Cons.IH [of p' i'] Cons.prems(2) b p' by simp
        then show ?thesis using ki(2) trans by blast
      qed
    qed
  qed
qed simp

lemma key_where_Some: "key_where ok P v = Some k \<longleftrightarrow> ok v = Some k \<and> P k"
  by (auto simp: key_where_def split: option.splits if_splits)

lemma lc_keys_iff: "lc_inv ucl c \<Longrightarrow> lc_keys ok c p = Some k \<longleftrightarrow> (\<exists>v. (p, v) \<in> set (lc_cells c) \<and> ok v = Some k)"
  by (auto simp: lc_keys_def bind_eq_Some_conv lc_at_iff)

lemma lc_first_found:
  assumes c: "lc_inv ucl c"
  shows "found (is_first (lc_keys ok c) P) P (lc_keys ok c) (lc_first ok P c)"
proof (cases "best_cell (<) (key_where ok P) (lc_cells c)")
  case None
  have "\<not> P k" if k: "lc_keys ok c q = Some k" for q k
  proof -
    obtain v where v: "(q, v) \<in> set (lc_cells c)" "ok v = Some k"
      using k lc_keys_iff [OF c, of ok q k] by auto
    have "key_where ok P v = None" by (rule best_cell_None [OF None v(1)])
    then show ?thesis using v(2) by (simp add: key_where_def split: if_splits)
  qed
  then show ?thesis using None by (simp add: lc_first_def found_def)
next
  case (Some b)
  obtain p k where b: "b = (p, k)" by (cases b)
  have in1: "lc_keys ok c p = Some k" "P k"
    using best_cell_in [OF Some [unfolded b]] by (auto simp: lc_keys_iff [OF c] key_where_Some)
  have "k \<le> j" if q: "lc_keys ok c q = Some j" "P j" for q j
  proof -
    obtain v where "(q, v) \<in> set (lc_cells c)" "key_where ok P v = Some j"
      using q by (auto simp: lc_keys_iff [OF c] key_where_Some)
    then show ?thesis by (rule best_cell_le [OF Some [unfolded b]]) auto
  qed
  then show ?thesis using Some in1 by (auto simp: lc_first_def found_def is_first_def b)
qed

lemma lc_last_found:
  assumes c: "lc_inv ucl c"
  shows "found (is_last (lc_keys ok c) P) P (lc_keys ok c) (lc_last ok P c)"
proof (cases "best_cell (>) (key_where ok P) (lc_cells c)")
  case None
  have "\<not> P k" if k: "lc_keys ok c q = Some k" for q k
  proof -
    obtain v where v: "(q, v) \<in> set (lc_cells c)" "ok v = Some k"
      using k lc_keys_iff [OF c, of ok q k] by auto
    have "key_where ok P v = None" by (rule best_cell_None [OF None v(1)])
    then show ?thesis using v(2) by (simp add: key_where_def split: if_splits)
  qed
  then show ?thesis using None by (simp add: lc_last_def found_def)
next
  case (Some b)
  obtain p k where b: "b = (p, k)" by (cases b)
  have in1: "lc_keys ok c p = Some k" "P k"
    using best_cell_in [OF Some [unfolded b]] by (auto simp: lc_keys_iff [OF c] key_where_Some)
  have "k \<ge> j" if q: "lc_keys ok c q = Some j" "P j" for q j
  proof -
    obtain v where "(q, v) \<in> set (lc_cells c)" "key_where ok P v = Some j"
      using q by (auto simp: lc_keys_iff [OF c] key_where_Some)
    then show ?thesis by (rule best_cell_le [OF Some [unfolded b], where le = "(\<ge>)"]) auto
  qed
  then show ?thesis using Some in1 by (auto simp: lc_last_def found_def is_last_def b)
qed

lemma lc_ofind_iff:
  assumes c: "lc_inv ucl c" and clash: "\<And>v w k. ok v = Some k \<Longrightarrow> ok w = Some k \<Longrightarrow> ucl v w"
  shows "lc_ofind ok c k = Some p \<longleftrightarrow> (\<exists>v. lc_at c p = Some v \<and> ok v = Some k)"
proof
  assume "lc_ofind ok c k = Some p"
  then show "\<exists>v. lc_at c p = Some v \<and> ok v = Some k"
    using c by (auto simp: lc_ofind_def lc_at_iff find_Some_iff) (metis nth_mem snd_conv)
next
  assume "\<exists>v. lc_at c p = Some v \<and> ok v = Some k"
  then obtain v where v: "(p, v) \<in> set (lc_cells c)" "ok v = Some k" using c by (auto simp: lc_at_iff)
  then obtain x where x: "List.find (\<lambda>x. ok (snd x) = Some k) (lc_cells c) = Some x"
    by (cases "List.find (\<lambda>x. ok (snd x) = Some k) (lc_cells c)") (auto simp: find_None_iff)
  then have "x \<in> set (lc_cells c)" "ok (snd x) = Some k" by (auto simp: find_Some_iff)
  then have "fst x = p" using v c clash [of "snd x" k v] by (force simp: lc_inv_def)
  then show "lc_ofind ok c k = Some p" using x by (simp add: lc_ofind_def)
qed

section \<open>The table indices\<close>

fun row_scope_primary :: "row \<Rightarrow> (int \<times> u64) option" where
  "row_scope_primary (Key_value_row o1) = Some (by_scope_primary o1)"
| "row_scope_primary _ = None"

fun row_code_scope_table :: "row \<Rightarrow> (name \<times> sha256 \<times> name) option" where
  "row_code_scope_table (Table_id_row t) = Some (by_code_scope_table t)"
| "row_code_scope_table _ = None"

fun row_key :: "row \<Rightarrow> sha256 option" where
  "row_key (Table_key_row t) = Some (tk_id t)"
| "row_key _ = None"

lemma row_index_clash:
  "row_scope_primary v = Some k \<Longrightarrow> row_scope_primary w = Some k \<Longrightarrow> row_clash v w"
  "row_code_scope_table v = Some j \<Longrightarrow> row_code_scope_table w = Some j \<Longrightarrow> row_clash v w"
  "row_key v = Some i \<Longrightarrow> row_key w = Some i \<Longrightarrow> row_clash v w"
  by (cases v; cases w; simp add: row_clash_def)+

interpretation kv_cells: ordered_index cell_ops row_id row_clash cell_inv row_scope_primary
  "lc_oi row_scope_primary" "lc_keys row_scope_primary"
proof (unfold_locales, goal_cases)
  case (1 v k w) then show ?case by (rule row_index_clash)
next
  case (2 c k p)
  then show ?case using lc_ofind_iff [OF 2, of row_scope_primary k p] row_index_clash(1) by (simp add: lc_oi_def lc_ops_def)
next
  case 3 show ?case by (simp add: lc_keys_def lc_ops_def)
qed (simp_all add: lc_oi_def lc_first_found lc_last_found)

interpretation cst_cells: unique_index cell_ops row_id row_clash cell_inv row_code_scope_table "lc_ofind row_code_scope_table"
proof (unfold_locales, goal_cases)
  case (2 c k p)
  then show ?case using lc_ofind_iff [OF 2, of row_code_scope_table k p] row_index_clash(2) by (simp add: lc_ops_def)
qed (rule row_index_clash(2))

interpretation key_cells: unique_index cell_ops row_id row_clash cell_inv row_key "lc_ofind row_key"
proof (unfold_locales, goal_cases)
  case (2 c k p)
  then show ?case using lc_ofind_iff [OF 2, of row_key k p] row_index_clash(3) by (simp add: lc_ops_def)
qed (rule row_index_clash(3))

end
