(* ===== verification/Iterator_Cache.thy ===== *)
theory Iterator_Cache
  imports Exec_Monad
begin

text \<open>
  \<open>iterator_cache\<close> (eos_db.hpp): the mapping between the integers handed out as iterators
  and the objects they stand for. Non-negative iterators index \<open>_iterator_to_object\<close>,
  iterators below -1 are end iterators of tables. Pointers are addresses; a cleared entry
  is \<open>None\<close>. \<open>int\<close> has 32 bits (\<open>as_int\<close> is the conversion to it).
\<close>

record 'p iterator_cache =
  ic_table_cache :: "(int, 'p \<times> int) omap"
  ic_end_iterator_to_table :: "'p list"
  ic_iterator_to_object :: "'p option list"
  ic_object_to_iterator :: "'p \<rightharpoonup> int"

definition ic_new :: "'p iterator_cache" where
  "ic_new = \<lparr>ic_table_cache = [], ic_end_iterator_to_table = [], ic_iterator_to_object = [],
     ic_object_to_iterator = Map.empty\<rparr>"

definition as_int :: "int \<Rightarrow> int" where
  "as_int i = sint (word_of_int i :: 32 word)"

definition end_iterator_to_index :: "int \<Rightarrow> nat" where
  "end_iterator_to_index ei = nat (- ei - 2)"

definition index_to_end_iterator :: "nat \<Rightarrow> int" where
  "index_to_end_iterator indx = as_int (- (int indx + 2))"

definition cache_table :: "int \<Rightarrow> 'p \<Rightarrow> ('p iterator_cache, int) exec" where
  "cache_table i tobj =
     bindX getX (\<lambda>c.
     case map_of (ic_table_cache c) i of
       Some (_, ei) \<Rightarrow> returnX ei
     | None \<Rightarrow>
         let ei = index_to_end_iterator (length (ic_end_iterator_to_table c)) in
         bindX (modifyX (\<lambda>c. c\<lparr>ic_end_iterator_to_table := ic_end_iterator_to_table c @ [tobj],
                              ic_table_cache := om_emplace i (tobj, ei) (ic_table_cache c)\<rparr>)) (\<lambda>_.
         returnX ei))"

definition get_table :: "int \<Rightarrow> ('p iterator_cache, 'p) exec" where
  "get_table i =
     bindX getX (\<lambda>c.
     case map_of (ic_table_cache c) i of
       None \<Rightarrow> throwX (Assert_failed ''an invariant was broken, table should be in cache'')
     | Some (t, _) \<Rightarrow> returnX t)"

definition get_end_iterator_by_table_id :: "int \<Rightarrow> ('p iterator_cache, int) exec" where
  "get_end_iterator_by_table_id i =
     bindX getX (\<lambda>c.
     case map_of (ic_table_cache c) i of
       None \<Rightarrow> throwX (Assert_failed ''an invariant was broken, table should be in cache'')
     | Some (_, ei) \<Rightarrow> returnX ei)"

definition find_table_by_end_iterator :: "int \<Rightarrow> ('p iterator_cache, 'p option) exec" where
  "find_table_by_end_iterator ei =
     bindX (assertX (ei < -1) ''not an end iterator'') (\<lambda>_.
     bindX getX (\<lambda>c.
     let indx = end_iterator_to_index ei in
     if indx \<ge> length (ic_end_iterator_to_table c) then returnX None
     else returnX (Some (ic_end_iterator_to_table c ! indx))))"

definition ic_get :: "int \<Rightarrow> ('p iterator_cache, 'p) exec" where
  "ic_get itr =
     bindX (assertX (itr \<noteq> -1) ''invalid iterator'') (\<lambda>_.
     bindX (assertX (itr \<ge> 0) ''dereference of end iterator'') (\<lambda>_.
     bindX getX (\<lambda>c.
     bindX (assertX (nat itr < length (ic_iterator_to_object c)) ''iterator out of range'') (\<lambda>_.
     case ic_iterator_to_object c ! nat itr of
       None \<Rightarrow> throwX (Assert_failed ''dereference of deleted object'')
     | Some p \<Rightarrow> returnX p))))"

definition ic_remove :: "int \<Rightarrow> ('p iterator_cache, unit) exec" where
  "ic_remove itr =
     bindX (assertX (itr \<noteq> -1) ''invalid iterator'') (\<lambda>_.
     bindX (assertX (itr \<ge> 0) ''cannot call remove on end iterators'') (\<lambda>_.
     bindX getX (\<lambda>c.
     bindX (assertX (nat itr < length (ic_iterator_to_object c)) ''iterator out of range'') (\<lambda>_.
     case ic_iterator_to_object c ! nat itr of
       None \<Rightarrow> returnX ()
     | Some p \<Rightarrow>
         modifyX (\<lambda>c. c\<lparr>ic_iterator_to_object := (ic_iterator_to_object c)[nat itr := None],
                        ic_object_to_iterator := (ic_object_to_iterator c)(p := None)\<rparr>)))))"

definition ic_add :: "'p \<Rightarrow> ('p iterator_cache, int) exec" where
  "ic_add p =
     bindX getX (\<lambda>c.
     case ic_object_to_iterator c p of
       Some i \<Rightarrow> returnX i
     | None \<Rightarrow>
         let i = as_int (int (length (ic_iterator_to_object c))) in
         bindX (modifyX (\<lambda>c. c\<lparr>ic_iterator_to_object := ic_iterator_to_object c @ [Some p],
                              ic_object_to_iterator := (ic_object_to_iterator c)(p \<mapsto> i)\<rparr>)) (\<lambda>_.
         returnX i))"

section \<open>The invariant\<close>

text \<open>
  Live iterators and objects correspond one to one, every cached table has the end
  iterator of its position, and the tables of the cache are exactly the positions.
\<close>

definition ic_limit :: nat where
  "ic_limit = 2147483646"

definition ic_ok :: "'p iterator_cache \<Rightarrow> bool" where
  "ic_ok c \<longleftrightarrow>
     om_wf (ic_table_cache c) \<and>
     (\<forall>i t ei. map_of (ic_table_cache c) i = Some (t, ei) \<longrightarrow>
        ei < -1 \<and> end_iterator_to_index ei < length (ic_end_iterator_to_table c) \<and>
        ic_end_iterator_to_table c ! end_iterator_to_index ei = t) \<and>
     (\<forall>p i. ic_object_to_iterator c p = Some i \<longleftrightarrow>
        0 \<le> i \<and> nat i < length (ic_iterator_to_object c) \<and> ic_iterator_to_object c ! nat i = Some p) \<and>
     length (ic_end_iterator_to_table c) \<le> ic_limit \<and> length (ic_iterator_to_object c) \<le> ic_limit"

lemma ic_okD:
  assumes "ic_ok c"
  shows "om_wf (ic_table_cache c)"
    and "map_of (ic_table_cache c) i = Some (t, ei) \<Longrightarrow> ei < -1 \<and>
      end_iterator_to_index ei < length (ic_end_iterator_to_table c) \<and>
      ic_end_iterator_to_table c ! end_iterator_to_index ei = t"
    and "ic_object_to_iterator c p = Some j \<longleftrightarrow>
      0 \<le> j \<and> nat j < length (ic_iterator_to_object c) \<and> ic_iterator_to_object c ! nat j = Some p"
  using assms unfolding ic_ok_def by blast+

lemma as_int_id: "- 2147483648 \<le> i \<Longrightarrow> i \<le> 2147483647 \<Longrightarrow> as_int i = i"
  by (simp add: as_int_def signed_of_int signed_take_bit_int_eq_self)

lemma ic_new_ok: "ic_ok ic_new"
  by (simp add: ic_ok_def ic_new_def)

lemma ic_get_conv:
  "ic_get i c = (Inr p, c') \<longleftrightarrow>
     c' = c \<and> 0 \<le> i \<and> nat i < length (ic_iterator_to_object c) \<and> ic_iterator_to_object c ! nat i = Some p"
  by (auto simp: ic_get_def exec_simps split: option.splits)

text \<open>\<open>add\<close> hands out an iterator that dereferences to the object, and the same one again.\<close>

lemma ic_add_ok:
  assumes ok: "ic_ok c" and room: "length (ic_iterator_to_object c) < ic_limit"
  obtains i c' where "ic_add p c = (Inr i, c')" "ic_ok c'" "0 \<le> i" "ic_get i c' = (Inr p, c')"
    "\<And>j q. ic_get j c = (Inr q, c) \<Longrightarrow> ic_get j c' = (Inr q, c')"
    "ic_table_cache c' = ic_table_cache c" "ic_end_iterator_to_table c' = ic_end_iterator_to_table c"
proof (cases "ic_object_to_iterator c p")
  case (Some i)
  then have "ic_add p c = (Inr i, c)" "0 \<le> i" "ic_get i c = (Inr p, c)"
    using ic_okD(3) [OF ok, of p i] by (simp_all add: ic_add_def ic_get_conv)
  then show thesis using that ok by blast
next
  case None
  let ?n = "length (ic_iterator_to_object c)"
  define c' where "c' = c\<lparr>ic_iterator_to_object := ic_iterator_to_object c @ [Some p],
    ic_object_to_iterator := (ic_object_to_iterator c)(p \<mapsto> int ?n)\<rparr>"
  have n: "as_int (int ?n) = int ?n" using room by (intro as_int_id) (simp_all add: ic_limit_def)
  have e: "ic_add p c = (Inr (int ?n), c')" using None n by (simp add: ic_add_def c'_def Let_def)
  have "ic_object_to_iterator c' q = Some i \<longleftrightarrow>
      0 \<le> i \<and> nat i < length (ic_iterator_to_object c') \<and> ic_iterator_to_object c' ! nat i = Some q" for q i
    using ic_okD(3) [OF ok, of q i] ic_okD(3) [OF ok, of p i] None
    by (auto simp: c'_def nth_append less_Suc_eq split: if_splits)
  then have "ic_ok c'" using ok room by (simp add: ic_ok_def) (simp add: c'_def)
  moreover have "ic_get (int ?n) c' = (Inr p, c')" by (simp add: ic_get_conv c'_def)
  moreover have "ic_get j c = (Inr q, c) \<Longrightarrow> ic_get j c' = (Inr q, c')" for j q
    by (auto simp: ic_get_conv c'_def nth_append)
  ultimately show thesis using e that [of "int ?n" c'] by (simp add: c'_def)
qed

lemma ic_remove_ok:
  assumes ok: "ic_ok c" and g: "ic_get i c = (Inr p, c)"
  obtains c' where "ic_remove i c = (Inr (), c')" "ic_ok c'"
    "ic_get i c' = (Inl (Assert_failed ''dereference of deleted object''), c')"
    "\<And>j q. j \<noteq> i \<Longrightarrow> ic_get j c = (Inr q, c) \<Longrightarrow> ic_get j c' = (Inr q, c')"
    "ic_table_cache c' = ic_table_cache c" "ic_end_iterator_to_table c' = ic_end_iterator_to_table c"
proof -
  have i: "0 \<le> i" "nat i < length (ic_iterator_to_object c)" "ic_iterator_to_object c ! nat i = Some p"
    using g by (simp_all add: ic_get_conv)
  define c' where "c' = c\<lparr>ic_iterator_to_object := (ic_iterator_to_object c)[nat i := None],
    ic_object_to_iterator := (ic_object_to_iterator c)(p := None)\<rparr>"
  have e: "ic_remove i c = (Inr (), c')" using i by (simp add: ic_remove_def c'_def)
  have "ic_object_to_iterator c' q = Some j \<longleftrightarrow>
      0 \<le> j \<and> nat j < length (ic_iterator_to_object c') \<and> ic_iterator_to_object c' ! nat j = Some q" for q j
    using ic_okD(3) [OF ok, of q j] ic_okD(3) [OF ok, of p i] i
    by (auto simp: c'_def nth_list_update split: if_splits)
  then have "ic_ok c'" using ok by (simp add: ic_ok_def) (simp add: c'_def)
  moreover have "ic_get i c' = (Inl (Assert_failed ''dereference of deleted object''), c')"
    using i by (simp add: ic_get_def c'_def)
  moreover have "j \<noteq> i \<Longrightarrow> ic_get j c = (Inr q, c) \<Longrightarrow> ic_get j c' = (Inr q, c')" for j q
    using i by (auto simp: ic_get_conv c'_def nth_list_update)
  ultimately show thesis using e that [of c'] by (simp add: c'_def)
qed

lemma cache_table_ok:
  assumes ok: "ic_ok c" and room: "length (ic_end_iterator_to_table c) < ic_limit"
  obtains ei c' where "cache_table i t c = (Inr ei, c')" "ic_ok c'" "ei < -1"
    "\<exists>u. map_of (ic_table_cache c') i = Some (u, ei) \<and> find_table_by_end_iterator ei c' = (Inr (Some u), c') \<and>
      (map_of (ic_table_cache c) i = None \<longrightarrow> u = t)"
    "ic_iterator_to_object c' = ic_iterator_to_object c" "ic_object_to_iterator c' = ic_object_to_iterator c"
    "\<And>j. j \<noteq> i \<Longrightarrow> map_of (ic_table_cache c') j = map_of (ic_table_cache c) j"
proof (cases "map_of (ic_table_cache c) i")
  case (Some x)
  obtain u ei where x: "x = (u, ei)" by (cases x)
  have "cache_table i t c = (Inr ei, c)" using Some x by (simp add: cache_table_def)
  moreover have "find_table_by_end_iterator ei c = (Inr (Some u), c)" "ei < -1"
    using ic_okD(2) [OF ok, of i u ei] Some x by (simp_all add: find_table_by_end_iterator_def Let_def)
  ultimately show thesis using that [of ei c] ok Some x by simp
next
  case None
  let ?n = "length (ic_end_iterator_to_table c)"
  define ei where "ei = - (int ?n + 2)"
  define c' where "c' = c\<lparr>ic_end_iterator_to_table := ic_end_iterator_to_table c @ [t],
    ic_table_cache := om_emplace i (t, ei) (ic_table_cache c)\<rparr>"
  have n: "index_to_end_iterator ?n = ei"
    unfolding index_to_end_iterator_def ei_def using room by (intro as_int_id) (simp_all add: ic_limit_def)
  have e: "cache_table i t c = (Inr ei, c')" using None n by (simp add: cache_table_def c'_def Let_def)
  have idx: "end_iterator_to_index ei = ?n" "ei < -1" by (simp_all add: ei_def end_iterator_to_index_def)
  have m: "map_of (ic_table_cache c') = (map_of (ic_table_cache c))(i \<mapsto> (t, ei))"
    using None by (simp add: c'_def map_of_om_emplace om_has_conv)
  have tc: "f < -1 \<and> end_iterator_to_index f < length (ic_end_iterator_to_table c') \<and>
      ic_end_iterator_to_table c' ! end_iterator_to_index f = u"
    if "map_of (ic_table_cache c') j = Some (u, f)" for j u f
  proof (cases "j = i")
    case True
    then show ?thesis using that m idx by (simp add: c'_def)
  next
    case False
    then show ?thesis using that m ic_okD(2) [OF ok, of j u f] by (simp add: c'_def nth_append)
  qed
  have "om_wf (ic_table_cache c')" using ic_okD(1) [OF ok] by (simp add: c'_def om_wf_emplace)
  then have "ic_ok c'" using ok tc room unfolding ic_ok_def by (simp add: c'_def)
  moreover have "find_table_by_end_iterator ei c' = (Inr (Some t), c')"
    using idx by (simp add: find_table_by_end_iterator_def c'_def Let_def)
  ultimately show thesis using e idx(2) m None that [of ei c'] by (simp add: c'_def)
qed

end
