(* ===== verification/Eos_Db.thy ===== *)
theory Eos_Db
  imports Database_Runs Ordered_Index Iterator_Cache
begin

text \<open>
  \<open>eos_db\<close> (eos_db.hpp, eos_db.cpp): the table interface on top of the database. Three
  ways to store data: under the hash of a scope and a key (\<open>db_store_by_key\<close> ...), one
  object per table (\<open>db_store_by_scope\<close> ...), and rows with a 64-bit primary key in a table
  (\<open>db_store_i64\<close> ...), the last through integer iterators of an \<open>iterator_cache\<close>; the
  class \<open>eos_db::generic_index\<close> keeps secondary indices. References are addresses; reading
  one whose object is gone is \<open>Undefined_behaviour\<close>. The member \<open>id\<close> of a table or of a
  secondary index object is not set by the code, so its value is an argument (\<open>junk\<close>).
\<close>

section \<open>Environment and state\<close>

record ('c, 'p) eos_env =
  ee_env :: "('c, 'p) env"
  ee_code_scope_table :: "'c \<Rightarrow> name \<times> sha256 \<times> name \<Rightarrow> 'p option"
  ee_by_key :: "'c \<Rightarrow> sha256 \<Rightarrow> 'p option"
  ee_scope_primary :: "('c, 'p, int, u64) oi_ops"
  ee_digest :: digest

record ('c, 'p) eos_db =
  es_db :: "'c database"
  es_keyval_cache :: "'p iterator_cache"
  es_idx64 :: "'p iterator_cache"
  es_idx128 :: "'p iterator_cache"
  es_idx256 :: "'p iterator_cache"

definition eos_db_new :: "'c database \<Rightarrow> ('c, 'p) eos_db" where
  "eos_db_new db =
     \<lparr>es_db = db, es_keyval_cache = ic_new, es_idx64 = ic_new, es_idx128 = ic_new, es_idx256 = ic_new\<rparr>"

definition dbX :: "('c database, 'a) exec \<Rightarrow> (('c, 'p) eos_db, 'a) exec" where
  "dbX m = liftX es_db (\<lambda>d s. s\<lparr>es_db := d\<rparr>) m"

definition keyvalX :: "('p iterator_cache, 'a) exec \<Rightarrow> (('c, 'p) eos_db, 'a) exec" where
  "keyvalX m = liftX es_keyval_cache (\<lambda>c s. s\<lparr>es_keyval_cache := c\<rparr>) m"

text \<open>Reading the object a reference refers to.\<close>

definition deref :: "('c, 'p) eos_env \<Rightarrow> table_type \<Rightarrow> 'p \<Rightarrow> ('c database, row) exec" where
  "deref e ty p =
     bindX getX (\<lambda>db.
     resX (bindE (someE (db_segment db ty) Undefined_behaviour) (\<lambda>s.
           someE (mi_at (env_ops (ee_env e)) (gi_indices s) p) Undefined_behaviour)))"

definition deref_table :: "('c, 'p) eos_env \<Rightarrow> 'p \<Rightarrow> ('c database, table_id_object) exec" where
  "deref_table e p =
     bindX (deref e Table_id_object_type p) (\<lambda>r.
     case r of Table_id_row t \<Rightarrow> returnX t | _ \<Rightarrow> throwX Undefined_behaviour)"

definition deref_kv :: "('c, 'p) eos_env \<Rightarrow> 'p \<Rightarrow> ('c database, key_value_object) exec" where
  "deref_kv e p =
     bindX (deref e Key_value_object_type p) (\<lambda>r.
     case r of Key_value_row o1 \<Rightarrow> returnX o1 | _ \<Rightarrow> throwX Undefined_behaviour)"

text \<open>Modifiers: the lambdas passed to \<open>db.modify\<close>.\<close>

fun on_table :: "(table_id_object \<Rightarrow> table_id_object) \<Rightarrow> row \<Rightarrow> row" where
  "on_table f (Table_id_row t) = Table_id_row (f t)"
| "on_table f r = r"

fun on_kv :: "(key_value_object \<Rightarrow> key_value_object) \<Rightarrow> row \<Rightarrow> row" where
  "on_kv f (Key_value_row o1) = Key_value_row (f o1)"
| "on_kv f r = r"

fun on_key :: "(table_key_object \<Rightarrow> table_key_object) \<Rightarrow> row \<Rightarrow> row" where
  "on_key f (Table_key_row t) = Table_key_row (f t)"
| "on_key f r = r"

fun on_index_obj :: "(index_object \<Rightarrow> index_object) \<Rightarrow> row \<Rightarrow> row" where
  "on_index_obj f (Index_row ty o1) = Index_row ty (f o1)"
| "on_index_obj f r = r"

section \<open>Key-value storage\<close>

text \<open>
  \<open>key\<close> is the packed form of the key; the two hashes are as in the source. \<open>by_key\<close> is the
  only index of these objects.
\<close>

definition table_key :: "digest \<Rightarrow> sha256 \<Rightarrow> u8 list \<Rightarrow> sha256" where
  "table_key digest scope key =
     (let hashed_key = sha256_hash digest key in sha256_hash_pair digest (scope, hashed_key))"

definition db_find_by_key :: "('c, 'p) eos_env \<Rightarrow> sha256 \<Rightarrow> u8 list \<Rightarrow> ('c database, 'p option) exec" where
  "db_find_by_key e scope key =
     database_find Table_key_value_object_type (\<lambda>c. ee_by_key e c (table_key (ee_digest e) scope key))"

definition db_store_by_key ::
  "('c, 'p) eos_env \<Rightarrow> sha256 \<Rightarrow> u8 list \<Rightarrow> sha256 \<Rightarrow> blob \<Rightarrow> ('c database, 'p) exec" where
  "db_store_by_key e scope key payer buffer =
     (let tk = table_key (ee_digest e) scope key in
      bindX (database_find Table_key_value_object_type (\<lambda>c. ee_by_key e c tk)) (\<lambda>existing_tid.
      bindX (assertX (existing_tid = None) ''object key alreay exist'') (\<lambda>_.
      database_create (ee_env e) Table_key_value_object_type
        (Table_key_row \<lparr>tk_id = tk, tk_payer = payer, tk_value = buffer\<rparr>))))"

definition db_update_by_key ::
  "('c, 'p) eos_env \<Rightarrow> sha256 \<Rightarrow> u8 list \<Rightarrow> sha256 \<Rightarrow> blob \<Rightarrow> ('c database, unit) exec" where
  "db_update_by_key e scope key payer buffer =
     (let tk = table_key (ee_digest e) scope key in
      bindX (database_find Table_key_value_object_type (\<lambda>c. ee_by_key e c tk)) (\<lambda>existing_tid.
      case existing_tid of
        None \<Rightarrow> throwX (Assert_failed ''object key not found'')
      | Some p \<Rightarrow>
          database_modify (ee_env e) Table_key_value_object_type p
            (on_key (\<lambda>t. t\<lparr>tk_payer := payer, tk_value := buffer\<rparr>))))"

definition db_remove_by_key :: "('c, 'p) eos_env \<Rightarrow> sha256 \<Rightarrow> u8 list \<Rightarrow> ('c database, unit) exec" where
  "db_remove_by_key e scope key =
     (let tk = table_key (ee_digest e) scope key in
      bindX (database_find Table_key_value_object_type (\<lambda>c. ee_by_key e c tk)) (\<lambda>existing_tid.
      case existing_tid of
        None \<Rightarrow> throwX (Assert_failed ''object key not found'')
      | Some p \<Rightarrow> database_remove (ee_env e) Table_key_value_object_type p))"

section \<open>Tables\<close>

definition find_table :: "('c, 'p) eos_env \<Rightarrow> name \<Rightarrow> sha256 \<Rightarrow> name \<Rightarrow> ('c database, 'p option) exec" where
  "find_table e code scope table =
     database_find Table_id_object_type (\<lambda>c. ee_code_scope_table e c (code, scope, table))"

definition find_or_create_table ::
  "('c, 'p) eos_env \<Rightarrow> int \<Rightarrow> name \<Rightarrow> sha256 \<Rightarrow> name \<Rightarrow> name \<Rightarrow> ('c database, 'p) exec" where
  "find_or_create_table e junk code scope table payer =
     bindX (database_find Table_id_object_type (\<lambda>c. ee_code_scope_table e c (code, scope, table))) (\<lambda>existing_tid.
     case existing_tid of
       Some p \<Rightarrow> returnX p
     | None \<Rightarrow>
         database_create (ee_env e) Table_id_object_type
           (Table_id_row \<lparr>tid_id = junk, tid_code = code, tid_scope = scope, tid_table = table,
              tid_payer = payer, tid_count = 0, tid_value = []\<rparr>))"

definition db_store_by_scope ::
  "('c, 'p) eos_env \<Rightarrow> int \<Rightarrow> name \<Rightarrow> sha256 \<Rightarrow> name \<Rightarrow> name \<Rightarrow> blob \<Rightarrow> ('c database, 'p) exec" where
  "db_store_by_scope e junk code scope table payer buffer =
     database_create (ee_env e) Table_id_object_type
       (Table_id_row \<lparr>tid_id = junk, tid_code = code, tid_scope = scope, tid_table = table,
          tid_payer = payer, tid_count = 0, tid_value = buffer\<rparr>)"

definition db_update_by_scope :: "('c, 'p) eos_env \<Rightarrow> 'p \<Rightarrow> name \<Rightarrow> blob \<Rightarrow> ('c database, unit) exec" where
  "db_update_by_scope e tobj payer buffer =
     database_modify (ee_env e) Table_id_object_type tobj
       (on_table (\<lambda>t. t\<lparr>tid_value := buffer, tid_payer := payer\<rparr>))"

section \<open>Rows with a primary key\<close>

definition db_store_i64 ::
  "('c, 'p) eos_env \<Rightarrow> int \<Rightarrow> name \<Rightarrow> sha256 \<Rightarrow> name \<Rightarrow> name \<Rightarrow> u64 \<Rightarrow> blob \<Rightarrow> (('c, 'p) eos_db, int) exec" where
  "db_store_i64 e junk code scope table payer i buffer =
     bindX (dbX (find_or_create_table e junk code scope table payer)) (\<lambda>tab.
     bindX (dbX (deref_table e tab)) (\<lambda>t.
     bindX (dbX (database_create (ee_env e) Key_value_object_type
       (Key_value_row \<lparr>kv_id = sint i, kv_t_id = tid_id t, kv_primary_key = i, kv_payer = payer, kv_value = buffer\<rparr>))) (\<lambda>obj.
     bindX (dbX (database_modify (ee_env e) Table_id_object_type tab (on_table (\<lambda>t. t\<lparr>tid_count := tid_count t + 1\<rparr>)))) (\<lambda>_.
     bindX (dbX (deref_table e tab)) (\<lambda>t'.
     bindX (keyvalX (cache_table (tid_id t') tab)) (\<lambda>_.
     keyvalX (ic_add obj)))))))"

definition db_update_i64 :: "('c, 'p) eos_env \<Rightarrow> int \<Rightarrow> name \<Rightarrow> blob \<Rightarrow> (('c, 'p) eos_db, unit) exec" where
  "db_update_i64 e itr payer buffer =
     bindX (keyvalX (ic_get itr)) (\<lambda>obj.
     dbX (database_modify (ee_env e) Key_value_object_type obj
       (on_kv (\<lambda>o1. o1\<lparr>kv_value := buffer, kv_payer := payer\<rparr>))))"

definition db_remove_i64 :: "('c, 'p) eos_env \<Rightarrow> int \<Rightarrow> (('c, 'p) eos_db, unit) exec" where
  "db_remove_i64 e itr =
     bindX (keyvalX (ic_get itr)) (\<lambda>obj.
     bindX (dbX (deref_kv e obj)) (\<lambda>o1.
     bindX (keyvalX (get_table (kv_t_id o1))) (\<lambda>table_obj.
     bindX (dbX (database_modify (ee_env e) Table_id_object_type table_obj (on_table (\<lambda>t. t\<lparr>tid_count := tid_count t - 1\<rparr>)))) (\<lambda>_.
     bindX (dbX (database_remove (ee_env e) Key_value_object_type obj)) (\<lambda>_.
     bindX (dbX (deref_table e table_obj)) (\<lambda>t.
     bindX (if tid_count t = 0 then dbX (database_remove (ee_env e) Table_id_object_type table_obj) else returnX ()) (\<lambda>_.
     keyvalX (ic_remove itr))))))))"

text \<open>The result is the returned size and the bytes copied to the buffer.\<close>

definition db_get_i64 :: "('c, 'p) eos_env \<Rightarrow> int \<Rightarrow> nat \<Rightarrow> (('c, 'p) eos_db, int \<times> blob) exec" where
  "db_get_i64 e itr buffer_size =
     bindX (keyvalX (ic_get itr)) (\<lambda>obj.
     bindX (dbX (deref_kv e obj)) (\<lambda>o1.
     let s = length (kv_value o1) in
     if buffer_size = 0 then returnX (as_int (int s), [])
     else let copy_size = min buffer_size s in returnX (as_int (int copy_size), take copy_size (kv_value o1))))"

text \<open>The second part of the result is the value assigned to the \<open>primary\<close> argument, if any.\<close>

definition db_next_i64 :: "('c, 'p) eos_env \<Rightarrow> int \<Rightarrow> (('c, 'p) eos_db, int \<times> u64 option) exec" where
  "db_next_i64 e itr =
     (if itr < -1 then returnX (-1, None)
      else bindX (keyvalX (ic_get itr)) (\<lambda>obj.
           bindX (dbX (get_index Key_value_object_type)) (\<lambda>s.
           bindX (dbX (deref_kv e obj)) (\<lambda>o1.
           case oi_next (ee_scope_primary e) (gi_indices s) obj of
             None \<Rightarrow> bindX (keyvalX (get_end_iterator_by_table_id (kv_t_id o1))) (\<lambda>ei. returnX (ei, None))
           | Some q \<Rightarrow>
               bindX (dbX (deref_kv e q)) (\<lambda>n.
               if kv_t_id n \<noteq> kv_t_id o1
               then bindX (keyvalX (get_end_iterator_by_table_id (kv_t_id o1))) (\<lambda>ei. returnX (ei, None))
               else bindX (keyvalX (ic_add q)) (\<lambda>i. returnX (i, Some (kv_primary_key n))))))))"

definition db_previous_i64 :: "('c, 'p) eos_env \<Rightarrow> int \<Rightarrow> (('c, 'p) eos_db, int \<times> u64 option) exec" where
  "db_previous_i64 e itr =
     bindX (dbX (get_index Key_value_object_type)) (\<lambda>s.
     let c = gi_indices s; idx = ee_scope_primary e in
     if itr < -1
     then bindX (keyvalX (find_table_by_end_iterator itr)) (\<lambda>tab.
          case tab of
            None \<Rightarrow> throwX (Assert_failed ''not a valid end iterator'')
          | Some t \<Rightarrow>
              bindX (dbX (deref_table e t)) (\<lambda>to1.
              let it = oi_upper_bound1 idx c (tid_id to1) in
              if oi_begin idx c = None \<or> it = oi_begin idx c then returnX (-1, None)
              else (case oi_prev idx c it of
                  None \<Rightarrow> throwX Undefined_behaviour
                | Some q \<Rightarrow>
                    bindX (dbX (deref_kv e q)) (\<lambda>n.
                    if kv_t_id n \<noteq> tid_id to1 then returnX (-1, None)
                    else bindX (keyvalX (ic_add q)) (\<lambda>i. returnX (i, Some (kv_primary_key n)))))))
     else bindX (keyvalX (ic_get itr)) (\<lambda>obj.
          bindX (dbX (deref_kv e obj)) (\<lambda>o1.
          if oi_begin idx c = Some obj then returnX (-1, None)
          else (case oi_prev idx c (Some obj) of
              None \<Rightarrow> throwX Undefined_behaviour
            | Some q \<Rightarrow>
                bindX (dbX (deref_kv e q)) (\<lambda>n.
                if kv_t_id n \<noteq> kv_t_id o1 then returnX (-1, None)
                else bindX (keyvalX (ic_add q)) (\<lambda>i. returnX (i, Some (kv_primary_key n))))))))"

definition db_find_i64 ::
  "('c, 'p) eos_env \<Rightarrow> name \<Rightarrow> sha256 \<Rightarrow> name \<Rightarrow> u64 \<Rightarrow> (('c, 'p) eos_db, int) exec" where
  "db_find_i64 e code scope table i =
     bindX (dbX (find_table e code scope table)) (\<lambda>tab.
     case tab of
       None \<Rightarrow> returnX (-1)
     | Some t \<Rightarrow>
         bindX (dbX (deref_table e t)) (\<lambda>to1.
         bindX (keyvalX (cache_table (tid_id to1) t)) (\<lambda>table_end_itr.
         bindX (dbX (database_find Key_value_object_type (\<lambda>c. oi_find (ee_scope_primary e) c (tid_id to1, i)))) (\<lambda>obj.
         case obj of None \<Rightarrow> returnX table_end_itr | Some p \<Rightarrow> keyvalX (ic_add p)))))"

text \<open>The common part of the two bound searches: \<open>bound\<close> is the iterator found.\<close>

definition db_bound_i64 ::
  "('c, 'p) eos_env \<Rightarrow> ('c \<Rightarrow> int \<times> u64 \<Rightarrow> 'p option) \<Rightarrow> name \<Rightarrow> sha256 \<Rightarrow> name \<Rightarrow> u64 \<Rightarrow> (('c, 'p) eos_db, int) exec" where
  "db_bound_i64 e bound code scope table i =
     bindX (dbX (find_table e code scope table)) (\<lambda>tab.
     case tab of
       None \<Rightarrow> returnX (-1)
     | Some t \<Rightarrow>
         bindX (dbX (deref_table e t)) (\<lambda>to1.
         bindX (keyvalX (cache_table (tid_id to1) t)) (\<lambda>table_end_itr.
         bindX (dbX (get_index Key_value_object_type)) (\<lambda>s.
         case bound (gi_indices s) (tid_id to1, i) of
           None \<Rightarrow> returnX table_end_itr
         | Some p \<Rightarrow>
             bindX (dbX (deref_kv e p)) (\<lambda>o1.
             if kv_t_id o1 \<noteq> tid_id to1 then returnX table_end_itr else keyvalX (ic_add p))))))"

definition db_lowerbound_i64 ::
  "('c, 'p) eos_env \<Rightarrow> name \<Rightarrow> sha256 \<Rightarrow> name \<Rightarrow> u64 \<Rightarrow> (('c, 'p) eos_db, int) exec" where
  "db_lowerbound_i64 e = db_bound_i64 e (oi_lower_bound (ee_scope_primary e))"

definition db_upperbound_i64 ::
  "('c, 'p) eos_env \<Rightarrow> name \<Rightarrow> sha256 \<Rightarrow> name \<Rightarrow> u64 \<Rightarrow> (('c, 'p) eos_db, int) exec" where
  "db_upperbound_i64 e = db_bound_i64 e (oi_upper_bound (ee_scope_primary e))"

definition db_end_i64 :: "('c, 'p) eos_env \<Rightarrow> name \<Rightarrow> sha256 \<Rightarrow> name \<Rightarrow> (('c, 'p) eos_db, int) exec" where
  "db_end_i64 e code scope table =
     bindX (dbX (find_table e code scope table)) (\<lambda>tab.
     case tab of
       None \<Rightarrow> returnX (-1)
     | Some t \<Rightarrow>
         bindX (dbX (deref_table e t)) (\<lambda>to1.
         keyvalX (cache_table (tid_id to1) t)))"

section \<open>Secondary indices\<close>

text \<open>
  \<open>eos_db::generic_index\<close> for the object type \<open>ty\<close>; \<open>cacheX\<close> runs a step of its own
  iterator cache. \<open>find_secondary\<close> is not modelled: it searches with a table object where
  the key has a table id, which the compiler rejects when the template is used.
\<close>

fun sec_cacheX :: "table_type \<Rightarrow> ('p iterator_cache, 'a) exec \<Rightarrow> (('c, 'p) eos_db, 'a) exec" where
  "sec_cacheX Index64_object_type m = liftX es_idx64 (\<lambda>c s. s\<lparr>es_idx64 := c\<rparr>) m"
| "sec_cacheX Index128_object_type m = liftX es_idx128 (\<lambda>c s. s\<lparr>es_idx128 := c\<rparr>) m"
| "sec_cacheX Index256_object_type m = liftX es_idx256 (\<lambda>c s. s\<lparr>es_idx256 := c\<rparr>) m"
| "sec_cacheX _ m = throwX Undefined_behaviour"

definition deref_index :: "('c, 'p) eos_env \<Rightarrow> table_type \<Rightarrow> 'p \<Rightarrow> ('c database, index_object) exec" where
  "deref_index e ty p =
     bindX (deref e ty p) (\<lambda>r.
     case r of Index_row _ o1 \<Rightarrow> returnX o1 | _ \<Rightarrow> throwX Undefined_behaviour)"

definition sec_store ::
  "('c, 'p) eos_env \<Rightarrow> table_type \<Rightarrow> int \<Rightarrow> int \<Rightarrow> name \<Rightarrow> sha256 \<Rightarrow> name \<Rightarrow> name \<Rightarrow> u64 \<Rightarrow> secondary_key
    \<Rightarrow> (('c, 'p) eos_db, int) exec" where
  "sec_store e ty junk junk' code scope table payer i value =
     bindX (dbX (find_or_create_table e junk code scope table payer)) (\<lambda>tab.
     bindX (dbX (deref_table e tab)) (\<lambda>t.
     bindX (dbX (database_create (ee_env e) ty
       (Index_row ty \<lparr>idx_id = junk', idx_t_id = tid_id t, idx_primary_key = i, idx_payer = payer, idx_secondary_key = value\<rparr>))) (\<lambda>obj.
     bindX (dbX (database_modify (ee_env e) Table_id_object_type tab (on_table (\<lambda>t. t\<lparr>tid_count := tid_count t + 1\<rparr>)))) (\<lambda>_.
     bindX (dbX (deref_table e tab)) (\<lambda>t'.
     bindX (sec_cacheX ty (cache_table (tid_id t') tab)) (\<lambda>_.
     sec_cacheX ty (ic_add obj)))))))"

definition sec_remove :: "('c, 'p) eos_env \<Rightarrow> table_type \<Rightarrow> int \<Rightarrow> (('c, 'p) eos_db, unit) exec" where
  "sec_remove e ty itr =
     bindX (sec_cacheX ty (ic_get itr)) (\<lambda>obj.
     bindX (dbX (deref_index e ty obj)) (\<lambda>o1.
     bindX (sec_cacheX ty (get_table (idx_t_id o1))) (\<lambda>table_obj.
     bindX (dbX (database_modify (ee_env e) Table_id_object_type table_obj (on_table (\<lambda>t. t\<lparr>tid_count := tid_count t - 1\<rparr>)))) (\<lambda>_.
     bindX (dbX (database_remove (ee_env e) ty obj)) (\<lambda>_.
     sec_cacheX ty (ic_remove itr))))))"

definition sec_update :: "('c, 'p) eos_env \<Rightarrow> table_type \<Rightarrow> int \<Rightarrow> name \<Rightarrow> secondary_key \<Rightarrow> (('c, 'p) eos_db, unit) exec" where
  "sec_update e ty itr payer secondary =
     bindX (sec_cacheX ty (ic_get itr)) (\<lambda>obj.
     bindX (dbX (deref_index e ty obj)) (\<lambda>o1.
     bindX (sec_cacheX ty (get_table (idx_t_id o1))) (\<lambda>table_obj.
     dbX (database_modify (ee_env e) ty obj
       (on_index_obj (\<lambda>o1. o1\<lparr>idx_secondary_key := secondary, idx_payer := payer\<rparr>))))))"

end
