(* ===== verification/Eos_Correct.thy ===== *)
theory Eos_Correct
  imports Eos_Db
begin

text \<open>
  Correctness of \<open>eos_db\<close>. \<open>db_at\<close> is the store of a table: the object at each address. The
  lemmas of the first part say what creating, modifying and removing an object do to it
  for a registered type; the rest of the development argues about this store and about
  the contents by id. The locale \<open>eos_interface\<close> collects what the code relies on of the
  indices of its containers, and is interpreted on the container of cells.
\<close>

section \<open>Objects of a registered type\<close>

definition db_at :: "('c, 'p) env \<Rightarrow> 'c database \<Rightarrow> table_type \<Rightarrow> 'p \<rightharpoonup> row" where
  "db_at env db ty =
     (case db_segment db ty of None \<Rightarrow> Map.empty | Some s \<Rightarrow> mi_at (env_ops env) (gi_indices s))"

definition other_tables :: "('c, 'p) env \<Rightarrow> table_type \<Rightarrow> 'c database \<Rightarrow> 'c database \<Rightarrow> bool" where
  "other_tables env ty db db' \<longleftrightarrow> db_frame db db' \<and> (\<forall>t. t \<noteq> ty \<longrightarrow> db_segment db' t = db_segment db t)"

lemma other_tables_at:
  assumes "other_tables env ty db db'" "t \<noteq> ty"
  shows "db_at env db' t = db_at env db t" "db_contents env db' t = db_contents env db t"
  using assms by (simp_all add: other_tables_def db_at_def db_contents_def)

lemma other_tables_list: "other_tables env ty db db' \<Longrightarrow> db_index_list db' = db_index_list db"
  by (simp add: other_tables_def db_frame_def)

context database_env
begin

lemma get_index_run:
  assumes "db_inv env cinv db" "ty \<in> set (db_index_list db)"
  obtains s where "get_index ty db = (Inr s, db)" "db_segment db ty = Some s" "gi_ok (env_ops env) row_id cinv s"
proof -
  have ok: "db_ok env cinv db" by (rule db_invD(1) [OF assms(1)])
  obtain s where s: "db_segment db ty = Some s" "gi_ok (env_ops env) row_id cinv s"
    using db_okD(4) [OF ok assms(2)] by blast
  have "(type_id ty < length (db_index_map db) \<and> db_index_map db ! type_id ty \<noteq> None) \<longleftrightarrow> ty \<in> set (db_index_list db)"
    using db_okD(2) [OF ok] unfolding map_ok_def by blast
  then have "get_index ty db = (Inr s, db)" using assms(2) s by (simp add: get_index_def)
  then show thesis using that s by blast
qed

lemma find_run:
  assumes "db_inv env cinv db" "ty \<in> set (db_index_list db)"
  obtains c where "database_find ty f db = (Inr (f c), db)" "cinv c"
    "db_at env db ty = mi_at (env_ops env) c" "db_contents env db ty = contents (env_ops env) c"
proof (rule get_index_run [OF assms])
  fix s
  assume s: "get_index ty db = (Inr s, db)" "db_segment db ty = Some s" "gi_ok (env_ops env) row_id cinv s"
  show thesis by (rule that [of "gi_indices s"]) (use s gi_okD(1) [OF s(3)] in
    \<open>simp_all add: database_find_def bindX_run db_at_def db_contents_def gi_contents_def\<close>)
qed

lemma contents_at:
  assumes "db_inv env cinv db"
  shows "db_contents env db ty k = Some v \<longleftrightarrow> (\<exists>p. db_at env db ty p = Some v \<and> row_id v = k)"
proof (cases "db_segment db ty")
  case (Some s)
  have "cinv (gi_indices s)" by (rule gi_okD(1) [OF db_invD(2) [OF assms Some]])
  then show ?thesis using Some contents_iff [of "gi_indices s" k v] by (simp add: db_contents_def db_at_def gi_contents_def)
qed (simp add: db_contents_def db_at_def)

lemma at_no_clash:
  assumes "db_inv env cinv db" "db_at env db ty p = Some v" "db_at env db ty q = Some w" "p \<noteq> q"
  shows "\<not> row_clash v w"
proof (cases "db_segment db ty")
  case (Some s)
  have "cinv (gi_indices s)" by (rule gi_okD(1) [OF db_invD(2) [OF assms(1) Some]])
  then show ?thesis using no_clash Some assms(2-4) by (simp add: db_at_def)
qed (use assms(2) in \<open>simp add: db_at_def\<close>)

lemma create_run:
  assumes inv: "db_inv env cinv db" and ty: "ty \<in> set (db_index_list db)"
    and free: "\<And>q w. db_at env db ty q = Some w \<Longrightarrow> \<not> row_clash v w"
  obtains p db' where "database_create env ty v db = (Inr p, db')" "db_inv env cinv db'"
    "other_tables env ty db db'" "db_at env db ty p = None" "db_at env db' ty = (db_at env db ty)(p \<mapsto> v)"
    "db_contents env db' ty = (db_contents env db ty)(row_id v \<mapsto> v)"
proof (rule get_index_run [OF inv ty])
  fix s
  assume s: "get_index ty db = (Inr s, db)" "db_segment db ty = Some s" "gi_ok (env_ops env) row_id cinv s"
  have at: "db_at env db ty = mi_at (env_ops env) (gi_indices s)" by (simp add: db_at_def s(2))
  have c: "cinv (gi_indices s)" by (rule gi_okD(1) [OF s(3)])
  have "\<not> (\<exists>k w. gi_contents (env_ops env) s k = Some w \<and> row_clash v w)"
    using free unfolding at gi_contents_def contents_iff [OF c] by blast
  then obtain s' p where e: "gi_emplace (env_ops env) row_id v s = Inr (s', p)"
    using gi_emplace_fails [OF s(3), of v] by (cases "gi_emplace (env_ops env) row_id v s") auto
  then obtain c' where c': "mi_emplace (env_ops env) (gi_indices s) v = Some (c', p)" "gi_indices s' = c'"
    by (auto simp: gi_emplace_def split: option.splits)
  define db' where "db' = db\<lparr>db_segment := (db_segment db)(ty \<mapsto> s')\<rparr>"
  have r: "database_create env ty v db = (Inr p, db')"
    using s e by (simp add: database_create_def bindX_run index_call_conv db'_def)
  then have w: "db_write env (Create_obj ty v) db = (Inr (), db')" by (simp add: bindX_run)
  have inv': "db_inv env cinv db'" by (rule write_inv [OF inv w]) simp
  have o: "other_tables env ty db db'" by (simp add: other_tables_def db_frame_def db'_def)
  have a: "db_at env db ty p = None" "db_at env db' ty = (db_at env db ty)(p \<mapsto> v)"
    using emplace_at [OF c c'(1)] c'(2) by (simp_all add: db_at_def db'_def s(2))
  have "db_contents env db' ty = (db_contents env db ty)(row_id v \<mapsto> v)"
    using contents_emplace(1) [OF c c'(1)] c'(2) by (simp add: db_contents_def gi_contents_def db'_def s(2))
  then show thesis by (rule that [OF r inv' o a])
qed

lemma create_fails:
  assumes inv: "db_inv env cinv db" and ty: "ty \<in> set (db_index_list db)"
    and clash: "db_at env db ty q = Some w" "row_clash v w"
  shows "database_create env ty v db =
    (Inl (Logic_error ''could not insert object, most likely a uniqueness constraint was violated''), db)"
proof (rule get_index_run [OF inv ty])
  fix s
  assume s: "get_index ty db = (Inr s, db)" "db_segment db ty = Some s" "gi_ok (env_ops env) row_id cinv s"
  have c: "cinv (gi_indices s)" by (rule gi_okD(1) [OF s(3)])
  have "mi_emplace (env_ops env) (gi_indices s) v = None"
    using clash emplace_iff [OF c, of v] by (auto simp: db_at_def s(2))
  then show ?thesis using s by (simp add: database_create_def bindX_run index_call_def gi_emplace_def)
qed

lemma modify_run:
  assumes inv: "db_inv env cinv db" and ty: "ty \<in> set (db_index_list db)"
    and p: "db_at env db ty p = Some v" and id: "\<And>v. row_id (m v) = row_id v"
    and free: "\<And>q w. q \<noteq> p \<Longrightarrow> db_at env db ty q = Some w \<Longrightarrow> \<not> row_clash (m v) w"
  obtains db' where "database_modify env ty p m db = (Inr (), db')" "db_inv env cinv db'"
    "other_tables env ty db db'" "db_at env db' ty = (db_at env db ty)(p \<mapsto> m v)"
    "db_contents env db' ty = (db_contents env db ty)(row_id v \<mapsto> m v)"
proof (rule get_index_run [OF inv ty])
  fix s
  assume s: "get_index ty db = (Inr s, db)" "db_segment db ty = Some s" "gi_ok (env_ops env) row_id cinv s"
  have c: "cinv (gi_indices s)" by (rule gi_okD(1) [OF s(3)])
  have at: "mi_at (env_ops env) (gi_indices s) p = Some v" using p by (simp add: db_at_def s(2))
  have "mi_modify (env_ops env) (gi_indices s) p m \<noteq> None"
    using modify_iff [OF c at, of m] free by (auto simp: db_at_def s(2))
  then obtain c' where c': "mi_modify (env_ops env) (gi_indices s) p m = Some c'" by blast
  define s' where "s' = (on_modify row_id v s)\<lparr>gi_indices := c'\<rparr>"
  have e: "gi_modify (env_ops env) row_id p m s = Inr s'" using at c' by (simp add: gi_modify_def Let_def s'_def)
  define db' where "db' = db\<lparr>db_segment := (db_segment db)(ty \<mapsto> s')\<rparr>"
  have r: "database_modify env ty p m db = (Inr (), db')"
    using s e by (simp add: database_modify_def bindX_run index_do_conv db'_def)
  then have w: "db_write env (Modify_obj ty p m) db = (Inr (), db')" by simp
  have inv': "db_inv env cinv db'" by (rule write_inv [OF inv w]) (simp add: id)
  have o: "other_tables env ty db db'" by (simp add: other_tables_def db_frame_def db'_def)
  have a: "db_at env db' ty = (db_at env db ty)(p \<mapsto> m v)"
    using gi_modify_ok(4) [OF s(3) e at id] by (simp add: db_at_def db'_def s(2))
  have "db_contents env db' ty = (db_contents env db ty)(row_id v \<mapsto> m v)"
    using gi_modify_ok(2) [OF s(3) e at id] by (simp add: db_contents_def db'_def s(2))
  then show thesis by (rule that [OF r inv' o a])
qed

lemma remove_run:
  assumes inv: "db_inv env cinv db" and ty: "ty \<in> set (db_index_list db)" and p: "db_at env db ty p = Some v"
  obtains db' where "database_remove env ty p db = (Inr (), db')" "db_inv env cinv db'"
    "other_tables env ty db db'" "db_at env db' ty = (db_at env db ty)(p := None)"
    "db_contents env db' ty = (db_contents env db ty)(row_id v := None)"
proof (rule get_index_run [OF inv ty])
  fix s
  assume s: "get_index ty db = (Inr s, db)" "db_segment db ty = Some s" "gi_ok (env_ops env) row_id cinv s"
  have at: "mi_at (env_ops env) (gi_indices s) p = Some v" using p by (simp add: db_at_def s(2))
  show thesis
  proof (rule gi_remove_ok [OF s(3) at])
    fix s'
    assume s': "gi_remove (env_ops env) row_id p s = Inr s'"
      "gi_contents (env_ops env) s' = (gi_contents (env_ops env) s)(row_id v := None)"
      "mi_at (env_ops env) (gi_indices s') = (mi_at (env_ops env) (gi_indices s))(p := None)"
    define db' where "db' = db\<lparr>db_segment := (db_segment db)(ty \<mapsto> s')\<rparr>"
    have r: "database_remove env ty p db = (Inr (), db')"
      using s s'(1) by (simp add: database_remove_def bindX_run index_do_conv db'_def)
    then have w: "db_write env (Remove_obj ty p) db = (Inr (), db')" by simp
    have inv': "db_inv env cinv db'" by (rule write_inv [OF inv w]) simp
    have o: "other_tables env ty db db'" by (simp add: other_tables_def db_frame_def db'_def)
    show thesis using that [OF r inv' o] s' by (simp add: db_at_def db_contents_def db'_def s(2))
  qed
qed

end

section \<open>The interface to the indices\<close>

locale eos_interface =
  database_env "ee_env e" cinv +
  tables: unique_index "env_ops (ee_env e)" row_id row_clash cinv row_code_scope_table "ee_code_scope_table e" +
  hashed: unique_index "env_ops (ee_env e)" row_id row_clash cinv row_key "ee_by_key e" +
  rows: ordered_index "env_ops (ee_env e)" row_id row_clash cinv row_scope_primary "ee_scope_primary e" keys
  for e :: "('c, 'p) eos_env" and cinv :: "'c \<Rightarrow> bool" and keys :: "'c \<Rightarrow> 'p \<rightharpoonup> int \<times> u64"

definition cell_eos_env :: "digest \<Rightarrow> (row lc, nat) eos_env" where
  "cell_eos_env d =
     \<lparr>ee_env = cell_env, ee_code_scope_table = lc_ofind row_code_scope_table, ee_by_key = lc_ofind row_key,
      ee_scope_primary = lc_oi row_scope_primary, ee_digest = d\<rparr>"

lemma cell_eos_env_sel [simp]:
  "ee_env (cell_eos_env d) = cell_env" "ee_code_scope_table (cell_eos_env d) = lc_ofind row_code_scope_table"
  "ee_by_key (cell_eos_env d) = lc_ofind row_key" "ee_scope_primary (cell_eos_env d) = lc_oi row_scope_primary"
  "ee_digest (cell_eos_env d) = d"
  by (simp_all add: cell_eos_env_def)

interpretation cell_eos: eos_interface "cell_eos_env d" cell_inv "lc_keys row_scope_primary" for d
  unfolding eos_interface_def cell_eos_env_sel cell_env_ops
  using cell_db.database_env_axioms cst_cells.unique_index_axioms key_cells.unique_index_axioms
    kv_cells.ordered_index_axioms
  by simp

section \<open>Key-value storage as a map\<close>

text \<open>
  The abstract key-value store: payer and value under the hash of scope and key.
\<close>

definition key_view :: "('c, 'p) eos_env \<Rightarrow> 'c database \<Rightarrow> sha256 \<rightharpoonup> sha256 \<times> blob" where
  "key_view e db k =
     (case db_contents (ee_env e) db Table_key_value_object_type (Id_sha256 k) of
        Some (Table_key_row t) \<Rightarrow> Some (tk_payer t, tk_value t)
      | _ \<Rightarrow> None)"

abbreviation TK :: table_type where
  "TK \<equiv> Table_key_value_object_type"

lemma row_id_sha: "row_id r = Id_sha256 k \<longleftrightarrow> row_key r = Some k"
  by (cases r) auto

lemma row_key_Some: "row_key r = Some k \<longleftrightarrow> (\<exists>t. r = Table_key_row t \<and> tk_id t = k)"
  by (cases r) auto

lemma clash_key: "row_clash (Table_key_row t) w \<longleftrightarrow> row_key w = Some (tk_id t)"
  by (cases w) (auto simp: row_clash_def)

context eos_interface
begin

text \<open>What a search by key returns.\<close>

lemma by_key_find:
  assumes inv: "db_inv (ee_env e) cinv db" and ty: "TK \<in> set (db_index_list db)"
  obtains r where "database_find TK (\<lambda>c. ee_by_key e c k) db = (Inr r, db)"
    "\<And>p. r = Some p \<longleftrightarrow> (\<exists>t. db_at (ee_env e) db TK p = Some (Table_key_row t) \<and> tk_id t = k)"
proof (rule find_run [OF inv ty, of "\<lambda>c. ee_by_key e c k"])
  fix c
  assume c: "database_find TK (\<lambda>c. ee_by_key e c k) db = (Inr (ee_by_key e c k), db)" "cinv c"
    "db_at (ee_env e) db TK = mi_at (env_ops (ee_env e)) c"
  have "ee_by_key e c k = Some p \<longleftrightarrow> (\<exists>t. db_at (ee_env e) db TK p = Some (Table_key_row t) \<and> tk_id t = k)" for p
    unfolding hashed.ofind_iff [OF c(2)] c(3) by (auto simp: row_key_Some)
  then show thesis using that c(1) by blast
qed

lemma key_view_iff:
  assumes "db_inv (ee_env e) cinv db"
  shows "key_view e db k = Some x \<longleftrightarrow>
    (\<exists>p t. db_at (ee_env e) db TK p = Some (Table_key_row t) \<and> tk_id t = k \<and> x = (tk_payer t, tk_value t))"
proof -
  have c: "db_contents (ee_env e) db TK (Id_sha256 k) = Some (Table_key_row t)"
    if "db_at (ee_env e) db TK p = Some (Table_key_row t)" "tk_id t = k" for p t
    unfolding contents_at [OF assms] using that by auto
  show ?thesis
  proof
    assume "key_view e db k = Some x"
    then obtain t where t: "db_contents (ee_env e) db TK (Id_sha256 k) = Some (Table_key_row t)" "x = (tk_payer t, tk_value t)"
      by (auto simp: key_view_def split: option.splits row.splits)
    then show "\<exists>p t. db_at (ee_env e) db TK p = Some (Table_key_row t) \<and> tk_id t = k \<and> x = (tk_payer t, tk_value t)"
      unfolding contents_at [OF assms] by auto
  next
    assume "\<exists>p t. db_at (ee_env e) db TK p = Some (Table_key_row t) \<and> tk_id t = k \<and> x = (tk_payer t, tk_value t)"
    then show "key_view e db k = Some x" using c by (auto simp: key_view_def)
  qed
qed

lemma key_view_None:
  assumes "db_inv (ee_env e) cinv db"
  shows "key_view e db k = None \<longleftrightarrow> (\<forall>p t. db_at (ee_env e) db TK p = Some (Table_key_row t) \<longrightarrow> tk_id t \<noteq> k)"
  using key_view_iff [OF assms, of k] by (metis not_None_eq)

lemma store_by_key_run:
  assumes inv: "db_inv (ee_env e) cinv db" and ty: "TK \<in> set (db_index_list db)"
    and new: "key_view e db (table_key (ee_digest e) scope k) = None"
  obtains p db' where "db_store_by_key e scope k payer buf db = (Inr p, db')" "db_inv (ee_env e) cinv db'"
    "other_tables (ee_env e) TK db db'"
    "key_view e db' = (key_view e db)(table_key (ee_digest e) scope k \<mapsto> (payer, buf))"
proof -
  let ?tk = "table_key (ee_digest e) scope k"
  let ?v = "Table_key_row \<lparr>tk_id = ?tk, tk_payer = payer, tk_value = buf\<rparr>"
  have none: "db_at (ee_env e) db TK q = Some w \<Longrightarrow> row_key w \<noteq> Some ?tk" for q w
    using new unfolding key_view_None [OF inv] row_key_Some by blast
  obtain r where r: "database_find TK (\<lambda>c. ee_by_key e c ?tk) db = (Inr r, db)"
    "\<And>p. r = Some p \<longleftrightarrow> (\<exists>t. db_at (ee_env e) db TK p = Some (Table_key_row t) \<and> tk_id t = ?tk)"
    using by_key_find [OF inv ty] by blast
  have "r = None" using r(2) none by (metis row_key_Some not_None_eq)
  have free: "\<not> row_clash ?v w" if "db_at (ee_env e) db TK q = Some w" for q w
    using none [OF that] by (simp add: clash_key)
  show thesis
  proof (rule create_run [OF inv ty free])
    fix p db'
    assume c: "database_create (ee_env e) TK ?v db = (Inr p, db')" "db_inv (ee_env e) cinv db'"
      "other_tables (ee_env e) TK db db'"
      "db_contents (ee_env e) db' TK = (db_contents (ee_env e) db TK)(row_id ?v \<mapsto> ?v)"
    have "db_store_by_key e scope k payer buf db = (Inr p, db')"
      using r(1) \<open>r = None\<close> c(1) by (simp add: db_store_by_key_def Let_def bindX_run)
    moreover have "key_view e db' = (key_view e db)(?tk \<mapsto> (payer, buf))"
      by (rule ext) (simp add: key_view_def c(4))
    ultimately show thesis using that c(2,3) by blast
  qed
qed

lemma existing_key:
  assumes inv: "db_inv (ee_env e) cinv db" and ty: "TK \<in> set (db_index_list db)"
    and old: "key_view e db k = Some x"
  obtains p t where "database_find TK (\<lambda>c. ee_by_key e c k) db = (Inr (Some p), db)"
    "db_at (ee_env e) db TK p = Some (Table_key_row t)" "tk_id t = k" "x = (tk_payer t, tk_value t)"
proof -
  obtain p t where p: "db_at (ee_env e) db TK p = Some (Table_key_row t)" "tk_id t = k" "x = (tk_payer t, tk_value t)"
    using old key_view_iff [OF inv] by blast
  obtain r where r: "database_find TK (\<lambda>c. ee_by_key e c k) db = (Inr r, db)"
    "\<And>p. r = Some p \<longleftrightarrow> (\<exists>t. db_at (ee_env e) db TK p = Some (Table_key_row t) \<and> tk_id t = k)"
    using by_key_find [OF inv ty] by blast
  have "r = Some p" using r(2) p by blast
  then show thesis using that r(1) p by blast
qed

lemma missing_key:
  assumes inv: "db_inv (ee_env e) cinv db" and ty: "TK \<in> set (db_index_list db)" and "key_view e db k = None"
  shows "database_find TK (\<lambda>c. ee_by_key e c k) db = (Inr None, db)"
proof -
  obtain r where r: "database_find TK (\<lambda>c. ee_by_key e c k) db = (Inr r, db)"
    "\<And>p. r = Some p \<longleftrightarrow> (\<exists>t. db_at (ee_env e) db TK p = Some (Table_key_row t) \<and> tk_id t = k)"
    using by_key_find [OF inv ty] by blast
  have "r = None" using r(2) assms(3) unfolding key_view_None [OF inv] by (metis not_None_eq)
  then show ?thesis using r(1) by simp
qed

lemma update_by_key_run:
  assumes inv: "db_inv (ee_env e) cinv db" and ty: "TK \<in> set (db_index_list db)"
    and old: "key_view e db (table_key (ee_digest e) scope k) = Some x"
  obtains db' where "db_update_by_key e scope k payer buf db = (Inr (), db')" "db_inv (ee_env e) cinv db'"
    "other_tables (ee_env e) TK db db'"
    "key_view e db' = (key_view e db)(table_key (ee_digest e) scope k \<mapsto> (payer, buf))"
proof -
  let ?tk = "table_key (ee_digest e) scope k" and ?m = "on_key (\<lambda>t. t\<lparr>tk_payer := payer, tk_value := buf\<rparr>)"
  obtain p t where p: "database_find TK (\<lambda>c. ee_by_key e c ?tk) db = (Inr (Some p), db)"
    "db_at (ee_env e) db TK p = Some (Table_key_row t)" "tk_id t = ?tk"
    using existing_key [OF inv ty old] by blast
  have id: "row_id (?m v) = row_id v" for v by (cases v) simp_all
  have free: "\<not> row_clash (?m (Table_key_row t)) w" if q: "q \<noteq> p" "db_at (ee_env e) db TK q = Some w" for q w
    using at_no_clash [OF inv p(2) q(2)] q(1) by (auto simp: clash_key)
  show thesis
  proof (rule modify_run [OF inv ty p(2) id free])
    fix db'
    assume c: "database_modify (ee_env e) TK p ?m db = (Inr (), db')" "db_inv (ee_env e) cinv db'"
      "other_tables (ee_env e) TK db db'"
      "db_contents (ee_env e) db' TK = (db_contents (ee_env e) db TK)(row_id (Table_key_row t) \<mapsto> ?m (Table_key_row t))"
    have "db_update_by_key e scope k payer buf db = (Inr (), db')"
      using p(1) c(1) by (simp add: db_update_by_key_def Let_def bindX_run)
    moreover have "key_view e db' = (key_view e db)(?tk \<mapsto> (payer, buf))"
      by (rule ext) (simp add: key_view_def c(4) p(3))
    ultimately show thesis using that c(2,3) by blast
  qed
qed

lemma remove_by_key_run:
  assumes inv: "db_inv (ee_env e) cinv db" and ty: "TK \<in> set (db_index_list db)"
    and old: "key_view e db (table_key (ee_digest e) scope k) = Some x"
  obtains db' where "db_remove_by_key e scope k db = (Inr (), db')" "db_inv (ee_env e) cinv db'"
    "other_tables (ee_env e) TK db db'"
    "key_view e db' = (key_view e db)(table_key (ee_digest e) scope k := None)"
proof -
  let ?tk = "table_key (ee_digest e) scope k"
  obtain p t where p: "database_find TK (\<lambda>c. ee_by_key e c ?tk) db = (Inr (Some p), db)"
    "db_at (ee_env e) db TK p = Some (Table_key_row t)" "tk_id t = ?tk"
    using existing_key [OF inv ty old] by blast
  show thesis
  proof (rule remove_run [OF inv ty p(2)])
    fix db'
    assume c: "database_remove (ee_env e) TK p db = (Inr (), db')" "db_inv (ee_env e) cinv db'"
      "other_tables (ee_env e) TK db db'"
      "db_contents (ee_env e) db' TK = (db_contents (ee_env e) db TK)(row_id (Table_key_row t) := None)"
    have "db_remove_by_key e scope k db = (Inr (), db')"
      using p(1) c(1) by (simp add: db_remove_by_key_def Let_def bindX_run)
    moreover have "key_view e db' = (key_view e db)(?tk := None)"
      by (rule ext) (simp add: key_view_def c(4) p(3))
    ultimately show thesis using that c(2,3) by blast
  qed
qed

end

end
