(* ===== verification/Eos_Rows.thy ===== *)
theory Eos_Rows
  imports Eos_Correct
begin

text \<open>
  Correctness of the row interface of \<open>eos_db\<close> (\<open>db_store_i64\<close> and the operations on
  iterators). \<open>itr_row\<close> is the row an iterator stands for, \<open>has_row\<close> the rows of a table
  as a set of (table id, row) facts. The invariant \<open>eos_inv\<close> adds to the database's that
  the two tables hold objects of their types, that every live iterator of the cache refers
  to a live row whose table is cached, and that the cached tables are live.
\<close>

abbreviation TI :: table_type where "TI \<equiv> Table_id_object_type"
abbreviation KV :: table_type where "KV \<equiv> Key_value_object_type"

fun the_kv :: "row \<Rightarrow> key_value_object option" where
  "the_kv (Key_value_row o1) = Some o1"
| "the_kv _ = None"

fun the_table :: "row \<Rightarrow> table_id_object option" where
  "the_table (Table_id_row t) = Some t"
| "the_table _ = None"

lemma the_kv_Some [simp]: "the_kv r = Some o1 \<longleftrightarrow> r = Key_value_row o1"
  by (cases r) auto

lemma the_table_Some [simp]: "the_table r = Some t \<longleftrightarrow> r = Table_id_row t"
  by (cases r) auto

definition row_at :: "('c, 'p) eos_env \<Rightarrow> 'c database \<Rightarrow> 'p \<rightharpoonup> key_value_object" where
  "row_at e db p = Option.bind (db_at (ee_env e) db KV p) the_kv"

definition table_at :: "('c, 'p) eos_env \<Rightarrow> 'c database \<Rightarrow> 'p \<rightharpoonup> table_id_object" where
  "table_at e db p = Option.bind (db_at (ee_env e) db TI p) the_table"

definition has_row :: "('c, 'p) eos_env \<Rightarrow> 'c database \<Rightarrow> key_value_object \<Rightarrow> bool" where
  "has_row e db o1 \<longleftrightarrow> (\<exists>p. row_at e db p = Some o1)"

definition itr_row :: "('c, 'p) eos_env \<Rightarrow> ('c, 'p) eos_db \<Rightarrow> int \<rightharpoonup> key_value_object" where
  "itr_row e st i =
     (case fst (ic_get i (es_keyval_cache st)) of Inl _ \<Rightarrow> None | Inr p \<Rightarrow> row_at e (es_db st) p)"

definition cache_ok :: "('c, 'p) eos_env \<Rightarrow> 'c database \<Rightarrow> 'p iterator_cache \<Rightarrow> bool" where
  "cache_ok e db c \<longleftrightarrow> ic_ok c \<and>
     (\<forall>i p. ic_get i c = (Inr p, c) \<longrightarrow> (\<exists>o1. row_at e db p = Some o1 \<and> map_of (ic_table_cache c) (kv_t_id o1) \<noteq> None)) \<and>
     (\<forall>i t ei. map_of (ic_table_cache c) i = Some (t, ei) \<longrightarrow> (\<exists>to1. table_at e db t = Some to1 \<and> tid_id to1 = i))"

definition rows_typed :: "('c, 'p) eos_env \<Rightarrow> 'c database \<Rightarrow> bool" where
  "rows_typed e db \<longleftrightarrow>
     (\<forall>p r. db_at (ee_env e) db KV p = Some r \<longrightarrow> the_kv r \<noteq> None) \<and>
     (\<forall>p r. db_at (ee_env e) db TI p = Some r \<longrightarrow> the_table r \<noteq> None)"

definition eos_inv :: "('c, 'p) eos_env \<Rightarrow> ('c \<Rightarrow> bool) \<Rightarrow> ('c, 'p) eos_db \<Rightarrow> bool" where
  "eos_inv e cinv st \<longleftrightarrow> db_inv (ee_env e) cinv (es_db st) \<and>
     TI \<in> set (db_index_list (es_db st)) \<and> KV \<in> set (db_index_list (es_db st)) \<and>
     rows_typed e (es_db st) \<and> cache_ok e (es_db st) (es_keyval_cache st)"

text \<open>The cache can take one more entry of each kind.\<close>

definition cache_room :: "'p iterator_cache \<Rightarrow> bool" where
  "cache_room c \<longleftrightarrow> length (ic_iterator_to_object c) < ic_limit \<and> length (ic_end_iterator_to_table c) < ic_limit"

lemma eos_invD:
  assumes "eos_inv e cinv st"
  shows "db_inv (ee_env e) cinv (es_db st)" "TI \<in> set (db_index_list (es_db st))"
    "KV \<in> set (db_index_list (es_db st))" "rows_typed e (es_db st)" "cache_ok e (es_db st) (es_keyval_cache st)"
  using assms by (simp_all add: eos_inv_def)

lemma cache_okD:
  assumes "cache_ok e db c"
  shows "ic_ok c"
    and "ic_get i c = (Inr p, c) \<Longrightarrow> \<exists>o1. row_at e db p = Some o1 \<and> map_of (ic_table_cache c) (kv_t_id o1) \<noteq> None"
    and "map_of (ic_table_cache c) i = Some (t, ei) \<Longrightarrow> \<exists>to1. table_at e db t = Some to1 \<and> tid_id to1 = i"
  using assms unfolding cache_ok_def by blast+

lemma row_at_Some: "row_at e db p = Some o1 \<longleftrightarrow> db_at (ee_env e) db KV p = Some (Key_value_row o1)"
  by (auto simp: row_at_def bind_eq_Some_conv)

lemma table_at_Some: "table_at e db p = Some t \<longleftrightarrow> db_at (ee_env e) db TI p = Some (Table_id_row t)"
  by (auto simp: table_at_def bind_eq_Some_conv)

lemma itr_row_Some:
  "itr_row e st i = Some o1 \<longleftrightarrow>
     (\<exists>p. ic_get i (es_keyval_cache st) = (Inr p, es_keyval_cache st) \<and> row_at e (es_db st) p = Some o1)"
proof -
  have "ic_get i c = (r, c') \<Longrightarrow> c' = c" for c c' :: "'b iterator_cache" and r
    by (auto simp: ic_get_def bindX_def split: sum.splits option.splits)
  then have "ic_get i (es_keyval_cache st) = (fst (ic_get i (es_keyval_cache st)), es_keyval_cache st)"
    by (metis prod.collapse)
  then show ?thesis unfolding itr_row_def by (auto split: sum.splits)
qed

section \<open>Running the parts\<close>

lemma dbX_run: "m (es_db st) = (r, d) \<Longrightarrow> dbX m st = (r, st\<lparr>es_db := d\<rparr>)"
  by (simp add: dbX_def liftX_def)

lemma keyvalX_run: "m (es_keyval_cache st) = (r, c) \<Longrightarrow> keyvalX m st = (r, st\<lparr>es_keyval_cache := c\<rparr>)"
  by (simp add: keyvalX_def liftX_def)

lemma dbX_read: "m (es_db st) = (r, es_db st) \<Longrightarrow> dbX m st = (r, st)"
  by (simp add: dbX_def liftX_def)

lemma keyvalX_read: "m (es_keyval_cache st) = (r, es_keyval_cache st) \<Longrightarrow> keyvalX m st = (r, st)"
  by (simp add: keyvalX_def liftX_def)

lemma deref_run: "db_at (ee_env e) db ty p = Some r \<Longrightarrow> deref e ty p db = (Inr r, db)"
  by (auto simp: deref_def db_at_def split: option.splits)

lemma deref_kv_run: "row_at e db p = Some o1 \<Longrightarrow> deref_kv e p db = (Inr o1, db)"
  by (simp add: row_at_Some deref_kv_def bindX_run [OF deref_run])

lemma deref_table_run: "table_at e db p = Some t \<Longrightarrow> deref_table e p db = (Inr t, db)"
  by (simp add: table_at_Some deref_table_def bindX_run [OF deref_run])

text \<open>Adding an iterator for a live row of a cached table.\<close>

lemma add_iterator:
  assumes ok: "cache_ok e db c" and room: "length (ic_iterator_to_object c) < ic_limit"
    and p: "row_at e db p = Some o1" "map_of (ic_table_cache c) (kv_t_id o1) \<noteq> None"
  obtains i c' where "ic_add p c = (Inr i, c')" "cache_ok e db c'" "0 \<le> i" "ic_get i c' = (Inr p, c')"
    "\<And>j q. ic_get j c = (Inr q, c) \<Longrightarrow> ic_get j c' = (Inr q, c')" "ic_table_cache c' = ic_table_cache c"
proof (rule ic_add_ok [OF cache_okD(1) [OF ok] room, of p])
  fix i c'
  assume a: "ic_add p c = (Inr i, c')" "ic_ok c'" "0 \<le> i" "ic_get i c' = (Inr p, c')"
    "\<And>j q. ic_get j c = (Inr q, c) \<Longrightarrow> ic_get j c' = (Inr q, c')"
    "ic_table_cache c' = ic_table_cache c"
  have old: "ic_get j c = (Inr q, c) \<or> q = p" if "ic_get j c' = (Inr q, c')" for j q
  proof (cases "ic_object_to_iterator c p")
    case (Some x)
    then have "c' = c" using a(1) by (simp add: ic_add_def)
    then show ?thesis using that by simp
  next
    case None
    then have "ic_iterator_to_object c' = ic_iterator_to_object c @ [Some p]"
      using a(1) by (auto simp: ic_add_def Let_def)
    then show ?thesis using that by (auto simp: ic_get_conv nth_append split: if_splits)
  qed
  have live: "\<exists>o1. row_at e db q = Some o1 \<and> map_of (ic_table_cache c) (kv_t_id o1) \<noteq> None"
    if q: "ic_get j c' = (Inr q, c')" for j q
    using old [OF q]
  proof
    assume "ic_get j c = (Inr q, c)"
    then show ?thesis by (rule cache_okD(2) [OF ok])
  qed (use p in simp)
  have "cache_ok e db c'"
    unfolding cache_ok_def a(6)
  proof (intro conjI allI impI)
    fix j q
    assume "ic_get j c' = (Inr q, c')"
    then show "\<exists>o1. row_at e db q = Some o1 \<and> map_of (ic_table_cache c) (kv_t_id o1) \<noteq> None" by (rule live)
  next
    fix j t f
    assume "map_of (ic_table_cache c) j = Some (t, f)"
    then show "\<exists>to1. table_at e db t = Some to1 \<and> tid_id to1 = j" by (rule cache_okD(3) [OF ok])
  qed (rule a(2))
  from that [OF a(1) this a(3,4) a(5,6)] show thesis .
qed

lemma cache_table_live:
  assumes ok: "cache_ok e db c" and room: "length (ic_end_iterator_to_table c) < ic_limit"
    and t: "table_at e db t = Some to1"
  obtains ei c' where "cache_table (tid_id to1) t c = (Inr ei, c')" "cache_ok e db c'" "ei < -1"
    "\<exists>u. map_of (ic_table_cache c') (tid_id to1) = Some (u, ei)"
    "ic_iterator_to_object c' = ic_iterator_to_object c"
    "\<And>j q. ic_get j c = (Inr q, c) \<longleftrightarrow> ic_get j c' = (Inr q, c')"
proof (rule cache_table_ok [OF cache_okD(1) [OF ok] room, of "tid_id to1" t])
  fix ei c'
  assume a: "cache_table (tid_id to1) t c = (Inr ei, c')" "ic_ok c'" "ei < -1"
    "\<exists>u. map_of (ic_table_cache c') (tid_id to1) = Some (u, ei) \<and> find_table_by_end_iterator ei c' = (Inr (Some u), c') \<and>
      (map_of (ic_table_cache c) (tid_id to1) = None \<longrightarrow> u = t)"
    "ic_iterator_to_object c' = ic_iterator_to_object c"
    "\<And>j. j \<noteq> tid_id to1 \<Longrightarrow> map_of (ic_table_cache c') j = map_of (ic_table_cache c) j"
  have g: "ic_get j c = (Inr q, c) \<longleftrightarrow> ic_get j c' = (Inr q, c')" for j q by (simp add: ic_get_conv a(5))
  have same: "map_of (ic_table_cache c) (tid_id to1) = Some x \<Longrightarrow> c' = c" for x
    using a(1) by (cases x) (simp add: cache_table_def)
  obtain u where u: "map_of (ic_table_cache c') (tid_id to1) = Some (u, ei)"
    "map_of (ic_table_cache c) (tid_id to1) = None \<longrightarrow> u = t" using a(4) by (elim exE conjE)
  have "\<exists>x. table_at e db v = Some x \<and> tid_id x = i" if v: "map_of (ic_table_cache c') i = Some (v, f)" for i v f
  proof (cases "i = tid_id to1 \<and> map_of (ic_table_cache c) (tid_id to1) = None")
    case True
    then show ?thesis using v u t by auto
  next
    case False
    then have "map_of (ic_table_cache c) i = Some (v, f)" using v a(6) same by (cases "i = tid_id to1") auto
    then show ?thesis by (rule cache_okD(3) [OF ok])
  qed
  note live = this
  have keep: "map_of (ic_table_cache c') i \<noteq> None" if "map_of (ic_table_cache c) i \<noteq> None" for i
    using that a(6) u(1) by (cases "i = tid_id to1") auto
  have "cache_ok e db c'"
    unfolding cache_ok_def
  proof (intro conjI allI impI)
    fix j q
    assume "ic_get j c' = (Inr q, c')"
    then have "ic_get j c = (Inr q, c)" by (simp add: g)
    then show "\<exists>o1. row_at e db q = Some o1 \<and> map_of (ic_table_cache c') (kv_t_id o1) \<noteq> None"
      using cache_okD(2) [OF ok] keep by blast
  next
    fix j v f
    assume "map_of (ic_table_cache c') j = Some (v, f)"
    then show "\<exists>x. table_at e db v = Some x \<and> tid_id x = j" by (rule live)
  qed (rule a(2))
  moreover have "\<exists>u. map_of (ic_table_cache c') (tid_id to1) = Some (u, ei)" using u(1) by (rule exI)
  ultimately show thesis by (rule that [OF a(1) _ a(3) _ a(5) g])
qed

section \<open>Searching in a table\<close>

text \<open>
  The first row of table \<open>t\<close> whose primary key satisfies \<open>P\<close>, and the last one.
\<close>

definition first_row :: "('c, 'p) eos_env \<Rightarrow> 'c database \<Rightarrow> int \<Rightarrow> (u64 \<Rightarrow> bool) \<Rightarrow> key_value_object \<Rightarrow> bool" where
  "first_row e db t P n \<longleftrightarrow> has_row e db n \<and> kv_t_id n = t \<and> P (kv_primary_key n) \<and>
     (\<forall>m. has_row e db m \<longrightarrow> kv_t_id m = t \<longrightarrow> P (kv_primary_key m) \<longrightarrow> kv_primary_key n \<le> kv_primary_key m)"

definition last_row :: "('c, 'p) eos_env \<Rightarrow> 'c database \<Rightarrow> int \<Rightarrow> (u64 \<Rightarrow> bool) \<Rightarrow> key_value_object \<Rightarrow> bool" where
  "last_row e db t P n \<longleftrightarrow> has_row e db n \<and> kv_t_id n = t \<and> P (kv_primary_key n) \<and>
     (\<forall>m. has_row e db m \<longrightarrow> kv_t_id m = t \<longrightarrow> P (kv_primary_key m) \<longrightarrow> kv_primary_key m \<le> kv_primary_key n)"

definition no_row :: "('c, 'p) eos_env \<Rightarrow> 'c database \<Rightarrow> int \<Rightarrow> (u64 \<Rightarrow> bool) \<Rightarrow> bool" where
  "no_row e db t P \<longleftrightarrow> (\<forall>m. has_row e db m \<longrightarrow> kv_t_id m = t \<longrightarrow> \<not> P (kv_primary_key m))"

definition keys_ok :: "('c, 'p) eos_env \<Rightarrow> 'c database \<Rightarrow> ('p \<rightharpoonup> int \<times> u64) \<Rightarrow> bool" where
  "keys_ok e db ks \<longleftrightarrow> (\<forall>p t k. ks p = Some (t, k) \<longleftrightarrow>
     (\<exists>o1. row_at e db p = Some o1 \<and> kv_t_id o1 = t \<and> kv_primary_key o1 = k))"

definition end_itr :: "('c, 'p) eos_db \<Rightarrow> int \<Rightarrow> int \<Rightarrow> bool" where
  "end_itr st t ei \<longleftrightarrow> ei < -1 \<and> (\<exists>u. map_of (ic_table_cache (es_keyval_cache st)) t = Some (u, ei))"

text \<open>Iterators that stand for a row keep standing for it.\<close>

definition itr_kept :: "('c, 'p) eos_env \<Rightarrow> ('c, 'p) eos_db \<Rightarrow> ('c, 'p) eos_db \<Rightarrow> bool" where
  "itr_kept e st st' \<longleftrightarrow> (\<forall>i x. itr_row e st i = Some x \<longrightarrow> itr_row e st' i = Some x)"

context eos_interface
begin

lemma kv_index:
  assumes inv: "eos_inv e cinv st"
  obtains s where "dbX (get_index KV) st = (Inr s, st)" "cinv (gi_indices s)"
    "db_segment (es_db st) KV = Some s"
    "keys_ok e (es_db st) (keys (gi_indices s))"
proof (rule get_index_run [OF eos_invD(1,3) [OF inv]])
  fix s
  assume s: "get_index KV (es_db st) = (Inr s, es_db st)" "db_segment (es_db st) KV = Some s"
    "gi_ok (env_ops (ee_env e)) row_id cinv s"
  have "keys (gi_indices s) p = Some (t, k) \<longleftrightarrow>
      (\<exists>o1. row_at e (es_db st) p = Some o1 \<and> kv_t_id o1 = t \<and> kv_primary_key o1 = k)" for p t k
  proof -
    have "row_scope_primary r = Some (t, k) \<longleftrightarrow> (\<exists>o1. r = Key_value_row o1 \<and> kv_t_id o1 = t \<and> kv_primary_key o1 = k)" for r
      by (cases r) (auto simp: by_scope_primary_def)
    then show ?thesis
      unfolding rows.keys_eq row_at_Some bind_eq_Some_conv by (auto simp: db_at_def s(2))
  qed
  then have "keys_ok e (es_db st) (keys (gi_indices s))" unfolding keys_ok_def by blast
  then show thesis
    by (rule that [OF dbX_read [where m = "get_index KV", OF s(1)] gi_okD(1) [OF s(3)] s(2)])
qed

text \<open>From a bound in the whole index to the rows of one table.\<close>

lemma found_in_table:
  assumes ks: "keys_ok e db (keys c)"
    and f: "found (is_first (keys c) Q) Q (keys c) r"
    and Q: "\<And>k. Q (t, k) \<longleftrightarrow> P k" "\<And>x. Q x \<Longrightarrow> t \<le> fst x"
  shows "case r of None \<Rightarrow> no_row e db t P
    | Some q \<Rightarrow> \<exists>n. row_at e db q = Some n \<and> (if kv_t_id n = t then first_row e db t P n else no_row e db t P)"
proof (cases r)
  note keys = ks [unfolded keys_ok_def, rule_format]
  case None
  have "\<not> P (kv_primary_key m)" if m: "has_row e db m" "kv_t_id m = t" for m
  proof -
    obtain p where "keys c p = Some (t, kv_primary_key m)" using m keys by (auto simp: has_row_def)
    then show ?thesis using f None Q(1) by (auto simp: found_def)
  qed
  then show ?thesis using None by (auto simp: no_row_def)
next
  note keys = ks [unfolded keys_ok_def, rule_format]
  case (Some q)
  then have "is_first (keys c) Q q" using f by (simp add: found_def)
  then obtain k where k: "keys c q = Some k" "Q k" "\<And>p j. keys c p = Some j \<Longrightarrow> Q j \<Longrightarrow> k \<le> j"
    unfolding is_first_def by blast
  obtain n where n: "row_at e db q = Some n" "k = (kv_t_id n, kv_primary_key n)"
    using k(1) keys [of q "fst k" "snd k"] by auto
  have le: "k \<le> (t, kv_primary_key m)" if m: "has_row e db m" "kv_t_id m = t" "P (kv_primary_key m)" for m
  proof -
    obtain p where "keys c p = Some (t, kv_primary_key m)" using m(1,2) keys by (auto simp: has_row_def)
    then show ?thesis using k(3) Q(1) m(3) by blast
  qed
  show ?thesis
  proof (cases "kv_t_id n = t")
    case True
    have "first_row e db t P n"
      unfolding first_row_def using n k(2) Q(1) True le by (auto simp: has_row_def)
    then show ?thesis using Some n True by simp
  next
    case False
    then have "t < kv_t_id n" using Q(2) [OF k(2)] n(2) by simp
    then have "no_row e db t P" using le n(2) False by (fastforce simp: no_row_def)
    then show ?thesis using Some n False by simp
  qed
qed

lemma found_last_in_table:
  assumes ks: "keys_ok e db (keys c)"
    and f: "found (is_last (keys c) Q) Q (keys c) (Some q)"
    and Q: "\<And>k. Q (t, k) \<longleftrightarrow> P k" "\<And>x. Q x \<Longrightarrow> fst x \<le> t"
  shows "\<exists>n. row_at e db q = Some n \<and> (if kv_t_id n = t then last_row e db t P n else no_row e db t P)"
proof -
  note keys = ks [unfolded keys_ok_def, rule_format]
  have "is_last (keys c) Q q" using f by (simp add: found_def)
  then obtain k where k: "keys c q = Some k" "Q k" "\<And>p j. keys c p = Some j \<Longrightarrow> Q j \<Longrightarrow> j \<le> k"
    unfolding is_last_def by blast
  obtain n where n: "row_at e db q = Some n" "k = (kv_t_id n, kv_primary_key n)"
    using k(1) keys [of q "fst k" "snd k"] by auto
  have le: "(t, kv_primary_key m) \<le> k" if m: "has_row e db m" "kv_t_id m = t" "P (kv_primary_key m)" for m
  proof -
    obtain p where "keys c p = Some (t, kv_primary_key m)" using m(1,2) keys by (auto simp: has_row_def)
    then show ?thesis using k(3) Q(1) m(3) by blast
  qed
  show ?thesis
  proof (cases "kv_t_id n = t")
    case True
    have "last_row e db t P n"
      unfolding last_row_def using n k(2) Q(1) True le by (auto simp: has_row_def)
    then show ?thesis using n True by simp
  next
    case False
    then have "kv_t_id n < t" using Q(2) [OF k(2)] n(2) by simp
    then have "no_row e db t P" using le n(2) False by (fastforce simp: no_row_def)
    then show ?thesis using n False by simp
  qed
qed

lemma add_row_iterator:
  assumes inv: "eos_inv e cinv st" and room: "length (ic_iterator_to_object (es_keyval_cache st)) < ic_limit"
    and q: "row_at e (es_db st) q = Some n" "map_of (ic_table_cache (es_keyval_cache st)) (kv_t_id n) \<noteq> None"
  obtains j st' where "keyvalX (ic_add q) st = (Inr j, st')" "eos_inv e cinv st'" "es_db st' = es_db st"
    "itr_row e st' j = Some n" "0 \<le> j" "itr_kept e st st'"
proof (rule add_iterator [OF eos_invD(5) [OF inv] room q])
  fix j c'
  assume a: "ic_add q (es_keyval_cache st) = (Inr j, c')" "cache_ok e (es_db st) c'" "0 \<le> j" "ic_get j c' = (Inr q, c')"
    "\<And>j q. ic_get j (es_keyval_cache st) = (Inr q, es_keyval_cache st) \<Longrightarrow> ic_get j c' = (Inr q, c')"
  let ?st = "st\<lparr>es_keyval_cache := c'\<rparr>"
  have "eos_inv e cinv ?st" using inv a(2) by (simp add: eos_inv_def)
  moreover have "itr_row e ?st j = Some n" using a(4) q(1) by (simp add: itr_row_Some)
  moreover have "itr_kept e st ?st" unfolding itr_kept_def itr_row_Some using a(5) by auto
  ultimately show thesis using that [of j ?st] keyvalX_run [where m = "ic_add q", OF a(1)] a(3) by simp
qed

lemma next_ok:
  assumes inv: "eos_inv e cinv st" and room: "cache_room (es_keyval_cache st)" and o1: "itr_row e st i = Some o1"
  obtains j r st' where "db_next_i64 e i st = (Inr (j, r), st')" "eos_inv e cinv st'" "es_db st' = es_db st" "itr_kept e st st'"
    "case r of
       None \<Rightarrow> no_row e (es_db st) (kv_t_id o1) (\<lambda>k. kv_primary_key o1 < k) \<and> end_itr st' (kv_t_id o1) j
     | Some k \<Rightarrow> \<exists>n. first_row e (es_db st) (kv_t_id o1) (\<lambda>k. kv_primary_key o1 < k) n \<and> k = kv_primary_key n \<and>
         itr_row e st' j = Some n"
proof -
  let ?db = "es_db st" and ?c = "es_keyval_cache st" and ?t = "kv_t_id o1" and ?P = "\<lambda>k. kv_primary_key o1 < k"
  obtain p where p: "ic_get i ?c = (Inr p, ?c)" "row_at e ?db p = Some o1" using o1 by (auto simp: itr_row_Some)
  have i: "\<not> i < -1" using p(1) by (simp add: ic_get_conv)
  obtain u ei where u: "map_of (ic_table_cache ?c) ?t = Some (u, ei)"
    using cache_okD(2) [OF eos_invD(5) [OF inv] p(1)] p(2) by auto
  have ei: "end_itr st ?t ei"
    using ic_okD(2) [OF cache_okD(1) [OF eos_invD(5) [OF inv]] u] u by (auto simp: end_itr_def)
  have ge: "keyvalX (get_end_iterator_by_table_id ?t) st = (Inr ei, st)"
    by (rule keyvalX_read) (simp add: get_end_iterator_by_table_id_def u)
  obtain s where s: "dbX (get_index KV) st = (Inr s, st)" "cinv (gi_indices s)" "db_segment ?db KV = Some s"
    "keys_ok e ?db (keys (gi_indices s))"
    by (rule kv_index [OF inv])
  have kp: "keys (gi_indices s) p = Some (?t, kv_primary_key o1)" using s(4) p(2) unfolding keys_ok_def by blast
  have f: "case oi_next (ee_scope_primary e) (gi_indices s) p of None \<Rightarrow> no_row e ?db ?t ?P
    | Some q \<Rightarrow> \<exists>n. row_at e ?db q = Some n \<and> (if kv_t_id n = ?t then first_row e ?db ?t ?P n else no_row e ?db ?t ?P)"
    by (rule found_in_table [OF s(4) rows.next_first [OF s(2) kp]]) auto
  note run = keyvalX_read [where m = "ic_get i", OF p(1)] s(1) dbX_read [where m = "deref_kv e p", OF deref_kv_run [OF p(2)]]
  show thesis
  proof (cases "oi_next (ee_scope_primary e) (gi_indices s) p")
    case None
    then have "db_next_i64 e i st = (Inr (ei, None), st)"
      using i ge run by (simp add: db_next_i64_def bindX_run)
    then show thesis using that [of ei None st] inv f None ei by (simp add: itr_kept_def)
  next
    case (Some q)
    then obtain n where n: "row_at e ?db q = Some n" "if kv_t_id n = ?t then first_row e ?db ?t ?P n else no_row e ?db ?t ?P"
      using f by auto
    note run4 = dbX_read [where m = "deref_kv e q", OF deref_kv_run [OF n(1)]]
    show thesis
    proof (cases "kv_t_id n = ?t")
      case False
      then have "db_next_i64 e i st = (Inr (ei, None), st)"
        using i ge Some run run4 by (simp add: db_next_i64_def bindX_run)
      then show thesis using that [of ei None st] inv n False ei by (simp add: itr_kept_def)
    next
      case True
      show thesis
      proof (rule add_row_iterator [OF inv _ n(1)])
        show "length (ic_iterator_to_object ?c) < ic_limit" using room by (simp add: cache_room_def)
        show "map_of (ic_table_cache ?c) (kv_t_id n) \<noteq> None" using u True by simp
        fix j st'
        assume a: "keyvalX (ic_add q) st = (Inr j, st')" "eos_inv e cinv st'" "es_db st' = es_db st"
          "itr_row e st' j = Some n" "itr_kept e st st'"
        have "db_next_i64 e i st = (Inr (j, Some (kv_primary_key n)), st')"
          using i Some True run run4 a(1) by (simp add: db_next_i64_def bindX_run)
        then show thesis using that [of j "Some (kv_primary_key n)" st'] a n True by auto
      qed
    qed
  qed
qed

text \<open>Finding the table and caching it.\<close>

lemma find_table_db:
  assumes inv: "db_inv (ee_env e) cinv db" "TI \<in> set (db_index_list db)"
  obtains r where "find_table e code scope table db = (Inr r, db)"
    "\<forall>p. r = Some p \<longleftrightarrow> (\<exists>t. table_at e db p = Some t \<and> by_code_scope_table t = (code, scope, table))"
proof (rule find_run [OF inv, of "\<lambda>c. ee_code_scope_table e c (code, scope, table)"])
  fix c
  assume c: "database_find TI (\<lambda>c. ee_code_scope_table e c (code, scope, table)) db =
      (Inr (ee_code_scope_table e c (code, scope, table)), db)" "cinv c"
    "db_at (ee_env e) db TI = mi_at (env_ops (ee_env e)) c"
  have r: "row_code_scope_table r = Some k \<longleftrightarrow> (\<exists>t. r = Table_id_row t \<and> by_code_scope_table t = k)" for r k
    by (cases r) auto
  have "ee_code_scope_table e c (code, scope, table) = Some p \<longleftrightarrow>
      (\<exists>t. table_at e db p = Some t \<and> by_code_scope_table t = (code, scope, table))" for p
    unfolding tables.ofind_iff [OF c(2)] table_at_Some c(3) by (auto simp: r)
  then show thesis using that c(1) unfolding find_table_def by blast
qed

lemma find_table_run:
  assumes inv: "eos_inv e cinv st"
  obtains r where "dbX (find_table e code scope table) st = (Inr r, st)"
    "\<forall>p. r = Some p \<longleftrightarrow> (\<exists>t. table_at e (es_db st) p = Some t \<and> by_code_scope_table t = (code, scope, table))"
proof (rule find_table_db [OF eos_invD(1,2) [OF inv]])
  fix r
  assume "find_table e code scope table (es_db st) = (Inr r, es_db st)"
    "\<forall>p. r = Some p \<longleftrightarrow> (\<exists>t. table_at e (es_db st) p = Some t \<and> by_code_scope_table t = (code, scope, table))"
  then show thesis using that dbX_read [where m = "find_table e code scope table"] by blast
qed

lemma cache_table_run:
  assumes inv: "eos_inv e cinv st" and room: "cache_room (es_keyval_cache st)" and t: "table_at e (es_db st) p = Some t"
  obtains ei st' where "keyvalX (cache_table (tid_id t) p) st = (Inr ei, st')" "eos_inv e cinv st'" "es_db st' = es_db st"
    "end_itr st' (tid_id t) ei" "itr_kept e st st'" "length (ic_iterator_to_object (es_keyval_cache st')) < ic_limit"
proof (rule cache_table_live [OF eos_invD(5) [OF inv] _ t])
  show "length (ic_end_iterator_to_table (es_keyval_cache st)) < ic_limit" using room by (simp add: cache_room_def)
  fix ei c'
  assume a: "cache_table (tid_id t) p (es_keyval_cache st) = (Inr ei, c')" "cache_ok e (es_db st) c'" "ei < -1"
    "\<exists>u. map_of (ic_table_cache c') (tid_id t) = Some (u, ei)"
    "ic_iterator_to_object c' = ic_iterator_to_object (es_keyval_cache st)"
    "\<And>j q. ic_get j (es_keyval_cache st) = (Inr q, es_keyval_cache st) \<longleftrightarrow> ic_get j c' = (Inr q, c')"
  let ?st = "st\<lparr>es_keyval_cache := c'\<rparr>"
  have "eos_inv e cinv ?st" using inv a(2) by (simp add: eos_inv_def)
  moreover have "itr_kept e st ?st" unfolding itr_kept_def itr_row_Some using a(6) by auto
  moreover have "end_itr ?st (tid_id t) ei" using a(3,4) by (simp add: end_itr_def)
  moreover have "length (ic_iterator_to_object (es_keyval_cache ?st)) < ic_limit" using a(5) room by (simp add: cache_room_def)
  ultimately show thesis
    using that [of ei ?st] keyvalX_run [where m = "cache_table (tid_id t) p", OF a(1)] by simp
qed

lemma end_itr_cached: "end_itr st t ei \<Longrightarrow> map_of (ic_table_cache (es_keyval_cache st)) t \<noteq> None"
  by (auto simp: end_itr_def)

lemma itr_kept_trans: "itr_kept e a b \<Longrightarrow> itr_kept e b c \<Longrightarrow> itr_kept e a c"
  by (simp add: itr_kept_def)

text \<open>The bound searches: the result is the end iterator or the first row that qualifies.\<close>

lemma bound_ok:
  assumes inv: "eos_inv e cinv st" and room: "cache_room (es_keyval_cache st)"
    and tab: "table_at e (es_db st) p = Some t" "by_code_scope_table t = (code, scope, table)"
    and bound: "\<And>c. cinv c \<Longrightarrow> found (is_first (keys c) Q) Q (keys c) (bound c (tid_id t, i))"
    and Q: "\<And>k. Q (tid_id t, k) \<longleftrightarrow> P k" "\<And>x. Q x \<Longrightarrow> tid_id t \<le> fst x"
  obtains j st' where "db_bound_i64 e bound code scope table i st = (Inr j, st')" "eos_inv e cinv st'"
    "es_db st' = es_db st" "itr_kept e st st'"
    "no_row e (es_db st) (tid_id t) P \<and> end_itr st' (tid_id t) j \<or>
     (\<exists>n. first_row e (es_db st) (tid_id t) P n \<and> itr_row e st' j = Some n)"
proof -
  obtain r where r: "dbX (find_table e code scope table) st = (Inr r, st)"
    "\<forall>p. r = Some p \<longleftrightarrow> (\<exists>t. table_at e (es_db st) p = Some t \<and> by_code_scope_table t = (code, scope, table))"
    by (rule find_table_run [OF inv])
  have rp: "r = Some p" using r(2) tab by blast
  have d: "dbX (deref_table e p) st = (Inr t, st)" by (rule dbX_read) (rule deref_table_run [OF tab(1)])
  obtain ei st1 where c: "keyvalX (cache_table (tid_id t) p) st = (Inr ei, st1)" "eos_inv e cinv st1" "es_db st1 = es_db st"
    "end_itr st1 (tid_id t) ei" "itr_kept e st st1" "length (ic_iterator_to_object (es_keyval_cache st1)) < ic_limit"
    by (rule cache_table_run [OF inv room tab(1)])
  obtain s where s: "dbX (get_index KV) st1 = (Inr s, st1)" "cinv (gi_indices s)" "db_segment (es_db st1) KV = Some s"
    "keys_ok e (es_db st1) (keys (gi_indices s))" by (rule kv_index [OF c(2)])
  have f: "case bound (gi_indices s) (tid_id t, i) of None \<Rightarrow> no_row e (es_db st1) (tid_id t) P
    | Some q \<Rightarrow> \<exists>n. row_at e (es_db st1) q = Some n \<and>
        (if kv_t_id n = tid_id t then first_row e (es_db st1) (tid_id t) P n else no_row e (es_db st1) (tid_id t) P)"
    by (rule found_in_table [OF s(4) bound [OF s(2)] Q])
  note run = r(1) rp d c(1) s(1)
  show thesis
  proof (cases "bound (gi_indices s) (tid_id t, i)")
    case None
    then have "db_bound_i64 e bound code scope table i st = (Inr ei, st1)"
      using run by (simp add: db_bound_i64_def bindX_run)
    then show thesis using that [of ei st1] c f None by simp
  next
    case (Some q)
    then obtain n where n: "row_at e (es_db st1) q = Some n"
      "if kv_t_id n = tid_id t then first_row e (es_db st1) (tid_id t) P n else no_row e (es_db st1) (tid_id t) P"
      using f by auto
    have dq: "dbX (deref_kv e q) st1 = (Inr n, st1)" by (rule dbX_read) (rule deref_kv_run [OF n(1)])
    show thesis
    proof (cases "kv_t_id n = tid_id t")
      case False
      then have "db_bound_i64 e bound code scope table i st = (Inr ei, st1)"
        using run dq Some by (simp add: db_bound_i64_def bindX_run)
      then show thesis using that [of ei st1] c n False by simp
    next
      case True
      have tc: "map_of (ic_table_cache (es_keyval_cache st1)) (kv_t_id n) \<noteq> None"
        using end_itr_cached [OF c(4)] True by simp
      obtain j st' where a: "keyvalX (ic_add q) st1 = (Inr j, st')" "eos_inv e cinv st'" "es_db st' = es_db st1"
        "itr_row e st' j = Some n" "0 \<le> j" "itr_kept e st1 st'"
        by (rule add_row_iterator [OF c(2,6) n(1) tc])
      have "db_bound_i64 e bound code scope table i st = (Inr j, st')"
        using run dq Some True a(1) by (simp add: db_bound_i64_def bindX_run)
      then show thesis using that [of j st'] a c n True itr_kept_trans [OF c(5) a(6)] by auto
    qed
  qed
qed

lemma bound_no_table:
  assumes inv: "eos_inv e cinv st"
    and tab: "\<And>p t. table_at e (es_db st) p = Some t \<Longrightarrow> by_code_scope_table t \<noteq> (code, scope, table)"
  shows "db_bound_i64 e bound code scope table i st = (Inr (-1), st)"
    "db_find_i64 e code scope table i st = (Inr (-1), st)" "db_end_i64 e code scope table st = (Inr (-1), st)"
proof -
  obtain r where r: "dbX (find_table e code scope table) st = (Inr r, st)"
    "\<forall>p. r = Some p \<longleftrightarrow> (\<exists>t. table_at e (es_db st) p = Some t \<and> by_code_scope_table t = (code, scope, table))"
    by (rule find_table_run [OF inv])
  have "r = None" using r(2) tab by (cases r) auto
  then show "db_bound_i64 e bound code scope table i st = (Inr (-1), st)"
    "db_find_i64 e code scope table i st = (Inr (-1), st)" "db_end_i64 e code scope table st = (Inr (-1), st)"
    using r(1) by (simp_all add: db_bound_i64_def db_find_i64_def db_end_i64_def bindX_run)
qed

lemma find_ok:
  assumes inv: "eos_inv e cinv st" and room: "cache_room (es_keyval_cache st)"
    and tab: "table_at e (es_db st) p = Some t" "by_code_scope_table t = (code, scope, table)"
  obtains j st' where "db_find_i64 e code scope table i st = (Inr j, st')" "eos_inv e cinv st'"
    "es_db st' = es_db st" "itr_kept e st st'"
    "no_row e (es_db st) (tid_id t) (\<lambda>k. k = i) \<and> end_itr st' (tid_id t) j \<or>
     (\<exists>n. has_row e (es_db st) n \<and> kv_t_id n = tid_id t \<and> kv_primary_key n = i \<and> itr_row e st' j = Some n)"
proof -
  obtain r where r: "dbX (find_table e code scope table) st = (Inr r, st)"
    "\<forall>p. r = Some p \<longleftrightarrow> (\<exists>t. table_at e (es_db st) p = Some t \<and> by_code_scope_table t = (code, scope, table))"
    by (rule find_table_run [OF inv])
  have rp: "r = Some p" using r(2) tab by blast
  have d: "dbX (deref_table e p) st = (Inr t, st)" by (rule dbX_read) (rule deref_table_run [OF tab(1)])
  obtain ei st1 where c: "keyvalX (cache_table (tid_id t) p) st = (Inr ei, st1)" "eos_inv e cinv st1" "es_db st1 = es_db st"
    "end_itr st1 (tid_id t) ei" "itr_kept e st st1" "length (ic_iterator_to_object (es_keyval_cache st1)) < ic_limit"
    by (rule cache_table_run [OF inv room tab(1)])
  obtain s where s: "dbX (get_index KV) st1 = (Inr s, st1)" "cinv (gi_indices s)" "db_segment (es_db st1) KV = Some s"
    "keys_ok e (es_db st1) (keys (gi_indices s))" by (rule kv_index [OF c(2)])
  let ?o = "oi_find (ee_scope_primary e) (gi_indices s) (tid_id t, i)"
  have fo: "dbX (database_find KV (\<lambda>c. oi_find (ee_scope_primary e) c (tid_id t, i))) st1 = (Inr ?o, st1)"
  proof (rule dbX_read)
    obtain s' where "get_index KV (es_db st1) = (Inr s', es_db st1)" "db_segment (es_db st1) KV = Some s'"
      by (rule get_index_run [OF eos_invD(1,3) [OF c(2)]])
    then show "database_find KV (\<lambda>c. oi_find (ee_scope_primary e) c (tid_id t, i)) (es_db st1) = (Inr ?o, es_db st1)"
      using s(3) by (simp add: database_find_def bindX_run)
  qed
  have iff: "?o = Some q \<longleftrightarrow> (\<exists>n. row_at e (es_db st1) q = Some n \<and> kv_t_id n = tid_id t \<and> kv_primary_key n = i)" for q
  proof -
    have "?o = Some q \<longleftrightarrow> keys (gi_indices s) q = Some (tid_id t, i)"
      unfolding rows.ofind_iff [OF s(2)] rows.keys_eq bind_eq_Some_conv ..
    then show ?thesis using s(4) unfolding keys_ok_def by simp
  qed
  note run = r(1) rp d c(1) fo
  show thesis
  proof (cases ?o)
    case None
    then have "no_row e (es_db st) (tid_id t) (\<lambda>k. k = i)"
      using iff c(3) by (auto simp: no_row_def has_row_def)
    moreover have "db_find_i64 e code scope table i st = (Inr ei, st1)"
      using run None by (simp add: db_find_i64_def bindX_run)
    ultimately show thesis using that [of ei st1] c by simp
  next
    case (Some q)
    then obtain n where n: "row_at e (es_db st1) q = Some n" "kv_t_id n = tid_id t" "kv_primary_key n = i" using iff by blast
    have tc: "map_of (ic_table_cache (es_keyval_cache st1)) (kv_t_id n) \<noteq> None"
      using end_itr_cached [OF c(4)] n(2) by simp
    obtain j st' where a: "keyvalX (ic_add q) st1 = (Inr j, st')" "eos_inv e cinv st'" "es_db st' = es_db st1"
      "itr_row e st' j = Some n" "0 \<le> j" "itr_kept e st1 st'"
      by (rule add_row_iterator [OF c(2,6) n(1) tc])
    have "db_find_i64 e code scope table i st = (Inr j, st')"
      using run Some a(1) by (simp add: db_find_i64_def bindX_run)
    moreover have "has_row e (es_db st) n" using n(1) c(3) by (auto simp: has_row_def)
    ultimately show thesis using that [of j st'] a c n itr_kept_trans [OF c(5) a(6)] by auto
  qed
qed

lemma get_ok:
  assumes "eos_inv e cinv st" "itr_row e st i = Some o1"
  shows "db_get_i64 e i n st =
    (if n = 0 then (Inr (as_int (int (length (kv_value o1))), []), st)
     else (Inr (as_int (int (min n (length (kv_value o1)))), take n (kv_value o1)), st))"
proof -
  obtain p where p: "ic_get i (es_keyval_cache st) = (Inr p, es_keyval_cache st)" "row_at e (es_db st) p = Some o1"
    using assms(2) by (auto simp: itr_row_Some)
  have "keyvalX (ic_get i) st = (Inr p, st)" by (rule keyvalX_read) (rule p(1))
  moreover have "dbX (deref_kv e p) st = (Inr o1, st)" by (rule dbX_read) (rule deref_kv_run [OF p(2)])
  ultimately show ?thesis by (simp add: db_get_i64_def bindX_run Let_def min_def)
qed

end

end
