(* ===== verification/Eos_Rows2.thy ===== *)
theory Eos_Rows2
  imports Eos_Rows
begin

text \<open>
  The row interface, second part: stepping backwards, updating, storing and removing rows.
\<close>

section \<open>Stepping backwards\<close>

lemma found_last_cong:
  assumes "\<And>q k. ks q = Some k \<Longrightarrow> Q k \<longleftrightarrow> Q' k"
  shows "found (is_last ks Q) Q ks r \<longleftrightarrow> found (is_last ks Q') Q' ks r"
  using assms by (auto simp: found_def is_last_def split: option.splits)

context eos_interface
begin

lemma before_upper:
  assumes c: "cinv c" and it: "it = oi_upper_bound1 (ee_scope_primary e) c t"
  shows "oi_begin (ee_scope_primary e) c = None \<or> it = oi_begin (ee_scope_primary e) c \<Longrightarrow>
      keys c q = Some k \<Longrightarrow> \<not> fst k \<le> t"
    and "\<not> (oi_begin (ee_scope_primary e) c = None \<or> it = oi_begin (ee_scope_primary e) c) \<Longrightarrow>
      \<exists>x. oi_prev (ee_scope_primary e) c it = Some x \<and>
        found (is_last (keys c) (\<lambda>x. fst x \<le> t)) (\<lambda>x. fst x \<le> t) (keys c) (Some x)"
proof -
  let ?b = "oi_begin (ee_scope_primary e) c"
  have ub: "found (is_first (keys c) (\<lambda>x. t < fst x)) (\<lambda>x. t < fst x) (keys c) it"
    unfolding it by (rule rows.upper1_first [OF c])
  have bf: "found (is_first (keys c) (\<lambda>_. True)) (\<lambda>_. True) (keys c) ?b" by (rule rows.begin_first [OF c])
  show "\<not> fst k \<le> t" if b: "?b = None \<or> it = ?b" and k: "keys c q = Some k"
  proof (cases ?b)
    case None
    then show ?thesis using bf k by (cases k) (auto simp: found_def)
  next
    case (Some x)
    then have "is_first (keys c) (\<lambda>_. True) x" "is_first (keys c) (\<lambda>x. t < fst x) x"
      using bf ub b by (simp_all add: found_def)
    then obtain kx where kx: "keys c x = Some kx" "t < fst kx" "\<And>q j. keys c q = Some j \<Longrightarrow> kx \<le> j"
      unfolding is_first_def by auto
    have "fst kx \<le> fst k" using kx(3) [OF k] by (auto simp: less_eq_prod_def)
    then show ?thesis using kx(2) by simp
  qed
  show "\<exists>x. oi_prev (ee_scope_primary e) c it = Some x \<and>
      found (is_last (keys c) (\<lambda>x. fst x \<le> t)) (\<lambda>x. fst x \<le> t) (keys c) (Some x)"
    if nb: "\<not> (?b = None \<or> it = ?b)"
  proof -
    obtain b where b: "?b = Some b" "it \<noteq> Some b" using nb by auto
    then have "is_first (keys c) (\<lambda>_. True) b" using bf by (simp add: found_def)
    then obtain kb where kb: "keys c b = Some kb" "\<And>q j. keys c q = Some j \<Longrightarrow> kb \<le> j" unfolding is_first_def by auto
    have low: "fst kb \<le> t"
    proof (rule ccontr)
      assume "\<not> fst kb \<le> t"
      then have up: "t < fst kb" by simp
      obtain x where x: "it = Some x" using ub kb(1) up by (auto simp: found_def split: option.splits)
      then have "is_first (keys c) (\<lambda>x. t < fst x) x" using ub by (simp add: found_def)
      then obtain kx where "keys c x = Some kx" "kx \<le> kb" using kb(1) up unfolding is_first_def by blast
      then have "keys c x = Some kb" using kb(2) by (metis antisym)
      then show False using rows.keys_inj [OF c kb(1)] x b(2) by simp
    qed
    have "found (is_last (keys c) (\<lambda>x. fst x \<le> t)) (\<lambda>x. fst x \<le> t) (keys c) (oi_prev (ee_scope_primary e) c it)"
    proof (cases it)
      case None
      have "\<forall>q k. keys c q = Some k \<longrightarrow> \<not> t < fst k" using ub by (simp only: found_def None option.case)
      then have "fst k \<le> t" if "keys c q = Some k" for q k using that by (meson not_less)
      then show ?thesis using rows.prev_end [OF c] found_last_cong [of "keys c" "\<lambda>_. True" "\<lambda>x. fst x \<le> t"] None by simp
    next
      case (Some x)
      then have "is_first (keys c) (\<lambda>x. t < fst x) x" using ub by (simp add: found_def)
      then obtain kx where kx: "keys c x = Some kx" "t < fst kx" "\<And>q j. keys c q = Some j \<Longrightarrow> t < fst j \<Longrightarrow> kx \<le> j"
        unfolding is_first_def by blast
      have "k < kx \<longleftrightarrow> fst k \<le> t" if k: "keys c q = Some k" for q k
      proof
        assume "k < kx"
        then show "fst k \<le> t" using kx(3) [OF k] by (meson leD not_le)
      next
        assume "fst k \<le> t"
        then show "k < kx" using kx(2) by (simp add: less_prod_def')
      qed
      then show ?thesis
        using rows.prev_last [OF c kx(1)] found_last_cong [of "keys c" "\<lambda>x. x < kx" "\<lambda>x. fst x \<le> t"] Some by simp
    qed
    then show ?thesis using kb(1) low by (cases kb; cases "oi_prev (ee_scope_primary e) c it") (auto simp: found_def)
  qed
qed

lemma previous_ok:
  assumes inv: "eos_inv e cinv st" and room: "cache_room (es_keyval_cache st)" and o1: "itr_row e st i = Some o1"
  obtains j r st' where "db_previous_i64 e i st = (Inr (j, r), st')" "eos_inv e cinv st'" "es_db st' = es_db st" "itr_kept e st st'"
    "case r of
       None \<Rightarrow> no_row e (es_db st) (kv_t_id o1) (\<lambda>k. k < kv_primary_key o1) \<and> j = -1
     | Some k \<Rightarrow> \<exists>n. last_row e (es_db st) (kv_t_id o1) (\<lambda>k. k < kv_primary_key o1) n \<and> k = kv_primary_key n \<and>
         itr_row e st' j = Some n"
proof -
  let ?db = "es_db st" and ?c = "es_keyval_cache st" and ?t = "kv_t_id o1" and ?P = "\<lambda>k. k < kv_primary_key o1"
  let ?idx = "ee_scope_primary e"
  obtain p where p: "ic_get i ?c = (Inr p, ?c)" "row_at e ?db p = Some o1" using o1 by (auto simp: itr_row_Some)
  have i: "\<not> i < -1" using p(1) by (simp add: ic_get_conv)
  obtain s where s: "dbX (get_index KV) st = (Inr s, st)" "cinv (gi_indices s)" "db_segment ?db KV = Some s"
    "keys_ok e ?db (keys (gi_indices s))" by (rule kv_index [OF inv])
  let ?k = "(?t, kv_primary_key o1)"
  have kp: "keys (gi_indices s) p = Some ?k" using s(4) p(2) unfolding keys_ok_def by blast
  note run = keyvalX_read [where m = "ic_get i", OF p(1)] s(1) dbX_read [where m = "deref_kv e p", OF deref_kv_run [OF p(2)]]
  have f: "found (is_last (keys (gi_indices s)) (\<lambda>x. x < ?k)) (\<lambda>x. x < ?k) (keys (gi_indices s)) (oi_prev ?idx (gi_indices s) (Some p))"
    by (rule rows.prev_last [OF s(2) kp])
  show thesis
  proof (cases "oi_begin ?idx (gi_indices s) = Some p")
    case True
    then have "\<forall>q j. keys (gi_indices s) q = Some j \<longrightarrow> ?k \<le> j" using rows.begin_iff [OF s(2) kp] by blast
    then have "no_row e ?db ?t ?P"
      using s(4) unfolding no_row_def has_row_def keys_ok_def by (fastforce simp: not_less)
    moreover have "db_previous_i64 e i st = (Inr (-1, None), st)"
      using i run True by (simp add: db_previous_i64_def Let_def bindX_run)
    ultimately show thesis using that [of "-1" None st] inv by (simp add: itr_kept_def)
  next
    case nb: False
    then have "\<not> (\<forall>q j. keys (gi_indices s) q = Some j \<longrightarrow> ?k \<le> j)" using rows.begin_iff [OF s(2) kp] by blast
    then obtain q' k' where "keys (gi_indices s) q' = Some k'" "\<not> ?k \<le> k'" by blast
    then have k': "keys (gi_indices s) q' = Some k'" "k' < ?k" by (simp_all only: not_le)
    obtain q where q: "oi_prev ?idx (gi_indices s) (Some p) = Some q"
      using f k' by (cases "oi_prev ?idx (gi_indices s) (Some p)"; cases k') (auto simp: found_def)
    have "\<exists>n. row_at e ?db q = Some n \<and> (if kv_t_id n = ?t then last_row e ?db ?t ?P n else no_row e ?db ?t ?P)"
      by (rule found_last_in_table [OF s(4) f [unfolded q]]) (auto simp: less_prod_def')
    then obtain n where n: "row_at e ?db q = Some n" "if kv_t_id n = ?t then last_row e ?db ?t ?P n else no_row e ?db ?t ?P"
      by blast
    note run4 = dbX_read [where m = "deref_kv e q", OF deref_kv_run [OF n(1)]]
    show thesis
    proof (cases "kv_t_id n = ?t")
      case False
      then have "db_previous_i64 e i st = (Inr (-1, None), st)"
        using i run run4 nb q by (simp add: db_previous_i64_def Let_def bindX_run)
      then show thesis using that [of "-1" None st] inv n False by (simp add: itr_kept_def)
    next
      case True
      have tc: "map_of (ic_table_cache ?c) (kv_t_id n) \<noteq> None"
        using cache_okD(2) [OF eos_invD(5) [OF inv] p(1)] p(2) True by auto
      have room': "length (ic_iterator_to_object ?c) < ic_limit" using room by (simp add: cache_room_def)
      obtain j st' where a: "keyvalX (ic_add q) st = (Inr j, st')" "eos_inv e cinv st'" "es_db st' = es_db st"
        "itr_row e st' j = Some n" "0 \<le> j" "itr_kept e st st'"
        by (rule add_row_iterator [OF inv room' n(1) tc])
      have "db_previous_i64 e i st = (Inr (j, Some (kv_primary_key n)), st')"
        using i run run4 nb q True a(1) by (simp add: db_previous_i64_def Let_def bindX_run)
      then show thesis using that [of j "Some (kv_primary_key n)" st'] a n True by auto
    qed
  qed
qed

text \<open>From the end iterator of a table: the last row of the table.\<close>

lemma previous_end_ok:
  assumes inv: "eos_inv e cinv st" and room: "cache_room (es_keyval_cache st)" and t: "end_itr st t ei"
  obtains j r st' where "db_previous_i64 e ei st = (Inr (j, r), st')" "eos_inv e cinv st'" "es_db st' = es_db st" "itr_kept e st st'"
    "case r of
       None \<Rightarrow> no_row e (es_db st) t (\<lambda>_. True) \<and> j = -1
     | Some k \<Rightarrow> \<exists>n. last_row e (es_db st) t (\<lambda>_. True) n \<and> k = kv_primary_key n \<and> itr_row e st' j = Some n"
proof -
  let ?db = "es_db st" and ?c = "es_keyval_cache st" and ?idx = "ee_scope_primary e"
  obtain u where u: "ei < -1" "map_of (ic_table_cache ?c) t = Some (u, ei)" using t by (auto simp: end_itr_def)
  have "find_table_by_end_iterator ei ?c = (Inr (Some u), ?c)"
    using ic_okD(2) [OF cache_okD(1) [OF eos_invD(5) [OF inv]] u(2)] by (simp add: find_table_by_end_iterator_def Let_def)
  then have ft: "keyvalX (find_table_by_end_iterator ei) st = (Inr (Some u), st)" by (rule keyvalX_read)
  obtain to1 where to1: "table_at e ?db u = Some to1" "tid_id to1 = t"
    using cache_okD(3) [OF eos_invD(5) [OF inv] u(2)] by blast
  have dt: "dbX (deref_table e u) st = (Inr to1, st)" by (rule dbX_read) (rule deref_table_run [OF to1(1)])
  obtain s where s: "dbX (get_index KV) st = (Inr s, st)" "cinv (gi_indices s)" "db_segment ?db KV = Some s"
    "keys_ok e ?db (keys (gi_indices s))" by (rule kv_index [OF inv])
  let ?cc = "gi_indices s"
  define it where "it = oi_upper_bound1 ?idx ?cc t"
  note bu = before_upper [OF s(2) it_def]
  note run = s(1) ft dt
  show thesis
  proof (cases "oi_begin ?idx ?cc = None \<or> it = oi_begin ?idx ?cc")
    case True
    then have "no_row e ?db t (\<lambda>_. True)"
      using bu(1) s(4) unfolding no_row_def has_row_def keys_ok_def by fastforce
    moreover have "db_previous_i64 e ei st = (Inr (-1, None), st)"
      using u(1) run True by (simp add: db_previous_i64_def Let_def bindX_run to1(2) flip: it_def)
    ultimately show thesis using that [of "-1" None st] inv by (simp add: itr_kept_def)
  next
    case nb: False
    then obtain q where q: "oi_prev ?idx ?cc it = Some q"
      "found (is_last (keys ?cc) (\<lambda>x. fst x \<le> t)) (\<lambda>x. fst x \<le> t) (keys ?cc) (Some q)" using bu(2) by blast
    have "\<exists>n. row_at e ?db q = Some n \<and>
        (if kv_t_id n = t then last_row e ?db t (\<lambda>_. True) n else no_row e ?db t (\<lambda>_. True))"
      by (rule found_last_in_table [OF s(4) q(2)]) auto
    then obtain n where n: "row_at e ?db q = Some n"
      "if kv_t_id n = t then last_row e ?db t (\<lambda>_. True) n else no_row e ?db t (\<lambda>_. True)" by blast
    have dq: "dbX (deref_kv e q) st = (Inr n, st)" by (rule dbX_read) (rule deref_kv_run [OF n(1)])
    show thesis
    proof (cases "kv_t_id n = t")
      case False
      then have "db_previous_i64 e ei st = (Inr (-1, None), st)"
        using u(1) run dq nb q(1) by (simp add: db_previous_i64_def Let_def bindX_run to1(2) flip: it_def)
      then show thesis using that [of "-1" None st] inv n False by (simp add: itr_kept_def)
    next
      case True
      have tc: "map_of (ic_table_cache ?c) (kv_t_id n) \<noteq> None" using u(2) True by simp
      have room': "length (ic_iterator_to_object ?c) < ic_limit" using room by (simp add: cache_room_def)
      obtain j st' where a: "keyvalX (ic_add q) st = (Inr j, st')" "eos_inv e cinv st'" "es_db st' = es_db st"
        "itr_row e st' j = Some n" "0 \<le> j" "itr_kept e st st'"
        by (rule add_row_iterator [OF inv room' n(1) tc])
      have "db_previous_i64 e ei st = (Inr (j, Some (kv_primary_key n)), st')"
        using u(1) run dq nb q(1) True a(1) by (simp add: db_previous_i64_def Let_def bindX_run to1(2) flip: it_def)
      then show thesis using that [of j "Some (kv_primary_key n)" st'] a n True by auto
    qed
  qed
qed

end

end
