(* ===== verification/Eos_Changes.thy ===== *)
theory Eos_Changes
  imports Eos_Rows2
begin

text \<open>
  The row interface, third part: \<open>db_update_i64\<close>, \<open>db_store_i64\<close> and \<open>db_remove_i64\<close>.
  What they do is stated on the maps \<open>row_at\<close> and \<open>table_at\<close> from references to the rows
  and tables of the database.
\<close>

section \<open>The two maps under writes\<close>

lemma on_table_id: "\<forall>t. tid_id (f t) = tid_id t \<Longrightarrow> row_id (on_table f v) = row_id v"
  by (cases v) auto

lemma on_kv_id: "\<forall>t. kv_id (f t) = kv_id t \<Longrightarrow> row_id (on_kv f v) = row_id v"
  by (cases v) auto

lemma clash_on_kv:
  assumes "\<forall>t. kv_id (f t) = kv_id t \<and> by_scope_primary (f t) = by_scope_primary t"
  shows "row_clash (on_kv f v) w \<longleftrightarrow> row_clash v w"
  using assms by (cases v; cases w) (auto simp: row_clash_def)

lemma clash_on_table:
  assumes "\<forall>t. tid_id (f t) = tid_id t \<and> by_code_scope_table (f t) = by_code_scope_table t"
  shows "row_clash (on_table f v) w \<longleftrightarrow> row_clash v w"
  using assms by (cases v; cases w) (auto simp: row_clash_def)

text \<open>A write to the rows leaves the tables alone, and the other way round.\<close>

lemma kv_write_maps:
  assumes "other_tables (ee_env e) KV db db'" "db_at (ee_env e) db' KV = (db_at (ee_env e) db KV)(p := r)"
    and "\<forall>v. r = Some v \<longrightarrow> the_kv v \<noteq> None" "rows_typed e db"
  shows "row_at e db' = (row_at e db)(p := Option.bind r the_kv)" "table_at e db' = table_at e db"
    "rows_typed e db'" "db_index_list db' = db_index_list db"
proof -
  have t: "db_at (ee_env e) db' TI = db_at (ee_env e) db TI" using other_tables_at(1) [OF assms(1)] by simp
  show "row_at e db' = (row_at e db)(p := Option.bind r the_kv)" by (rule ext) (simp add: row_at_def assms(2))
  show "table_at e db' = table_at e db" by (rule ext) (simp add: table_at_def t)
  show "rows_typed e db'" using assms(3,4) by (simp add: rows_typed_def t assms(2))
  show "db_index_list db' = db_index_list db" by (rule other_tables_list [OF assms(1)])
qed

lemma table_write_maps:
  assumes "other_tables (ee_env e) TI db db'" "db_at (ee_env e) db' TI = (db_at (ee_env e) db TI)(p := r)"
    and "\<forall>v. r = Some v \<longrightarrow> the_table v \<noteq> None" "rows_typed e db"
  shows "table_at e db' = (table_at e db)(p := Option.bind r the_table)" "row_at e db' = row_at e db"
    "rows_typed e db'" "db_index_list db' = db_index_list db"
proof -
  have t: "db_at (ee_env e) db' KV = db_at (ee_env e) db KV" using other_tables_at(1) [OF assms(1)] by simp
  show "table_at e db' = (table_at e db)(p := Option.bind r the_table)" by (rule ext) (simp add: table_at_def assms(2))
  show "row_at e db' = row_at e db" by (rule ext) (simp add: row_at_def t)
  show "rows_typed e db'" using assms(3,4) by (simp add: rows_typed_def t assms(2))
  show "db_index_list db' = db_index_list db" by (rule other_tables_list [OF assms(1)])
qed

text \<open>The cache stays valid when live rows stay in their table and live tables keep their id.\<close>

lemma cache_ok_mono:
  assumes ok: "cache_ok e db c"
    and rows: "\<forall>i p o1. ic_get i c = (Inr p, c) \<longrightarrow> row_at e db p = Some o1 \<longrightarrow>
      (\<exists>o2. row_at e db' p = Some o2 \<and> kv_t_id o2 = kv_t_id o1)"
    and tables: "\<forall>i p ei t. map_of (ic_table_cache c) i = Some (p, ei) \<longrightarrow> table_at e db p = Some t \<longrightarrow>
      (\<exists>t'. table_at e db' p = Some t' \<and> tid_id t' = tid_id t)"
  shows "cache_ok e db' c"
  unfolding cache_ok_def
proof (intro conjI allI impI)
  show "ic_ok c" by (rule cache_okD(1) [OF ok])
next
  fix i p
  assume i: "ic_get i c = (Inr p, c)"
  obtain o1 where "row_at e db p = Some o1" "map_of (ic_table_cache c) (kv_t_id o1) \<noteq> None"
    using cache_okD(2) [OF ok i] by blast
  then show "\<exists>o1. row_at e db' p = Some o1 \<and> map_of (ic_table_cache c) (kv_t_id o1) \<noteq> None"
    using rows i by metis
next
  fix i t ei
  assume i: "map_of (ic_table_cache c) i = Some (t, ei)"
  obtain to1 where "table_at e db t = Some to1" "tid_id to1 = i" using cache_okD(3) [OF ok i] by blast
  then show "\<exists>to1. table_at e db' t = Some to1 \<and> tid_id to1 = i" using tables i by metis
qed

text \<open>The table \<open>find_or_create_table\<close> makes.\<close>

definition new_table :: "int \<Rightarrow> name \<Rightarrow> sha256 \<Rightarrow> name \<Rightarrow> name \<Rightarrow> table_id_object" where
  "new_table junk code scope table payer =
     \<lparr>tid_id = junk, tid_code = code, tid_scope = scope, tid_table = table, tid_payer = payer, tid_count = 0, tid_value = []\<rparr>"

context eos_interface
begin

lemma modify_table:
  assumes inv: "db_inv (ee_env e) cinv db" "TI \<in> set (db_index_list db)" "rows_typed e db"
    and p: "table_at e db p = Some t"
    and f: "\<forall>t. tid_id (f t) = tid_id t \<and> by_code_scope_table (f t) = by_code_scope_table t"
  obtains db' where "database_modify (ee_env e) TI p (on_table f) db = (Inr (), db')" "db_inv (ee_env e) cinv db'"
    "db_index_list db' = db_index_list db" "rows_typed e db'" "row_at e db' = row_at e db"
    "table_at e db' = (table_at e db)(p \<mapsto> f t)"
proof -
  have at: "db_at (ee_env e) db TI p = Some (Table_id_row t)" using p by (simp add: table_at_Some)
  show thesis
  proof (rule modify_run [OF inv(1,2) at, where m = "on_table f"])
    show "row_id (on_table f v) = row_id v" for v by (rule on_table_id) (use f in simp)
    show "\<not> row_clash (on_table f (Table_id_row t)) w" if "q \<noteq> p" "db_at (ee_env e) db TI q = Some w" for q w
      unfolding clash_on_table [OF f] using at_no_clash [OF inv(1) at that(2)] that(1) by simp
    fix db'
    assume m: "database_modify (ee_env e) TI p (on_table f) db = (Inr (), db')" "db_inv (ee_env e) cinv db'"
      "other_tables (ee_env e) TI db db'" "db_at (ee_env e) db' TI = (db_at (ee_env e) db TI)(p \<mapsto> on_table f (Table_id_row t))"
    have s: "\<forall>v. Some (on_table f (Table_id_row t)) = Some v \<longrightarrow> the_table v \<noteq> None" by simp
    note w = table_write_maps [OF m(3,4) s inv(3)]
    show thesis using that [OF m(1,2) w(4,3,2)] w(1) by simp
  qed
qed

lemma update_ok:
  assumes inv: "eos_inv e cinv st" and i: "ic_get i (es_keyval_cache st) = (Inr p, es_keyval_cache st)"
    and p: "row_at e (es_db st) p = Some o1"
  obtains st' where "db_update_i64 e i payer buf st = (Inr (), st')" "eos_inv e cinv st'"
    "es_keyval_cache st' = es_keyval_cache st" "table_at e (es_db st') = table_at e (es_db st)"
    "row_at e (es_db st') = (row_at e (es_db st))(p \<mapsto> o1\<lparr>kv_value := buf, kv_payer := payer\<rparr>)"
proof -
  let ?db = "es_db st" and ?f = "\<lambda>o1. o1\<lparr>kv_value := buf, kv_payer := payer\<rparr>"
  note I = eos_invD [OF inv]
  have at: "db_at (ee_env e) ?db KV p = Some (Key_value_row o1)" using p by (simp add: row_at_Some)
  have f: "\<forall>t. kv_id (?f t) = kv_id t \<and> by_scope_primary (?f t) = by_scope_primary t" by (simp add: by_scope_primary_def)
  show thesis
  proof (rule modify_run [OF I(1,3) at, where m = "on_kv ?f"])
    show "row_id (on_kv ?f v) = row_id v" for v by (rule on_kv_id) simp
    show "\<not> row_clash (on_kv ?f (Key_value_row o1)) w" if "q \<noteq> p" "db_at (ee_env e) ?db KV q = Some w" for q w
      unfolding clash_on_kv [OF f] using at_no_clash [OF I(1) at that(2)] that(1) by simp
    fix d
    assume m: "database_modify (ee_env e) KV p (on_kv ?f) ?db = (Inr (), d)" "db_inv (ee_env e) cinv d"
      "other_tables (ee_env e) KV ?db d" "db_at (ee_env e) d KV = (db_at (ee_env e) ?db KV)(p \<mapsto> on_kv ?f (Key_value_row o1))"
    have s: "\<forall>v. Some (on_kv ?f (Key_value_row o1)) = Some v \<longrightarrow> the_kv v \<noteq> None" by simp
    note w = kv_write_maps [OF m(3,4) s I(4)]
    have "cache_ok e d (es_keyval_cache st)"
      by (rule cache_ok_mono [OF I(5)]) (use p in \<open>auto simp: w(1,2)\<close>)
    then have "eos_inv e cinv (st\<lparr>es_db := d\<rparr>)" using I m(2) w(3,4) by (simp add: eos_inv_def)
    moreover have "db_update_i64 e i payer buf st = (Inr (), st\<lparr>es_db := d\<rparr>)"
      using keyvalX_read [where m = "ic_get i", OF i] dbX_run [where m = "database_modify (ee_env e) KV p (on_kv ?f)", OF m(1)]
      by (simp add: db_update_i64_def bindX_run)
    ultimately show thesis using that [of "st\<lparr>es_db := d\<rparr>"] w(1,2) by simp
  qed
qed

lemma find_or_create_run:
  assumes inv: "db_inv (ee_env e) cinv db" "TI \<in> set (db_index_list db)" "rows_typed e db"
    and free: "(\<forall>p t. table_at e db p = Some t \<longrightarrow> by_code_scope_table t \<noteq> (code, scope, table)) \<Longrightarrow>
      \<forall>p t. table_at e db p = Some t \<longrightarrow> tid_id t \<noteq> junk"
  obtains p t db' where "find_or_create_table e junk code scope table payer db = (Inr p, db')"
    "db_inv (ee_env e) cinv db'" "db_index_list db' = db_index_list db" "rows_typed e db'" "row_at e db' = row_at e db"
    "table_at e db' = (table_at e db)(p \<mapsto> t)" "by_code_scope_table t = (code, scope, table)"
    "table_at e db p = Some t \<or> table_at e db p = None \<and> t = new_table junk code scope table payer \<and>
       (\<forall>q u. table_at e db q = Some u \<longrightarrow> by_code_scope_table u \<noteq> (code, scope, table))"
proof (rule find_table_db [OF inv(1,2), of code scope table])
  fix r
  assume r: "find_table e code scope table db = (Inr r, db)"
    "\<forall>p. r = Some p \<longleftrightarrow> (\<exists>t. table_at e db p = Some t \<and> by_code_scope_table t = (code, scope, table))"
  show thesis
  proof (cases r)
    case (Some p)
    then obtain t where t: "table_at e db p = Some t" "by_code_scope_table t = (code, scope, table)" using r(2) by blast
    have "find_or_create_table e junk code scope table payer db = (Inr p, db)"
      using r(1) Some by (simp add: find_or_create_table_def find_table_def bindX_run)
    then show thesis using that [of p db t] inv t by (simp add: fun_upd_idem)
  next
    case None
    let ?t = "new_table junk code scope table payer"
    have nt: "\<forall>p t. table_at e db p = Some t \<longrightarrow> by_code_scope_table t \<noteq> (code, scope, table)"
      using r(2) None by blast
    have by_t: "by_code_scope_table ?t = (code, scope, table)" by (simp add: new_table_def by_code_scope_table_def)
    show thesis
    proof (rule create_run [OF inv(1,2), of "Table_id_row ?t"])
      fix q w
      assume w: "db_at (ee_env e) db TI q = Some w"
      then obtain u where u: "w = Table_id_row u" "table_at e db q = Some u"
        using inv(3) unfolding rows_typed_def table_at_Some by (metis not_None_eq the_table_Some)
      then show "\<not> row_clash (Table_id_row ?t) w"
        using nt [rule_format, OF u(2)] free [OF nt, rule_format, OF u(2)] by_t
        by (auto simp: row_clash_def new_table_def)
    next
      fix p db'
      assume c: "database_create (ee_env e) TI (Table_id_row ?t) db = (Inr p, db')" "db_inv (ee_env e) cinv db'"
        "other_tables (ee_env e) TI db db'" "db_at (ee_env e) db TI p = None"
        "db_at (ee_env e) db' TI = (db_at (ee_env e) db TI)(p \<mapsto> Table_id_row ?t)"
      have s: "\<forall>v. Some (Table_id_row ?t) = Some v \<longrightarrow> the_table v \<noteq> None" by simp
      note w = table_write_maps [OF c(3,5) s inv(3)]
      have "find_or_create_table e junk code scope table payer db = (Inr p, db')"
        using r(1) None c(1) by (simp add: find_or_create_table_def find_table_def new_table_def bindX_run)
      then show thesis using that [of p db' ?t] c(2,4) w by_t nt by (simp add: table_at_def)
    qed
  qed
qed

lemma create_row:
  assumes inv: "db_inv (ee_env e) cinv db" "KV \<in> set (db_index_list db)" "rows_typed e db"
    and free: "\<forall>m. has_row e db m \<longrightarrow> kv_id m \<noteq> kv_id n \<and> by_scope_primary m \<noteq> by_scope_primary n"
  obtains q db' where "database_create (ee_env e) KV (Key_value_row n) db = (Inr q, db')"
    "db_inv (ee_env e) cinv db'" "db_index_list db' = db_index_list db" "rows_typed e db'" "table_at e db' = table_at e db"
    "row_at e db q = None" "row_at e db' = (row_at e db)(q \<mapsto> n)"
proof (rule create_run [OF inv(1,2), of "Key_value_row n"])
  fix q w
  assume w: "db_at (ee_env e) db KV q = Some w"
  then obtain u where "w = Key_value_row u" "row_at e db q = Some u"
    using inv(3) unfolding rows_typed_def row_at_Some by (metis not_None_eq the_kv_Some)
  then show "\<not> row_clash (Key_value_row n) w"
    using free by (fastforce simp: row_clash_def has_row_def)
next
  fix p db'
  assume c: "database_create (ee_env e) KV (Key_value_row n) db = (Inr p, db')" "db_inv (ee_env e) cinv db'"
    "other_tables (ee_env e) KV db db'" "db_at (ee_env e) db KV p = None"
    "db_at (ee_env e) db' KV = (db_at (ee_env e) db KV)(p \<mapsto> Key_value_row n)"
  have s: "\<forall>v. Some (Key_value_row n) = Some v \<longrightarrow> the_kv v \<noteq> None" by simp
  note w = kv_write_maps [OF c(3,5) s inv(3)]
  show thesis using that [of p db'] c(1,2,4) w by (simp add: row_at_def)
qed

lemma create_row_clash:
  assumes inv: "db_inv (ee_env e) cinv db" "KV \<in> set (db_index_list db)"
    and m: "has_row e db m" "kv_id m = kv_id n \<or> by_scope_primary m = by_scope_primary n"
  shows "database_create (ee_env e) KV (Key_value_row n) db =
    (Inl (Logic_error ''could not insert object, most likely a uniqueness constraint was violated''), db)"
proof -
  obtain q where "db_at (ee_env e) db KV q = Some (Key_value_row m)" using m(1) by (auto simp: has_row_def row_at_Some)
  moreover have "row_clash (Key_value_row n) (Key_value_row m)" using m(2) by (auto simp: row_clash_def)
  ultimately show ?thesis by (rule create_fails [OF inv])
qed

text \<open>
  Storing a row. The hypotheses are what the unique indices demand: no row, of any table,
  has the number as its id or the same table and primary key, and if the table is new, its
  uninitialised id is not in use.
\<close>

lemma store_ok:
  assumes inv: "eos_inv e cinv st" and room: "cache_room (es_keyval_cache st)"
    and free: "\<forall>n. has_row e (es_db st) n \<longrightarrow> kv_id n \<noteq> sint i \<and> kv_primary_key n \<noteq> i"
    and tab: "(\<forall>p t. table_at e (es_db st) p = Some t \<longrightarrow> by_code_scope_table t \<noteq> (code, scope, table)) \<Longrightarrow>
      \<forall>p t. table_at e (es_db st) p = Some t \<longrightarrow> tid_id t \<noteq> junk"
  obtains j p q t st' where "db_store_i64 e junk code scope table payer i buf st = (Inr j, st')" "eos_inv e cinv st'"
    "itr_kept e st st'" "by_code_scope_table t = (code, scope, table)"
    "table_at e (es_db st) p = Some t \<or> table_at e (es_db st) p = None \<and> t = new_table junk code scope table payer"
    "table_at e (es_db st') = (table_at e (es_db st))(p \<mapsto> t\<lparr>tid_count := tid_count t + 1\<rparr>)"
    "row_at e (es_db st) q = None"
    "row_at e (es_db st') = (row_at e (es_db st))(q \<mapsto>
       \<lparr>kv_id = sint i, kv_t_id = tid_id t, kv_primary_key = i, kv_payer = payer, kv_value = buf\<rparr>)"
    "itr_row e st' j = Some \<lparr>kv_id = sint i, kv_t_id = tid_id t, kv_primary_key = i, kv_payer = payer, kv_value = buf\<rparr>"
proof (rule find_or_create_run [OF eos_invD(1,2,4) [OF inv] tab, where payer = payer])
  note I = eos_invD [OF inv]
  let ?db = "es_db st"
  fix p t d1
  assume f: "find_or_create_table e junk code scope table payer ?db = (Inr p, d1)"
    "db_inv (ee_env e) cinv d1" "db_index_list d1 = db_index_list ?db" "rows_typed e d1" "row_at e d1 = row_at e ?db"
    "table_at e d1 = (table_at e ?db)(p \<mapsto> t)" "by_code_scope_table t = (code, scope, table)"
    "table_at e ?db p = Some t \<or> table_at e ?db p = None \<and> t = new_table junk code scope table payer \<and>
      (\<forall>q u. table_at e ?db q = Some u \<longrightarrow> by_code_scope_table u \<noteq> (code, scope, table))"
  define n where "n = \<lparr>kv_id = sint i, kv_t_id = tid_id t, kv_primary_key = i, kv_payer = payer, kv_value = buf\<rparr>"
  have kv: "KV \<in> set (db_index_list d1)" using I(3) f(3) by simp
  have "\<forall>m. has_row e d1 m \<longrightarrow> kv_id m \<noteq> kv_id n \<and> by_scope_primary m \<noteq> by_scope_primary n"
    using free by (auto simp: n_def by_scope_primary_def has_row_def f(5))
  then obtain q d2 where c: "database_create (ee_env e) KV (Key_value_row n) d1 = (Inr q, d2)"
    "db_inv (ee_env e) cinv d2" "db_index_list d2 = db_index_list d1" "rows_typed e d2" "table_at e d2 = table_at e d1"
    "row_at e d1 q = None" "row_at e d2 = (row_at e d1)(q \<mapsto> n)"
    by (rule create_row [OF f(2) kv f(4)])
  let ?f = "\<lambda>t. t\<lparr>tid_count := tid_count t + 1\<rparr>"
  have ti: "TI \<in> set (db_index_list d2)" using I(2) f(3) c(3) by simp
  have tp: "table_at e d2 p = Some t" by (simp add: c(5) f(6))
  obtain d3 where m: "database_modify (ee_env e) TI p (on_table ?f) d2 = (Inr (), d3)" "db_inv (ee_env e) cinv d3"
    "db_index_list d3 = db_index_list d2" "rows_typed e d3" "row_at e d3 = row_at e d2" "table_at e d3 = (table_at e d2)(p \<mapsto> ?f t)"
    by (rule modify_table [OF c(2) ti c(4) tp, of ?f]) (simp add: by_code_scope_table_def)
  define s1 where "s1 = st\<lparr>es_db := d3\<rparr>"
  have t3: "table_at e d3 = (table_at e ?db)(p \<mapsto> ?f t)" and r3: "row_at e d3 = (row_at e ?db)(q \<mapsto> n)"
    by (simp_all add: m(5,6) c(5,7) f(5,6))
  have "cache_ok e d3 (es_keyval_cache st)"
    by (rule cache_ok_mono [OF I(5)]) (use f(8) c(6) in \<open>auto simp: t3 r3 f(5)\<close>)
  then have inv1: "eos_inv e cinv s1" using I m(2,3,4) c(3) f(3) by (simp add: eos_inv_def s1_def)
  have t1: "table_at e (es_db s1) p = Some (?f t)" by (simp add: s1_def t3)
  have room1: "cache_room (es_keyval_cache s1)" using room by (simp add: s1_def)
  obtain ei s2 where ct: "keyvalX (cache_table (tid_id (?f t)) p) s1 = (Inr ei, s2)" "eos_inv e cinv s2" "es_db s2 = es_db s1"
    "end_itr s2 (tid_id (?f t)) ei" "itr_kept e s1 s2" "length (ic_iterator_to_object (es_keyval_cache s2)) < ic_limit"
    by (rule cache_table_run [OF inv1 room1 t1])
  have q2: "row_at e (es_db s2) q = Some n" by (simp add: ct(3) s1_def r3)
  have tc: "map_of (ic_table_cache (es_keyval_cache s2)) (kv_t_id n) \<noteq> None"
    using end_itr_cached [OF ct(4)] by (simp add: n_def)
  obtain j st' where a: "keyvalX (ic_add q) s2 = (Inr j, st')" "eos_inv e cinv st'" "es_db st' = es_db s2"
    "itr_row e st' j = Some n" "0 \<le> j" "itr_kept e s2 st'"
    by (rule add_row_iterator [OF ct(2,6) q2 tc])
  have k1: "itr_kept e st s1" unfolding itr_kept_def itr_row_Some s1_def using c(6) f(5) by (auto simp: r3)
  have r1: "dbX (find_or_create_table e junk code scope table payer) st = (Inr p, st\<lparr>es_db := d1\<rparr>)"
    using dbX_run [where m = "find_or_create_table e junk code scope table payer", OF f(1)] .
  have r2: "dbX (deref_table e p) (st\<lparr>es_db := d1\<rparr>) = (Inr t, st\<lparr>es_db := d1\<rparr>)"
    by (rule dbX_read) (simp add: deref_table_run f(6))
  have r4: "dbX (database_create (ee_env e) KV (Key_value_row n)) (st\<lparr>es_db := d1\<rparr>) = (Inr q, st\<lparr>es_db := d2\<rparr>)"
    using c(1) by (simp add: dbX_def liftX_def)
  have r5: "dbX (database_modify (ee_env e) TI p (on_table ?f)) (st\<lparr>es_db := d2\<rparr>) = (Inr (), s1)"
    using m(1) by (simp add: dbX_def liftX_def s1_def)
  have r6: "dbX (deref_table e p) s1 = (Inr (?f t), s1)"
    by (rule dbX_read) (rule deref_table_run [OF t1])
  have run: "db_store_i64 e junk code scope table payer i buf st = (Inr j, st')"
    using r1 r2 r4 r5 r6 ct(1) a(1) by (simp add: db_store_i64_def bindX_run n_def)
  show thesis
    using that [OF run a(2) itr_kept_trans [OF k1 itr_kept_trans [OF ct(5) a(6)]] f(7)] f(8) a(3,4) ct(3) t3 r3 c(6) f(5)
    by (auto simp: s1_def n_def)
qed

text \<open>A row with the number as its id, in whatever table, makes the call fail; a new table stays.\<close>

lemma store_clash:
  assumes inv: "eos_inv e cinv st"
    and m: "has_row e (es_db st) m" "kv_id m = sint i"
    and tab: "(\<forall>p t. table_at e (es_db st) p = Some t \<longrightarrow> by_code_scope_table t \<noteq> (code, scope, table)) \<Longrightarrow>
      \<forall>p t. table_at e (es_db st) p = Some t \<longrightarrow> tid_id t \<noteq> junk"
  obtains p t st' where "db_store_i64 e junk code scope table payer i buf st =
      (Inl (Logic_error ''could not insert object, most likely a uniqueness constraint was violated''), st')"
    "row_at e (es_db st') = row_at e (es_db st)" "table_at e (es_db st') = (table_at e (es_db st))(p \<mapsto> t)"
    "by_code_scope_table t = (code, scope, table)"
    "table_at e (es_db st) p = Some t \<or> table_at e (es_db st) p = None \<and> t = new_table junk code scope table payer"
proof (rule find_or_create_run [OF eos_invD(1,2,4) [OF inv] tab, where payer = payer])
  note I = eos_invD [OF inv]
  let ?db = "es_db st"
  fix p t d1
  assume f: "find_or_create_table e junk code scope table payer ?db = (Inr p, d1)"
    "db_inv (ee_env e) cinv d1" "db_index_list d1 = db_index_list ?db" "rows_typed e d1" "row_at e d1 = row_at e ?db"
    "table_at e d1 = (table_at e ?db)(p \<mapsto> t)" "by_code_scope_table t = (code, scope, table)"
    "table_at e ?db p = Some t \<or> table_at e ?db p = None \<and> t = new_table junk code scope table payer \<and>
      (\<forall>q u. table_at e ?db q = Some u \<longrightarrow> by_code_scope_table u \<noteq> (code, scope, table))"
  define n where "n = \<lparr>kv_id = sint i, kv_t_id = tid_id t, kv_primary_key = i, kv_payer = payer, kv_value = buf\<rparr>"
  have kv: "KV \<in> set (db_index_list d1)" using I(3) f(3) by simp
  have m1: "has_row e d1 m" "kv_id m = kv_id n \<or> by_scope_primary m = by_scope_primary n"
    using m by (simp_all add: has_row_def f(5) n_def)
  let ?e = "Logic_error ''could not insert object, most likely a uniqueness constraint was violated''"
  let ?s = "st\<lparr>es_db := d1\<rparr>"
  have r1: "dbX (find_or_create_table e junk code scope table payer) st = (Inr p, ?s)"
    using dbX_run [where m = "find_or_create_table e junk code scope table payer", OF f(1)] .
  have r2: "dbX (deref_table e p) ?s = (Inr t, ?s)"
    by (rule dbX_read) (simp add: deref_table_run f(6))
  have r3: "dbX (database_create (ee_env e) KV (Key_value_row n)) ?s = (Inl ?e, ?s)"
    by (rule dbX_read) (simp add: create_row_clash [OF f(2) kv m1])
  have "db_store_i64 e junk code scope table payer i buf st = (Inl ?e, ?s)"
    using r1 r2 r3 by (simp add: db_store_i64_def bindX_def n_def)
  then show thesis using that [of "st\<lparr>es_db := d1\<rparr>" p t] f(5,6,7,8) by auto
qed

lemma remove_row:
  assumes inv: "db_inv (ee_env e) cinv db" "KV \<in> set (db_index_list db)" "rows_typed e db" and p: "row_at e db p = Some n"
  obtains db' where "database_remove (ee_env e) KV p db = (Inr (), db')" "db_inv (ee_env e) cinv db'"
    "db_index_list db' = db_index_list db" "rows_typed e db'" "table_at e db' = table_at e db" "row_at e db' = (row_at e db)(p := None)"
proof (rule remove_run [OF inv(1,2), of p "Key_value_row n"])
  show "db_at (ee_env e) db KV p = Some (Key_value_row n)" using p by (simp add: row_at_Some)
  fix db'
  assume c: "database_remove (ee_env e) KV p db = (Inr (), db')" "db_inv (ee_env e) cinv db'"
    "other_tables (ee_env e) KV db db'" "db_at (ee_env e) db' KV = (db_at (ee_env e) db KV)(p := None)"
  have s: "\<forall>v. None = Some v \<longrightarrow> the_kv v \<noteq> None" by simp
  note w = kv_write_maps [OF c(3,4) s inv(3)]
  show thesis using that [of db'] c(1,2) w by simp
qed

lemma remove_table:
  assumes inv: "db_inv (ee_env e) cinv db" "TI \<in> set (db_index_list db)" "rows_typed e db" and p: "table_at e db p = Some n"
  obtains db' where "database_remove (ee_env e) TI p db = (Inr (), db')" "db_inv (ee_env e) cinv db'"
    "db_index_list db' = db_index_list db" "rows_typed e db'" "row_at e db' = row_at e db" "table_at e db' = (table_at e db)(p := None)"
proof (rule remove_run [OF inv(1,2), of p "Table_id_row n"])
  show "db_at (ee_env e) db TI p = Some (Table_id_row n)" using p by (simp add: table_at_Some)
  fix db'
  assume c: "database_remove (ee_env e) TI p db = (Inr (), db')" "db_inv (ee_env e) cinv db'"
    "other_tables (ee_env e) TI db db'" "db_at (ee_env e) db' TI = (db_at (ee_env e) db TI)(p := None)"
  have s: "\<forall>v. None = Some v \<longrightarrow> the_table v \<noteq> None" by simp
  note w = table_write_maps [OF c(3,4) s inv(3)]
  show thesis using that [of db'] c(1,2) w by simp
qed

text \<open>Removing a row; the table goes with its last row, the cache entry of the table does not.\<close>

lemma remove_ok:
  assumes inv: "eos_inv e cinv st" and i: "ic_get i (es_keyval_cache st) = (Inr p, es_keyval_cache st)"
    and p: "row_at e (es_db st) p = Some o1"
    and u: "map_of (ic_table_cache (es_keyval_cache st)) (kv_t_id o1) = Some (u, ei)" "table_at e (es_db st) u = Some t"
  obtains st' where "db_remove_i64 e i st = (Inr (), st')" "db_inv (ee_env e) cinv (es_db st')"
    "row_at e (es_db st') = (row_at e (es_db st))(p := None)"
    "table_at e (es_db st') = (table_at e (es_db st))(u := (if tid_count t = 1 then None else Some (t\<lparr>tid_count := tid_count t - 1\<rparr>)))"
    "ic_get i (es_keyval_cache st') = (Inl (Assert_failed ''dereference of deleted object''), es_keyval_cache st')"
    "\<forall>j x. j \<noteq> i \<longrightarrow> itr_row e st j = Some x \<longrightarrow> itr_row e st' j = Some x"
    "ic_table_cache (es_keyval_cache st') = ic_table_cache (es_keyval_cache st)" "ic_ok (es_keyval_cache st')"
    "rows_typed e (es_db st')" "db_index_list (es_db st') = db_index_list (es_db st)"
    "tid_count t \<noteq> 1 \<longrightarrow> eos_inv e cinv st'"
proof -
  note I = eos_invD [OF inv]
  let ?db = "es_db st" and ?c = "es_keyval_cache st" and ?f = "\<lambda>t. t\<lparr>tid_count := tid_count t - 1\<rparr>"
  have tid: "tid_id t = kv_t_id o1" using cache_okD(3) [OF I(5) u(1)] u(2) by auto
  obtain d1 where m: "database_modify (ee_env e) TI u (on_table ?f) ?db = (Inr (), d1)" "db_inv (ee_env e) cinv d1"
    "db_index_list d1 = db_index_list ?db" "rows_typed e d1" "row_at e d1 = row_at e ?db" "table_at e d1 = (table_at e ?db)(u \<mapsto> ?f t)"
    by (rule modify_table [OF I(1,2,4) u(2), of ?f]) (simp add: by_code_scope_table_def)
  have kv1: "KV \<in> set (db_index_list d1)" "row_at e d1 p = Some o1" using I(3) m(3,5) p by simp_all
  obtain d2 where r: "database_remove (ee_env e) KV p d1 = (Inr (), d2)" "db_inv (ee_env e) cinv d2"
    "db_index_list d2 = db_index_list d1" "rows_typed e d2" "table_at e d2 = table_at e d1" "row_at e d2 = (row_at e d1)(p := None)"
    by (rule remove_row [OF m(2) kv1(1) m(4) kv1(2)])
  have ti2: "TI \<in> set (db_index_list d2)" "table_at e d2 u = Some (?f t)" using I(2) m(3,6) r(3,5) by simp_all
  let ?last = "tid_count t - 1 = 0"
  obtain d3 where l: "(if ?last then dbX (database_remove (ee_env e) TI u) else returnX ()) (st\<lparr>es_db := d2\<rparr>) = (Inr (), st\<lparr>es_db := d3\<rparr>)"
    "db_inv (ee_env e) cinv d3" "db_index_list d3 = db_index_list d2" "rows_typed e d3" "row_at e d3 = row_at e d2"
    "table_at e d3 = (table_at e ?db)(u := (if tid_count t = 1 then None else Some (?f t)))"
  proof (cases ?last)
    case True
    obtain d3 where x: "database_remove (ee_env e) TI u d2 = (Inr (), d3)" "db_inv (ee_env e) cinv d3"
      "db_index_list d3 = db_index_list d2" "rows_typed e d3" "row_at e d3 = row_at e d2" "table_at e d3 = (table_at e d2)(u := None)"
      by (rule remove_table [OF r(2) ti2(1) r(4) ti2(2)])
    show thesis using that [of d3] x True m(6) r(5) by (simp add: dbX_def liftX_def)
  next
    case False
    show thesis using that [of d2] False m(6) r(2-5) by simp
  qed
  obtain c' where c: "ic_remove i ?c = (Inr (), c')" "ic_ok c'"
    "ic_get i c' = (Inl (Assert_failed ''dereference of deleted object''), c')"
    "\<forall>j q. j \<noteq> i \<longrightarrow> ic_get j ?c = (Inr q, ?c) \<longrightarrow> ic_get j c' = (Inr q, c')"
    "ic_table_cache c' = ic_table_cache ?c"
    using ic_remove_ok [OF cache_okD(1) [OF I(5)] i] by metis
  define st' where "st' = st\<lparr>es_db := d3, es_keyval_cache := c'\<rparr>"
  have r1: "keyvalX (ic_get i) st = (Inr p, st)" by (rule keyvalX_read) (rule i)
  have r2: "dbX (deref_kv e p) st = (Inr o1, st)" by (rule dbX_read) (rule deref_kv_run [OF p])
  have r3: "keyvalX (get_table (kv_t_id o1)) st = (Inr u, st)" by (rule keyvalX_read) (simp add: get_table_def u(1))
  have r4: "dbX (database_modify (ee_env e) TI u (on_table ?f)) st = (Inr (), st\<lparr>es_db := d1\<rparr>)" using m(1) by (simp add: dbX_def liftX_def)
  have r5: "dbX (database_remove (ee_env e) KV p) (st\<lparr>es_db := d1\<rparr>) = (Inr (), st\<lparr>es_db := d2\<rparr>)" using r(1) by (simp add: dbX_def liftX_def)
  have r6: "dbX (deref_table e u) (st\<lparr>es_db := d2\<rparr>) = (Inr (?f t), st\<lparr>es_db := d2\<rparr>)"
    by (rule dbX_read) (simp add: deref_table_run ti2(2))
  have r7: "keyvalX (ic_remove i) (st\<lparr>es_db := d3\<rparr>) = (Inr (), st')" using c(1) by (simp add: keyvalX_def liftX_def st'_def)
  have run: "db_remove_i64 e i st = (Inr (), st')"
    using r1 r2 r3 r4 r5 r6 r7 l(1) by (simp add: db_remove_i64_def bindX_run)
  have rows: "row_at e d3 = (row_at e ?db)(p := None)" by (simp add: l(5) r(6) m(5))
  have once: "q \<noteq> p" if "j \<noteq> i" "ic_get j ?c = (Inr q, ?c)" for j q
    using that i ic_okD(3) [OF cache_okD(1) [OF I(5)], of p i] ic_okD(3) [OF cache_okD(1) [OF I(5)], of p j]
    by (auto simp: ic_get_conv)
  have kept: "\<forall>j x. j \<noteq> i \<longrightarrow> itr_row e st j = Some x \<longrightarrow> itr_row e st' j = Some x"
    using c(4) once by (fastforce simp: itr_row_Some st'_def rows)
  have old: "j \<noteq> i \<and> ic_get j ?c = (Inr q, ?c)" if "ic_get j c' = (Inr q, c')" for j q
  proof -
    have ji: "j \<noteq> i" using that c(3) by auto
    then have "nat j \<noteq> nat i" using that i by (auto simp: ic_get_conv)
    then show ?thesis using that ji c(1) i by (auto simp: ic_get_conv ic_remove_def nth_list_update split: if_splits)
  qed
  have "eos_inv e cinv st'" if "tid_count t \<noteq> 1"
  proof -
    have "cache_ok e d3 c'"
      unfolding cache_ok_def c(5)
    proof (intro conjI allI impI)
      fix j q
      assume "ic_get j c' = (Inr q, c')"
      then have j: "j \<noteq> i" "ic_get j ?c = (Inr q, ?c)" using old by blast+
      then show "\<exists>o1. row_at e d3 q = Some o1 \<and> map_of (ic_table_cache ?c) (kv_t_id o1) \<noteq> None"
        using cache_okD(2) [OF I(5) j(2)] once [OF j] by (simp add: rows)
    next
      fix j v f
      assume "map_of (ic_table_cache ?c) j = Some (v, f)"
      then show "\<exists>to1. table_at e d3 v = Some to1 \<and> tid_id to1 = j"
        using cache_okD(3) [OF I(5)] that u(2) by (fastforce simp: l(6))
    qed (rule c(2))
    then show ?thesis using I l(2-4) r(3) m(3) by (simp add: eos_inv_def st'_def)
  qed
  then show thesis
    using that [OF run _ _ _ _ kept] l(2-4,6) r(3) m(3) rows c(2,3,5) by (simp add: st'_def)
qed

text \<open>Stepping back from the end iterator of a table that is gone.\<close>

lemma deref_table_None:
  assumes "rows_typed e db" "table_at e db u = None"
  shows "deref_table e u db = (Inl Undefined_behaviour, db)"
proof -
  have "db_at (ee_env e) db TI u = None"
    using assms unfolding rows_typed_def table_at_def by (cases "db_at (ee_env e) db TI u") fastforce+
  then have "deref e TI u db = (Inl Undefined_behaviour, db)"
    by (auto simp: deref_def db_at_def split: option.splits)
  then show ?thesis by (simp add: deref_table_def bindX_fail)
qed

lemma previous_dangling:
  assumes db: "db_inv (ee_env e) cinv (es_db st)" "KV \<in> set (db_index_list (es_db st))" "rows_typed e (es_db st)"
    and ok: "ic_ok (es_keyval_cache st)" and u: "map_of (ic_table_cache (es_keyval_cache st)) t = Some (u, ei)"
    and gone: "table_at e (es_db st) u = None"
  shows "fst (db_previous_i64 e ei st) = Inl Undefined_behaviour"
proof -
  have ei: "ei < -1" "find_table_by_end_iterator ei (es_keyval_cache st) = (Inr (Some u), es_keyval_cache st)"
    using ic_okD(2) [OF ok u] by (simp_all add: find_table_by_end_iterator_def Let_def)
  obtain s where s: "get_index KV (es_db st) = (Inr s, es_db st)" by (rule get_index_run [OF db(1,2)])
  have r1: "dbX (get_index KV) st = (Inr s, st)" by (rule dbX_read) (rule s)
  have r2: "keyvalX (find_table_by_end_iterator ei) st = (Inr (Some u), st)" by (rule keyvalX_read) (rule ei(2))
  have r3: "dbX (deref_table e u) st = (Inl Undefined_behaviour, st)"
    by (rule dbX_read) (rule deref_table_None [OF db(3) gone])
  show ?thesis using r1 r2 r3 ei(1) by (simp add: db_previous_i64_def bindX_run bindX_fail Let_def)
qed

text \<open>The two bound searches.\<close>

lemma bound_search:
  assumes inv: "eos_inv e cinv st" "cache_room (es_keyval_cache st)"
    and tab: "table_at e (es_db st) p = Some t" "by_code_scope_table t = (code, scope, table)"
  shows "\<exists>j st'. db_lowerbound_i64 e code scope table i st = (Inr j, st') \<and> eos_inv e cinv st' \<and>
      es_db st' = es_db st \<and> itr_kept e st st' \<and>
      (no_row e (es_db st) (tid_id t) (\<lambda>k. i \<le> k) \<and> end_itr st' (tid_id t) j \<or>
       (\<exists>n. first_row e (es_db st) (tid_id t) (\<lambda>k. i \<le> k) n \<and> itr_row e st' j = Some n))"
    and "\<exists>j st'. db_upperbound_i64 e code scope table i st = (Inr j, st') \<and> eos_inv e cinv st' \<and>
      es_db st' = es_db st \<and> itr_kept e st st' \<and>
      (no_row e (es_db st) (tid_id t) (\<lambda>k. i < k) \<and> end_itr st' (tid_id t) j \<or>
       (\<exists>n. first_row e (es_db st) (tid_id t) (\<lambda>k. i < k) n \<and> itr_row e st' j = Some n))"
proof -
  show "\<exists>j st'. db_lowerbound_i64 e code scope table i st = (Inr j, st') \<and> eos_inv e cinv st' \<and>
      es_db st' = es_db st \<and> itr_kept e st st' \<and>
      (no_row e (es_db st) (tid_id t) (\<lambda>k. i \<le> k) \<and> end_itr st' (tid_id t) j \<or>
       (\<exists>n. first_row e (es_db st) (tid_id t) (\<lambda>k. i \<le> k) n \<and> itr_row e st' j = Some n))"
    unfolding db_lowerbound_i64_def
    by (rule bound_ok [OF inv tab, of "\<lambda>x. (tid_id t, i) \<le> x" "oi_lower_bound (ee_scope_primary e)" i "\<lambda>k. i \<le> k"],
      erule rows.lower_first) (auto simp: less_eq_prod_def)
  show "\<exists>j st'. db_upperbound_i64 e code scope table i st = (Inr j, st') \<and> eos_inv e cinv st' \<and>
      es_db st' = es_db st \<and> itr_kept e st st' \<and>
      (no_row e (es_db st) (tid_id t) (\<lambda>k. i < k) \<and> end_itr st' (tid_id t) j \<or>
       (\<exists>n. first_row e (es_db st) (tid_id t) (\<lambda>k. i < k) n \<and> itr_row e st' j = Some n))"
    unfolding db_upperbound_i64_def
    by (rule bound_ok [OF inv tab, of "\<lambda>x. (tid_id t, i) < x" "oi_upper_bound (ee_scope_primary e)" i "\<lambda>k. i < k"],
      erule rows.upper_first) (auto simp: less_prod_def)
qed

end

end
