(* ===== verification/Eos_Key_Props.thy ===== *)
theory Eos_Key_Props
  imports Eos_Correct
begin

text \<open>
  The key-value interface of \<open>eos_db\<close> refines a map from the hash of scope and key to payer
  and value: every branch of the four operations, on every database that satisfies the
  invariant and has the table of hashed keys registered.
\<close>

section \<open>A sample store\<close>

definition sample_digest :: digest where
  "sample_digest bs = Sha256 (of_nat (length bs)) (foldl (\<lambda>a b. a * 257 + ucast b) 7 bs) 0 0"

definition sample_key_db :: "row lc database" where
  "sample_key_db =
     snd (db_store_by_key (cell_eos_env sample_digest) sha256_zero [1, 2] sha256_zero [10] (db_run sample_setup))"

lemma sample_key_inv: "db_inv cell_env cell_inv (db_run sample_setup)"
  by (rule cell_db.reachable_inv [OF sample_reachable_db])

lemma sample_key_fresh:
  "key_view (cell_eos_env sample_digest) (db_run sample_setup) (table_key sample_digest sha256_zero [1, 2]) = None"
  by code_simp

lemma sample_key_type: "TK \<in> set (db_index_list (db_run sample_setup))"
  by code_simp

lemma sample_key_db_props:
  "db_inv cell_env cell_inv sample_key_db" "TK \<in> set (db_index_list sample_key_db)"
  "key_view (cell_eos_env sample_digest) sample_key_db =
     (key_view (cell_eos_env sample_digest) (db_run sample_setup))
       (table_key sample_digest sha256_zero [1, 2] \<mapsto> (sha256_zero, [10]))"
proof -
  have i: "db_inv (ee_env (cell_eos_env sample_digest)) cell_inv (db_run sample_setup)"
    by (simp add: sample_key_inv)
  have n: "key_view (cell_eos_env sample_digest) (db_run sample_setup)
      (table_key (ee_digest (cell_eos_env sample_digest)) sha256_zero [1, 2]) = None"
    by (simp add: sample_key_fresh)
  obtain p db' where s: "db_store_by_key (cell_eos_env sample_digest) sha256_zero [1, 2] sha256_zero [10] (db_run sample_setup) = (Inr p, db')"
    "db_inv (ee_env (cell_eos_env sample_digest)) cell_inv db'" "other_tables (ee_env (cell_eos_env sample_digest)) TK (db_run sample_setup) db'"
    "key_view (cell_eos_env sample_digest) db' = (key_view (cell_eos_env sample_digest) (db_run sample_setup))
       (table_key (ee_digest (cell_eos_env sample_digest)) sha256_zero [1, 2] \<mapsto> (sha256_zero, [10]))"
    using cell_eos.store_by_key_run [OF i sample_key_type n] by blast
  have d: "sample_key_db = db'" by (simp add: sample_key_db_def s(1))
  show "db_inv cell_env cell_inv sample_key_db" using s(2) d by simp
  show "TK \<in> set (db_index_list sample_key_db)" using other_tables_list [OF s(3)] d sample_key_type by simp
  show "key_view (cell_eos_env sample_digest) sample_key_db =
     (key_view (cell_eos_env sample_digest) (db_run sample_setup))
       (table_key sample_digest sha256_zero [1, 2] \<mapsto> (sha256_zero, [10]))"
    using s(4) d by simp
qed

section \<open>Properties\<close>

fun tk_entry :: "row \<Rightarrow> (sha256 \<times> blob) option" where
  "tk_entry (Table_key_row t) = Some (tk_payer t, tk_value t)"
| "tk_entry _ = None"

text \<open>
  C14: storing under a scope and a key. If nothing is stored under their hash, the object
  is created, the map gains exactly this entry, other tables keep their objects and the
  invariant is kept; otherwise the assertion about the existing key fails and nothing
  changes.
\<close>

theorem store_by_key_outcome:
  assumes "eos_interface e cinv keys" "db_inv (ee_env e) cinv db" "TK \<in> set (db_index_list db)"
  shows "if key_view e db (table_key (ee_digest e) scope k) = None
    then \<exists>p db'. db_store_by_key e scope k payer buf db = (Inr p, db') \<and> db_inv (ee_env e) cinv db' \<and>
      other_tables (ee_env e) TK db db' \<and>
      key_view e db' = (key_view e db)(table_key (ee_digest e) scope k \<mapsto> (payer, buf))
    else db_store_by_key e scope k payer buf db = (Inl (Assert_failed ''object key alreay exist''), db)"
proof (cases "key_view e db (table_key (ee_digest e) scope k)")
  case None
  obtain p d where "db_store_by_key e scope k payer buf db = (Inr p, d)" "db_inv (ee_env e) cinv d"
    "other_tables (ee_env e) TK db d" "key_view e d = (key_view e db)(table_key (ee_digest e) scope k \<mapsto> (payer, buf))"
    using eos_interface.store_by_key_run [OF assms None] by blast
  then show ?thesis using None by simp
next
  case (Some x)
  then obtain p where "database_find TK (\<lambda>c. ee_by_key e c (table_key (ee_digest e) scope k)) db = (Inr (Some p), db)"
    using eos_interface.existing_key [OF assms Some] by blast
  then show ?thesis using Some by (simp add: db_store_by_key_def Let_def bindX_run)
qed

theorem store_by_key_outcome_witness:
  "\<exists>p db'. db_store_by_key (cell_eos_env sample_digest) sha256_zero [1, 2] sha256_zero [10] (db_run sample_setup) = (Inr p, db') \<and>
     key_view (cell_eos_env sample_digest) db' (table_key sample_digest sha256_zero [1, 2]) = Some (sha256_zero, [10])"
  using store_by_key_outcome [OF cell_eos.eos_interface_axioms, of sample_digest "db_run sample_setup" sha256_zero "[1, 2]" sha256_zero "[10]"]
    sample_key_inv sample_key_type sample_key_fresh by auto

text \<open>
  C15: updating and removing. On a stored key, update replaces payer and value and remove
  deletes the entry, and no other entry or table changes; on a missing key both fail with
  the assertion about it and change nothing.
\<close>

theorem change_by_key_outcome:
  assumes "eos_interface e cinv keys" "db_inv (ee_env e) cinv db" "TK \<in> set (db_index_list db)"
  shows "if key_view e db (table_key (ee_digest e) scope k) \<noteq> None
    then (\<exists>db'. db_update_by_key e scope k payer buf db = (Inr (), db') \<and> db_inv (ee_env e) cinv db' \<and>
        other_tables (ee_env e) TK db db' \<and>
        key_view e db' = (key_view e db)(table_key (ee_digest e) scope k \<mapsto> (payer, buf))) \<and>
      (\<exists>db'. db_remove_by_key e scope k db = (Inr (), db') \<and> db_inv (ee_env e) cinv db' \<and>
        other_tables (ee_env e) TK db db' \<and>
        key_view e db' = (key_view e db)(table_key (ee_digest e) scope k := None))
    else db_update_by_key e scope k payer buf db = (Inl (Assert_failed ''object key not found''), db) \<and>
      db_remove_by_key e scope k db = (Inl (Assert_failed ''object key not found''), db)"
proof (cases "key_view e db (table_key (ee_digest e) scope k)")
  case None
  then show ?thesis using eos_interface.missing_key [OF assms None]
    by (simp add: db_update_by_key_def db_remove_by_key_def Let_def bindX_run)
next
  case (Some x)
  obtain d1 where d1: "db_update_by_key e scope k payer buf db = (Inr (), d1)" "db_inv (ee_env e) cinv d1"
    "other_tables (ee_env e) TK db d1" "key_view e d1 = (key_view e db)(table_key (ee_digest e) scope k \<mapsto> (payer, buf))"
    using eos_interface.update_by_key_run [OF assms Some] by blast
  obtain d2 where d2: "db_remove_by_key e scope k db = (Inr (), d2)" "db_inv (ee_env e) cinv d2"
    "other_tables (ee_env e) TK db d2" "key_view e d2 = (key_view e db)(table_key (ee_digest e) scope k := None)"
    using eos_interface.remove_by_key_run [OF assms Some] by blast
  show ?thesis using Some d1 d2 by simp
qed

theorem change_by_key_outcome_witness:
  "\<exists>db'. db_update_by_key (cell_eos_env sample_digest) sha256_zero [1, 2] (Sha256 5 0 0 0) [11, 12] sample_key_db = (Inr (), db') \<and>
     key_view (cell_eos_env sample_digest) db' (table_key sample_digest sha256_zero [1, 2]) = Some (Sha256 5 0 0 0, [11, 12])"
  using change_by_key_outcome [OF cell_eos.eos_interface_axioms, of sample_digest sample_key_db sha256_zero "[1, 2]" "Sha256 5 0 0 0" "[11, 12]"]
    sample_key_db_props by auto

text \<open>
  Looking up. The search returns a reference exactly when the hash of scope and key is
  stored, the reference is to the object with the stored payer and value, and the
  database is not changed.
\<close>

theorem find_by_key_outcome:
  assumes "eos_interface e cinv keys" "db_inv (ee_env e) cinv db" "TK \<in> set (db_index_list db)"
  shows "\<exists>r. db_find_by_key e scope k db = (Inr r, db) \<and>
    key_view e db (table_key (ee_digest e) scope k) =
      (case r of None \<Rightarrow> None | Some p \<Rightarrow> Option.bind (db_at (ee_env e) db TK p) tk_entry)"
proof (cases "key_view e db (table_key (ee_digest e) scope k)")
  case None
  then show ?thesis using eos_interface.missing_key [OF assms None] by (simp add: db_find_by_key_def)
next
  case (Some x)
  then obtain p t where "database_find TK (\<lambda>c. ee_by_key e c (table_key (ee_digest e) scope k)) db = (Inr (Some p), db)"
    "db_at (ee_env e) db TK p = Some (Table_key_row t)" "x = (tk_payer t, tk_value t)"
    using eos_interface.existing_key [OF assms Some] by blast
  then show ?thesis using Some by (simp add: db_find_by_key_def)
qed

theorem find_by_key_outcome_witness:
  "\<exists>p. db_find_by_key (cell_eos_env sample_digest) sha256_zero [1, 2] sample_key_db = (Inr (Some p), sample_key_db) \<and>
     Option.bind (db_at cell_env sample_key_db TK p) tk_entry = Some (sha256_zero, [10])"
proof -
  let ?e = "cell_eos_env sample_digest"
  have kv: "key_view ?e sample_key_db (table_key (ee_digest ?e) sha256_zero [1, 2]) = Some (sha256_zero, [10])"
    by (simp add: sample_key_db_props(3))
  have inv: "db_inv (ee_env ?e) cell_inv sample_key_db" by (simp add: sample_key_db_props(1))
  obtain r where r: "db_find_by_key ?e sha256_zero [1, 2] sample_key_db = (Inr r, sample_key_db)"
    "Some (sha256_zero, [10]) =
       (case r of None \<Rightarrow> None | Some p \<Rightarrow> Option.bind (db_at (ee_env ?e) sample_key_db TK p) tk_entry)"
    using find_by_key_outcome [OF cell_eos.eos_interface_axioms inv sample_key_db_props(2)] unfolding kv [symmetric] by blast
  then show ?thesis by (cases r) simp_all
qed

end
