(* ===== verification/Row_Props.thy ===== *)
theory Row_Props
  imports Eos_Changes Eos_Key_Props
begin

text \<open>
  The properties of the row interface of \<open>eos_db\<close>, each for every database and cache that
  satisfy the invariant, with a sample store on which they are applied.
\<close>

section \<open>A sample store\<close>

lemma eos_db_new_inv:
  assumes "db_inv (ee_env e) cinv db" "TI \<in> set (db_index_list db)" "KV \<in> set (db_index_list db)" "rows_typed e db"
  shows "eos_inv e cinv (eos_db_new db)"
proof -
  have "cache_ok e db ic_new"
    unfolding cache_ok_def using ic_new_ok by (auto simp: ic_get_conv) (simp_all add: ic_new_def)
  then show ?thesis using assms by (simp add: eos_inv_def eos_db_new_def)
qed

definition sample_tables :: "row lc database" where
  "sample_tables = db_run [D_add_index TI, D_add_index KV]"

abbreviation sample_env :: "(row lc, nat) eos_env" where
  "sample_env \<equiv> cell_eos_env sample_digest"

definition sample_st0 :: "(row lc, nat) eos_db" where
  "sample_st0 = eos_db_new sample_tables"

definition sample_st1 :: "(row lc, nat) eos_db" where
  "sample_st1 = snd (db_store_i64 sample_env 40 (Name 1) sha256_zero (Name 2) (Name 3) 5 [1, 2, 3] sample_st0)"

definition sample_st2 :: "(row lc, nat) eos_db" where
  "sample_st2 = snd (db_store_i64 sample_env 41 (Name 1) sha256_zero (Name 2) (Name 3) 9 [4] sample_st1)"

lemma sample_tables_reachable: "db_reachable cell_env sample_tables"
proof -
  let ?x = "[D_add_index TI, D_add_index KV]"
  have "fst (eachX (db_exec cell_env) ?x (database_open Read_write Map.empty)) = Inr ()" by code_simp
  then have "eachX (db_exec cell_env) ?x (database_open Read_write Map.empty) = (Inr (), sample_tables)"
    by (simp add: sample_tables_def db_run_def prod_eq_iff)
  then show ?thesis by (rule eachX_reachable) simp
qed

lemma sample_tables_empty: "db_at cell_env sample_tables TI = Map.empty" "db_at cell_env sample_tables KV = Map.empty"
proof -
  have "map_option (\<lambda>s. lc_cells (gi_indices s)) (db_segment sample_tables TI) = Some []"
    "map_option (\<lambda>s. lc_cells (gi_indices s)) (db_segment sample_tables KV) = Some []" by code_simp+
  then show "db_at cell_env sample_tables TI = Map.empty" "db_at cell_env sample_tables KV = Map.empty"
    by (auto simp: db_at_def fun_eq_iff lc_ops_def lc_at_def)
qed

lemma sample_st0_inv: "eos_inv sample_env cell_inv sample_st0"
  unfolding sample_st0_def
proof (rule eos_db_new_inv)
  show "db_inv (ee_env sample_env) cell_inv sample_tables"
    using cell_db.reachable_inv [OF sample_tables_reachable] by simp
  show "TI \<in> set (db_index_list sample_tables)" "KV \<in> set (db_index_list sample_tables)" by code_simp+
  show "rows_typed sample_env sample_tables" by (simp add: rows_typed_def sample_tables_empty)
qed

lemma sample_st0_empty:
  "table_at sample_env (es_db sample_st0) p = None" "row_at sample_env (es_db sample_st0) p = None"
  by (simp_all add: sample_st0_def eos_db_new_def table_at_def row_at_def sample_tables_empty)

lemma cache_room_small:
  "length (ic_iterator_to_object c) = m \<Longrightarrow> length (ic_end_iterator_to_table c) = n \<Longrightarrow> m < 9 \<Longrightarrow> n < 9 \<Longrightarrow> cache_room c"
  by (simp add: cache_room_def ic_limit_def)

lemma sample_room: "cache_room (es_keyval_cache sample_st0)" "cache_room (es_keyval_cache sample_st1)"
  "cache_room (es_keyval_cache sample_st2)"
proof -
  have l: "length (ic_iterator_to_object (es_keyval_cache sample_st0)) = 0" "length (ic_end_iterator_to_table (es_keyval_cache sample_st0)) = 0"
    "length (ic_iterator_to_object (es_keyval_cache sample_st1)) = 1" "length (ic_end_iterator_to_table (es_keyval_cache sample_st1)) = 1"
    "length (ic_iterator_to_object (es_keyval_cache sample_st2)) = 2" "length (ic_end_iterator_to_table (es_keyval_cache sample_st2)) = 1"
    by code_simp+
  show "cache_room (es_keyval_cache sample_st0)" "cache_room (es_keyval_cache sample_st1)" "cache_room (es_keyval_cache sample_st2)"
    by (rule cache_room_small [OF l(1,2)] cache_room_small [OF l(3,4)] cache_room_small [OF l(5,6)]; simp)+
qed

abbreviation sample_row5 :: key_value_object where
  "sample_row5 \<equiv> \<lparr>kv_id = 5, kv_t_id = 40, kv_primary_key = 5, kv_payer = Name 3, kv_value = [1, 2, 3]\<rparr>"

abbreviation sample_row9 :: key_value_object where
  "sample_row9 \<equiv> \<lparr>kv_id = 9, kv_t_id = 40, kv_primary_key = 9, kv_payer = Name 3, kv_value = [4]\<rparr>"

definition sample_table :: "u32 \<Rightarrow> table_id_object" where
  "sample_table n = \<lparr>tid_id = 40, tid_code = Name 1, tid_scope = sha256_zero, tid_table = Name 2, tid_payer = Name 3,
     tid_count = n, tid_value = []\<rparr>"

text \<open>The store of a row as one statement, for the samples.\<close>

lemma sample_store:
  assumes inv: "eos_inv sample_env cell_inv st" and room: "cache_room (es_keyval_cache st)"
    and free: "\<forall>n. has_row sample_env (es_db st) n \<longrightarrow> kv_id n \<noteq> sint i \<and> kv_primary_key n \<noteq> i"
    and tab: "(\<forall>p t. table_at sample_env (es_db st) p = Some t \<longrightarrow> by_code_scope_table t \<noteq> (code, scope, table)) \<Longrightarrow>
      \<forall>p t. table_at sample_env (es_db st) p = Some t \<longrightarrow> tid_id t \<noteq> junk"
    and run: "st' = snd (db_store_i64 sample_env junk code scope table payer i buf st)"
  shows "\<exists>p q t. eos_inv sample_env cell_inv st' \<and> by_code_scope_table t = (code, scope, table) \<and>
    (table_at sample_env (es_db st) p = Some t \<or>
       table_at sample_env (es_db st) p = None \<and> t = new_table junk code scope table payer) \<and>
    table_at sample_env (es_db st') = (table_at sample_env (es_db st))(p \<mapsto> t\<lparr>tid_count := tid_count t + 1\<rparr>) \<and>
    row_at sample_env (es_db st') = (row_at sample_env (es_db st))(q \<mapsto>
       \<lparr>kv_id = sint i, kv_t_id = tid_id t, kv_primary_key = i, kv_payer = payer, kv_value = buf\<rparr>)"
proof (rule cell_eos.store_ok [OF inv room free tab, where payer = payer and buf = buf])
  fix j p q t st2
  assume "db_store_i64 sample_env junk code scope table payer i buf st = (Inr j, st2)" "eos_inv sample_env cell_inv st2"
    "by_code_scope_table t = (code, scope, table)"
    "table_at sample_env (es_db st) p = Some t \<or>
       table_at sample_env (es_db st) p = None \<and> t = new_table junk code scope table payer"
    "table_at sample_env (es_db st2) = (table_at sample_env (es_db st))(p \<mapsto> t\<lparr>tid_count := tid_count t + 1\<rparr>)"
    "row_at sample_env (es_db st2) = (row_at sample_env (es_db st))(q \<mapsto>
       \<lparr>kv_id = sint i, kv_t_id = tid_id t, kv_primary_key = i, kv_payer = payer, kv_value = buf\<rparr>)"
  then show ?thesis using run by (intro exI [of _ p] exI [of _ q] exI [of _ t]) simp
qed

lemma sample_st1_props:
  "eos_inv sample_env cell_inv sample_st1" "row_at sample_env (es_db sample_st1) = [0 \<mapsto> sample_row5]"
  "table_at sample_env (es_db sample_st1) = [0 \<mapsto> sample_table 1]"
proof -
  obtain p q t where r: "eos_inv sample_env cell_inv sample_st1"
    "table_at sample_env (es_db sample_st0) p = Some t \<or>
       table_at sample_env (es_db sample_st0) p = None \<and> t = new_table 40 (Name 1) sha256_zero (Name 2) (Name 3)"
    "table_at sample_env (es_db sample_st1) = (table_at sample_env (es_db sample_st0))(p \<mapsto> t\<lparr>tid_count := tid_count t + 1\<rparr>)"
    "row_at sample_env (es_db sample_st1) = (row_at sample_env (es_db sample_st0))(q \<mapsto>
       \<lparr>kv_id = sint (5 :: u64), kv_t_id = tid_id t, kv_primary_key = 5, kv_payer = Name 3, kv_value = [1, 2, 3]\<rparr>)"
    using sample_store [OF sample_st0_inv sample_room(1) _ _ sample_st1_def]
    by (auto simp: has_row_def sample_st0_empty)
  have "row_at sample_env (es_db sample_st1) 0 \<noteq> None" "table_at sample_env (es_db sample_st1) 0 \<noteq> None" by code_simp+
  then have "q = 0" "p = 0" unfolding r(3,4) by (auto simp: sample_st0_empty split: if_splits)
  then show "eos_inv sample_env cell_inv sample_st1" "row_at sample_env (es_db sample_st1) = [0 \<mapsto> sample_row5]"
    "table_at sample_env (es_db sample_st1) = [0 \<mapsto> sample_table 1]"
    using r by (simp_all add: sample_st0_empty new_table_def sample_table_def fun_eq_iff)
qed

lemma sample_st2_props:
  "eos_inv sample_env cell_inv sample_st2" "row_at sample_env (es_db sample_st2) = [0 \<mapsto> sample_row5, 1 \<mapsto> sample_row9]"
  "table_at sample_env (es_db sample_st2) = [0 \<mapsto> sample_table 2]"
proof -
  have cst: "by_code_scope_table (sample_table 1) = (Name 1, sha256_zero, Name 2)"
    by (simp add: sample_table_def by_code_scope_table_def)
  have fr: "\<forall>n. has_row sample_env (es_db sample_st1) n \<longrightarrow> kv_id n \<noteq> sint (9 :: u64) \<and> kv_primary_key n \<noteq> 9"
    by (auto simp: has_row_def sample_st1_props split: if_splits)
  have tb: "\<forall>p t. table_at sample_env (es_db sample_st1) p = Some t \<longrightarrow> tid_id t \<noteq> 41"
    by (simp add: sample_st1_props sample_table_def)
  obtain p q t where r: "eos_inv sample_env cell_inv sample_st2" "by_code_scope_table t = (Name 1, sha256_zero, Name 2)"
    "table_at sample_env (es_db sample_st1) p = Some t \<or>
       table_at sample_env (es_db sample_st1) p = None \<and> t = new_table 41 (Name 1) sha256_zero (Name 2) (Name 3)"
    "table_at sample_env (es_db sample_st2) = (table_at sample_env (es_db sample_st1))(p \<mapsto> t\<lparr>tid_count := tid_count t + 1\<rparr>)"
    "row_at sample_env (es_db sample_st2) = (row_at sample_env (es_db sample_st1))(q \<mapsto>
       \<lparr>kv_id = sint (9 :: u64), kv_t_id = tid_id t, kv_primary_key = 9, kv_payer = Name 3, kv_value = [4]\<rparr>)"
    using sample_store [OF sample_st1_props(1) sample_room(2) fr tb sample_st2_def] by blast
  have "row_at sample_env (es_db sample_st2) 1 \<noteq> None" "table_at sample_env (es_db sample_st2) 1 = None"
    "map_option tid_count (table_at sample_env (es_db sample_st2) 0) = Some 2" by code_simp+
  then have "q = 1" "p = 0" "t = sample_table 1" using r(3,4,5) unfolding sample_st1_props
    by (auto simp: sample_table_def split: if_splits)
  then show "eos_inv sample_env cell_inv sample_st2" "row_at sample_env (es_db sample_st2) = [0 \<mapsto> sample_row5, 1 \<mapsto> sample_row9]"
    "table_at sample_env (es_db sample_st2) = [0 \<mapsto> sample_table 2]"
    using r by (simp_all add: sample_st1_props sample_table_def fun_eq_iff)
qed

lemma sample_itr:
  "itr_row sample_env sample_st2 0 = Some sample_row5" "itr_row sample_env sample_st2 1 = Some sample_row9"
  "ic_get 0 (es_keyval_cache sample_st1) = (Inr 0, es_keyval_cache sample_st1)"
  "ic_get 0 (es_keyval_cache sample_st2) = (Inr 0, es_keyval_cache sample_st2)"
  "ic_table_cache (es_keyval_cache sample_st1) = [(40, (0, -2))]"
  "ic_table_cache (es_keyval_cache sample_st2) = [(40, (0, -2))]"
proof -
  have g: "fst (ic_get 0 (es_keyval_cache sample_st1)) = Inr 0" "fst (ic_get 0 (es_keyval_cache sample_st2)) = Inr 0"
    by code_simp+
  have "snd (ic_get i c) = c" for i and c :: "nat iterator_cache"
    by (auto simp: ic_get_def bindX_def split: sum.splits option.splits)
  then show "ic_get 0 (es_keyval_cache sample_st1) = (Inr 0, es_keyval_cache sample_st1)"
    "ic_get 0 (es_keyval_cache sample_st2) = (Inr 0, es_keyval_cache sample_st2)" using g by (simp_all add: prod_eq_iff)
qed code_simp+

lemma sample_st2_rows: "has_row sample_env (es_db sample_st2) n \<longleftrightarrow> n = sample_row5 \<or> n = sample_row9"
proof -
  have "(\<exists>p::nat. [0 \<mapsto> a, 1 \<mapsto> b] p = Some n) \<longleftrightarrow> n = a \<or> n = b" for a b n :: key_value_object
  proof
    assume "\<exists>p::nat. [0 \<mapsto> a, 1 \<mapsto> b] p = Some n"
    then obtain p :: nat where "[0 \<mapsto> a, 1 \<mapsto> b] p = Some n" ..
    then show "n = a \<or> n = b" by (cases "p = 0"; cases "p = 1") simp_all
  next
    assume "n = a \<or> n = b"
    then have "[0 \<mapsto> a, 1 \<mapsto> b] (0::nat) = Some n \<or> [0 \<mapsto> a, 1 \<mapsto> b] (1::nat) = Some n" by auto
    then show "\<exists>p::nat. [0 \<mapsto> a, 1 \<mapsto> b] p = Some n" by blast
  qed
  then show ?thesis by (simp only: has_row_def sample_st2_props)
qed

section \<open>Storing and removing\<close>

text \<open>
  C16: storing a row. When no row has the number as its id or primary key (and, for a table
  that does not exist yet, no table has the id the new object gets), the call returns an
  iterator for a new row with exactly the given fields in the table of the given name,
  which is created if there was none; the count of the table grows by one, no other row
  or table changes, iterators keep their rows and the invariant holds again.
\<close>

theorem store_row_outcome:
  assumes "eos_interface e cinv keys" "eos_inv e cinv st" "cache_room (es_keyval_cache st)"
    and "\<forall>n. has_row e (es_db st) n \<longrightarrow> kv_id n \<noteq> sint i \<and> kv_primary_key n \<noteq> i"
    and "(\<exists>p t. table_at e (es_db st) p = Some t \<and> by_code_scope_table t = (code, scope, table)) \<or>
      (\<forall>p t. table_at e (es_db st) p = Some t \<longrightarrow> tid_id t \<noteq> junk)"
  shows "\<exists>j p q t st'. let n = \<lparr>kv_id = sint i, kv_t_id = tid_id t, kv_primary_key = i, kv_payer = payer, kv_value = buf\<rparr> in
    db_store_i64 e junk code scope table payer i buf st = (Inr j, st') \<and> eos_inv e cinv st' \<and>
    itr_row e st' j = Some n \<and> itr_kept e st st' \<and> by_code_scope_table t = (code, scope, table) \<and>
    (table_at e (es_db st) p = Some t \<or> table_at e (es_db st) p = None \<and> t = new_table junk code scope table payer) \<and>
    table_at e (es_db st') = (table_at e (es_db st))(p \<mapsto> t\<lparr>tid_count := tid_count t + 1\<rparr>) \<and>
    row_at e (es_db st) q = None \<and> row_at e (es_db st') = (row_at e (es_db st))(q \<mapsto> n)"
proof (rule eos_interface.store_ok [OF assms(1-4), where payer = payer and buf = buf])
  assume "\<forall>p t. table_at e (es_db st) p = Some t \<longrightarrow> by_code_scope_table t \<noteq> (code, scope, table)"
  then show "\<forall>p t. table_at e (es_db st) p = Some t \<longrightarrow> tid_id t \<noteq> junk" using assms(5) by blast
qed (auto simp: Let_def)

theorem store_row_outcome_witness:
  "\<exists>j st'. db_store_i64 sample_env 40 (Name 1) sha256_zero (Name 2) (Name 3) 5 [1, 2, 3] sample_st0 = (Inr j, st') \<and>
     itr_row sample_env st' j = Some sample_row5 \<and> eos_inv sample_env cell_inv st'"
  using store_row_outcome [OF cell_eos.eos_interface_axioms sample_st0_inv sample_room(1),
      of 5 "Name 1" sha256_zero "Name 2" 40 "Name 3" "[1, 2, 3]"]
  by (auto simp: has_row_def sample_st0_empty Let_def new_table_def)

text \<open>
  C21: the number of a row is its id in the database, and ids are unique over all tables: if
  any row of any table has it, storing throws the uniqueness error. No row is added, but
  a table that was created for the call stays, with a count of zero.
\<close>

theorem store_same_number_fails:
  assumes "eos_interface e cinv keys" "eos_inv e cinv st" "has_row e (es_db st) m" "kv_id m = sint i"
    and "\<forall>p t. table_at e (es_db st) p = Some t \<longrightarrow> by_code_scope_table t \<noteq> (code, scope, table) \<and> tid_id t \<noteq> junk"
  shows "\<exists>p st'. db_store_i64 e junk code scope table payer i buf st =
      (Inl (Logic_error ''could not insert object, most likely a uniqueness constraint was violated''), st') \<and>
    row_at e (es_db st') = row_at e (es_db st) \<and> table_at e (es_db st) p = None \<and>
    table_at e (es_db st') = (table_at e (es_db st))(p \<mapsto> new_table junk code scope table payer)"
  by (rule eos_interface.store_clash [OF assms(1-4), of code scope table junk payer buf])
    (use assms(5) in \<open>auto simp: fun_upd_idem\<close>)

theorem store_same_number_fails_witness:
  "\<exists>p st'. db_store_i64 sample_env 7 (Name 8) sha256_zero (Name 2) (Name 3) 5 [] sample_st1 =
      (Inl (Logic_error ''could not insert object, most likely a uniqueness constraint was violated''), st') \<and>
    table_at sample_env (es_db st') p = Some (new_table 7 (Name 8) sha256_zero (Name 2) (Name 3))"
proof -
  have m: "has_row sample_env (es_db sample_st1) sample_row5" "kv_id sample_row5 = sint (5 :: u64)"
    by (auto simp: has_row_def sample_st1_props)
  have t: "\<forall>p t. table_at sample_env (es_db sample_st1) p = Some t \<longrightarrow>
      by_code_scope_table t \<noteq> (Name 8, sha256_zero, Name 2) \<and> tid_id t \<noteq> 7"
    by (simp add: sample_st1_props sample_table_def by_code_scope_table_def)
  from store_same_number_fails [OF cell_eos.eos_interface_axioms sample_st1_props(1) m t, of "Name 3" "[]"]
  show ?thesis by auto
qed

text \<open>
  C17: removing the row of an iterator. The row is gone, the count of its table is one less
  and no other row or table changes; the iterator is dead from then on, every other
  iterator keeps its row. When this was not the last row counted for the table, the
  invariant holds again; when it was, the table is removed with the row.
\<close>

theorem remove_row_outcome:
  assumes "eos_interface e cinv keys" "eos_inv e cinv st"
    and "ic_get i (es_keyval_cache st) = (Inr p, es_keyval_cache st)" "row_at e (es_db st) p = Some o1"
    and "map_of (ic_table_cache (es_keyval_cache st)) (kv_t_id o1) = Some (u, ei)" "table_at e (es_db st) u = Some t"
  shows "\<exists>st'. db_remove_i64 e i st = (Inr (), st') \<and> db_inv (ee_env e) cinv (es_db st') \<and>
    row_at e (es_db st') = (row_at e (es_db st))(p := None) \<and>
    table_at e (es_db st') =
      (table_at e (es_db st))(u := (if tid_count t = 1 then None else Some (t\<lparr>tid_count := tid_count t - 1\<rparr>))) \<and>
    ic_get i (es_keyval_cache st') = (Inl (Assert_failed ''dereference of deleted object''), es_keyval_cache st') \<and>
    (\<forall>j x. j \<noteq> i \<longrightarrow> itr_row e st j = Some x \<longrightarrow> itr_row e st' j = Some x) \<and>
    (tid_count t \<noteq> 1 \<longrightarrow> eos_inv e cinv st')"
  by (rule eos_interface.remove_ok [OF assms]) auto

theorem remove_row_outcome_witness:
  "\<exists>st'. db_remove_i64 sample_env 0 sample_st2 = (Inr (), st') \<and> row_at sample_env (es_db st') = [1 \<mapsto> sample_row9] \<and>
     itr_row sample_env st' 1 = Some sample_row9 \<and> eos_inv sample_env cell_inv st'"
proof -
  have [simp]: "kv_t_id sample_row5 = 40" by simp
  show ?thesis
    using remove_row_outcome [OF cell_eos.eos_interface_axioms sample_st2_props(1) sample_itr(4), of sample_row5 0 "-2" "sample_table 2"]
      sample_itr(1,2,6)
    by (auto simp: sample_st2_props sample_table_def fun_eq_iff)
qed

text \<open>
  Removing the last row of a table leaves the cache with a reference to the removed
  table: stepping back from the end iterator of the table is undefined behaviour.
\<close>

theorem removed_table_dangles:
  assumes "eos_interface e cinv keys" "eos_inv e cinv st"
    and "ic_get i (es_keyval_cache st) = (Inr p, es_keyval_cache st)" "row_at e (es_db st) p = Some o1"
    and "map_of (ic_table_cache (es_keyval_cache st)) (kv_t_id o1) = Some (u, ei)" "table_at e (es_db st) u = Some t"
    and "tid_count t = 1"
  shows "\<exists>st'. db_remove_i64 e i st = (Inr (), st') \<and> table_at e (es_db st') u = None \<and>
    fst (db_previous_i64 e ei st') = Inl Undefined_behaviour"
proof (rule eos_interface.remove_ok [OF assms(1-6)])
  fix st'
  assume r: "db_remove_i64 e i st = (Inr (), st')" "db_inv (ee_env e) cinv (es_db st')"
    "table_at e (es_db st') = (table_at e (es_db st))(u := (if tid_count t = 1 then None else Some (t\<lparr>tid_count := tid_count t - 1\<rparr>)))"
    "ic_table_cache (es_keyval_cache st') = ic_table_cache (es_keyval_cache st)" "ic_ok (es_keyval_cache st')"
    "rows_typed e (es_db st')" "db_index_list (es_db st') = db_index_list (es_db st)"
  have kv: "KV \<in> set (db_index_list (es_db st'))" using eos_invD(3) [OF assms(2)] r(7) by simp
  have g: "table_at e (es_db st') u = None" using r(3) assms(7) by simp
  have m: "map_of (ic_table_cache (es_keyval_cache st')) (kv_t_id o1) = Some (u, ei)" using assms(5) r(4) by simp
  show ?thesis
    using r(1) g eos_interface.previous_dangling [OF assms(1) r(2) kv r(6) r(5) m g] by blast
qed

theorem removed_table_dangles_witness:
  "\<exists>st'. db_remove_i64 sample_env 0 sample_st1 = (Inr (), st') \<and>
     fst (db_previous_i64 sample_env (-2) st') = Inl Undefined_behaviour"
proof -
  have r: "row_at sample_env (es_db sample_st1) 0 = Some sample_row5" "table_at sample_env (es_db sample_st1) 0 = Some (sample_table 1)"
    by (simp_all add: sample_st1_props)
  have m: "map_of (ic_table_cache (es_keyval_cache sample_st1)) (kv_t_id sample_row5) = Some (0, -2)" by (simp add: sample_itr)
  show ?thesis
    using removed_table_dangles [OF cell_eos.eos_interface_axioms sample_st1_props(1) sample_itr(3) r(1) m r(2)]
    by (auto simp: sample_table_def)
qed

section \<open>Searching, stepping and reading\<close>

text \<open>
  C18: the searches in an existing table. \<open>db_find_i64\<close> returns an iterator for the row with
  the given primary key, \<open>db_lowerbound_i64\<close> for the row with the least key that is not
  smaller, \<open>db_upperbound_i64\<close> for the one with the least greater key, and each the end
  iterator of the table exactly when it has no such row. The database does not change and
  iterators keep their rows.
\<close>

theorem search_rows:
  assumes "eos_interface e cinv keys" "eos_inv e cinv st" "cache_room (es_keyval_cache st)"
    and "table_at e (es_db st) p = Some t" "by_code_scope_table t = (code, scope, table)"
    and "(f, P) \<in> {(db_lowerbound_i64, \<lambda>k. i \<le> k), (db_upperbound_i64, \<lambda>k. i < k), (db_find_i64, \<lambda>k. k = i)}"
  shows "\<exists>j st'. f e code scope table i st = (Inr j, st') \<and> eos_inv e cinv st' \<and> es_db st' = es_db st \<and> itr_kept e st st' \<and>
    (no_row e (es_db st) (tid_id t) P \<and> end_itr st' (tid_id t) j \<or>
     (\<exists>n. first_row e (es_db st) (tid_id t) P n \<and> itr_row e st' j = Some n))"
proof -
  note E = assms(1)
  let ?goal = "\<lambda>f P. \<exists>j st'. f e code scope table i st = (Inr j, st') \<and> eos_inv e cinv st' \<and> es_db st' = es_db st \<and> itr_kept e st st' \<and>
    (no_row e (es_db st) (tid_id t) P \<and> end_itr st' (tid_id t) j \<or>
     (\<exists>n. first_row e (es_db st) (tid_id t) P n \<and> itr_row e st' j = Some n))"
  note b = eos_interface.bound_search [OF E assms(2-5), of i]
  have "?goal db_find_i64 (\<lambda>k. k = i)"
    by (rule eos_interface.find_ok [OF E assms(2-5), of i]) (auto simp: first_row_def)
  note f = this
  consider "f = db_lowerbound_i64" "P = (\<lambda>k. i \<le> k)" | "f = db_upperbound_i64" "P = (\<lambda>k. i < k)" | "f = db_find_i64" "P = (\<lambda>k. k = i)"
    using assms(6) by auto
  then show ?thesis
  proof cases
    case 1
    show ?thesis unfolding 1 by (rule b(1))
  next
    case 2
    show ?thesis unfolding 2 by (rule b(2))
  next
    case 3
    show ?thesis unfolding 3 by (rule f)
  qed
qed

theorem search_rows_witness:
  "\<exists>j st'. db_lowerbound_i64 sample_env (Name 1) sha256_zero (Name 2) 6 sample_st2 = (Inr j, st') \<and>
     itr_row sample_env st' j = Some sample_row9"
proof -
  have t: "table_at sample_env (es_db sample_st2) 0 = Some (sample_table 2)" by (simp add: sample_st2_props)
  have by_t: "by_code_scope_table (sample_table 2) = (Name 1, sha256_zero, Name 2)"
    by (simp add: sample_table_def by_code_scope_table_def)
  note rows = sample_st2_rows
  have "\<not> no_row sample_env (es_db sample_st2) 40 (\<lambda>k. 6 \<le> k)" by (auto simp: no_row_def rows)
  moreover have "first_row sample_env (es_db sample_st2) 40 (\<lambda>k. 6 \<le> k) n \<Longrightarrow> n = sample_row9" for n
    by (auto simp: first_row_def rows)
  moreover have "tid_id (sample_table 2) = 40" by (simp add: sample_table_def)
  ultimately show ?thesis
    using search_rows [OF cell_eos.eos_interface_axioms sample_st2_props(1) sample_room(3) t by_t,
        of db_lowerbound_i64 "\<lambda>k. 6 \<le> k" 6] by auto
qed

text \<open>
  C19: stepping. From the iterator of a row, \<open>db_next_i64\<close> goes to the row of the same table
  with the next greater primary key and assigns that key, or returns the end iterator of
  the table when there is none; \<open>db_previous_i64\<close> goes to the row with the next smaller
  key, or returns -1. The database does not change and iterators keep their rows.
\<close>

theorem step_rows:
  assumes "eos_interface e cinv keys" "eos_inv e cinv st" "cache_room (es_keyval_cache st)" "itr_row e st i = Some o1"
  shows "(\<exists>j r st'. db_next_i64 e i st = (Inr (j, r), st') \<and> eos_inv e cinv st' \<and> es_db st' = es_db st \<and> itr_kept e st st' \<and>
      (case r of
         None \<Rightarrow> no_row e (es_db st) (kv_t_id o1) (\<lambda>k. kv_primary_key o1 < k) \<and> end_itr st' (kv_t_id o1) j
       | Some k \<Rightarrow> \<exists>n. first_row e (es_db st) (kv_t_id o1) (\<lambda>k. kv_primary_key o1 < k) n \<and> k = kv_primary_key n \<and>
           itr_row e st' j = Some n)) \<and>
    (\<exists>j r st'. db_previous_i64 e i st = (Inr (j, r), st') \<and> eos_inv e cinv st' \<and> es_db st' = es_db st \<and> itr_kept e st st' \<and>
      (case r of
         None \<Rightarrow> no_row e (es_db st) (kv_t_id o1) (\<lambda>k. k < kv_primary_key o1) \<and> j = -1
       | Some k \<Rightarrow> \<exists>n. last_row e (es_db st) (kv_t_id o1) (\<lambda>k. k < kv_primary_key o1) n \<and> k = kv_primary_key n \<and>
           itr_row e st' j = Some n))"
proof (intro conjI, goal_cases)
  case 1
  show ?case by (rule eos_interface.next_ok [OF assms]) (intro exI conjI; assumption)
next
  case 2
  show ?case by (rule eos_interface.previous_ok [OF assms]) (intro exI conjI; assumption)
qed

theorem step_rows_witness:
  "\<exists>j k st'. db_next_i64 sample_env 0 sample_st2 = (Inr (j, Some k), st') \<and> k = 9 \<and> itr_row sample_env st' j = Some sample_row9"
proof -
  note rows = sample_st2_rows
  have "\<not> no_row sample_env (es_db sample_st2) 40 (\<lambda>k. 5 < k)" by (auto simp: no_row_def rows)
  moreover have "first_row sample_env (es_db sample_st2) 40 (\<lambda>k. 5 < k) n \<Longrightarrow> n = sample_row9" for n
    by (auto simp: first_row_def rows)
  moreover obtain j r st' where "db_next_i64 sample_env 0 sample_st2 = (Inr (j, r), st')"
    "case r of
       None \<Rightarrow> no_row sample_env (es_db sample_st2) (kv_t_id sample_row5) (\<lambda>k. kv_primary_key sample_row5 < k) \<and>
         end_itr st' (kv_t_id sample_row5) j
     | Some k \<Rightarrow> \<exists>n. first_row sample_env (es_db sample_st2) (kv_t_id sample_row5) (\<lambda>k. kv_primary_key sample_row5 < k) n \<and>
         k = kv_primary_key n \<and> itr_row sample_env st' j = Some n"
    using step_rows [OF cell_eos.eos_interface_axioms sample_st2_props(1) sample_room(3) sample_itr(1), THEN conjunct1]
    by (elim exE conjE)
  ultimately show ?thesis by (cases r) (simp, fastforce)
qed

text \<open>
  C20: updating the row of an iterator and reading it back. The update replaces payer and
  value of that row and nothing else; reading with an empty buffer returns the size of the
  new value, and with a buffer of \<open>n\<close> bytes the first \<open>n\<close> bytes of it and how many there
  are. The returned size is converted to a 32-bit signed integer.
\<close>

theorem update_then_get:
  assumes "eos_interface e cinv keys" "eos_inv e cinv st"
    and "ic_get i (es_keyval_cache st) = (Inr p, es_keyval_cache st)" "row_at e (es_db st) p = Some o1"
  shows "\<exists>st'. db_update_i64 e i payer buf st = (Inr (), st') \<and> eos_inv e cinv st' \<and>
    table_at e (es_db st') = table_at e (es_db st) \<and>
    row_at e (es_db st') = (row_at e (es_db st))(p \<mapsto> o1\<lparr>kv_value := buf, kv_payer := payer\<rparr>) \<and>
    (\<forall>n. db_get_i64 e i n st' =
      (if n = 0 then (Inr (as_int (int (length buf)), []), st')
       else (Inr (as_int (int (min n (length buf))), take n buf), st')))"
proof (rule eos_interface.update_ok [OF assms])
  fix st'
  assume u: "db_update_i64 e i payer buf st = (Inr (), st')" "eos_inv e cinv st'" "es_keyval_cache st' = es_keyval_cache st"
    "table_at e (es_db st') = table_at e (es_db st)"
    "row_at e (es_db st') = (row_at e (es_db st))(p \<mapsto> o1\<lparr>kv_value := buf, kv_payer := payer\<rparr>)"
  have "itr_row e st' i = Some (o1\<lparr>kv_value := buf, kv_payer := payer\<rparr>)"
    using assms(3) u(3,5) by (simp add: itr_row_Some)
  from eos_interface.get_ok [OF assms(1) u(2) this] show ?thesis using u by simp
qed

theorem update_then_get_witness:
  "\<exists>st'. db_update_i64 sample_env 0 (Name 7) [8, 9, 10] sample_st2 = (Inr (), st') \<and>
     fst (db_get_i64 sample_env 0 2 st') = Inr (2, [8, 9])"
proof -
  have r: "row_at sample_env (es_db sample_st2) 0 = Some sample_row5" by (simp add: sample_st2_props)
  show ?thesis
    using update_then_get [OF cell_eos.eos_interface_axioms sample_st2_props(1) sample_itr(4) r, of "Name 7" "[8, 9, 10]"]
    by (auto simp: as_int_id)
qed

end
