(* ===== verification/Db_Walk.thy ===== *)
theory Db_Walk
  imports Ordered_Index
begin

text \<open>
  The loops of \<open>db_viewer\<close> (\<open>src/db_viewer.hpp\<close>): walking from one iterator of an ordered
  index to another. The function that is called for every object is represented by the
  list of objects it is called with. The loops compare iterators only for equality, so a
  loop may miss its end and increment \<open>end()\<close>, which is \<open>Undefined_behaviour\<close>. Fuel bounds
  the number of increments; one more than the number of objects is enough, as is shown.
\<close>

fun walk_loop :: "('c, 'p, 'a, 'b) oi_ops \<Rightarrow> ('c, 'p, 'k, 'v) mi_ops \<Rightarrow> nat \<Rightarrow> 'c \<Rightarrow> 'p option \<Rightarrow> 'p option
    \<Rightarrow> 'v list res option" where
  "walk_loop oi ops 0 c itr last_itr = None"
| "walk_loop oi ops (Suc n) c itr last_itr =
     (if itr = last_itr then Some (Inr [])
      else (case itr of
          None \<Rightarrow> Some (Inl Undefined_behaviour)
        | Some p \<Rightarrow>
            (case mi_at ops c p of
               None \<Rightarrow> Some (Inl Undefined_behaviour)
             | Some v \<Rightarrow>
                 (case walk_loop oi ops n c (oi_next oi c p) last_itr of
                    Some (Inr vs) \<Rightarrow> Some (Inr (v # vs))
                  | r \<Rightarrow> r))))"

fun count_loop :: "('c, 'p, 'a, 'b) oi_ops \<Rightarrow> nat \<Rightarrow> 'c \<Rightarrow> 'p option \<Rightarrow> 'p option \<Rightarrow> u64 \<Rightarrow> u64 res option" where
  "count_loop oi 0 c first_itr stop_itr r = None"
| "count_loop oi (Suc n) c first_itr stop_itr r =
     (if first_itr = stop_itr then Some (Inr r)
      else (case first_itr of
          None \<Rightarrow> Some (Inl Undefined_behaviour)
        | Some p \<Rightarrow> count_loop oi n c (oi_next oi c p) stop_itr (r + 1)))"

section \<open>The loops\<close>

text \<open>\<open>P\<close> is closed upwards on the keys.\<close>

definition up_closed :: "('o::linorder \<Rightarrow> bool) \<Rightarrow> bool" where
  "up_closed P \<longleftrightarrow> (\<forall>x y. P x \<longrightarrow> x \<le> y \<longrightarrow> P y)"

lemma up_closed_above: "up_closed (\<lambda>x. k < x)" "up_closed (\<lambda>x. k \<le> x)" "up_closed (\<lambda>_. True)" "up_closed (\<lambda>_. False)"
  by (auto simp: up_closed_def)

lemma found_NoneD: "found F P ks None \<Longrightarrow> ks q = Some k \<Longrightarrow> \<not> P k"
  by (simp add: found_def)

lemma is_firstD:
  "is_first ks P p \<Longrightarrow> ks p = Some k \<Longrightarrow> P k"
  "is_first ks P p \<Longrightarrow> ks p = Some k \<Longrightarrow> ks q = Some j \<Longrightarrow> P j \<Longrightarrow> k \<le> j"
  "is_first ks P p \<Longrightarrow> \<exists>k. ks p = Some k"
  by (auto simp: is_first_def)

lemma found_first_unique:
  assumes "found (is_first ks P) P ks (Some p)" "found (is_first ks Q) Q ks r" "\<forall>x. Q x \<longrightarrow> P x"
    and "ks p = Some k" "Q k" "\<forall>q. ks q = Some k \<longrightarrow> q = p"
  shows "r = Some p"
proof -
  have "r \<noteq> None" using assms(2) found_NoneD [of "is_first ks Q" Q ks p k] assms(4,5) by (cases r) simp_all
  then obtain q where q: "r = Some q" by blast
  then have "is_first ks Q q" using assms(2) by (simp add: found_def)
  note fq = this
  obtain j where j: "ks q = Some j" using is_firstD(3) [OF fq] by blast
  have jk: "Q j" "j \<le> k" using is_firstD(1,2) [OF fq j] assms(4,5) by blast+
  have "is_first ks P p" using assms(1) by (simp add: found_def)
  then have "k \<le> j" using is_firstD(2) [of ks P p k q j] assms(3,4) j jk by simp
  then have "j = k" using jk by simp
  then show ?thesis using j assms(6) q by blast
qed

context ordered_index
begin

definition key_set :: "'c \<Rightarrow> ('a \<times> 'b \<Rightarrow> bool) \<Rightarrow> ('a \<times> 'b) set" where
  "key_set c P = {k. P k \<and> (\<exists>p. keys c p = Some k)}"

definition objects_of :: "'c \<Rightarrow> ('a \<times> 'b) set \<Rightarrow> 'v set" where
  "objects_of c S = {v. \<exists>p k. mi_at ops c p = Some v \<and> okey v = Some k \<and> k \<in> S}"

lemma finite_key_set: "cinv c \<Longrightarrow> finite (key_set c P)"
proof -
  assume c: "cinv c"
  have "key_set c P \<subseteq> (\<lambda>p. the (keys c p)) ` dom (mi_at ops c)"
    unfolding key_set_def by (force simp: keys_eq bind_eq_Some_conv)
  then show ?thesis using finite_at [OF c] by (metis finite_surj)
qed

lemma card_key_set: "cinv c \<Longrightarrow> card (key_set c P) \<le> mi_size ops c"
proof -
  assume c: "cinv c"
  have "key_set c P \<subseteq> (\<lambda>p. the (keys c p)) ` dom (mi_at ops c)"
    unfolding key_set_def by (force simp: keys_eq bind_eq_Some_conv)
  then show ?thesis using surj_card_le [OF finite_at [OF c]] size_at [OF c] by metis
qed

lemma object_of_key:
  assumes "cinv c" "keys c p = Some k"
  obtains v where "mi_at ops c p = Some v" "okey v = Some k" "objects_of c {k} = {v}"
proof -
  obtain v where v: "mi_at ops c p = Some v" "okey v = Some k" using assms(2) by (auto simp: keys_eq bind_eq_Some_conv)
  have "objects_of c {k} = {v}" unfolding objects_of_def using v okey_inj [OF assms(1)] by fastforce
  then show thesis using that v by blast
qed

lemma objects_of_insert: "objects_of c (insert k S) = objects_of c {k} \<union> objects_of c S"
  unfolding objects_of_def by blast

lemma next_found:
  assumes "cinv c" "found (is_first (keys c) P) P (keys c) (Some p)" "keys c p = Some k" "up_closed P"
  shows "found (is_first (keys c) (\<lambda>x. k < x)) (\<lambda>x. k < x) (keys c) (oi_next oi c p)"
    "key_set c (\<lambda>x. k < x) = key_set c P - {k}" "P k"
proof -
  show "found (is_first (keys c) (\<lambda>x. k < x)) (\<lambda>x. k < x) (keys c) (oi_next oi c p)" by (rule next_first [OF assms(1,3)])
  have f: "is_first (keys c) P p" using assms(2) by (simp add: found_def)
  show "P k" by (rule is_firstD(1) [OF f assms(3)])
  have "k \<le> j" if "keys c q = Some j" "P j" for q j using is_firstD(2) [OF f assms(3) that] .
  note least = this
  have up: "P x" if "k < x" for x using \<open>P k\<close> assms(4) that unfolding up_closed_def by (metis less_imp_le)
  have "k < x" if "P x" "keys c q = Some x" "x \<noteq> k" for q x using least [OF that(2,1)] that(3) by simp
  then show "key_set c (\<lambda>x. k < x) = key_set c P - {k}"
    using up unfolding key_set_def by blast
qed

lemma card_key_set_next:
  assumes "cinv c" "keys c p = Some k" "P k" "key_set c P' = key_set c P - {k}" "card (key_set c P) \<le> Suc n"
  shows "card (key_set c P') \<le> n"
proof -
  have "k \<in> key_set c P" using assms(2,3) unfolding key_set_def by blast
  then have "card (key_set c P - {k}) = card (key_set c P) - 1" by (simp add: card_Diff_singleton)
  then show ?thesis using assms(4,5) by simp
qed

text \<open>From the first key with \<open>P\<close> to the first key with \<open>Q\<close>, where \<open>Q\<close> implies \<open>P\<close>.\<close>

lemma walk_loop_ok:
  assumes c: "cinv c" and Q: "up_closed Q" "found (is_first (keys c) Q) Q (keys c) last_itr"
  shows "up_closed P \<Longrightarrow> \<forall>x. Q x \<longrightarrow> P x \<Longrightarrow> found (is_first (keys c) P) P (keys c) itr \<Longrightarrow>
    card (key_set c P) \<le> n \<Longrightarrow>
    \<exists>vs. walk_loop oi ops (Suc n) c itr last_itr = Some (Inr vs) \<and>
      sorted_wrt (<) (map (\<lambda>v. the (okey v)) vs) \<and> set vs = objects_of c (key_set c P - key_set c Q) \<and>
      count_loop oi (Suc n) c itr last_itr r = Some (Inr (r + of_nat (length vs)))"
proof (induction n arbitrary: P itr r)
  case 0
  then have e: "key_set c P = {}" using finite_key_set [OF c] by simp
  have none: "r = None" if r: "found (is_first (keys c) R) R (keys c) r" "\<forall>x. R x \<longrightarrow> P x" for r R
  proof (rule ccontr)
    assume "r \<noteq> None"
    then obtain q where q: "is_first (keys c) R q" using r(1) by (auto simp: found_def)
    obtain k where k: "keys c q = Some k" using is_firstD(3) [OF q] by blast
    then have "k \<in> key_set c P" using is_firstD(1) [OF q k] r(2) unfolding key_set_def by blast
    then show False using e by simp
  qed
  have "itr = None" "last_itr = None" using none [OF 0(3)] none [OF Q(2) 0(2)] by simp_all
  then show ?case using e by (simp add: objects_of_def)
next
  case (Suc n)
  show ?case
  proof (cases "itr = last_itr")
    case True
    have "key_set c P - key_set c Q = {}"
    proof (cases itr)
      case None
      then have "\<not> P k" if "keys c q = Some k" for q k
        using Suc.prems(3) found_NoneD [of "is_first (keys c) P" P "keys c" q k] that by simp
      then show ?thesis unfolding key_set_def by blast
    next
      case (Some p)
      then have "is_first (keys c) P p" "is_first (keys c) Q p" using True Suc.prems(3) Q(2) by (simp_all add: found_def)
      note fp = this
      obtain k where k: "keys c p = Some k" using is_firstD(3) [OF fp(1)] by blast
      have "Q j" if "keys c q = Some j" "P j" for q j
        using is_firstD(2) [OF fp(1) k that] is_firstD(1) [OF fp(2) k] Q(1) unfolding up_closed_def by blast
      then show ?thesis unfolding key_set_def by blast
    qed
    then show ?thesis unfolding True by (simp only: objects_of_def walk_loop.simps count_loop.simps) simp
  next
    case False
    have "itr \<noteq> None"
    proof
      assume "itr = None"
      then have no: "\<not> Q k" if "keys c q = Some k" for q k
        using Suc.prems(2,3) found_NoneD [of "is_first (keys c) P" P "keys c" q k] that by (metis)
      have "last_itr = None"
      proof (rule ccontr)
        assume "last_itr \<noteq> None"
        then obtain q where q: "is_first (keys c) Q q" using Q(2) by (auto simp: found_def)
        obtain k where k: "keys c q = Some k" using is_firstD(3) [OF q] by blast
        show False using no [OF k] is_firstD(1) [OF q k] by simp
      qed
      then show False using False \<open>itr = None\<close> by simp
    qed
    then obtain p where p: "itr = Some p" by blast
    note f = Suc.prems(3) [unfolded p]
    obtain k where k: "keys c p = Some k" using f by (auto simp: found_def is_first_def)
    obtain v where v: "mi_at ops c p = Some v" "okey v = Some k" "objects_of c {k} = {v}" by (rule object_of_key [OF c k])
    note nx = next_found [OF c f k Suc.prems(1)]
    have nQ: "\<not> Q k"
      using found_first_unique [OF f Q(2) Suc.prems(2) k] keys_inj [OF c k] False p by blast
    have QP: "\<forall>x. Q x \<longrightarrow> k < x" using nQ Q(1) unfolding up_closed_def by (meson leI)
    have fin: "card (key_set c (\<lambda>x. k < x)) \<le> n"
      using Suc.prems(4) by (rule card_key_set_next [OF c k nx(3,2)])
    note up = up_closed_above(1) [of k]
    obtain vs where vs: "walk_loop oi ops (Suc n) c (oi_next oi c p) last_itr = Some (Inr vs)"
      "sorted_wrt (<) (map (\<lambda>v. the (okey v)) vs)" "set vs = objects_of c (key_set c (\<lambda>x. k < x) - key_set c Q)"
      "count_loop oi (Suc n) c (oi_next oi c p) last_itr (r + 1) = Some (Inr (r + 1 + of_nat (length vs)))"
      using Suc.IH [OF up QP nx(1) fin] by blast
    have "key_set c P - key_set c Q = insert k (key_set c (\<lambda>x. k < x) - key_set c Q)"
      using nx(2,3) nQ k by (auto simp: key_set_def)
    then have "objects_of c (key_set c P - key_set c Q) = insert v (set vs)"
      unfolding vs(3) v(3) [symmetric] by (simp only: objects_of_insert [of c k "key_set c (\<lambda>x. k < x) - key_set c Q"] v(3) insert_is_Un [symmetric])
    moreover have above: "k < the (okey w)" if w: "w \<in> set vs" for w
    proof -
      obtain j where "okey w = Some j" "j \<in> key_set c (\<lambda>x. k < x)" using w vs(3) unfolding objects_of_def by blast
      then show ?thesis by (simp add: key_set_def)
    qed
    moreover have "walk_loop oi ops (Suc (Suc n)) c itr last_itr = Some (Inr (v # vs))"
      using vs(1) v(1) p False by simp
    moreover have "sorted_wrt (<) (map (\<lambda>v. the (okey v)) (v # vs))" using vs(2) v(2) above by simp
    moreover have "count_loop oi (Suc (Suc n)) c itr last_itr r = Some (Inr (r + of_nat (length (v # vs))))"
      using vs(4) p False by (simp add: algebra_simps)
    ultimately show ?thesis by (intro exI [of _ "v # vs"] conjI) simp_all
  qed
qed

text \<open>A loop that starts behind its end steps over \<open>end()\<close>.\<close>

lemma walk_loop_miss:
  assumes c: "cinv c" and q: "keys c q = Some kq"
  shows "up_closed P \<Longrightarrow> \<not> P kq \<Longrightarrow> found (is_first (keys c) P) P (keys c) itr \<Longrightarrow> card (key_set c P) \<le> n \<Longrightarrow>
    walk_loop oi ops (Suc n) c itr (Some q) = Some (Inl Undefined_behaviour) \<and>
    count_loop oi (Suc n) c itr (Some q) r = Some (Inl Undefined_behaviour)"
proof (induction n arbitrary: P itr r)
  case 0
  then have e: "key_set c P = {}" using finite_key_set [OF c] by simp
  have "itr = None"
  proof (rule ccontr)
    assume "itr \<noteq> None"
    then obtain p where p: "is_first (keys c) P p" using 0(3) by (auto simp: found_def)
    obtain k where k: "keys c p = Some k" using is_firstD(3) [OF p] by blast
    then show False using is_firstD(1) [OF p k] e unfolding key_set_def by blast
  qed
  then show ?case by simp
next
  case (Suc n)
  show ?case
  proof (cases itr)
    case None
    then show ?thesis by simp
  next
    case (Some p)
    note f = Suc.prems(3) [unfolded Some]
    have fp: "is_first (keys c) P p" using f by (simp add: found_def)
    obtain k where k: "keys c p = Some k" using is_firstD(3) [OF fp] by blast
    obtain v where v: "mi_at ops c p = Some v" using object_of_key [OF c k] by metis
    note nx = next_found [OF c f k Suc.prems(1)]
    have "\<not> k < kq" using nx(3) Suc.prems(1,2) unfolding up_closed_def by (metis less_imp_le)
    then have "walk_loop oi ops (Suc n) c (oi_next oi c p) (Some q) = Some (Inl Undefined_behaviour) \<and>
        count_loop oi (Suc n) c (oi_next oi c p) (Some q) (r + 1) = Some (Inl Undefined_behaviour)"
      using Suc.IH [OF up_closed_above(1) _ nx(1) card_key_set_next [OF c k nx(3,2) Suc.prems(4)], of "r + 1"] by simp
    moreover have "p \<noteq> q" using nx(3) k q Suc.prems(2) by auto
    ultimately show ?thesis using Some v by simp
  qed
qed

end

text \<open>The primary index, ordered by id.\<close>

definition row_by_id :: "row \<Rightarrow> (oid \<times> unit) option" where
  "row_by_id r = Some (row_id r, ())"

interpretation id_cells: ordered_index cell_ops row_id row_clash cell_inv row_by_id "lc_oi row_by_id" "lc_keys row_by_id"
proof (unfold_locales, goal_cases)
  case (1 v k w) then show ?case by (auto simp: row_by_id_def row_clash_def)
next
  case (2 c k p)
  then show ?case using lc_ofind_iff [OF 2, of row_by_id k p] by (simp add: lc_oi_def lc_ops_def row_by_id_def row_clash_def)
next
  case 3 show ?case by (simp add: lc_keys_def lc_ops_def)
qed (simp_all add: lc_oi_def lc_first_found lc_last_found)

end
