(* ===== verification/Db_Viewer.thy ===== *)
theory Db_Viewer
  imports Row_Props Db_Walk
begin

text \<open>
  \<open>db_viewer\<close> (\<open>src/db_viewer.hpp\<close>): walking over an index of the database and over a
  range of keys, and the size of both.
\<close>

section \<open>Model\<close>

definition viewer_walk :: "('c, 'p) env \<Rightarrow> ('c, 'p, 'a, 'b) oi_ops \<Rightarrow> nat \<Rightarrow> table_type \<Rightarrow> 'c database \<Rightarrow> row list res option" where
  "viewer_walk env idx n ty db =
     (case fst (get_index ty db) of
        Inl e \<Rightarrow> Some (Inl e)
      | Inr s \<Rightarrow> walk_loop idx (env_ops env) n (gi_indices s) (oi_begin idx (gi_indices s)) None)"

definition viewer_size :: "('c, 'p) env \<Rightarrow> table_type \<Rightarrow> 'c database \<Rightarrow> int res" where
  "viewer_size env ty db =
     bindE (fst (get_index ty db)) (\<lambda>s. Inr (as_int (int (mi_size (env_ops env) (gi_indices s)))))"

definition viewer_walk_range ::
  "('c, 'p) env \<Rightarrow> ('c, 'p, 'a, 'b) oi_ops \<Rightarrow> nat \<Rightarrow> table_type \<Rightarrow> 'a \<times> 'b \<Rightarrow> 'a \<times> 'b \<Rightarrow> 'c database \<Rightarrow> row list res option" where
  "viewer_walk_range env idx n ty begin_key end_key db =
     (case fst (get_index ty db) of
        Inl e \<Rightarrow> Some (Inl e)
      | Inr s \<Rightarrow>
          let first_itr = oi_lower_bound idx (gi_indices s) begin_key;
              stop_itr = oi_lower_bound idx (gi_indices s) end_key
          in walk_loop idx (env_ops env) n (gi_indices s) first_itr stop_itr)"

definition viewer_size_range ::
  "('c, 'p, 'a, 'b) oi_ops \<Rightarrow> nat \<Rightarrow> table_type \<Rightarrow> 'a \<times> 'b \<Rightarrow> 'a \<times> 'b \<Rightarrow> 'c database \<Rightarrow> u64 res option" where
  "viewer_size_range idx n ty begin_key end_key db =
     (case fst (get_index ty db) of
        Inl e \<Rightarrow> Some (Inl e)
      | Inr s \<Rightarrow>
          let first_itr = oi_lower_bound idx (gi_indices s) begin_key;
              stop_itr = oi_lower_bound idx (gi_indices s) end_key
          in count_loop idx n (gi_indices s) first_itr stop_itr 0)"

definition viewer_create :: "('c, 'p) env \<Rightarrow> table_type \<Rightarrow> row \<Rightarrow> ('c database, unit) exec" where
  "viewer_create env ty v = bindX (database_create env ty v) (\<lambda>_. returnX ())"

section \<open>Correctness over the database\<close>

text \<open>What a walk reaches, on the state of the database.\<close>

lemma db_at_segment:
  assumes "database_env env cinv" "db_inv env cinv db" "ty \<in> set (db_index_list db)"
  obtains s where "fst (get_index ty db) = Inr s" "cinv (gi_indices s)" "mi_at (env_ops env) (gi_indices s) = db_at env db ty"
proof (rule database_env.get_index_run [OF assms])
  fix s
  assume s: "get_index ty db = (Inr s, db)" "db_segment db ty = Some s" "gi_ok (env_ops env) row_id cinv s"
  then show thesis using that [of s] gi_okD(1) [OF s(3)] by (simp add: db_at_def)
qed

lemma card_ran_dom: "\<forall>p q v. m p = Some v \<longrightarrow> m q = Some v \<longrightarrow> p = q \<Longrightarrow> card (ran m) = card (dom m)"
proof -
  assume m: "\<forall>p q v. m p = Some v \<longrightarrow> m q = Some v \<longrightarrow> p = q"
  have "ran m = (\<lambda>p. the (m p)) ` dom m" by (force simp: ran_def dom_def image_def)
  moreover have "inj_on (\<lambda>p. the (m p)) (dom m)" using m by (auto simp: inj_on_def)
  ultimately show ?thesis by (simp add: card_image)
qed

lemma range_objects:
  fixes a b :: "'o::linorder"
  shows "{v. \<exists>p k. at p = Some v \<and> ok v = Some k \<and> k \<in> {k. P k \<and> (\<exists>p. Option.bind (at p) ok = Some k)} -
      {k. Q k \<and> (\<exists>p. Option.bind (at p) ok = Some k)}} = {v. \<exists>p k. at p = Some v \<and> ok v = Some k \<and> P k \<and> \<not> Q k}"
  by (fastforce simp: bind_eq_Some_conv)

section \<open>Properties\<close>

lemma sample_view:
  "db_inv cell_env cell_inv (es_db sample_st2)" "KV \<in> set (db_index_list (es_db sample_st2))"
  "card (dom (db_at cell_env (es_db sample_st2) KV)) < 3"
proof -
  show "db_inv cell_env cell_inv (es_db sample_st2)" "KV \<in> set (db_index_list (es_db sample_st2))"
    using eos_invD(1,3) [OF sample_st2_props(1)] by simp_all
  have "map_option (\<lambda>s. map fst (lc_cells (gi_indices s))) (db_segment (es_db sample_st2) KV) = Some [1, 0]" by code_simp
  then obtain s where s: "db_segment (es_db sample_st2) KV = Some s" "map fst (lc_cells (gi_indices s)) = [1, 0]" by auto
  have cells: "lc_at c = map_of (lc_cells c)" for c :: "row lc" by (rule ext) (simp add: lc_at_def)
  have "dom (db_at cell_env (es_db sample_st2) KV) = set (map fst (lc_cells (gi_indices s)))"
    by (simp add: db_at_def s(1) lc_ops_def cells dom_map_of_conv_image_fst)
  then show "card (dom (db_at cell_env (es_db sample_st2) KV)) < 3" by (simp add: s(2))
qed

text \<open>
  C25: walking a range of keys whose begin is not greater than its end visits exactly the
  objects with a key from begin (inclusive) to end (exclusive), each once and in the order
  of the keys, and \<open>size_range\<close> returns how many there are. One step more than there are
  objects is enough for both loops.
\<close>

theorem viewer_range_exact:
  assumes idx: "ordered_index (env_ops env) row_id row_clash cinv okey oi keys"
    and inv: "db_inv env cinv db" and ty: "ty \<in> set (db_index_list db)"
    and le: "a \<le> b" and fuel: "card (dom (db_at env db ty)) < n"
  shows "\<exists>vs. viewer_walk_range env oi n ty a b db = Some (Inr vs) \<and>
    viewer_size_range oi n ty a b db = Some (Inr (of_nat (length vs))) \<and>
    sorted_wrt (<) (map (\<lambda>v. the (okey v)) vs) \<and>
    set vs = {v. \<exists>p k. db_at env db ty p = Some v \<and> okey v = Some k \<and> a \<le> k \<and> k < b}"
proof (rule db_at_segment [OF _ inv ty])
  note I = ordered_index.axioms(1) [OF idx, THEN unique_index.axioms(1)]
  show "database_env env cinv" unfolding database_env_def by (rule I)
  fix s
  assume s: "fst (get_index ty db) = Inr s" "cinv (gi_indices s)" "mi_at (env_ops env) (gi_indices s) = db_at env db ty"
  let ?c = "gi_indices s" and ?K = "ordered_index.key_set keys"
  obtain m where m: "n = Suc m" using fuel by (cases n) auto
  have "card (?K ?c (\<lambda>x. a \<le> x)) \<le> m"
    using ordered_index.card_key_set [OF idx s(2)] multi_index.size_at [OF I s(2)] fuel m s(3)
    by (metis less_Suc_eq_le order_trans)
  moreover have "\<forall>x. b \<le> x \<longrightarrow> a \<le> x" using le by (meson order_trans)
  ultimately obtain vs where vs: "walk_loop oi (env_ops env) (Suc m) ?c (oi_lower_bound oi ?c a) (oi_lower_bound oi ?c b) = Some (Inr vs)"
    "sorted_wrt (<) (map (\<lambda>v. the (okey v)) vs)"
    "set vs = ordered_index.objects_of (env_ops env) okey ?c (?K ?c (\<lambda>x. a \<le> x) - ?K ?c (\<lambda>x. b \<le> x))"
    "count_loop oi (Suc m) ?c (oi_lower_bound oi ?c a) (oi_lower_bound oi ?c b) 0 = Some (Inr (0 + of_nat (length vs)))"
    using ordered_index.walk_loop_ok [OF idx s(2) up_closed_above(2) ordered_index.lower_first [OF idx s(2)]
        up_closed_above(2) _ ordered_index.lower_first [OF idx s(2)], of b a m 0] by blast
  have "set vs = {v. \<exists>p k. db_at env db ty p = Some v \<and> okey v = Some k \<and> a \<le> k \<and> k < b}"
    unfolding vs(3) ordered_index.objects_of_def [OF idx] ordered_index.key_set_def [OF idx] s(3)
      ordered_index.keys_eq [OF idx] range_objects by (simp only: not_le)
  then show ?thesis using vs s(1) by (simp add: viewer_walk_range_def viewer_size_range_def m)
qed

theorem viewer_range_exact_witness:
  "\<exists>vs. viewer_walk_range cell_env (lc_oi row_scope_primary) 3 KV (40, 5) (40, 9) (es_db sample_st2) = Some (Inr vs) \<and>
     sorted_wrt (<) (map (\<lambda>v. the (row_scope_primary v)) vs)"
  using viewer_range_exact [of cell_env cell_inv row_scope_primary "lc_oi row_scope_primary" "lc_keys row_scope_primary",
      OF _ sample_view(1,2) _ sample_view(3), of "(40, 5)" "(40, 9)"] kv_cells.ordered_index_axioms
  by (auto simp: less_eq_prod_def)

text \<open>
  With the bounds the wrong way round, and an object between them, both loops start
  behind their end, miss it and step over the end of the index: undefined behaviour.
\<close>

theorem viewer_range_reversed:
  assumes idx: "ordered_index (env_ops env) row_id row_clash cinv okey oi keys"
    and inv: "db_inv env cinv db" and ty: "ty \<in> set (db_index_list db)"
    and row: "db_at env db ty p = Some v" "okey v = Some k" "b \<le> k" "k < a"
    and fuel: "card (dom (db_at env db ty)) < n"
  shows "viewer_walk_range env oi n ty a b db = Some (Inl Undefined_behaviour) \<and>
    viewer_size_range oi n ty a b db = Some (Inl Undefined_behaviour)"
proof (rule db_at_segment [OF _ inv ty])
  note I = ordered_index.axioms(1) [OF idx, THEN unique_index.axioms(1)]
  show "database_env env cinv" unfolding database_env_def by (rule I)
  fix s
  assume s: "fst (get_index ty db) = Inr s" "cinv (gi_indices s)" "mi_at (env_ops env) (gi_indices s) = db_at env db ty"
  let ?c = "gi_indices s" and ?K = "ordered_index.key_set keys"
  obtain m where m: "n = Suc m" using fuel by (cases n) auto
  have card: "card (?K ?c (\<lambda>x. a \<le> x)) \<le> m"
    using ordered_index.card_key_set [OF idx s(2)] multi_index.size_at [OF I s(2)] fuel m s(3)
    by (metis less_Suc_eq_le order_trans)
  have kp: "keys ?c p = Some k" using row(1,2) s(3) by (simp add: ordered_index.keys_eq [OF idx])
  have lb: "found (is_first (keys ?c) (\<lambda>x. b \<le> x)) (\<lambda>x. b \<le> x) (keys ?c) (oi_lower_bound oi ?c b)"
    by (rule ordered_index.lower_first [OF idx s(2)])
  obtain q where q: "oi_lower_bound oi ?c b = Some q"
    using lb found_NoneD [of _ "\<lambda>x. b \<le> x" "keys ?c" p k] kp row(3) by (cases "oi_lower_bound oi ?c b") auto
  then have fq: "is_first (keys ?c) (\<lambda>x. b \<le> x) q" using lb by (simp add: found_def)
  obtain kq where kq: "keys ?c q = Some kq" using is_firstD(3) [OF fq] by blast
  have "\<not> a \<le> kq" using is_firstD(2) [OF fq kq kp row(3)] row(4) by (meson leD order_le_less_trans)
  then show ?thesis
    using ordered_index.walk_loop_miss [OF idx s(2) kq up_closed_above(2) _ ordered_index.lower_first [OF idx s(2)] card] q s(1)
    by (simp add: viewer_walk_range_def viewer_size_range_def m del: walk_loop.simps count_loop.simps)
qed

theorem viewer_range_reversed_witness:
  "viewer_size_range (lc_oi row_scope_primary) 3 KV (40, 9) (40, 5) (es_db sample_st2) = Some (Inl Undefined_behaviour)"
proof -
  have r: "row_at sample_env (es_db sample_st2) 0 = Some sample_row5" by (simp add: sample_st2_props)
  then have p: "db_at cell_env (es_db sample_st2) KV 0 = Some (Key_value_row sample_row5)"
    using row_at_Some [of sample_env] by simp
  show ?thesis
    using viewer_range_reversed [of cell_env cell_inv row_scope_primary "lc_oi row_scope_primary" "lc_keys row_scope_primary",
        OF _ sample_view(1,2) p _ _ _ sample_view(3), of "(40, 5)" "(40, 5)" "(40, 9)"] kv_cells.ordered_index_axioms
    by (simp add: by_scope_primary_def less_prod_def)
qed

text \<open>
  Walking the whole index visits every object exactly once, in the order of the ids, and
  \<open>size\<close> is their number as a 32-bit signed integer.
\<close>

theorem viewer_walk_all:
  assumes idx: "ordered_index (env_ops env) row_id row_clash cinv row_by_id oi keys"
    and inv: "db_inv env cinv db" and ty: "ty \<in> set (db_index_list db)"
    and fuel: "card (dom (db_at env db ty)) < n"
  shows "\<exists>vs. viewer_walk env oi n ty db = Some (Inr vs) \<and> sorted_wrt (<) (map row_id vs) \<and>
    set vs = ran (db_at env db ty) \<and> viewer_size env ty db = Inr (as_int (int (length vs)))"
proof (rule db_at_segment [OF _ inv ty])
  note I = ordered_index.axioms(1) [OF idx, THEN unique_index.axioms(1)]
  show "database_env env cinv" unfolding database_env_def by (rule I)
  fix s
  assume s: "fst (get_index ty db) = Inr s" "cinv (gi_indices s)" "mi_at (env_ops env) (gi_indices s) = db_at env db ty"
  let ?c = "gi_indices s" and ?K = "ordered_index.key_set keys"
  obtain m where m: "n = Suc m" using fuel by (cases n) auto
  have "card (?K ?c (\<lambda>x. True)) \<le> m"
    using ordered_index.card_key_set [OF idx s(2)] multi_index.size_at [OF I s(2)] fuel m s(3)
    by (metis less_Suc_eq_le order_trans)
  then obtain vs where vs: "walk_loop oi (env_ops env) (Suc m) ?c (oi_begin oi ?c) None = Some (Inr vs)"
    "sorted_wrt (<) (map (\<lambda>v. the (row_by_id v)) vs)"
    "set vs = ordered_index.objects_of (env_ops env) row_by_id ?c (?K ?c (\<lambda>_. True) - ?K ?c (\<lambda>_. False))"
    using ordered_index.walk_loop_ok [OF idx s(2) up_closed_above(4) _ up_closed_above(3) _ ordered_index.begin_first [OF idx s(2)], of None m]
    by (auto simp: found_def)
  have "set vs = {v. \<exists>p k. db_at env db ty p = Some v \<and> row_by_id v = Some k \<and> True \<and> \<not> False}"
    unfolding vs(3) ordered_index.objects_of_def [OF idx] ordered_index.key_set_def [OF idx] s(3)
      ordered_index.keys_eq [OF idx] range_objects ..
  then have set_vs: "set vs = ran (db_at env db ty)" by (auto simp: ran_def row_by_id_def)
  have srt: "sorted_wrt (<) (map row_id vs)" using vs(2)
    by (simp add: sorted_wrt_map row_by_id_def less_prod_def')
  have "distinct vs" using srt by (metis distinct_map strict_sorted_iff)
  then have "length vs = card (ran (db_at env db ty))" using set_vs by (metis distinct_card)
  also have "\<dots> = card (dom (db_at env db ty))"
  proof (rule card_ran_dom)
    show "\<forall>p q v. db_at env db ty p = Some v \<longrightarrow> db_at env db ty q = Some v \<longrightarrow> p = q"
      using multi_index.at_inj [OF I s(2)] s(3) by metis
  qed
  finally have "length vs = mi_size (env_ops env) ?c" using multi_index.size_at [OF I s(2)] s(3) by simp
  then show ?thesis using vs(1) s(1) srt set_vs by (simp add: viewer_walk_def viewer_size_def m)
qed

theorem viewer_walk_all_witness:
  "\<exists>vs. viewer_walk cell_env (lc_oi row_by_id) 3 KV (es_db sample_st2) = Some (Inr vs) \<and> sorted_wrt (<) (map row_id vs)"
  using viewer_walk_all [of cell_env cell_inv "lc_oi row_by_id" "lc_keys row_by_id", OF _ sample_view]
    id_cells.ordered_index_axioms by auto

end
