(* ===== verification/Datastream.thy ===== *)
theory Datastream
  imports Exec_Monad
begin

text \<open>
  \<open>fc::datastream\<close> (\<open>fc/include/fc/io/datastream.hpp\<close>). A stream over memory is the bytes
  from \<open>_start\<close> to \<open>_end\<close> and the offset of \<open>_pos\<close> from \<open>_start\<close>; copying bytes that are
  not in that memory is \<open>Undefined_behaviour\<close>. The comparisons keep their types: \<open>read\<close>
  compares the distance to the end as an unsigned 64-bit number, \<open>write\<close> compares it with
  the size cut down to a signed 32-bit number. The stream that only counts is a number.
\<close>

unbundle bit_operations_syntax

section \<open>Words as bytes in memory\<close>

text \<open>The object representation of an unsigned integer on a little-endian machine.\<close>

definition le_bytes :: "nat \<Rightarrow> 'a::len word \<Rightarrow> u8 list" where
  "le_bytes n w = map (\<lambda>i. ucast (drop_bit (8 * i) w)) [0..<n]"

fun le_word :: "u8 list \<Rightarrow> 'a::len word" where
  "le_word [] = 0"
| "le_word (b # bs) = ucast b OR push_bit 8 (le_word bs)"

lemma le_bytes_length [simp]: "length (le_bytes n w) = n"
  by (simp add: le_bytes_def)

lemma bit_le_word:
  "bit (le_word bs :: 'a::len word) m \<longleftrightarrow> m < LENGTH('a) \<and> m div 8 < length bs \<and> bit (bs ! (m div 8)) (m mod 8)"
proof (induction bs arbitrary: m)
  case (Cons b bs)
  show ?case
  proof (cases "m < 8")
    case True
    then show ?thesis by (auto simp: bit_simps)
  next
    case False
    then have d: "m div 8 = Suc ((m - 8) div 8)" "(m - 8) mod 8 = m mod 8" by (simp_all add: div_if mod_if)
    have "\<not> bit b m" using False bit_imp_le_length [of b m] by auto
    then show ?thesis using False Cons.IH [of "m - 8"] d by (auto simp: bit_simps)
  qed
qed simp

lemma bit_le_bytes: "i < n \<Longrightarrow> bit (le_bytes n (w :: 'a::len word) ! i) j \<longleftrightarrow> j < 8 \<and> bit w (8 * i + j)"
  by (auto simp: le_bytes_def bit_simps)

lemma le_word_bytes:
  assumes "LENGTH('a::len) = 8 * n"
  shows "le_word (le_bytes n w) = (w :: 'a word)"
proof (rule bit_word_eqI)
  fix m
  assume m: "m < LENGTH('a)"
  then have "m div 8 < n" using assms by simp
  then show "bit (le_word (le_bytes n w) :: 'a word) m = bit w m" using m by (simp add: bit_le_word bit_le_bytes)
qed

lemma le_bytes_word:
  assumes "LENGTH('a::len) = 8 * length bs"
  shows "le_bytes (length bs) (le_word bs :: 'a word) = bs"
proof (rule nth_equalityI)
  fix i
  assume i: "i < length (le_bytes (length bs) (le_word bs :: 'a word))"
  show "le_bytes (length bs) (le_word bs :: 'a word) ! i = bs ! i"
  proof (rule bit_word_eqI)
    fix j
    assume "j < LENGTH(8)"
    then show "bit (le_bytes (length bs) (le_word bs :: 'a word) ! i) j = bit (bs ! i) j"
      using i assms by (simp add: bit_le_bytes bit_le_word)
  qed
qed simp

section \<open>The stream over memory\<close>

record dstream =
  ds_buf :: "u8 list"
  ds_pos :: nat

definition ds_open :: "u8 list \<Rightarrow> dstream" where
  "ds_open bs = \<lparr>ds_buf = bs, ds_pos = 0\<rparr>"

definition ds_left :: "dstream \<Rightarrow> int" where
  "ds_left ds = int (length (ds_buf ds)) - int (ds_pos ds)"

definition ds_skip :: "nat \<Rightarrow> (dstream, unit) exec" where
  "ds_skip s = modifyX (\<lambda>ds. ds\<lparr>ds_pos := ds_pos ds + s\<rparr>)"

definition ds_read :: "nat \<Rightarrow> (dstream, u8 list) exec" where
  "ds_read s =
     bindX getX (\<lambda>ds.
     if (word_of_int (ds_left ds) :: u64) \<ge> of_nat s
     then (if ds_pos ds + s \<le> length (ds_buf ds)
           then bindX (modifyX (\<lambda>ds. ds\<lparr>ds_pos := ds_pos ds + s\<rparr>)) (\<lambda>_. returnX (take s (drop (ds_pos ds) (ds_buf ds))))
           else throwX Undefined_behaviour)
     else throwX Out_of_range)"

definition ds_write :: "u8 list \<Rightarrow> (dstream, unit) exec" where
  "ds_write d =
     (let s = length d in
      bindX getX (\<lambda>ds.
      if ds_left ds \<ge> sint (of_nat s :: u32)
      then (if ds_pos ds + s \<le> length (ds_buf ds)
            then modifyX (\<lambda>ds. ds\<lparr>ds_buf := take (ds_pos ds) (ds_buf ds) @ d @ drop (ds_pos ds + s) (ds_buf ds),
                   ds_pos := ds_pos ds + s\<rparr>)
            else throwX Undefined_behaviour)
      else throwX Out_of_range))"

definition ds_put :: "u8 \<Rightarrow> (dstream, unit) exec" where
  "ds_put c =
     bindX getX (\<lambda>ds.
     if ds_pos ds < length (ds_buf ds)
     then modifyX (\<lambda>ds. ds\<lparr>ds_buf := (ds_buf ds)[ds_pos ds := c], ds_pos := ds_pos ds + 1\<rparr>)
     else throwX Out_of_range)"

definition ds_get :: "(dstream, u8) exec" where
  "ds_get =
     bindX getX (\<lambda>ds.
     if ds_pos ds < length (ds_buf ds)
     then bindX (modifyX (\<lambda>ds. ds\<lparr>ds_pos := ds_pos ds + 1\<rparr>)) (\<lambda>_. returnX (ds_buf ds ! ds_pos ds))
     else throwX Out_of_range)"

definition ds_valid :: "dstream \<Rightarrow> bool" where
  "ds_valid ds \<longleftrightarrow> ds_pos ds \<le> length (ds_buf ds)"

definition ds_seekp :: "nat \<Rightarrow> (dstream, bool) exec" where
  "ds_seekp p =
     bindX (modifyX (\<lambda>ds. ds\<lparr>ds_pos := p\<rparr>)) (\<lambda>_. bindX getX (\<lambda>ds. returnX (ds_pos ds \<le> length (ds_buf ds))))"

definition ds_tellp :: "dstream \<Rightarrow> u64" where
  "ds_tellp ds = of_nat (ds_pos ds)"

definition ds_remaining :: "dstream \<Rightarrow> u64" where
  "ds_remaining ds = word_of_int (ds_left ds)"

section \<open>The stream that counts\<close>

definition cs_write :: "u8 list \<Rightarrow> (u64, unit) exec" where
  "cs_write d = modifyX (\<lambda>n. n + of_nat (length d))"

definition cs_put :: "u8 \<Rightarrow> (u64, unit) exec" where
  "cs_put c = modifyX (\<lambda>n. n + 1)"

definition cs_skip :: "nat \<Rightarrow> (u64, unit) exec" where
  "cs_skip s = modifyX (\<lambda>n. n + of_nat s)"

definition cs_seekp :: "nat \<Rightarrow> (u64, bool) exec" where
  "cs_seekp p = bindX (modifyX (\<lambda>_. of_nat p)) (\<lambda>_. returnX True)"

section \<open>The operators of the integer types\<close>

text \<open>An integer of \<open>n\<close> bytes, on either stream: \<open>w\<close> is its \<open>write\<close>.\<close>

definition ds_shl :: "nat \<Rightarrow> (u8 list \<Rightarrow> ('s, unit) exec) \<Rightarrow> 'a::len word \<Rightarrow> ('s, unit) exec" where
  "ds_shl n w d = w (le_bytes n d)"

definition ds_shr :: "nat \<Rightarrow> (dstream, 'a::len word) exec" where
  "ds_shr n = bindX (ds_read n) (\<lambda>bs. returnX (le_word bs))"

section \<open>Reading what is there\<close>

text \<open>\<open>at ds bs\<close>: the next bytes are \<open>bs\<close>.\<close>

definition ds_at :: "dstream \<Rightarrow> u8 list \<Rightarrow> bool" where
  "ds_at ds bs \<longleftrightarrow> ds_pos ds + length bs \<le> length (ds_buf ds) \<and> take (length bs) (drop (ds_pos ds) (ds_buf ds)) = bs"

definition ds_fwd :: "nat \<Rightarrow> dstream \<Rightarrow> dstream" where
  "ds_fwd n ds = ds\<lparr>ds_pos := ds_pos ds + n\<rparr>"

lemma ds_at_append: "ds_at ds (xs @ ys) \<longleftrightarrow> ds_at ds xs \<and> ds_at (ds_fwd (length xs) ds) ys"
proof -
  have "take (length xs + length ys) zs = xs @ ys \<longleftrightarrow> take (length xs) zs = xs \<and> take (length ys) (drop (length xs) zs) = ys"
    if "length xs + length ys \<le> length zs" for zs :: "u8 list"
    using that by (simp add: take_add append_eq_append_conv)
  then show ?thesis by (auto simp: ds_at_def ds_fwd_def add.assoc add.commute [of "length xs"])
qed

lemma ds_fwd_simps [simp]: "ds_fwd 0 ds = ds" "ds_fwd n (ds_fwd m ds) = ds_fwd (m + n) ds"
  by (simp_all add: ds_fwd_def)

lemma ds_at_Nil [simp]: "ds_pos ds \<le> length (ds_buf ds) \<Longrightarrow> ds_at ds []"
  by (simp add: ds_at_def)

lemma ds_at_open: "ds_at (ds_open (bs @ rest)) bs"
  by (simp add: ds_at_def ds_open_def)

lemma ds_read_at:
  assumes "ds_at ds bs" "length (ds_buf ds) < 2 ^ 64"
  shows "ds_read (length bs) ds = (Inr bs, ds_fwd (length bs) ds)"
proof -
  have le: "ds_pos ds + length bs \<le> length (ds_buf ds)" using assms(1) by (simp add: ds_at_def)
  have "ds_left ds = int (length (ds_buf ds) - ds_pos ds)" using le by (simp add: ds_left_def)
  then have "unat (word_of_int (ds_left ds) :: u64) = length (ds_buf ds) - ds_pos ds"
    using assms(2) by (simp add: unsigned_of_nat take_bit_nat_eq_self)
  moreover have "unat (of_nat (length bs) :: u64) = length bs" using le assms(2) by (simp add: unsigned_of_nat take_bit_nat_eq_self)
  ultimately show ?thesis
    using assms le by (simp add: ds_read_def ds_at_def ds_fwd_def word_le_nat_alt)
qed

lemma ds_get_at:
  assumes "ds_at ds (b # bs)"
  shows "ds_get ds = (Inr b, ds_fwd 1 ds)" "ds_at (ds_fwd 1 ds) bs"
proof -
  show "ds_at (ds_fwd 1 ds) bs" using ds_at_append [of ds "[b]" bs] assms by simp
  have "take 1 (drop (ds_pos ds) (ds_buf ds)) = [b]" "ds_pos ds < length (ds_buf ds)"
    using ds_at_append [of ds "[b]" bs] assms by (simp_all add: ds_at_def)
  then have "ds_buf ds ! ds_pos ds = b" by (simp add: take_Suc hd_drop_conv_nth)
  then show "ds_get ds = (Inr b, ds_fwd 1 ds)"
    using \<open>ds_pos ds < length (ds_buf ds)\<close> by (simp add: ds_get_def ds_fwd_def)
qed

end
