(* ===== verification/Raw_Pack.thy ===== *)
theory Raw_Pack
  imports Datastream
begin

text \<open>
  The binary format of \<open>fc::raw\<close> (\<open>fc/include/fc/io/raw.hpp\<close>). Packing only writes to
  its stream, so a \<open>pack\<close> function is the sequence of its writes and the assertion that
  stops it, if one does; \<open>run_writes\<close> performs them on a stream. Unpacking reads from a
  \<open>dstream\<close>. Containers take the functions of their element type as arguments, as the
  templates do. \<open>std::map\<close> and \<open>std::set\<close> are sorted lists. Where \<open>unpack\<close> changes the
  value it is given instead of replacing it, that value is an argument.
\<close>

section \<open>Sequences of writes\<close>

type_synonym writes = "u8 list list \<times> db_error option"

definition wr :: "u8 list \<Rightarrow> writes" where
  "wr d = ([d], None)"

definition doneW :: writes where
  "doneW = ([], None)"

definition seqW :: "writes \<Rightarrow> writes \<Rightarrow> writes" where
  "seqW a b = (case snd a of Some e \<Rightarrow> a | None \<Rightarrow> (fst a @ fst b, snd b))"

definition assertW :: "bool \<Rightarrow> string \<Rightarrow> writes" where
  "assertW b msg = ([], if b then None else Some (Assert_failed msg))"

definition eachW :: "('a \<Rightarrow> writes) \<Rightarrow> 'a list \<Rightarrow> writes" where
  "eachW f xs = foldr (\<lambda>x. seqW (f x)) xs doneW"

primrec run_writes :: "(u8 list \<Rightarrow> ('s, unit) exec) \<Rightarrow> u8 list list \<Rightarrow> ('s, unit) exec" where
  "run_writes w [] = returnX ()"
| "run_writes w (d # ds) = bindX (w d) (\<lambda>_. run_writes w ds)"

definition run_pack :: "(u8 list \<Rightarrow> ('s, unit) exec) \<Rightarrow> writes \<Rightarrow> ('s, unit) exec" where
  "run_pack w p = bindX (run_writes w (fst p)) (\<lambda>_. case snd p of None \<Rightarrow> returnX () | Some e \<Rightarrow> throwX e)"

section \<open>Integers\<close>

text \<open>An integer type of \<open>n\<close> bytes.\<close>

definition pack_word :: "nat \<Rightarrow> 'a::len word \<Rightarrow> writes" where
  "pack_word n v = wr (le_bytes n v)"

definition unpack_word :: "nat \<Rightarrow> (dstream, 'a::len word) exec" where
  "unpack_word n = bindX (ds_read n) (\<lambda>bs. returnX (le_word bs))"

definition pack_bool :: "bool \<Rightarrow> writes" where
  "pack_bool v = pack_word 1 (if v then 1 else 0 :: u8)"

definition unpack_bool :: "(dstream, bool) exec" where
  "unpack_bool =
     bindX (unpack_word 1) (\<lambda>b :: u8.
     bindX (assertX (b AND NOT 1 = 0) ''(b & ~1) == 0'') (\<lambda>_.
     returnX (b \<noteq> 0)))"

text \<open>The loop of both variable-length encodings, at the width of its variable.\<close>

function pack_varint :: "'a::len word \<Rightarrow> writes" where
  "pack_varint val =
     (let b = ucast val AND 0x7F :: u8;
          val' = drop_bit 7 val;
          b' = b OR push_bit 7 (if val' > 0 then 1 else 0)
      in seqW (wr [b']) (if val' \<noteq> 0 then pack_varint val' else doneW))"
  by pat_completeness auto
termination
proof (relation "measure unat")
  fix val :: "'a::len word" and x xa xb
  assume x: "xa = drop_bit 7 val" "xa \<noteq> 0"
  have e: "unat xa = unat val div 2 ^ 7" unfolding x(1) unat_drop_bit_eq by (rule drop_bit_eq_div)
  have "unat xa \<noteq> 0" using x(2) by (simp add: unat_eq_zero)
  then have "unat val \<noteq> 0" using e by auto
  then show "(xa, val) \<in> measure unat" using e by simp
qed simp

definition pack_unsigned_int :: "u32 \<Rightarrow> writes" where
  "pack_unsigned_int v = pack_varint (ucast v :: u64)"

definition zigzag :: "u32 \<Rightarrow> u32" where
  "zigzag v = push_bit 1 v XOR signed_drop_bit 31 v"

definition pack_signed_int :: "u32 \<Rightarrow> writes" where
  "pack_signed_int v = pack_varint (zigzag v)"

lemma ds_get_pos: "ds_get ds = (Inr b, ds') \<Longrightarrow> ds_pos ds < length (ds_buf ds) \<and> ds_pos ds' = ds_pos ds + 1 \<and> ds_buf ds' = ds_buf ds"
  by (auto simp: ds_get_def split: if_splits)

text \<open>Shifting a 32-bit number by 32 or more places is undefined.\<close>

function unpack_uint_loop :: "u64 \<Rightarrow> nat \<Rightarrow> (dstream, u64) exec" where
  "unpack_uint_loop v by ds =
     (case ds_get ds of
        (Inl e, ds') \<Rightarrow> (Inl e, ds')
      | (Inr b, ds') \<Rightarrow>
          if by \<ge> 32 then (Inl Undefined_behaviour, ds')
          else let v' = v OR ucast (push_bit by (ucast (b AND 0x7F)) :: u32); by' = by + 7
               in if b AND 0x80 \<noteq> 0 \<and> by' < 32 then unpack_uint_loop v' by' ds' else (Inr v', ds'))"
  by pat_completeness auto
termination
  by (relation "measure (\<lambda>(v, by, ds). 32 - by)") auto

definition unpack_unsigned_int :: "(dstream, u32) exec" where
  "unpack_unsigned_int = bindX (unpack_uint_loop 0 0) (\<lambda>v. returnX (ucast v))"

text \<open>The loop of the signed numbers does not limit the shift.\<close>

function unpack_sint_loop :: "u32 \<Rightarrow> nat \<Rightarrow> (dstream, u32) exec" where
  "unpack_sint_loop v by ds =
     (case ds_get ds of
        (Inl e, ds') \<Rightarrow> (Inl e, ds')
      | (Inr b, ds') \<Rightarrow>
          if by \<ge> 32 then (Inl Undefined_behaviour, ds')
          else let v' = v OR push_bit by (ucast (b AND 0x7F)); by' = by + 7
               in if b AND 0x80 \<noteq> 0 then unpack_sint_loop v' by' ds' else (Inr v', ds'))"
  by pat_completeness auto
termination
  by (relation "measure (\<lambda>(v, by, ds). length (ds_buf ds) - ds_pos ds)") (auto dest!: ds_get_pos [OF sym])

definition unzigzag :: "u32 \<Rightarrow> u32" where
  "unzigzag v = ucast ((ucast (drop_bit 1 v) :: u64) XOR (ucast (NOT (v AND 1)) + 1))"

definition unpack_signed_int :: "(dstream, u32) exec" where
  "unpack_signed_int = bindX (unpack_sint_loop 0 0) (\<lambda>v. returnX (unzigzag v))"

declare pack_varint.simps [simp del] unpack_uint_loop.simps [simp del] unpack_sint_loop.simps [simp del]

section \<open>Bytes and strings\<close>

definition max_size_of_byte_arrays :: nat where
  "max_size_of_byte_arrays = 20 * 1024 * 1024"

definition max_num_array_elements :: nat where
  "max_num_array_elements = 1024 * 1024"

definition pack_bytes :: "u8 list \<Rightarrow> writes" where
  "pack_bytes value =
     seqW (assertW (length value \<le> max_size_of_byte_arrays) ''value.size() <= MAX_SIZE_OF_BYTE_ARRAYS'')
    (seqW (pack_unsigned_int (of_nat (length value)))
          (if length value \<noteq> 0 then wr value else doneW))"

definition unpack_bytes :: "(dstream, u8 list) exec" where
  "unpack_bytes =
     bindX unpack_unsigned_int (\<lambda>size.
     bindX (assertX (unat size \<le> max_size_of_byte_arrays) ''size.value <= MAX_SIZE_OF_BYTE_ARRAYS'') (\<lambda>_.
     if unat size \<noteq> 0 then ds_read (unat size) else returnX []))"

definition pack_string :: "u8 list \<Rightarrow> writes" where
  "pack_string v =
     seqW (assertW (length v \<le> max_size_of_byte_arrays) ''v.size() <= MAX_SIZE_OF_BYTE_ARRAYS'')
    (seqW (pack_unsigned_int (of_nat (length v)))
          (if length v \<noteq> 0 then wr v else doneW))"

definition unpack_string :: "(dstream, u8 list) exec" where
  "unpack_string = bindX unpack_bytes (\<lambda>tmp. returnX (if tmp \<noteq> [] then tmp else []))"

definition unpack_shared_string :: "u8 list \<Rightarrow> (dstream, u8 list) exec" where
  "unpack_shared_string v =
     bindX unpack_bytes (\<lambda>tmp.
     bindX (assertX (length v = 0) ''v.size() == 0'') (\<lambda>_.
     returnX (if tmp \<noteq> [] then v @ tmp else v)))"

section \<open>Composite types\<close>

definition pack_pair :: "('a \<Rightarrow> writes) \<Rightarrow> ('b \<Rightarrow> writes) \<Rightarrow> 'a \<times> 'b \<Rightarrow> writes" where
  "pack_pair pa pb value = seqW (pa (fst value)) (pb (snd value))"

definition unpack_pair :: "(dstream, 'a) exec \<Rightarrow> (dstream, 'b) exec \<Rightarrow> (dstream, 'a \<times> 'b) exec" where
  "unpack_pair ua ub = bindX ua (\<lambda>a. bindX ub (\<lambda>b. returnX (a, b)))"

definition pack_optional :: "('a \<Rightarrow> writes) \<Rightarrow> 'a option \<Rightarrow> writes" where
  "pack_optional pa v = seqW (pack_bool (v \<noteq> None)) (case v of None \<Rightarrow> doneW | Some x \<Rightarrow> pa x)"

definition unpack_optional :: "(dstream, 'a) exec \<Rightarrow> 'a option \<Rightarrow> (dstream, 'a option) exec" where
  "unpack_optional ua v = bindX unpack_bool (\<lambda>b. if b then bindX ua (\<lambda>x. returnX (Some x)) else returnX v)"

fun repeatX :: "nat \<Rightarrow> (dstream, 'a) exec \<Rightarrow> (dstream, 'a list) exec" where
  "repeatX 0 ua = returnX []"
| "repeatX (Suc n) ua = bindX ua (\<lambda>x. bindX (repeatX n ua) (\<lambda>xs. returnX (x # xs)))"

text \<open>\<open>fc::array\<close> and \<open>std::array\<close>: the elements without their number.\<close>

definition pack_array :: "('a \<Rightarrow> writes) \<Rightarrow> 'a list \<Rightarrow> writes" where
  "pack_array pa v = eachW pa v"

definition unpack_array :: "nat \<Rightarrow> (dstream, 'a) exec \<Rightarrow> (dstream, 'a list) exec" where
  "unpack_array n ua = repeatX n ua"

definition pack_c_array :: "('a \<Rightarrow> writes) \<Rightarrow> 'a list \<Rightarrow> writes" where
  "pack_c_array pa v = seqW (pack_unsigned_int (of_nat (length v))) (eachW pa v)"

definition unpack_c_array :: "nat \<Rightarrow> (dstream, 'a) exec \<Rightarrow> (dstream, 'a list) exec" where
  "unpack_c_array n ua =
     bindX unpack_unsigned_int (\<lambda>size.
     bindX (assertX (unat size = n) ''size.value == N'') (\<lambda>_. repeatX n ua))"

text \<open>\<open>std::vector\<close>, \<open>std::deque\<close> and, over the pairs in key order, the ordered containers.\<close>

definition pack_vector :: "('a \<Rightarrow> writes) \<Rightarrow> 'a list \<Rightarrow> writes" where
  "pack_vector pa value =
     seqW (assertW (length value \<le> max_num_array_elements) ''value.size() <= MAX_NUM_ARRAY_ELEMENTS'')
    (seqW (pack_unsigned_int (of_nat (length value))) (eachW pa value))"

definition unpack_size :: "(dstream, nat) exec" where
  "unpack_size =
     bindX unpack_unsigned_int (\<lambda>size.
     bindX (assertX (unat size \<le> max_num_array_elements) ''size.value <= MAX_NUM_ARRAY_ELEMENTS'') (\<lambda>_.
     returnX (unat size)))"

definition unpack_vector :: "(dstream, 'a) exec \<Rightarrow> (dstream, 'a list) exec" where
  "unpack_vector ua = bindX unpack_size (\<lambda>size. repeatX size ua)"

definition unpack_deque :: "(dstream, 'a) exec \<Rightarrow> (dstream, 'a list) exec" where
  "unpack_deque ua = bindX unpack_size (\<lambda>size. repeatX size ua)"

definition pack_set :: "('a::linorder \<Rightarrow> writes) \<Rightarrow> 'a oset \<Rightarrow> writes" where
  "pack_set pa value = pack_vector pa value"

definition unpack_set :: "(dstream, 'a::linorder) exec \<Rightarrow> 'a oset \<Rightarrow> (dstream, 'a oset) exec" where
  "unpack_set ua value =
     bindX unpack_size (\<lambda>size. bindX (repeatX size ua) (\<lambda>xs. returnX (fold os_insert xs value)))"

definition pack_map :: "('k::linorder \<Rightarrow> writes) \<Rightarrow> ('v \<Rightarrow> writes) \<Rightarrow> ('k, 'v) omap \<Rightarrow> writes" where
  "pack_map pk pv value = pack_vector (pack_pair pk pv) value"

definition unpack_map :: "(dstream, 'k::linorder) exec \<Rightarrow> (dstream, 'v) exec \<Rightarrow> (dstream, ('k, 'v) omap) exec" where
  "unpack_map uk uv =
     bindX unpack_size (\<lambda>size.
     bindX (repeatX size (unpack_pair uk uv)) (\<lambda>xs. returnX (fold (\<lambda>(k, v). om_emplace k v) xs [])))"

definition pack_deque :: "('a \<Rightarrow> writes) \<Rightarrow> 'a list \<Rightarrow> writes" where
  "pack_deque pa value =
     seqW (assertW (length value \<le> max_num_array_elements) ''value.size() <= MAX_NUM_ARRAY_ELEMENTS'')
    (seqW (pack_unsigned_int (of_nat (length value))) (eachW pa value))"

text \<open>
  An unordered container is the list of its elements in the order in which it is iterated;
  \<open>ins\<close> is its \<open>insert\<close>, which fixes that order.
\<close>

definition pack_unordered :: "('a \<Rightarrow> writes) \<Rightarrow> 'a list \<Rightarrow> writes" where
  "pack_unordered pa value =
     seqW (assertW (length value \<le> max_num_array_elements) ''value.size() <= MAX_NUM_ARRAY_ELEMENTS'')
    (seqW (pack_unsigned_int (of_nat (length value))) (eachW pa value))"

definition unpack_unordered :: "('a \<Rightarrow> 'a list \<Rightarrow> 'a list) \<Rightarrow> (dstream, 'a) exec \<Rightarrow> (dstream, 'a list) exec" where
  "unpack_unordered ins ua =
     bindX unpack_size (\<lambda>size. bindX (repeatX size ua) (\<lambda>xs. returnX (fold ins xs [])))"

text \<open>Arrays of trivially copyable elements of \<open>k\<close> bytes are one block of memory.\<close>

definition pack_trivial_array :: "nat \<Rightarrow> 'a::len word list \<Rightarrow> writes" where
  "pack_trivial_array k v = wr (concat (map (le_bytes k) v))"

fun chunks :: "nat \<Rightarrow> nat \<Rightarrow> 'a list \<Rightarrow> 'a list list" where
  "chunks k 0 bs = []"
| "chunks k (Suc n) bs = take k bs # chunks k n (drop k bs)"

definition unpack_trivial_array :: "nat \<Rightarrow> nat \<Rightarrow> (dstream, 'a::len word list) exec" where
  "unpack_trivial_array k n = bindX (ds_read (n * k)) (\<lambda>bs. returnX (map le_word (chunks k n bs)))"

text \<open>A \<open>std::shared_ptr\<close>, null or to a value, an enumeration, a constant that must match.\<close>

definition pack_shared_ptr :: "('a \<Rightarrow> writes) \<Rightarrow> 'a option \<Rightarrow> writes" where
  "pack_shared_ptr pa v = seqW (pack_bool (v \<noteq> None)) (case v of None \<Rightarrow> doneW | Some x \<Rightarrow> pa x)"

definition unpack_shared_ptr :: "(dstream, 'a) exec \<Rightarrow> 'a option \<Rightarrow> (dstream, 'a option) exec" where
  "unpack_shared_ptr ua v = bindX unpack_bool (\<lambda>b. if b then bindX ua (\<lambda>x. returnX (Some x)) else returnX v)"

definition pack_enum :: "u32 \<Rightarrow> writes" where
  "pack_enum v = pack_word 8 (scast v :: u64)"

definition unpack_enum :: "(dstream, u32) exec" where
  "unpack_enum = bindX (unpack_word 8) (\<lambda>temp :: u64. returnX (ucast temp))"

definition unpack_const :: "(dstream, 'a) exec \<Rightarrow> 'a \<Rightarrow> (dstream, unit) exec" where
  "unpack_const ua vi = bindX ua (\<lambda>tmp. assertX (vi = tmp) ''vi == tmp'')"

text \<open>A string in the segment, and an argument list.\<close>

definition pack_shared_string :: "u8 list \<Rightarrow> writes" where
  "pack_shared_string v =
     seqW (assertW (length v \<le> max_size_of_byte_arrays) ''v.size() <= MAX_SIZE_OF_BYTE_ARRAYS'')
    (seqW (pack_unsigned_int (of_nat (length v)))
          (if length v \<noteq> 0 then wr v else doneW))"

fun pack_args :: "writes list \<Rightarrow> writes" where
  "pack_args [] = doneW"
| "pack_args [a0] = a0"
| "pack_args (a0 # args) = seqW a0 (pack_args args)"

definition pack_uint256 :: "256 word \<Rightarrow> writes" where
  "pack_uint256 n =
     seqW (pack_word 16 (ucast n :: 128 word)) (pack_word 16 (ucast (drop_bit 128 n) :: 128 word))"

definition unpack_uint256 :: "(dstream, 256 word) exec" where
  "unpack_uint256 =
     bindX (unpack_word 16) (\<lambda>t0 :: 128 word.
     bindX (unpack_word 16) (\<lambda>t1 :: 128 word.
     returnX (push_bit 128 (ucast t1) OR ucast t0)))"

section \<open>To and from a byte vector\<close>

definition pack_size :: "writes \<Rightarrow> u64 res" where
  "pack_size p = (case run_pack cs_write p 0 of (Inl e, _) \<Rightarrow> Inl e | (Inr _, n) \<Rightarrow> Inr n)"

definition pack_to_vector :: "writes \<Rightarrow> u8 list res" where
  "pack_to_vector p =
     bindE (pack_size p) (\<lambda>n.
     let vec = replicate (unat n) 0 in
     if vec \<noteq> []
     then (case run_pack ds_write p (ds_open vec) of (Inl e, _) \<Rightarrow> Inl e | (Inr _, ds) \<Rightarrow> Inr (ds_buf ds))
     else Inr vec)"

definition unpack_from_vector :: "(dstream, 'a) exec \<Rightarrow> u8 list \<Rightarrow> 'a res" where
  "unpack_from_vector ua s = fst (ua (ds_open s))"

end
