(* ===== verification/Raw_Codec.thy ===== *)
theory Raw_Codec
  imports Raw_Pack
begin

text \<open>
  Round trips of \<open>fc::raw\<close>. A codec is a pair of a \<open>pack\<close> and an \<open>unpack\<close> function such
  that \<open>unpack\<close>, run where the packed bytes are, returns the value and stops right behind
  them. Codecs are closed under the composite types, so every type that is built from
  them has the round trip; the last section carries it to byte vectors.
\<close>

definition pack_ok :: "writes \<Rightarrow> u8 list \<Rightarrow> bool" where
  "pack_ok p bs \<longleftrightarrow> snd p = None \<and> concat (fst p) = bs"

locale codec =
  fixes pk :: "'a \<Rightarrow> writes" and up :: "(dstream, 'a) exec" and ok :: "'a \<Rightarrow> bool"
  assumes round_trip: "ok x \<Longrightarrow> \<exists>bs. pack_ok (pk x) bs \<and>
    (\<forall>ds. length (ds_buf ds) < 2 ^ 64 \<longrightarrow> ds_at ds bs \<longrightarrow> up ds = (Inr x, ds_fwd (length bs) ds))"
begin

lemma packs:
  assumes "ok x"
  obtains bs where "pack_ok (pk x) bs"
    "\<forall>ds. length (ds_buf ds) < 2 ^ 64 \<longrightarrow> ds_at ds bs \<longrightarrow> up ds = (Inr x, ds_fwd (length bs) ds)"
  using round_trip [OF assms] by blast

end

lemma codecI:
  assumes "\<And>x. ok x \<Longrightarrow> pack_ok (pk x) (bs x)"
    and "\<And>x ds. ok x \<Longrightarrow> length (ds_buf ds) < 2 ^ 64 \<Longrightarrow> ds_at ds (bs x) \<Longrightarrow> up ds = (Inr x, ds_fwd (length (bs x)) ds)"
  shows "codec pk up ok"
  by unfold_locales (use assms in blast)

lemma pack_ok_simps [simp]:
  "pack_ok (wr d) bs \<longleftrightarrow> bs = d"
  "pack_ok doneW bs \<longleftrightarrow> bs = []"
  "pack_ok (assertW b msg) bs \<longleftrightarrow> b \<and> bs = []"
  by (auto simp: pack_ok_def wr_def doneW_def assertW_def)

lemma pack_ok_seq: "pack_ok (seqW p q) bs \<longleftrightarrow> (\<exists>xs ys. pack_ok p xs \<and> pack_ok q ys \<and> bs = xs @ ys)"
  by (auto simp: pack_ok_def seqW_def split: option.splits)

lemma pack_ok_seqI [intro]: "pack_ok p xs \<Longrightarrow> pack_ok q ys \<Longrightarrow> pack_ok (seqW p q) (xs @ ys)"
  by (auto simp: pack_ok_seq)

lemma pack_ok_assert: "b \<Longrightarrow> pack_ok p bs \<Longrightarrow> pack_ok (seqW (assertW b msg) p) bs"
  by (auto simp: pack_ok_seq)

section \<open>Integers\<close>

lemma codec_word: "LENGTH('a::len) = 8 * n \<Longrightarrow> codec (pack_word n) (unpack_word n :: (dstream, 'a word) exec) (\<lambda>_. True)"
proof (rule codecI [where bs = "le_bytes n"])
  fix x :: "'a word" and ds
  assume a: "LENGTH('a) = 8 * n" "length (ds_buf ds) < 2 ^ 64" "ds_at ds (le_bytes n x)"
  show "unpack_word n ds = (Inr x, ds_fwd (length (le_bytes n x)) ds)"
    using ds_read_at [OF a(3,2)] a(1) by (simp add: unpack_word_def bindX_run le_word_bytes)
qed (simp add: pack_word_def)

interpretation u8_codec: codec "pack_word 1" "unpack_word 1 :: (dstream, u8) exec" "\<lambda>_. True" by (rule codec_word) simp
interpretation u16_codec: codec "pack_word 2" "unpack_word 2 :: (dstream, 16 word) exec" "\<lambda>_. True" by (rule codec_word) simp
interpretation u32_codec: codec "pack_word 4" "unpack_word 4 :: (dstream, u32) exec" "\<lambda>_. True" by (rule codec_word) simp
interpretation u64_codec: codec "pack_word 8" "unpack_word 8 :: (dstream, u64) exec" "\<lambda>_. True" by (rule codec_word) simp
interpretation u128_codec: codec "pack_word 16" "unpack_word 16 :: (dstream, 128 word) exec" "\<lambda>_. True" by (rule codec_word) simp

interpretation bool_codec: codec pack_bool unpack_bool "\<lambda>_. True"
proof (rule codecI [where bs = "\<lambda>b. le_bytes 1 (if b then 1 else 0 :: u8)"])
  fix x ds
  assume a: "length (ds_buf ds) < 2 ^ 64" "ds_at ds (le_bytes 1 (if x then 1 else 0 :: u8))"
  have "unpack_word 1 ds = (Inr (if x then 1 else 0 :: u8), ds_fwd 1 ds)"
    using ds_read_at [OF a(2,1)] by (simp add: unpack_word_def bindX_run le_word_bytes)
  then show "unpack_bool ds = (Inr x, ds_fwd (length (le_bytes 1 (if x then 1 else 0 :: u8))) ds)"
    by (simp add: unpack_bool_def bindX_run)
qed (simp add: pack_bool_def pack_word_def)

subsection \<open>Variable-length integers\<close>

text \<open>The bytes of a number, seven bits at a time, least significant first.\<close>

function varint_bytes :: "nat \<Rightarrow> u8 list" where
  "varint_bytes n = (if n < 128 then [of_nat n] else of_nat (n mod 128 + 128) # varint_bytes (n div 128))"
  by pat_completeness auto
termination by (relation "measure id") auto

declare varint_bytes.simps [simp del]

lemma low_bits: "(x :: u8) AND 0x7F = take_bit 7 x"
  by (simp add: take_bit_eq_mask mask_eq_exp_minus_1)

lemma unat_byte: "n < 256 \<Longrightarrow> unat (of_nat n :: u8) = n"
  by (simp add: unsigned_of_nat take_bit_nat_eq_self)

lemma pack_byte:
  fixes val :: "'a::len word"
  assumes "8 \<le> LENGTH('a)"
  shows "(ucast val AND 0x7F :: u8) OR push_bit 7 (if c then 1 else 0) = of_nat (unat val mod 128 + (if c then 128 else 0))"
proof (rule word_unat_eq_iff [THEN iffD2])
  have l: "unat (ucast val AND 0x7F :: u8) = unat val mod 2 ^ 7"
    unfolding low_bits unsigned_take_bit_eq unsigned_ucast_eq take_bit_take_bit by (simp add: take_bit_eq_mod)
  have "unat ((ucast val AND 0x7F :: u8) OR push_bit 7 (if c then 1 else 0)) =
      unat val mod 2 ^ 7 OR push_bit 7 (if c then 1 else 0)"
    unfolding unsigned_or_eq l by (simp add: push_bit_eq_mult)
  also have "\<dots> = unat val mod 2 ^ 7 + 2 ^ 7 * (if c then 1 else 0)" by (rule or_shifted) simp
  also have "\<dots> = unat (of_nat (unat val mod 128 + (if c then 128 else 0)) :: u8)"
  proof -
    have "unat val mod 128 < 128" by simp
    moreover have "x + (if c then 128 else 0) < 256" if "x < 128" for x :: nat using that by simp
    ultimately have "unat val mod 128 + (if c then 128 else 0) < 256" by blast
    then show ?thesis using unat_byte [of "unat val mod 128 + (if c then 128 else 0)"] by (simp del: of_nat_add)
  qed
  finally show "unat ((ucast val AND 0x7F :: u8) OR push_bit 7 (if c then 1 else 0)) =
      unat (of_nat (unat val mod 128 + (if c then 128 else 0)) :: u8)" .
qed

lemma pack_varint_bytes:
  fixes val :: "'a::len word"
  assumes "8 \<le> LENGTH('a)"
  shows "pack_ok (pack_varint val) (varint_bytes (unat val))"
proof (induction val rule: pack_varint.induct)
  case (1 val)
  have e: "unat (drop_bit 7 val) = unat val div 128"
    unfolding unat_drop_bit_eq by (simp add: drop_bit_eq_div)
  show ?case
  proof (cases "drop_bit 7 val = 0")
    case True
    then have small: "unat val < 128" using e by (simp add: unat_eq_zero [symmetric] div_eq_0_iff)
    have b: "(ucast val AND 0x7F :: u8) = of_nat (unat val)" using pack_byte [OF assms, of val False] small by simp
    have "pack_varint val = seqW (wr [of_nat (unat val)]) doneW"
      unfolding pack_varint.simps [of val] Let_def True using b by simp
    then show ?thesis using small by (simp add: varint_bytes.simps pack_ok_seq)
  next
    case False
    then have big: "\<not> unat val < 128" using e by (metis div_less unat_eq_zero)
    have pos: "0 < drop_bit 7 val" using False by (simp only: word_gt_0)
    have b: "(ucast val AND 0x7F :: u8) OR push_bit 7 1 = of_nat (unat val mod 128 + 128)"
      using pack_byte [OF assms, of val True] by simp
    have v: "pack_varint val = seqW (wr [of_nat (unat val mod 128 + 128)]) (pack_varint (drop_bit 7 val))"
      by (subst pack_varint.simps) (simp only: Let_def pos False if_True not_False_eq_True b)
    have "pack_ok (pack_varint (drop_bit 7 val)) (varint_bytes (unat val div 128))"
      using 1 [OF refl refl refl False] e by simp
    then show ?thesis using big v by (subst varint_bytes.simps) (auto simp: pack_ok_seq)
  qed
qed

lemma byte_value:
  fixes n :: nat
  assumes "n < 256"
  shows "unat (of_nat n AND 0x7F :: u8) = n mod 128" "(of_nat n AND 0x80 :: u8) \<noteq> 0 \<longleftrightarrow> 128 \<le> n"
proof -
  have n: "unat (of_nat n :: u8) = n" by (rule unat_byte [OF assms])
  show "unat (of_nat n AND 0x7F :: u8) = n mod 128"
    unfolding low_bits unsigned_take_bit_eq n by (simp add: take_bit_eq_mod)
  have "(of_nat n AND 0x80 :: u8) \<noteq> 0 \<longleftrightarrow> bit (of_nat n :: u8) 7"
    using bit_iff_and_push_bit_not_eq_0 [of "of_nat n :: u8" 7] by (simp add: push_bit_eq_mult and.commute)
  also have "\<dots> \<longleftrightarrow> bit n 7" by (simp add: bit_of_nat_iff)
  also have "\<dots> \<longleftrightarrow> 128 \<le> n"
  proof -
    have "n div 128 = (if 128 \<le> n then 1 else 0)" using assms by (auto intro: div_nat_eqI)
    then show ?thesis by (simp add: bit_iff_odd)
  qed
  finally show "(of_nat n AND 0x80 :: u8) \<noteq> 0 \<longleftrightarrow> 128 \<le> n" .
qed

lemma ucast_of_nat: "(ucast (a :: 'a::len word) :: 'b::len word) = of_nat (unat a)"
  by simp

lemma unat_u32: "n < 2 ^ 32 \<Longrightarrow> unat (of_nat n :: u32) = n"
  by (simp add: unsigned_of_nat take_bit_nat_eq_self)

lemma varint_step:
  fixes k n b sh :: nat
  assumes "k < 2 ^ sh" "sh < 32" "n < 2 ^ (32 - sh)" "b < 256" "b mod 128 = n mod 128"
  shows "(of_nat k :: u64) OR ucast (push_bit sh (ucast (of_nat b AND 0x7F :: u8)) :: u32) = of_nat (k + 2 ^ sh * (n mod 128))"
    "(of_nat k :: u32) OR push_bit sh (ucast (of_nat b AND 0x7F :: u8)) = of_nat (k + 2 ^ sh * (n mod 128))"
    "k + 2 ^ sh * (n mod 128) < 2 ^ (sh + 7)"
proof -
  let ?m = "n mod 128"
  have "2 ^ sh * ?m \<le> 2 ^ sh * n" by simp
  also have "\<dots> < 2 ^ sh * 2 ^ (32 - sh)" using assms(3) by simp
  also have "\<dots> = 2 ^ 32" using assms(2) by (simp flip: power_add)
  finally have m: "push_bit sh ?m < 2 ^ 32" by (simp add: push_bit_eq_mult mult.commute)
  have "(ucast (of_nat b AND 0x7F :: u8) :: u32) = of_nat ?m"
    unfolding ucast_of_nat byte_value(1) [OF assms(4)] assms(5) ..
  then have p: "push_bit sh (ucast (of_nat b AND 0x7F :: u8) :: u32) = of_nat (push_bit sh ?m)"
    by (simp only: push_bit_of_nat)
  have o: "k OR push_bit sh ?m = k + 2 ^ sh * ?m" by (rule or_shifted [OF assms(1)])
  show "(of_nat k :: u32) OR push_bit sh (ucast (of_nat b AND 0x7F :: u8)) = of_nat (k + 2 ^ sh * ?m)"
    unfolding p o [symmetric] by (simp only: of_nat_or_eq)
  have "(ucast (of_nat (push_bit sh ?m) :: u32) :: u64) = of_nat (push_bit sh ?m)"
    unfolding ucast_of_nat unat_u32 [OF m] ..
  then show "(of_nat k :: u64) OR ucast (push_bit sh (ucast (of_nat b AND 0x7F :: u8)) :: u32) = of_nat (k + 2 ^ sh * ?m)"
    unfolding p o [symmetric] by (simp only: of_nat_or_eq)
  have "?m \<le> 127" by (simp add: less_Suc_eq_le [symmetric])
  then have "2 ^ sh * ?m \<le> 2 ^ sh * 127" by (rule mult_le_mono2)
  moreover have "(2::nat) ^ (sh + 7) = 2 ^ sh + 2 ^ sh * 127" by (simp add: power_add)
  ultimately show "k + 2 ^ sh * ?m < 2 ^ (sh + 7)" using assms(1) by linarith
qed

text \<open>The first byte of the encoding, and what the loops decide from it.\<close>

lemma varint_split:
  obtains (last) "n < 128" "varint_bytes n = [of_nat n]" "(of_nat n AND 0x80 :: u8) = 0"
  | (more) "128 \<le> n" "varint_bytes n = of_nat (n mod 128 + 128) # varint_bytes (n div 128)"
      "(of_nat (n mod 128 + 128) AND 0x80 :: u8) \<noteq> 0"
proof (cases "n < 128")
  case True
  then show thesis using last byte_value(2) [of n] by (simp add: varint_bytes.simps)
next
  case False
  have "n mod 128 + 128 < 256" using mod_less_divisor [of 128 n] by linarith
  then show thesis using more byte_value(2) [of "n mod 128 + 128"] False varint_bytes.simps [of n] by simp
qed

lemma varint_more:
  fixes k n sh :: nat
  assumes "sh < 32" "n < 2 ^ (32 - sh)" "128 \<le> n"
  shows "sh + 7 < 32" "n div 128 < 2 ^ (32 - (sh + 7))" "n div 128 < n" "n mod 128 + 128 < 256"
    "(n mod 128 + 128) mod 128 = n mod 128"
    "k + 2 ^ sh * (n mod 128) + 2 ^ (sh + 7) * (n div 128) = k + 2 ^ sh * n"
proof -
  show sh7: "sh + 7 < 32"
  proof (rule ccontr)
    assume "\<not> sh + 7 < 32"
    then have "(2::nat) ^ (32 - sh) \<le> 2 ^ 7" by (intro power_increasing) simp_all
    then show False using assms(2,3) by simp
  qed
  have "32 - sh = (32 - (sh + 7)) + 7" using sh7 by simp
  then have "(2::nat) ^ (32 - sh) = 2 ^ (32 - (sh + 7)) * 2 ^ 7" by (metis power_add)
  then have "n < 2 ^ (32 - (sh + 7)) * 2 ^ 7" using assms(2) by (simp only:)
  from less_mult_imp_div_less [OF this] show "n div 128 < 2 ^ (32 - (sh + 7))" by simp
  have "2 ^ sh * (n mod 128) + 2 ^ (sh + 7) * (n div 128) = 2 ^ sh * n"
    using mod_mult_div_eq [of n 128] distrib_left [of "2 ^ sh" "n mod 128" "128 * (n div 128)"]
    by (simp only: power_add mult.assoc) simp
  then show "k + 2 ^ sh * (n mod 128) + 2 ^ (sh + 7) * (n div 128) = k + 2 ^ sh * n" by simp
  show "n div 128 < n" "(n mod 128 + 128) mod 128 = n mod 128" using assms(3) by simp_all
  show "n mod 128 + 128 < 256" using mod_less_divisor [of 128 n] by linarith
qed

lemma unpack_uint_varint:
  assumes "k < 2 ^ sh" "sh < 32" "n < 2 ^ (32 - sh)" "ds_at ds (varint_bytes n)"
  shows "unpack_uint_loop (of_nat k) sh ds = (Inr (of_nat (k + 2 ^ sh * n)), ds_fwd (length (varint_bytes n)) ds)"
  using assms
proof (induction n arbitrary: k sh ds rule: less_induct)
  case (less n)
  show ?case
  proof (cases n rule: varint_split)
    case last
    have "ds_get ds = (Inr (of_nat n), ds_fwd 1 ds)" using ds_get_at(1) [of ds "of_nat n" "[]"] less.prems(4) last(2) by simp
    moreover have "n < 256" "n mod 128 = n" using last(1) by simp_all
    ultimately show ?thesis
      using varint_step(1) [OF less.prems(1-3), of n] last less.prems(2)
      by (subst unpack_uint_loop.simps) (simp add: Let_def)
  next
    case more
    note mo = varint_more [OF less.prems(2,3) more(1)]
    note st = varint_step [OF less.prems(1-3) mo(4,5)]
    have at: "ds_at ds (of_nat (n mod 128 + 128) # varint_bytes (n div 128))" using less.prems(4) more(2) by simp
    define c w where "c = (of_nat (n mod 128 + 128) :: u8)" and "w = (of_nat (k + 2 ^ sh * (n mod 128)) :: u64)"
    have "\<not> 32 \<le> sh" using less.prems(2) by simp
    then have "unpack_uint_loop (of_nat k) sh ds = unpack_uint_loop w (sh + 7) (ds_fwd 1 ds)"
      using ds_get_at(1) [OF at] st(1) more(3) mo(1) unfolding c_def [symmetric] w_def [symmetric]
      by (subst unpack_uint_loop.simps) (simp only: Let_def prod.case sum.case if_True if_False simp_thms not_False_eq_True)
    also have "\<dots> = (Inr (of_nat (k + 2 ^ sh * n)), ds_fwd (length (varint_bytes n)) ds)"
      unfolding w_def less.IH [OF mo(3) st(3) mo(1,2) ds_get_at(2) [OF at]] mo(6) more(2) by simp
    finally show ?thesis .
  qed
qed

lemma unpack_sint_varint:
  assumes "k < 2 ^ sh" "sh < 32" "n < 2 ^ (32 - sh)" "ds_at ds (varint_bytes n)"
  shows "unpack_sint_loop (of_nat k) sh ds = (Inr (of_nat (k + 2 ^ sh * n)), ds_fwd (length (varint_bytes n)) ds)"
  using assms
proof (induction n arbitrary: k sh ds rule: less_induct)
  case (less n)
  have sh: "\<not> 32 \<le> sh" using less.prems(2) by simp
  show ?case
  proof (cases n rule: varint_split)
    case last
    have "ds_get ds = (Inr (of_nat n), ds_fwd 1 ds)" using ds_get_at(1) [of ds "of_nat n" "[]"] less.prems(4) last(2) by simp
    moreover have "n < 256" "n mod 128 = n" using last(1) by simp_all
    ultimately show ?thesis
      using varint_step(2) [OF less.prems(1-3), of n] last sh
      by (subst unpack_sint_loop.simps) (simp add: Let_def)
  next
    case more
    note mo = varint_more [OF less.prems(2,3) more(1)]
    note st = varint_step [OF less.prems(1-3) mo(4,5)]
    have at: "ds_at ds (of_nat (n mod 128 + 128) # varint_bytes (n div 128))" using less.prems(4) more(2) by simp
    define c w where "c = (of_nat (n mod 128 + 128) :: u8)" and "w = (of_nat (k + 2 ^ sh * (n mod 128)) :: u32)"
    have "unpack_sint_loop (of_nat k) sh ds = unpack_sint_loop w (sh + 7) (ds_fwd 1 ds)"
      using ds_get_at(1) [OF at] st(2) more(3) sh unfolding c_def [symmetric] w_def [symmetric]
      by (subst unpack_sint_loop.simps) (simp only: Let_def prod.case sum.case if_True if_False simp_thms not_False_eq_True)
    also have "\<dots> = (Inr (of_nat (k + 2 ^ sh * n)), ds_fwd (length (varint_bytes n)) ds)"
      unfolding w_def less.IH [OF mo(3) st(3) mo(1,2) ds_get_at(2) [OF at]] mo(6) more(2) by simp
    finally show ?thesis .
  qed
qed

lemma unat_u32_less: "unat (x :: u32) < 4294967296"
proof -
  have "unat x < 2 ^ LENGTH(32)" by (rule unsigned_less)
  then show ?thesis by simp
qed

lemma unat_u32_u64: "unat (ucast (x :: u32) :: u64) = unat x"
  using unat_u32_less [of x] by (simp add: unsigned_ucast_eq take_bit_nat_eq_self)

lemma ucast_u32_u64: "(ucast (ucast (x :: u32) :: u64) :: u32) = x"
  by (rule bit_word_eqI) (simp add: bit_simps)

interpretation unsigned_int_codec: codec pack_unsigned_int unpack_unsigned_int "\<lambda>_. True"
proof (rule codecI [where bs = "\<lambda>v. varint_bytes (unat v)"])
  fix x :: u32 and ds
  show "pack_ok (pack_unsigned_int x) (varint_bytes (unat x))"
    using pack_varint_bytes [of "ucast x :: u64"] by (simp add: pack_unsigned_int_def unat_u32_u64)
  assume "ds_at ds (varint_bytes (unat x))"
  then show "unpack_unsigned_int ds = (Inr x, ds_fwd (length (varint_bytes (unat x))) ds)"
    using unpack_uint_varint [of 0 0 "unat x" ds] unat_u32_less [of x] by (simp add: unpack_unsigned_int_def bindX_run ucast_u32_u64)
qed

lemma bit_zigzag: "bit (zigzag v) i \<longleftrightarrow> i < 32 \<and> ((0 < i \<and> bit v (i - 1)) \<noteq> bit v 31)"
proof (cases "i < 32")
  case True
  then have "bit (signed_drop_bit 31 v) i \<longleftrightarrow> bit v 31" unfolding bit_signed_drop_bit_iff by (cases i) simp_all
  moreover have "bit (push_bit 1 v) i \<longleftrightarrow> 0 < i \<and> bit v (i - 1)" unfolding bit_push_bit_iff using True by auto
  ultimately show ?thesis using True unfolding zigzag_def bit_xor_iff by blast
next
  case False
  then show ?thesis using bit_imp_le_length [of "zigzag v" i] by auto
qed

lemma unzigzag_zigzag: "unzigzag (zigzag v) = v"
proof -
  let ?z = "zigzag v"
  let ?m = "ucast (ucast (NOT (?z AND 1)) + 1 :: u64) :: u32"
  have "?z AND 1 = (if bit v 31 then 1 else 0)"
    by (rule bit_word_eqI) (auto simp: bit_simps bit_zigzag)
  then have m: "?m = (if bit v 31 then - 1 else 0)"
    by (simp add: unsigned_minus_1_eq_mask mask_eq_exp_minus_1)
  have "unzigzag ?z = drop_bit 1 ?z XOR ?m"
    unfolding unzigzag_def by (rule bit_word_eqI) (simp add: bit_simps)
  also have "\<dots> = v"
  proof (rule bit_word_eqI)
    fix n
    assume "n < LENGTH(32)"
    then have "n < 31 \<or> n = 31" by auto
    then show "bit (drop_bit 1 ?z XOR ?m) n = bit v n" unfolding m by (auto simp: bit_simps bit_zigzag)
  qed
  finally show ?thesis .
qed

interpretation signed_int_codec: codec pack_signed_int unpack_signed_int "\<lambda>_. True"
proof (rule codecI [where bs = "\<lambda>v. varint_bytes (unat (zigzag v))"])
  fix x :: u32 and ds
  show "pack_ok (pack_signed_int x) (varint_bytes (unat (zigzag x)))"
    using pack_varint_bytes [of "zigzag x"] by (simp add: pack_signed_int_def)
  assume "ds_at ds (varint_bytes (unat (zigzag x)))"
  then show "unpack_signed_int ds = (Inr x, ds_fwd (length (varint_bytes (unat (zigzag x)))) ds)"
    using unpack_sint_varint [of 0 0 "unat (zigzag x)" ds] unat_u32_less [of "zigzag x"]
    by (simp add: unpack_signed_int_def bindX_run unzigzag_zigzag)
qed

section \<open>Composite types\<close>

text \<open>What a codec says of one value, in a form that composes.\<close>

definition trip :: "writes \<Rightarrow> (dstream, 'a) exec \<Rightarrow> 'a \<Rightarrow> bool" where
  "trip p u x \<longleftrightarrow> (\<exists>bs. pack_ok p bs \<and>
     (\<forall>ds. length (ds_buf ds) < 2 ^ 64 \<longrightarrow> ds_at ds bs \<longrightarrow> u ds = (Inr x, ds_fwd (length bs) ds)))"

lemma codec_iff: "codec pk up ok \<longleftrightarrow> (\<forall>x. ok x \<longrightarrow> trip (pk x) up x)"
  by (auto simp: codec_def trip_def)

lemma ds_buf_fwd [simp]: "ds_buf (ds_fwd n ds) = ds_buf ds"
  by (simp add: ds_fwd_def)

lemma trip_bind:
  assumes "trip p u x" "trip q (f x) y"
  shows "trip (seqW p q) (bindX u f) y"
proof -
  obtain xs where xs: "pack_ok p xs" "\<forall>ds. length (ds_buf ds) < 2 ^ 64 \<longrightarrow> ds_at ds xs \<longrightarrow> u ds = (Inr x, ds_fwd (length xs) ds)"
    using assms(1) unfolding trip_def by blast
  obtain ys where ys: "pack_ok q ys" "\<forall>ds. length (ds_buf ds) < 2 ^ 64 \<longrightarrow> ds_at ds ys \<longrightarrow> f x ds = (Inr y, ds_fwd (length ys) ds)"
    using assms(2) unfolding trip_def by blast
  have "bindX u f ds = (Inr y, ds_fwd (length (xs @ ys)) ds)" if "length (ds_buf ds) < 2 ^ 64" "ds_at ds (xs @ ys)" for ds
    using that xs(2) ys(2) by (simp add: ds_at_append bindX_run)
  then show ?thesis unfolding trip_def using pack_ok_seqI [OF xs(1) ys(1)] by blast
qed

lemma trip_return: "trip doneW (returnX x) x"
  unfolding trip_def by (intro exI [of _ "[]"]) simp

lemma trip_map: "trip p u x \<Longrightarrow> f x = y \<Longrightarrow> trip p (bindX u (\<lambda>x. returnX (f x))) y"
  unfolding trip_def by (auto simp: bindX_run)

lemma trip_assertX: "b \<Longrightarrow> trip p u x \<Longrightarrow> trip p (bindX (assertX b msg) (\<lambda>_. u)) x"
  unfolding trip_def by simp

lemma trip_assertW: "b \<Longrightarrow> trip p u x \<Longrightarrow> trip (seqW (assertW b msg) p) u x"
  unfolding trip_def using pack_ok_assert by blast

lemma trip_read: "trip (wr d) (ds_read (length d)) d"
  unfolding trip_def by (intro exI [of _ d]) (simp add: ds_read_at)

lemma trip_unsigned_int: "trip (pack_unsigned_int v) unpack_unsigned_int v"
  using unsigned_int_codec.codec_axioms unfolding codec_iff by blast

lemma trip_word: "LENGTH('a::len) = 8 * n \<Longrightarrow> trip (pack_word n v) (unpack_word n) (v :: 'a word)"
  using codec_word unfolding codec_iff by blast

lemma trip_bool: "trip (pack_bool v) unpack_bool v"
  using bool_codec.codec_axioms unfolding codec_iff by blast

lemma trip_pair:
  "trip (pa (fst x)) ua (fst x) \<Longrightarrow> trip (pb (snd x)) ub (snd x) \<Longrightarrow> trip (pack_pair pa pb x) (unpack_pair ua ub) x"
  unfolding pack_pair_def unpack_pair_def by (rule trip_bind, assumption, rule trip_map) auto

lemma trip_each:
  "\<forall>x \<in> set xs. trip (pa x) ua x \<Longrightarrow> trip (eachW pa xs) (repeatX (length xs) ua) xs"
proof (induction xs)
  case Nil
  show ?case unfolding eachW_def foldr.simps id_apply list.size repeatX.simps by (rule trip_return)
next
  case (Cons x xs)
  have "trip (eachW pa xs) (bindX (repeatX (length xs) ua) (\<lambda>ys. returnX (x # ys))) (x # xs)"
    by (rule trip_map [OF Cons.IH]) (use Cons.prems in auto)
  then have "trip (seqW (pa x) (eachW pa xs)) (bindX ua (\<lambda>x. bindX (repeatX (length xs) ua) (\<lambda>ys. returnX (x # ys)))) (x # xs)"
    using Cons.prems by (intro trip_bind [of _ _ x]) auto
  then show ?case by (simp add: eachW_def)
qed

lemma unat_size: "n \<le> max_size_of_byte_arrays \<Longrightarrow> unat (of_nat n :: u32) = n"
  by (rule unat_u32) (simp add: max_size_of_byte_arrays_def)

lemma trip_size:
  "n \<le> max_num_array_elements \<Longrightarrow> trip (pack_unsigned_int (of_nat n)) unpack_size n"
  unfolding unpack_size_def
proof -
  assume n: "n \<le> max_num_array_elements"
  then have "n \<le> max_size_of_byte_arrays" by (simp add: max_num_array_elements_def max_size_of_byte_arrays_def)
  then have u: "unat (of_nat n :: u32) = n" by (rule unat_size)
  have "trip (seqW (pack_unsigned_int (of_nat n)) doneW) (bindX unpack_unsigned_int (\<lambda>size.
     bindX (assertX (unat size \<le> max_num_array_elements) ''size.value <= MAX_NUM_ARRAY_ELEMENTS'') (\<lambda>_.
     returnX (unat size)))) n"
    by (rule trip_bind [OF trip_unsigned_int], rule trip_assertX) (use n u trip_return [of n] in simp_all)
  moreover have "seqW p doneW = p" for p by (cases p) (auto simp: seqW_def doneW_def split: option.splits)
  ultimately show "trip (pack_unsigned_int (of_nat n)) (bindX unpack_unsigned_int (\<lambda>size.
     bindX (assertX (unat size \<le> max_num_array_elements) ''size.value <= MAX_NUM_ARRAY_ELEMENTS'') (\<lambda>_.
     returnX (unat size)))) n" by simp
qed

lemma trip_vector:
  assumes "length xs \<le> max_num_array_elements" "\<forall>x \<in> set xs. trip (pa x) ua x"
  shows "trip (pack_vector pa xs) (unpack_vector ua) xs"
  unfolding pack_vector_def unpack_vector_def
  by (rule trip_assertW [OF assms(1)], rule trip_bind [OF trip_size [OF assms(1)]], rule trip_each [OF assms(2)])

theorem codec_vector:
  "codec pa ua ok \<Longrightarrow> codec (pack_vector pa) (unpack_vector ua) (\<lambda>xs. length xs \<le> max_num_array_elements \<and> (\<forall>x \<in> set xs. ok x))"
  unfolding codec_iff by (blast intro: trip_vector)

theorem codec_pair:
  "codec pa ua oka \<Longrightarrow> codec pb ub okb \<Longrightarrow> codec (pack_pair pa pb) (unpack_pair ua ub) (\<lambda>x. oka (fst x) \<and> okb (snd x))"
  unfolding codec_iff by (blast intro: trip_pair)

theorem codec_optional:
  assumes "codec pa ua ok"
  shows "codec (pack_optional pa) (unpack_optional ua None) (\<lambda>v. case v of None \<Rightarrow> True | Some x \<Rightarrow> ok x)"
  unfolding codec_iff
proof (intro allI impI)
  fix v
  assume v: "case v of None \<Rightarrow> True | Some x \<Rightarrow> ok x"
  show "trip (pack_optional pa v) (unpack_optional ua None) v"
    unfolding pack_optional_def unpack_optional_def
    by (rule trip_bind [OF trip_bool]) (use v assms in \<open>auto simp: codec_iff trip_return intro: trip_map split: option.splits\<close>)
qed

theorem codec_array:
  "codec pa ua ok \<Longrightarrow> codec (pack_array pa) (unpack_array n ua) (\<lambda>xs. length xs = n \<and> (\<forall>x \<in> set xs. ok x))"
  unfolding codec_iff pack_array_def unpack_array_def
proof (intro allI impI, elim conjE)
  fix xs
  assume "\<forall>x. ok x \<longrightarrow> trip (pa x) ua x" "length xs = n" "\<forall>x \<in> set xs. ok x"
  then show "trip (eachW pa xs) (repeatX n ua) xs" using trip_each [of xs pa ua] by simp
qed

interpretation bytes_codec: codec pack_bytes unpack_bytes "\<lambda>v. length v \<le> max_size_of_byte_arrays"
  unfolding codec_iff
proof (intro allI impI)
  fix x :: "u8 list"
  assume l: "length x \<le> max_size_of_byte_arrays"
  have u: "unat (of_nat (length x) :: u32) = length x" by (rule unat_size [OF l])
  have "trip (if length x \<noteq> 0 then wr x else doneW)
      (if unat (of_nat (length x) :: u32) \<noteq> 0 then ds_read (unat (of_nat (length x) :: u32)) else returnX []) x"
    unfolding u by (cases "x = []") (simp_all only: list.size simp_thms if_True if_False length_0_conv not_False_eq_True trip_read trip_return)
  moreover have "unat (of_nat (length x) :: u32) \<le> max_size_of_byte_arrays" unfolding u by (rule l)
  ultimately have "trip (if length x \<noteq> 0 then wr x else doneW)
      ((\<lambda>size :: u32. bindX (assertX (unat size \<le> max_size_of_byte_arrays) ''size.value <= MAX_SIZE_OF_BYTE_ARRAYS'')
         (\<lambda>_. if unat size \<noteq> 0 then ds_read (unat size) else returnX [])) (of_nat (length x))) x"
    by (intro trip_assertX)
  then show "trip (pack_bytes x) unpack_bytes x"
    unfolding pack_bytes_def unpack_bytes_def by (rule trip_assertW [OF l trip_bind [OF trip_unsigned_int]])
qed

interpretation string_codec: codec pack_string unpack_string "\<lambda>v. length v \<le> max_size_of_byte_arrays"
  unfolding codec_iff unpack_string_def
proof (intro allI impI)
  fix x :: "u8 list"
  assume l: "length x \<le> max_size_of_byte_arrays"
  have "trip (pack_bytes x) unpack_bytes x" using bytes_codec.codec_axioms l unfolding codec_iff by blast
  moreover have "pack_string x = pack_bytes x" using l by (simp add: pack_string_def pack_bytes_def assertW_def)
  ultimately show "trip (pack_string x) (bindX unpack_bytes (\<lambda>tmp. returnX (if tmp \<noteq> [] then tmp else []))) x"
    by (auto intro: trip_map)
qed

interpretation uint256_codec: codec pack_uint256 unpack_uint256 "\<lambda>_. True"
  unfolding codec_iff
proof (intro allI impI)
  fix x :: "256 word"
  have "push_bit 128 (ucast (ucast (drop_bit 128 x) :: 128 word)) OR ucast (ucast x :: 128 word) = x"
  proof (rule bit_word_eqI)
    fix n
    assume n: "n < LENGTH(256)"
    show "bit (push_bit 128 (ucast (ucast (drop_bit 128 x) :: 128 word)) OR ucast (ucast x :: 128 word) :: 256 word) n = bit x n"
    proof (cases "n < 128")
      case True
      then show ?thesis
        by (simp only: bit_or_iff bit_push_bit_iff bit_unsigned_iff bit_drop_bit_eq) simp
    next
      case False
      then show ?thesis using n
        by (simp only: bit_or_iff bit_push_bit_iff bit_unsigned_iff bit_drop_bit_eq comp_apply) (simp, arith)
    qed
  qed
  then show "trip (pack_uint256 x) unpack_uint256 x"
    unfolding pack_uint256_def unpack_uint256_def
    by (intro trip_bind [OF trip_word] trip_map [OF trip_word]) simp_all
qed

end
