(* ===== verification/Raw_Props.thy ===== *)
theory Raw_Props
  imports Raw_Codec
begin

text \<open>
  What \<open>fc::raw\<close> guarantees of whole byte vectors: \<open>pack\<close> into a vector followed by
  \<open>unpack\<close> is the identity for every codec, the encodings have the promised size, and
  the cases in which the stream or the decoders leave their memory or their type.
\<close>

section \<open>More codecs\<close>

theorem codec_c_array:
  assumes "codec pa ua ok" "n < 2 ^ 32"
  shows "codec (pack_c_array pa) (unpack_c_array n ua) (\<lambda>xs. length xs = n \<and> (\<forall>x \<in> set xs. ok x))"
  unfolding codec_iff
proof (intro allI impI, elim conjE)
  fix xs
  assume xs: "length xs = n" "\<forall>x \<in> set xs. ok x"
  have "unat (of_nat (length xs) :: u32) = n" using unat_u32 [OF assms(2)] xs(1) by simp
  moreover have "trip (eachW pa xs) (repeatX n ua) xs"
    using trip_each [of xs pa ua] xs assms(1) unfolding codec_iff by blast
  ultimately show "trip (pack_c_array pa xs) (unpack_c_array n ua) xs"
    unfolding pack_c_array_def unpack_c_array_def
    by (intro trip_bind [OF trip_unsigned_int] trip_assertX)
qed

lemma insort_last: "sorted (xs @ [x]) \<Longrightarrow> x \<notin> set xs \<Longrightarrow> insort_insert x xs = xs @ [x]"
  by (induction xs) (auto simp: insort_insert_key_def sorted_append insort_is_Cons)

lemma fold_os_insert: "os_wf (ys @ xs) \<Longrightarrow> fold os_insert xs ys = ys @ xs"
proof (induction xs arbitrary: ys)
  case (Cons x xs)
  then have "os_insert x ys = ys @ [x]"
    by (intro insort_last [folded os_insert_def]) (auto simp: os_wf_def sorted_append)
  then show ?case using Cons.IH [of "ys @ [x]"] Cons.prems by simp
qed simp

lemma insort_key_last:
  "sorted (map fst (xs @ [x])) \<Longrightarrow> fst x \<notin> fst ` set xs \<Longrightarrow> insort_key fst x xs = xs @ [x]"
  by (induction xs) (auto simp: sorted_append)

lemma fold_om_emplace: "om_wf (ys @ xs) \<Longrightarrow> fold (\<lambda>(k, v). om_emplace k v) xs ys = ys @ xs"
proof (induction xs arbitrary: ys)
  case (Cons x xs)
  have "fst x \<notin> fst ` set ys" "sorted (map fst (ys @ [x]))"
    using Cons.prems by (auto simp: om_wf_def sorted_append)
  then have "om_emplace (fst x) (snd x) ys = ys @ [x]"
    by (simp add: om_emplace_def insort_insert_key_def insort_key_last)
  then show ?case using Cons.IH [of "ys @ [x]"] Cons.prems by (simp add: case_prod_beta)
qed simp

theorem codec_set:
  assumes "codec pa ua ok"
  shows "codec (pack_set pa) (unpack_set ua []) (\<lambda>xs. os_wf xs \<and> length xs \<le> max_num_array_elements \<and> (\<forall>x \<in> set xs. ok x))"
  unfolding codec_iff
proof (intro allI impI, elim conjE)
  fix xs :: "'a list"
  assume xs: "os_wf xs" "length xs \<le> max_num_array_elements" "\<forall>x \<in> set xs. ok x"
  have "trip (eachW pa xs) (repeatX (length xs) ua) xs"
    using trip_each [of xs pa ua] xs(3) assms unfolding codec_iff by blast
  from trip_map [OF this, of "\<lambda>xs. fold os_insert xs []"]
  show "trip (pack_set pa xs) (unpack_set ua []) xs"
    unfolding pack_set_def pack_vector_def unpack_set_def
    by (intro trip_assertW [OF xs(2)] trip_bind [OF trip_size [OF xs(2)]]) (simp add: fold_os_insert xs(1))
qed

theorem codec_map:
  assumes "codec pk uk okk" "codec pv uv okv"
  shows "codec (pack_map pk pv) (unpack_map uk uv)
    (\<lambda>m. om_wf m \<and> length m \<le> max_num_array_elements \<and> (\<forall>p \<in> set m. okk (fst p) \<and> okv (snd p)))"
  unfolding codec_iff
proof (intro allI impI, elim conjE)
  fix m :: "('a \<times> 'b) list"
  assume m: "om_wf m" "length m \<le> max_num_array_elements" "\<forall>p \<in> set m. okk (fst p) \<and> okv (snd p)"
  have "trip (eachW (pack_pair pk pv) m) (repeatX (length m) (unpack_pair uk uv)) m"
    using trip_each [of m "pack_pair pk pv" "unpack_pair uk uv"] m(3) codec_pair [OF assms] unfolding codec_iff by blast
  from trip_map [OF this, of "\<lambda>xs. fold (\<lambda>(k, v). om_emplace k v) xs []"]
  show "trip (pack_map pk pv m) (unpack_map uk uv) m"
    unfolding pack_map_def pack_vector_def unpack_map_def
    by (intro trip_assertW [OF m(2)] trip_bind [OF trip_size [OF m(2)]]) (simp add: fold_om_emplace m(1))
qed

section \<open>Packing into a vector\<close>

lemma run_count: "run_writes cs_write ws n = (Inr (), n + of_nat (length (concat ws)))"
  by (induction ws arbitrary: n) (simp_all add: cs_write_def)

lemma ds_write_fits:
  assumes "length (ds_buf ds) < 2 ^ 31" "ds_pos ds + length d \<le> length (ds_buf ds)"
  shows "ds_write d ds = (Inr (), \<lparr>ds_buf = take (ds_pos ds) (ds_buf ds) @ d @ drop (ds_pos ds + length d) (ds_buf ds),
    ds_pos = ds_pos ds + length d\<rparr>)"
proof -
  have "length d < 2 ^ 31" using assms by linarith
  then have "sint (of_nat (length d) :: u32) = int (length d)"
    by (simp add: signed_of_nat signed_take_bit_int_eq_self)
  then show ?thesis using assms(2) by (simp add: ds_write_def ds_left_def Let_def)
qed

lemma run_write_all:
  assumes "ds_pos ds + length (concat ws) = length (ds_buf ds)" "length (ds_buf ds) < 2 ^ 31"
  shows "run_writes ds_write ws ds = (Inr (), \<lparr>ds_buf = take (ds_pos ds) (ds_buf ds) @ concat ws, ds_pos = length (ds_buf ds)\<rparr>)"
  using assms
proof (induction ws arbitrary: ds)
  case Nil
  then show ?case by (cases ds) simp
next
  case (Cons d ws)
  let ?t = "\<lparr>ds_buf = take (ds_pos ds) (ds_buf ds) @ d @ drop (ds_pos ds + length d) (ds_buf ds), ds_pos = ds_pos ds + length d\<rparr>"
  have "ds_write d ds = (Inr (), ?t)" using Cons.prems by (intro ds_write_fits) simp_all
  moreover have "run_writes ds_write ws ?t = (Inr (), \<lparr>ds_buf = take (ds_pos ?t) (ds_buf ?t) @ concat ws, ds_pos = length (ds_buf ?t)\<rparr>)"
    using Cons.prems by (intro Cons.IH) simp_all
  ultimately show ?case using Cons.prems by (simp add: bindX_run)
qed

lemma pack_to_vector_bytes:
  assumes "pack_ok p bs" "length bs < 2 ^ 31"
  shows "pack_size p = Inr (of_nat (length bs))" "pack_to_vector p = Inr bs"
proof -
  have p: "snd p = None" "concat (fst p) = bs" using assms(1) by (simp_all add: pack_ok_def)
  show s: "pack_size p = Inr (of_nat (length bs))"
    using p run_count [of "fst p" 0] by (simp add: pack_size_def run_pack_def bindX_run)
  have "unat (of_nat (length bs) :: u64) = length bs" using assms(2) by (simp add: unsigned_of_nat take_bit_nat_eq_self)
  moreover have "run_pack ds_write p (ds_open (replicate (length bs) 0)) = (Inr (), \<lparr>ds_buf = bs, ds_pos = length bs\<rparr>)"
    using run_write_all [of "ds_open (replicate (length bs) 0)" "fst p"] p assms(2)
    by (simp add: run_pack_def bindX_run ds_open_def)
  ultimately show "pack_to_vector p = Inr bs" by (simp add: pack_to_vector_def s Let_def)
qed

lemma trip_vector_bytes:
  assumes "trip p u x" "length (concat (fst p)) < 2 ^ 31"
  shows "bindE (pack_to_vector p) (unpack_from_vector u) = Inr x"
proof -
  obtain bs where bs: "pack_ok p bs" "\<forall>ds. length (ds_buf ds) < 2 ^ 64 \<longrightarrow> ds_at ds bs \<longrightarrow> u ds = (Inr x, ds_fwd (length bs) ds)"
    using assms(1) unfolding trip_def by blast
  have l: "length bs < 2 ^ 31" using bs(1) assms(2) by (simp add: pack_ok_def)
  have "ds_at (ds_open bs) bs" using ds_at_open [of bs "[]"] by simp
  moreover have "length (ds_buf (ds_open bs)) < 2 ^ 64" using l by (simp add: ds_open_def)
  ultimately show ?thesis using bs(2) pack_to_vector_bytes(2) [OF bs(1) l] by (simp add: unpack_from_vector_def)
qed

section \<open>Reading foreign bytes\<close>

text \<open>
  \<open>memory_safe u\<close>: on a stream whose position is inside its buffer, \<open>u\<close> returns or throws without
  undefined behaviour, keeps the buffer, and leaves the position inside it.
\<close>

definition memory_safe :: "(dstream, 'a) exec \<Rightarrow> bool" where
  "memory_safe u \<longleftrightarrow> (\<forall>ds. length (ds_buf ds) < 2 ^ 63 \<longrightarrow> ds_valid ds \<longrightarrow>
     fst (u ds) \<noteq> Inl Undefined_behaviour \<and> ds_buf (snd (u ds)) = ds_buf ds \<and> ds_valid (snd (u ds)) \<and> ds_pos ds \<le> ds_pos (snd (u ds)))"

lemma tameD:
  assumes "memory_safe u" "length (ds_buf ds) < 2 ^ 63" "ds_valid ds" "u ds = (r, t)"
  shows "r \<noteq> Inl Undefined_behaviour" "ds_buf t = ds_buf ds" "ds_valid t" "ds_pos ds \<le> ds_pos t"
proof -
  have "fst (u ds) \<noteq> Inl Undefined_behaviour \<and> ds_buf (snd (u ds)) = ds_buf ds \<and> ds_valid (snd (u ds)) \<and> ds_pos ds \<le> ds_pos (snd (u ds))"
    using assms(1-3) unfolding memory_safe_def by blast
  then show "r \<noteq> Inl Undefined_behaviour" "ds_buf t = ds_buf ds" "ds_valid t" "ds_pos ds \<le> ds_pos t" using assms(4) by simp_all
qed

lemma tame_return [intro]: "memory_safe (returnX x)"
  by (simp add: memory_safe_def)

lemma tame_bind [intro]:
  assumes "memory_safe u" "\<And>x. memory_safe (f x)"
  shows "memory_safe (bindX u f)"
  unfolding memory_safe_def
proof (intro allI impI)
  fix ds
  assume d: "length (ds_buf ds) < 2 ^ 63" "ds_valid ds"
  obtain r t where t: "u ds = (r, t)" by fastforce
  note td = tameD [OF assms(1) d t]
  show "fst (bindX u f ds) \<noteq> Inl Undefined_behaviour \<and> ds_buf (snd (bindX u f ds)) = ds_buf ds \<and>
      ds_valid (snd (bindX u f ds)) \<and> ds_pos ds \<le> ds_pos (snd (bindX u f ds))"
  proof (cases r)
    case (Inl e)
    then show ?thesis using td t by (simp add: bindX_fail)
  next
    case (Inr x)
    obtain q v where v: "f x t = (q, v)" by fastforce
    have "length (ds_buf t) < 2 ^ 63" using td(2) d(1) by simp
    note tv = tameD [OF assms(2) this td(3) v]
    have "bindX u f ds = (q, v)" using t Inr v by (simp add: bindX_run)
    then show ?thesis using tv td(2,4) by simp
  qed
qed

lemma tame_assert [intro]: "memory_safe (assertX b msg)"
  by (cases b) (simp_all add: memory_safe_def)

lemma tame_if [intro]: "memory_safe u \<Longrightarrow> memory_safe v \<Longrightarrow> memory_safe (if b then u else v)"
  by simp

lemma tame_repeat [intro]: "memory_safe u \<Longrightarrow> memory_safe (repeatX n u)"
  by (induction n) auto

lemma tame_get [intro]: "memory_safe ds_get"
  by (simp add: memory_safe_def ds_get_def ds_valid_def)

lemma left_word:
  assumes "length (ds_buf ds) < 2 ^ 63" "ds_valid ds"
  shows "unat (word_of_int (ds_left ds) :: u64) = length (ds_buf ds) - ds_pos ds"
proof -
  have "ds_left ds = int (length (ds_buf ds) - ds_pos ds)" using assms(2) by (simp add: ds_left_def ds_valid_def)
  then show ?thesis using assms(1) by (simp add: unsigned_of_nat take_bit_nat_eq_self)
qed

lemma tame_read [intro]: "n < 2 ^ 64 \<Longrightarrow> memory_safe (ds_read n)"
proof -
  assume n: "n < 2 ^ 64"
  have "unat (of_nat n :: u64) = n" using n by (simp add: unsigned_of_nat take_bit_nat_eq_self)
  then show ?thesis
    using left_word by (auto simp: memory_safe_def ds_read_def ds_valid_def word_le_nat_alt)
qed

lemma tame_uint_loop [intro]: "sh < 32 \<Longrightarrow> memory_safe (unpack_uint_loop v sh)"
proof -
  have "length (ds_buf ds) < 2 ^ 63 \<Longrightarrow> ds_valid ds \<Longrightarrow> sh < 32 \<Longrightarrow> fst (unpack_uint_loop v sh ds) \<noteq> Inl Undefined_behaviour \<and>
      ds_buf (snd (unpack_uint_loop v sh ds)) = ds_buf ds \<and> ds_valid (snd (unpack_uint_loop v sh ds)) \<and>
      ds_pos ds \<le> ds_pos (snd (unpack_uint_loop v sh ds))" for ds
  proof (induction v sh ds rule: unpack_uint_loop.induct)
    case (1 v sh ds)
    obtain r t where t: "ds_get ds = (r, t)" by fastforce
    note td = tameD [OF tame_get 1(2,3) t]
    have sh: "\<not> 32 \<le> sh" using 1(4) by simp
    show ?case
    proof (cases r)
      case (Inl e)
      then show ?thesis using t td by (simp add: unpack_uint_loop.simps [of v sh ds])
    next
      case (Inr b)
      have "length (ds_buf t) < 2 ^ 63" using td(2) 1(2) by simp
      note ih = 1(1) [OF t [symmetric, unfolded Inr] refl sh refl refl _ this td(3)]
      show ?thesis
        using t td Inr ih sh by (auto simp: unpack_uint_loop.simps [of v sh ds] Let_def)
    qed
  qed
  then show "sh < 32 \<Longrightarrow> memory_safe (unpack_uint_loop v sh)" unfolding memory_safe_def by blast
qed

lemma tame_unsigned_int [intro]: "memory_safe unpack_unsigned_int"
  unfolding unpack_unsigned_int_def by (intro tame_bind tame_uint_loop tame_return) simp

lemma tame_word [intro]: "n < 2 ^ 64 \<Longrightarrow> memory_safe (unpack_word n)"
  unfolding unpack_word_def by blast

lemma tame_bool [intro]: "memory_safe unpack_bool"
  unfolding unpack_bool_def by (intro tame_bind tame_word tame_assert tame_return) simp

lemma tame_bytes [intro]: "memory_safe unpack_bytes"
proof -
  have "memory_safe (ds_read (unat (size :: u32)))" for size using unat_u32_less [of size] by (intro tame_read) simp
  then show ?thesis unfolding unpack_bytes_def by blast
qed

lemma tame_string [intro]: "memory_safe unpack_string"
  unfolding unpack_string_def by blast

lemma tame_size [intro]: "memory_safe unpack_size"
  unfolding unpack_size_def by blast

lemma tame_vector [intro]: "memory_safe u \<Longrightarrow> memory_safe (unpack_vector u)"
  unfolding unpack_vector_def by blast

lemma tame_pair [intro]: "memory_safe u \<Longrightarrow> memory_safe v \<Longrightarrow> memory_safe (unpack_pair u v)"
  unfolding unpack_pair_def by blast

lemma tame_optional [intro]: "memory_safe u \<Longrightarrow> memory_safe (unpack_optional u v)"
  unfolding unpack_optional_def by blast

lemma tame_set [intro]: "memory_safe u \<Longrightarrow> memory_safe (unpack_set u s)"
  unfolding unpack_set_def by blast

lemma tame_map [intro]: "memory_safe u \<Longrightarrow> memory_safe v \<Longrightarrow> memory_safe (unpack_map u v)"
  unfolding unpack_map_def by blast

lemma tame_shared_string [intro]: "memory_safe (unpack_shared_string v)"
  unfolding unpack_shared_string_def by blast

lemma tame_array [intro]: "memory_safe u \<Longrightarrow> memory_safe (unpack_array n u)" "memory_safe u \<Longrightarrow> memory_safe (unpack_c_array n u)"
  unfolding unpack_array_def unpack_c_array_def by blast+

lemma tame_trivial_array [intro]: "n * k < 2 ^ 64 \<Longrightarrow> memory_safe (unpack_trivial_array k n)"
  unfolding unpack_trivial_array_def by blast

lemma tame_containers [intro]: "memory_safe u \<Longrightarrow> memory_safe (unpack_deque u)" "memory_safe u \<Longrightarrow> memory_safe (unpack_unordered ins u)"
  unfolding unpack_deque_def unpack_unordered_def by blast+

lemma tame_shared_ptr [intro]: "memory_safe u \<Longrightarrow> memory_safe (unpack_shared_ptr u v)"
  unfolding unpack_shared_ptr_def by blast

lemma tame_fixed [intro]: "memory_safe unpack_enum" "memory_safe unpack_uint256"
  unfolding unpack_enum_def unpack_uint256_def by (intro tame_bind tame_word tame_return; simp)+

lemma tame_const [intro]: "memory_safe u \<Longrightarrow> memory_safe (unpack_const u x)"
  unfolding unpack_const_def by blast

lemma tame_from_vector: "memory_safe u \<Longrightarrow> length s < 2 ^ 63 \<Longrightarrow> unpack_from_vector u s \<noteq> Inl Undefined_behaviour"
  by (simp add: memory_safe_def unpack_from_vector_def ds_open_def ds_valid_def)

section \<open>Blocks of memory\<close>

lemma chunks_concat: "\<forall>b \<in> set bss. length b = k \<Longrightarrow> chunks k (length bss) (concat bss) = bss"
  by (induction bss) auto

lemma each_word_bytes: "pack_ok (eachW (pack_word n) xs) (concat (map (le_bytes n) xs))"
  by (induction xs) (simp_all add: eachW_def pack_word_def pack_ok_seqI)

lemma length_each_word: "length (concat (map (le_bytes n) xs)) = n * length xs"
  by (induction xs) simp_all

lemma trip_trivial_array:
  assumes "LENGTH('a::len) = 8 * k"
  shows "trip (pack_trivial_array k v) (unpack_trivial_array k (length v)) (v :: 'a word list)"
proof -
  have "map le_word (chunks k (length v) (concat (map (le_bytes k) v))) = v"
    using chunks_concat [of "map (le_bytes k) v" k] assms by (simp add: le_word_bytes map_idI)
  then show ?thesis
    using trip_map [OF trip_read, of "\<lambda>bs. map le_word (chunks k (length v) bs)" "concat (map (le_bytes k) v)" v]
    unfolding pack_trivial_array_def unpack_trivial_array_def length_each_word by (simp add: mult.commute)
qed

section \<open>The properties\<close>

text \<open>
  A type that uses most of the format: a map from a number to a vector of pairs of a
  string and an optional variable-length number.
\<close>

type_synonym sample_value = "(u64, (u8 list \<times> u32 option) list) omap"

definition pack_sample :: "sample_value \<Rightarrow> writes" where
  "pack_sample = pack_map (pack_word 8) (pack_vector (pack_pair pack_string (pack_optional pack_unsigned_int)))"

definition unpack_sample :: "(dstream, sample_value) exec" where
  "unpack_sample = unpack_map (unpack_word 8) (unpack_vector (unpack_pair unpack_string (unpack_optional unpack_unsigned_int None)))"

definition sample_ok :: "sample_value \<Rightarrow> bool" where
  "sample_ok m \<longleftrightarrow> om_wf m \<and> length m \<le> max_num_array_elements \<and>
     (\<forall>p \<in> set m. length (snd p) \<le> max_num_array_elements \<and> (\<forall>q \<in> set (snd p). length (fst q) \<le> max_size_of_byte_arrays))"

lemma codec_sample: "codec pack_sample unpack_sample sample_ok"
proof -
  have "codec pack_sample unpack_sample
    (\<lambda>m. om_wf m \<and> length m \<le> max_num_array_elements \<and> (\<forall>p \<in> set m. True \<and> (length (snd p) \<le> max_num_array_elements \<and>
      (\<forall>q \<in> set (snd p). length (fst q) \<le> max_size_of_byte_arrays \<and> (case snd q of None \<Rightarrow> True | Some x \<Rightarrow> True)))))"
    unfolding pack_sample_def unpack_sample_def
    by (intro codec_map codec_vector codec_pair codec_optional u64_codec.codec_axioms string_codec.codec_axioms
        unsigned_int_codec.codec_axioms)
  moreover have "(case v of None \<Rightarrow> True | Some x \<Rightarrow> True)" for v :: "u32 option" by (cases v) simp_all
  ultimately show ?thesis by (simp add: codec_iff sample_ok_def)
qed

text \<open>
  C36: packing a value of a nested type into a byte vector and unpacking the vector yields the
  value, whenever its containers respect the limits of the format and the encoding is shorter
  than 2 GiB (where the size check of \<open>datastream::write\<close> stops being exact).
\<close>

theorem raw_roundtrip:
  assumes "sample_ok m" "length (concat (fst (pack_sample m))) < 2 ^ 31"
  shows "bindE (pack_to_vector (pack_sample m)) (unpack_from_vector unpack_sample) = Inr m"
  using trip_vector_bytes [of "pack_sample m" unpack_sample m] assms codec_sample unfolding codec_iff by blast

theorem raw_roundtrip_witness:
  "bindE (pack_to_vector (pack_sample [(3, [([0x61], Some 300), ([], None)]), (7, [])])) (unpack_from_vector unpack_sample) =
     Inr [(3, [([0x61], Some 300), ([], None)]), (7, [])]"
proof (rule raw_roundtrip)
  show "sample_ok [(3, [([0x61], Some 300), ([], None)]), (7, [])]"
    by (simp add: sample_ok_def om_wf_def max_num_array_elements_def max_size_of_byte_arrays_def)
  show "length (concat (fst (pack_sample [(3, [([0x61], Some 300), ([], None)]), (7, [])]))) < 2 ^ 31"
  proof -
    have "length (concat (fst (pack_sample [(3, [([0x61], Some 300), ([], None)]), (7, [])]))) = 26"
      by (simp add: pack_sample_def pack_map_def pack_vector_def pack_pair_def pack_string_def pack_optional_def pack_bool_def
          pack_word_def eachW_def seqW_def assertW_def doneW_def wr_def pack_unsigned_int_def pack_varint.simps
          max_num_array_elements_def max_size_of_byte_arrays_def)
    then show ?thesis by simp
  qed
qed

text \<open>
  C37: decoding bytes from anywhere does not leave their memory. A decoder is memory safe when on
  every stream of less than 2^63 bytes, whatever they are and wherever in it reading starts, it
  returns or throws without undefined behaviour (a read outside the bytes, a shift that is too
  wide), changes no byte and stops inside the stream. Every decoder of \<open>fc::raw\<close> for a basic
  type is memory safe, except the one for \<open>signed_int\<close> (see \<open>signed_int_overrun\<close>): integers of any
  width, \<open>bool\<close>, \<open>unsigned_int\<close>, byte vectors, strings, enumerations, 256-bit integers and
  blocks of integers. Every template, instantiated with memory safe decoders \<open>u\<close>, \<open>v\<close> and \<open>k\<close> of
  its parts, is memory safe: pair, optional, shared pointer, constant, arrays, vector, deque, set,
  map and unordered containers. So this holds of every type built from them, and unpacking a byte
  vector into such a type is never undefined.
\<close>

theorem unpack_memory_safe:
  fixes u :: "(dstream, 'a) exec" and v :: "(dstream, 'b) exec" and k :: "(dstream, 'k::linorder) exec"
  assumes "memory_safe u" "memory_safe v" "memory_safe k" "n < 2 ^ 64" "m * n < 2 ^ 64"
  shows "memory_safe (unpack_word n :: (dstream, 'w::len word) exec) \<and> memory_safe unpack_bool \<and> memory_safe unpack_unsigned_int \<and>
    memory_safe unpack_bytes \<and> memory_safe unpack_string \<and> memory_safe (unpack_shared_string old) \<and>
    memory_safe unpack_enum \<and> memory_safe unpack_uint256 \<and> memory_safe (unpack_trivial_array n m :: (dstream, 'w word list) exec) \<and>
    memory_safe (unpack_pair u v) \<and> memory_safe (unpack_optional u x) \<and> memory_safe (unpack_shared_ptr u x) \<and>
    memory_safe (unpack_const u c) \<and> memory_safe (unpack_array m u) \<and> memory_safe (unpack_c_array m u) \<and>
    memory_safe (unpack_vector u) \<and> memory_safe (unpack_deque u) \<and> memory_safe (unpack_unordered ins u) \<and>
    memory_safe (unpack_set k ks) \<and> memory_safe (unpack_map k v) \<and>
    (length s < 2 ^ 63 \<longrightarrow> unpack_from_vector u s \<noteq> Inl Undefined_behaviour)"
  using assms tame_from_vector [OF assms(1), of s] by (intro conjI impI) blast+

theorem unpack_memory_safe_witness:
  "unpack_from_vector unpack_string [0xFF, 0xFF, 0x03, 0x01] \<noteq> Inl Undefined_behaviour \<and>
   memory_safe (unpack_map (unpack_word 8 :: (dstream, u64) exec) unpack_unsigned_int)"
proof -
  have k: "memory_safe (unpack_word 8 :: (dstream, u64) exec)" by (rule tame_word) simp
  have s: "length [0xFF, 0xFF, 0x03, 0x01 :: u8] < 2 ^ 63" by simp
  have n: "(8 :: nat) < 2 ^ 64" "(2 :: nat) * 8 < 2 ^ 64" by simp_all
  note m = unpack_memory_safe [OF tame_string tame_unsigned_int k n]
  show ?thesis using m s by blast
qed

lemma varint_bytes_length:
  "length (varint_bytes n) = (if n < 2 ^ 7 then 1 else Suc (length (varint_bytes (n div 2 ^ 7))))"
  by (subst varint_bytes.simps) simp

lemma pack_varint_length: "8 \<le> LENGTH('a) \<Longrightarrow> length (concat (fst (pack_varint (v :: 'a::len word)))) = length (varint_bytes (unat v))"
  using pack_varint_bytes [of v] by (simp add: pack_ok_def)

lemma varint_five:
  assumes "n < 2 ^ 32"
  shows "length (varint_bytes n) = (if n < 2 ^ 7 then 1 else if n < 2 ^ 14 then 2 else if n < 2 ^ 21 then 3 else if n < 2 ^ 28 then 4 else 5)"
proof -
  have d: "n div 2 ^ 7 div 2 ^ 7 = n div 2 ^ 14" "n div 2 ^ 14 div 2 ^ 7 = n div 2 ^ 21" "n div 2 ^ 21 div 2 ^ 7 = n div 2 ^ 28"
    by (simp_all add: div_mult2_eq [symmetric])
  have e: "n div 2 ^ 7 < 2 ^ 7 \<longleftrightarrow> n < 2 ^ 14" "n div 2 ^ 14 < 2 ^ 7 \<longleftrightarrow> n < 2 ^ 21" "n div 2 ^ 21 < 2 ^ 7 \<longleftrightarrow> n < 2 ^ 28"
    by (simp_all add: div_less_iff_less_mult)
  have f: "n div 2 ^ 28 < 2 ^ 7" using assms by (simp add: div_less_iff_less_mult)
  show ?thesis
    using varint_bytes_length [of n] varint_bytes_length [of "n div 2 ^ 7"] varint_bytes_length [of "n div 2 ^ 14"]
      varint_bytes_length [of "n div 2 ^ 21"] varint_bytes_length [of "n div 2 ^ 28"] d e f
    by (auto simp del: power.simps)
qed

text \<open>
  C38: a variable-length number takes one byte for each started group of seven bits, at most
  five; signed numbers are first folded so that the sign is the lowest bit. Both decoders
  return the number that was packed.
\<close>

theorem varint_size:
  "length (concat (fst (pack_unsigned_int v))) =
     (if unat v < 2 ^ 7 then 1 else if unat v < 2 ^ 14 then 2 else if unat v < 2 ^ 21 then 3 else if unat v < 2 ^ 28 then 4 else 5) \<and>
   length (concat (fst (pack_signed_int w))) =
     (if unat (zigzag w) < 2 ^ 7 then 1 else if unat (zigzag w) < 2 ^ 14 then 2 else if unat (zigzag w) < 2 ^ 21 then 3
      else if unat (zigzag w) < 2 ^ 28 then 4 else 5) \<and>
   bindE (pack_to_vector (pack_unsigned_int v)) (unpack_from_vector unpack_unsigned_int) = Inr v \<and>
   bindE (pack_to_vector (pack_signed_int w)) (unpack_from_vector unpack_signed_int) = Inr w"
proof -
  have u: "length (concat (fst (pack_unsigned_int v))) = length (varint_bytes (unat v))"
    unfolding pack_unsigned_int_def by (simp add: pack_varint_length unat_u32_u64)
  have s: "length (concat (fst (pack_signed_int w))) = length (varint_bytes (unat (zigzag w)))"
    unfolding pack_signed_int_def by (simp add: pack_varint_length)
  have lu: "length (varint_bytes n) < 2 ^ 31" if "n < 2 ^ 32" for n using varint_five [OF that] by simp
  have v: "unat x < 2 ^ 32" for x :: u32 using unat_u32_less [of x] by simp
  have "trip (pack_signed_int w) unpack_signed_int w" using signed_int_codec.codec_axioms unfolding codec_iff by blast
  then show ?thesis
    using u s varint_five [OF v, of v] varint_five [OF v, of "zigzag w"] lu [OF v, of v] lu [OF v, of "zigzag w"]
      trip_vector_bytes [OF trip_unsigned_int, of v] trip_vector_bytes [of "pack_signed_int w" unpack_signed_int w] by simp
qed

lemma sint_loop_continues:
  assumes "ds_at ds (b # bs)" "b AND 0x80 \<noteq> 0" "sh < 32"
  shows "\<exists>v'. unpack_sint_loop v sh ds = unpack_sint_loop v' (sh + 7) (ds_fwd 1 ds) \<and> ds_at (ds_fwd 1 ds) bs"
proof -
  have "\<not> 32 \<le> sh" using assms(3) by simp
  then show ?thesis
    using ds_get_at [OF assms(1)] assms(2) by (subst unpack_sint_loop.simps) (auto simp only: Let_def prod.case sum.case if_True if_False not_False_eq_True)
qed

lemma sint_loop_undefined: "ds_at ds (b # bs) \<Longrightarrow> 32 \<le> sh \<Longrightarrow> fst (unpack_sint_loop v sh ds) = Inl Undefined_behaviour"
  using ds_get_at by (subst unpack_sint_loop.simps) simp

text \<open>
  \<open>unpack(signed_int&)\<close> has no limit on the number of bytes: five bytes that announce
  another one, and that byte, make it shift a 32-bit number by 35, which is undefined. The
  decoder of \<open>unsigned_int\<close> stops at five bytes and is defined on the same input.
\<close>

theorem signed_int_overrun:
  assumes "\<forall>b \<in> {b0, b1, b2, b3, b4}. b AND 0x80 \<noteq> 0"
  shows "unpack_from_vector unpack_signed_int (b0 # b1 # b2 # b3 # b4 # b5 # rest) = Inl Undefined_behaviour \<and>
    (\<exists>v. unpack_from_vector unpack_unsigned_int (b0 # b1 # b2 # b3 # b4 # b5 # rest) = Inr v)"
proof
  let ?s = "b0 # b1 # b2 # b3 # b4 # b5 # rest"
  let ?f = "\<lambda>n. ds_fwd n (ds_open ?s)"
  have a0: "ds_at (ds_open ?s) ?s" using ds_at_open [of ?s "[]"] by simp
  have g: "b0 AND 0x80 \<noteq> 0" "b1 AND 0x80 \<noteq> 0" "b2 AND 0x80 \<noteq> 0" "b3 AND 0x80 \<noteq> 0" "b4 AND 0x80 \<noteq> 0" using assms by simp_all
  note st = sint_loop_continues [OF _ g(1), of "ds_open ?s" _ 0 0] sint_loop_continues [OF _ g(2), of "?f 1" _ 7]
    sint_loop_continues [OF _ g(3), of "?f 2" _ 14] sint_loop_continues [OF _ g(4), of "?f 3" _ 21] sint_loop_continues [OF _ g(5), of "?f 4" _ 28]
  obtain v1 where 1: "unpack_sint_loop 0 0 (ds_open ?s) = unpack_sint_loop v1 7 (?f 1)" "ds_at (?f 1) (b1 # b2 # b3 # b4 # b5 # rest)"
    using st(1) a0 by auto
  obtain v2 where 2: "unpack_sint_loop v1 7 (?f 1) = unpack_sint_loop v2 14 (?f 2)" "ds_at (?f 2) (b2 # b3 # b4 # b5 # rest)"
    using st(2) 1(2) by (auto simp: numeral_2_eq_2)
  obtain v3 where 3: "unpack_sint_loop v2 14 (?f 2) = unpack_sint_loop v3 21 (?f 3)" "ds_at (?f 3) (b3 # b4 # b5 # rest)"
    using st(3) 2(2) by fastforce
  obtain v4 where 4: "unpack_sint_loop v3 21 (?f 3) = unpack_sint_loop v4 28 (?f 4)" "ds_at (?f 4) (b4 # b5 # rest)"
    using st(4) 3(2) by fastforce
  obtain v5 where 5: "unpack_sint_loop v4 28 (?f 4) = unpack_sint_loop v5 35 (?f 5)" "ds_at (?f 5) (b5 # rest)"
    using st(5) 4(2) by fastforce
  have "fst (unpack_sint_loop 0 0 (ds_open ?s)) = Inl Undefined_behaviour"
    unfolding 1(1) 2(1) 3(1) 4(1) 5(1) by (rule sint_loop_undefined [OF 5(2)]) simp
  then show "unpack_from_vector unpack_signed_int ?s = Inl Undefined_behaviour"
    by (auto simp add: unpack_from_vector_def unpack_signed_int_def bindX_def split: prod.splits sum.splits)
  show "\<exists>v. unpack_from_vector unpack_unsigned_int ?s = Inr v"
    by (simp add: unpack_from_vector_def unpack_unsigned_int_def bindX_def unpack_uint_loop.simps ds_get_def ds_open_def Let_def)
qed

theorem signed_int_overrun_witness:
  "unpack_from_vector unpack_signed_int [0x80, 0x80, 0x80, 0x80, 0x80, 0] = Inl Undefined_behaviour"
  using signed_int_overrun [of "0x80" "0x80" "0x80" "0x80" "0x80" 0 "[]"] by simp

text \<open>
  \<open>datastream::write\<close> compares the room left with the size cut to 32 bits: a block of at
  least 2^31 and less than 2^32 bytes passes the check of every stream and is written past the
  end of the buffer, where a shorter block that does not fit is rejected.
\<close>

theorem write_check_truncates:
  assumes "ds_valid ds" "length (ds_buf ds) < ds_pos ds + length d" "length d < 2 ^ 32"
  shows "fst (ds_write d ds) = (if length d < 2 ^ 31 then Inl Out_of_range else Inl Undefined_behaviour)"
proof (cases "length d < 2 ^ 31")
  case True
  then have "sint (of_nat (length d) :: u32) = int (length d)"
    by (simp add: signed_of_nat signed_take_bit_int_eq_self)
  then show ?thesis using True assms by (simp add: ds_write_def ds_left_def ds_valid_def Let_def)
next
  case False
  have "bit (of_nat (length d) :: u32) 31"
  proof -
    have "length d div 2 ^ 31 = 1" using False assms(3) by (intro div_nat_eqI) simp_all
    then have "bit (length d) 31" by (simp add: bit_iff_odd)
    then show ?thesis using bit_of_nat_iff [where 'a = u32, of "length d" 31] by simp
  qed
  then have "sint (of_nat (length d) :: u32) < 0" using bit_last_iff [of "of_nat (length d) :: u32"] by simp
  then show ?thesis using False assms by (simp add: ds_write_def ds_left_def ds_valid_def Let_def)
qed

theorem write_check_truncates_witness:
  "fst (ds_write (replicate (2 ^ 31) 7) (ds_open [0])) = Inl Undefined_behaviour"
  using write_check_truncates [of "ds_open [0]" "replicate (2 ^ 31) 7"] by (simp add: ds_valid_def ds_open_def)

text \<open>
  Unpacking into a value that is in use keeps what it held: an absent optional leaves the
  old value, and a set keeps its old elements beside the unpacked ones, so the round trip needs
  an empty target.
\<close>

theorem unpack_keeps_old:
  assumes "length xs \<le> max_num_array_elements"
  shows "bindE (pack_to_vector (pack_optional pa None)) (unpack_from_vector (unpack_optional ua old)) = Inr old \<and>
   (\<exists>zs. bindE (pack_to_vector (pack_set (pack_word 8) (xs :: u64 oset))) (unpack_from_vector (unpack_set (unpack_word 8) ys)) = Inr zs \<and>
       set zs = set xs \<union> set ys)"
proof
  have "trip (pack_optional pa None) (unpack_optional ua old) old"
    unfolding pack_optional_def unpack_optional_def by (rule trip_bind [OF trip_bool]) (simp add: trip_return)
  then show "bindE (pack_to_vector (pack_optional pa None)) (unpack_from_vector (unpack_optional ua old)) = Inr old"
    by (rule trip_vector_bytes) (simp add: pack_optional_def pack_bool_def pack_word_def seqW_def doneW_def wr_def)
  have "trip (eachW (pack_word 8) xs) (repeatX (length xs) (unpack_word 8)) xs" by (rule trip_each) (simp add: trip_word)
  from trip_map [OF this, of "\<lambda>xs. fold os_insert xs ys"]
  have "trip (pack_set (pack_word 8) xs) (unpack_set (unpack_word 8) ys) (fold os_insert xs ys)"
    unfolding pack_set_def pack_vector_def unpack_set_def
    by (intro trip_assertW [OF assms] trip_bind [OF trip_size [OF assms]]) simp
  moreover have "length (concat (fst (pack_set (pack_word 8) xs))) < 2 ^ 31"
  proof -
    have "length xs < 2 ^ 32" using assms by (simp add: max_num_array_elements_def)
    then have "pack_ok (pack_set (pack_word 8) xs) (varint_bytes (length xs) @ concat (map (le_bytes 8) xs))"
      unfolding pack_set_def pack_vector_def pack_unsigned_int_def
      using pack_varint_bytes [of "ucast (of_nat (length xs) :: u32) :: u64"]
      by (intro pack_ok_assert [OF assms] pack_ok_seqI each_word_bytes) (simp add: unat_u32_u64 unat_u32)
    then show ?thesis
      using assms varint_five [OF \<open>length xs < 2 ^ 32\<close>]
      by (simp add: pack_ok_def length_each_word max_num_array_elements_def)
  qed
  ultimately have "bindE (pack_to_vector (pack_set (pack_word 8) xs)) (unpack_from_vector (unpack_set (unpack_word 8) ys)) = Inr (fold os_insert xs ys)"
    by (rule trip_vector_bytes)
  moreover have "set (fold os_insert xs ys) = set xs \<union> set ys" by (induction xs arbitrary: ys) auto
  ultimately show "\<exists>zs. bindE (pack_to_vector (pack_set (pack_word 8) xs)) (unpack_from_vector (unpack_set (unpack_word 8) ys)) = Inr zs \<and>
       set zs = set xs \<union> set ys" by blast
qed

theorem unpack_keeps_old_witness:
  "bindE (pack_to_vector (pack_optional (pack_word 8 :: u64 \<Rightarrow> writes) None)) (unpack_from_vector (unpack_optional (unpack_word 8) (Some 5))) =
     Inr (Some (5 :: u64))"
  using unpack_keeps_old [of "[]" "pack_word 8 :: u64 \<Rightarrow> writes" "unpack_word 8" "Some (5 :: u64)"] by simp

text \<open>
  An array of integers written as one block of memory has the bytes that packing it element
  by element writes, and each of the two decoders reads what the other encoder wrote.
\<close>

theorem block_equals_elements:
  assumes "LENGTH('a::len) = 8 * k" "length (concat (map (le_bytes k) (v :: 'a word list))) < 2 ^ 31"
  shows "pack_to_vector (pack_trivial_array k v) = pack_to_vector (pack_array (pack_word k) v) \<and>
    bindE (pack_to_vector (pack_array (pack_word k) v)) (unpack_from_vector (unpack_trivial_array k (length v))) = Inr v \<and>
    bindE (pack_to_vector (pack_trivial_array k v)) (unpack_from_vector (unpack_array (length v) (unpack_word k))) = Inr v"
proof (intro conjI)
  have b: "pack_to_vector (pack_trivial_array k v) = Inr (concat (map (le_bytes k) v))"
    using pack_to_vector_bytes(2) [OF _ assms(2)] by (simp add: pack_trivial_array_def)
  have e: "pack_to_vector (pack_array (pack_word k) v) = Inr (concat (map (le_bytes k) v))"
    using pack_to_vector_bytes(2) [OF each_word_bytes assms(2)] by (simp add: pack_array_def)
  show "pack_to_vector (pack_trivial_array k v) = pack_to_vector (pack_array (pack_word k) v)" using b e by simp
  have "bindE (pack_to_vector (pack_trivial_array k v)) (unpack_from_vector (unpack_trivial_array k (length v))) = Inr v"
    by (rule trip_vector_bytes [OF trip_trivial_array [OF assms(1)]]) (use assms(2) in \<open>simp add: pack_trivial_array_def wr_def\<close>)
  then show "bindE (pack_to_vector (pack_array (pack_word k) v)) (unpack_from_vector (unpack_trivial_array k (length v))) = Inr v"
    using b e by simp
  have "trip (eachW (pack_word k) v) (repeatX (length v) (unpack_word k)) v"
    by (rule trip_each) (simp add: trip_word assms(1))
  from trip_vector_bytes [OF this] each_word_bytes [of k v] assms(2)
  have "bindE (pack_to_vector (pack_array (pack_word k) v)) (unpack_from_vector (unpack_array (length v) (unpack_word k))) = Inr v"
    by (simp add: pack_ok_def pack_array_def unpack_array_def)
  then show "bindE (pack_to_vector (pack_trivial_array k v)) (unpack_from_vector (unpack_array (length v) (unpack_word k))) = Inr v"
    using b e by simp
qed

theorem block_equals_elements_witness:
  "pack_to_vector (pack_trivial_array 4 [1, 2 :: u32]) = pack_to_vector (pack_array (pack_word 4) [1, 2 :: u32])"
  by (rule block_equals_elements [THEN conjunct1]) simp_all

end
