(* ===== verification/Mapped_File.thy ===== *)
theory Mapped_File
  imports Datastream
begin

text \<open>
  The database file (\<open>chainbase/src/pinnable_mapped_file.cpp\<close>, \<open>environment.hpp\<close>): opening
  with its checks, the three ways to hold the data (the mapped file itself, a copy on the
  heap, a copy locked in memory), loading, saving and the dirty flag. The disk is the
  contents of \<open>shared_memory.bin\<close>; a mapped region of the file is a right to access it,
  so that a write through the region changes the disk. The segment manager of Boost and the
  answers of the operating system are the fields of a \<open>platform\<close>; messages on \<open>std::cerr\<close>
  are not modelled. The platform is Linux; \<open>BOOST_VERSION\<close>, \<open>NDEBUG\<close> and \<open>__VERSION__\<close> are in its
  environment.
\<close>

section \<open>The header of the file\<close>

definition header_size :: nat where
  "header_size = 1024"

definition header_id :: u64 where
  "header_id = 0x3242444f49534f45"

datatype os_t = OS_LINUX | OS_MACOS | OS_WINDOWS | OS_OTHER

datatype arch_t = ARCH_X86_64 | ARCH_ARM | ARCH_RISCV | ARCH_OTHER

text \<open>The object representation of the two enumerations.\<close>

fun os_byte :: "os_t \<Rightarrow> u8" where
  "os_byte OS_LINUX = 0"
| "os_byte OS_MACOS = 1"
| "os_byte OS_WINDOWS = 2"
| "os_byte OS_OTHER = 3"

fun arch_byte :: "arch_t \<Rightarrow> u8" where
  "arch_byte ARCH_X86_64 = 0"
| "arch_byte ARCH_ARM = 1"
| "arch_byte ARCH_RISCV = 2"
| "arch_byte ARCH_OTHER = 3"

record environment =
  env_debug :: bool
  env_os :: os_t
  env_arch :: arch_t
  env_boost_version :: u32
  env_reserved :: "u8 list"
  env_compiler :: "u8 list"

text \<open>\<open>strncpy\<close> of the compiler version into 256 zero bytes, of which the last stays.\<close>

definition environment_new :: "bool \<Rightarrow> os_t \<Rightarrow> arch_t \<Rightarrow> u32 \<Rightarrow> u8 list \<Rightarrow> environment" where
  "environment_new debug os arch boost version =
     \<lparr>env_debug = debug, env_os = os, env_arch = arch, env_boost_version = boost, env_reserved = replicate 512 0,
      env_compiler = take 255 (takeWhile (\<lambda>b. b \<noteq> 0) version) @ replicate (256 - length (take 255 (takeWhile (\<lambda>b. b \<noteq> 0) version))) 0\<rparr>"

text \<open>The packed structure in memory, which \<open>operator==\<close> compares.\<close>

definition env_bytes :: "environment \<Rightarrow> u8 list" where
  "env_bytes e = [if env_debug e then 1 else 0, os_byte (env_os e), arch_byte (env_arch e)] @ le_bytes 4 (env_boost_version e)
     @ env_reserved e @ env_compiler e"

definition env_size :: nat where
  "env_size = 775"

definition header_dirty_bit_offset :: nat where
  "header_dirty_bit_offset = 8"

definition db_header :: "environment \<Rightarrow> u8 list" where
  "db_header e = le_bytes 8 header_id @ [0] @ env_bytes e"

section \<open>The world outside\<close>

datatype map_mode = Mapped | Heap | Locked

record disk =
  dk_file :: "u8 list option"
  dk_meta :: bool
  dk_dir :: bool

text \<open>
  \<open>sm_new n\<close> is the memory of a new segment manager of \<open>n\<close> bytes and \<open>sm_grow g\<close> what growing
  by \<open>g\<close> does to its memory; \<open>sig_poll k\<close> tells whether a signal is there at the \<open>k\<close>-th poll;
  \<open>statfs\<close> gives, if it succeeds, whether a path is a hugepagefs mount and its page size.
\<close>

record platform =
  pf_env :: environment
  sm_new :: "nat \<Rightarrow> u8 list"
  sm_grow :: "nat \<Rightarrow> u8 list \<Rightarrow> u8 list"
  sig_poll :: "nat \<Rightarrow> bool"
  try_lock :: bool
  mlock_ok :: bool
  statfs :: "string \<Rightarrow> (bool \<times> nat) option"
  creat_ok :: "string \<Rightarrow> bool"
  ftruncate_ok :: "string \<Rightarrow> bool"

section \<open>The object\<close>

text \<open>
  \<open>pm_file_region\<close>: mapped (and then writable or not); \<open>pm_region\<close>: the memory of the copy
  and whether it may be written; \<open>pm_mapping\<close>: the handle of the file is there, for writing or
  not; \<open>pm_segment\<close>: the region that the segment manager pointer points into.
\<close>

datatype segment = Seg_null | Seg_file | Seg_region

record pmf =
  pm_lock :: bool
  pm_database_name :: string
  pm_writable :: bool
  pm_mapping :: "bool option"
  pm_file_region :: "bool option"
  pm_region :: "(u8 list \<times> bool) option"
  pm_segment :: segment

definition db_size_multiple_requirement :: nat where
  "db_size_multiple_requirement = 1024 * 1024"

definition pmf_new :: "string \<Rightarrow> bool \<Rightarrow> pmf" where
  "pmf_new name writable =
     \<lparr>pm_lock = False, pm_database_name = name, pm_writable = writable, pm_mapping = None, pm_file_region = None,
      pm_region = None, pm_segment = Seg_null\<rparr>"

definition runtime_guard :: "bool \<Rightarrow> string \<Rightarrow> (disk, unit) exec" where
  "runtime_guard b msg = resX (guardE b (Runtime_error msg))"

definition file_bytes :: "disk \<Rightarrow> u8 list" where
  "file_bytes d = (case dk_file d of None \<Rightarrow> [] | Some bs \<Rightarrow> bs)"

text \<open>Writing through the mapped file: a fault when the region is not mapped for writing.\<close>

definition poke_file :: "bool option \<Rightarrow> (u8 list \<Rightarrow> u8 list) \<Rightarrow> (disk, unit) exec" where
  "poke_file region f =
     (if region = Some True then modifyX (\<lambda>d. d\<lparr>dk_file := Some (f (file_bytes d))\<rparr>) else throwX Undefined_behaviour)"

definition set_mapped_file_db_dirty :: "pmf \<Rightarrow> bool \<Rightarrow> (disk, unit) exec" where
  "set_mapped_file_db_dirty p dirty = poke_file (pm_file_region p) (\<lambda>bs. bs[header_dirty_bit_offset := if dirty then 1 else 0])"

text \<open>\<open>bip::mapped_region\<close> of a whole file: the kernel refuses an empty mapping.\<close>

definition map_file :: "bool option \<Rightarrow> bool \<Rightarrow> (disk, bool option) exec" where
  "map_file mapping rw =
     bindX getX (\<lambda>d.
     if mapping = None \<or> file_bytes d = [] then throwX (Runtime_error ''interprocess_exception'') else returnX (Some rw))"

section \<open>Opening\<close>

definition check_header :: "platform \<Rightarrow> string \<Rightarrow> bool \<Rightarrow> u8 list \<Rightarrow> unit res" where
  "check_header pf name allow_dirty bs =
     bindE (guardE (header_size \<le> length bs) (Runtime_error ''Failed to read DB header.'')) (\<lambda>_.
     let header = take header_size bs in
     bindE (guardE (le_word (take 8 header) = header_id)
       (Runtime_error (''\"'' @ name @ ''\" database format not compatible with this version of chainbase.''))) (\<lambda>_.
     bindE (guardE (allow_dirty \<or> header ! header_dirty_bit_offset = 0)
       (Runtime_error (''\"'' @ name @ ''\" database dirty flag set''))) (\<lambda>_.
     guardE (take env_size (drop (header_dirty_bit_offset + 1) header) = env_bytes (pf_env pf))
       (Runtime_error ''All environment parameters must match''))))"

definition create_file :: "platform \<Rightarrow> nat \<Rightarrow> pmf \<Rightarrow> (disk, pmf) exec" where
  "create_file pf shared_file_size p =
     bindX (modifyX (\<lambda>d. d\<lparr>dk_file := Some (replicate shared_file_size 0)\<rparr>)) (\<lambda>_.
     bindX (map_file (Some True) True) (\<lambda>region.
     bindX (poke_file region (\<lambda>bs. take header_size bs @ sm_new pf (shared_file_size - header_size))) (\<lambda>_.
     bindX (poke_file region (\<lambda>bs. db_header (pf_env pf) @ drop (length (db_header (pf_env pf))) bs)) (\<lambda>_.
     returnX (p\<lparr>pm_mapping := Some True, pm_file_region := region\<rparr>)))))"

definition open_for_writing :: "platform \<Rightarrow> nat \<Rightarrow> pmf \<Rightarrow> (disk, pmf) exec" where
  "open_for_writing pf shared_file_size p =
     bindX getX (\<lambda>d.
     let existing_file_size = length (file_bytes d);
         grow = (if shared_file_size > existing_file_size then shared_file_size - existing_file_size else 0) in
     bindX (modifyX (\<lambda>d. d\<lparr>dk_file := Some (file_bytes d @ replicate grow 0)\<rparr>)) (\<lambda>_.
     bindX (map_file (Some True) True) (\<lambda>region.
     bindX (if grow \<noteq> 0
            then poke_file region (\<lambda>bs. take header_size bs @ sm_grow pf grow (drop header_size bs))
            else returnX ()) (\<lambda>_.
     returnX (p\<lparr>pm_mapping := Some True, pm_file_region := region\<rparr>)))))"

definition open_read_only :: "pmf \<Rightarrow> (disk, pmf) exec" where
  "open_read_only p =
     bindX (map_file (Some False) False) (\<lambda>region. returnX (p\<lparr>pm_mapping := Some False, pm_file_region := region\<rparr>))"

definition lock_file :: "platform \<Rightarrow> pmf \<Rightarrow> (disk, pmf) exec" where
  "lock_file pf p =
     bindX (modifyX (\<lambda>d. d\<lparr>dk_meta := False\<rparr>)) (\<lambda>_.
     bindX (runtime_guard (try_lock pf) ''could not gain write access to the shared memory file'') (\<lambda>_.
     bindX (set_mapped_file_db_dirty p True) (\<lambda>_.
     returnX (p\<lparr>pm_lock := True\<rparr>))))"

section \<open>The copy in memory\<close>

definition om_assign :: "'k::linorder \<Rightarrow> 'v \<Rightarrow> ('k, 'v) omap \<Rightarrow> ('k, 'v) omap" where
  "om_assign k v m = om_emplace k v (om_erase k m)"

fun collect_pages :: "platform \<Rightarrow> string list \<Rightarrow> (nat, string) omap \<Rightarrow> (nat, string) omap res" where
  "collect_pages pf [] m = Inr m"
| "collect_pages pf (p # ps) m =
     (case statfs pf p of
        None \<Rightarrow> Inl (Runtime_error (''Could not statfs() path '' @ p))
      | Some (huge, bsize) \<Rightarrow>
          if \<not> huge then Inl (Runtime_error (p @ '' does not look like a hugepagefs mount''))
          else collect_pages pf ps (om_assign (bsize mod 2 ^ 32) p m))"

text \<open>
  The loop over the page sizes from the largest on, with the file size \<open>n\<close>; \<open>None\<close> when no
  size fits. The region has the access of the database.
\<close>

fun try_pages :: "platform \<Rightarrow> bool \<Rightarrow> nat \<Rightarrow> (nat \<times> string) list \<Rightarrow> (u8 list \<times> bool) option res" where
  "try_pages pf writable n [] = Inr None"
| "try_pages pf writable n ((page, path) # rest) =
     (if page = 0 then Inl Undefined_behaviour
      else if n mod page = 0
      then bindE (guardE (creat_ok pf path) (Runtime_error (''Could not open hugepage file in '' @ path))) (\<lambda>_.
           bindE (guardE (ftruncate_ok pf path) (Runtime_error ''Failed to grow hugepage file to specified size'')) (\<lambda>_.
           Inr (Some (replicate n 0, writable))))
      else try_pages pf writable n rest)"

definition get_huge_region :: "platform \<Rightarrow> pmf \<Rightarrow> string list \<Rightarrow> nat \<Rightarrow> (u8 list \<times> bool) res" where
  "get_huge_region pf p huge_paths mapped_file_size =
     bindE (collect_pages pf huge_paths []) (\<lambda>page_size_to_paths.
     bindE (try_pages pf (pm_writable p) mapped_file_size (rev page_size_to_paths)) (\<lambda>found.
     case found of Some r \<Rightarrow> Inr r | None \<Rightarrow> Inr (replicate mapped_file_size 0, True)))"

lemma multiple_pos [simp]: "0 < db_size_multiple_requirement" "db_size_multiple_requirement \<noteq> 0"
  by (simp_all add: db_size_multiple_requirement_def)

definition copy_chunk :: "nat \<Rightarrow> u8 list \<Rightarrow> u8 list \<Rightarrow> u8 list" where
  "copy_chunk offset src dst =
     take offset dst @ take db_size_multiple_requirement (drop offset src) @ drop (offset + db_size_multiple_requirement) dst"

text \<open>\<open>k\<close> counts the polls; copying past the end of the region is a fault.\<close>

function load_loop :: "platform \<Rightarrow> nat \<Rightarrow> nat \<Rightarrow> u8 list \<Rightarrow> u8 list \<Rightarrow> u8 list res" where
  "load_loop pf k offset src dst =
     (if offset = length src then Inr dst
      else if offset + db_size_multiple_requirement > length src then Inl Undefined_behaviour
      else let dst' = copy_chunk offset src dst; offset' = offset + db_size_multiple_requirement in
           if sig_poll pf k then Inl (Runtime_error ''Database load aborted'')
           else load_loop pf (Suc k) offset' src dst')"
  by pat_completeness auto
termination
  by (relation "measure (\<lambda>(pf, k, offset, src, dst). length src - offset)") (auto simp: db_size_multiple_requirement_def)

definition load_database_file :: "platform \<Rightarrow> u8 list \<Rightarrow> u8 list \<times> bool \<Rightarrow> (u8 list \<times> bool) res" where
  "load_database_file pf src region =
     (if src \<noteq> [] \<and> \<not> snd region then Inl Undefined_behaviour
      else bindE (load_loop pf 0 0 src (fst region)) (\<lambda>dst. Inr (dst, snd region)))"

fun all_zeros_loop :: "nat \<Rightarrow> u8 list \<Rightarrow> bool" where
  "all_zeros_loop 0 data = True"
| "all_zeros_loop (Suc n) data = (if (le_word (take 8 data) :: u64) \<noteq> 0 then False else all_zeros_loop n (drop 8 data))"

definition all_zeros :: "u8 list \<Rightarrow> nat \<Rightarrow> bool" where
  "all_zeros data sz = all_zeros_loop (sz div 8) data"

function save_loop :: "nat \<Rightarrow> u8 list \<Rightarrow> u8 list \<Rightarrow> u8 list res" where
  "save_loop offset src dst =
     (if offset = length dst then Inr dst
      else if offset + db_size_multiple_requirement > length dst \<or> offset + db_size_multiple_requirement > length src
      then Inl Undefined_behaviour
      else let dst' = (if \<not> all_zeros (drop offset src) db_size_multiple_requirement then copy_chunk offset src dst else dst)
           in save_loop (offset + db_size_multiple_requirement) src dst')"
  by pat_completeness auto
termination
  by (relation "measure (\<lambda>(offset, src, dst). length dst - offset)") (auto simp: copy_chunk_def db_size_multiple_requirement_def)

declare load_loop.simps [simp del] save_loop.simps [simp del]

definition save_database_file :: "pmf \<Rightarrow> u8 list \<Rightarrow> (disk, unit) exec" where
  "save_database_file p src =
     bindX getX (\<lambda>d.
     bindX (resX (save_loop 0 src (file_bytes d))) (\<lambda>bs. poke_file (pm_file_region p) (\<lambda>_. bs)))"

section \<open>The constructor\<close>

definition catchX :: "('s, 'a) exec \<Rightarrow> ('s, unit) exec \<Rightarrow> ('s, 'a) exec" where
  "catchX m h s =
     (case m s of
        (Inr x, t) \<Rightarrow> (Inr x, t)
      | (Inl Undefined_behaviour, t) \<Rightarrow> (Inl Undefined_behaviour, t)
      | (Inl e, t) \<Rightarrow> bindX h (\<lambda>_. throwX e) t)"

definition make_copy :: "platform \<Rightarrow> map_mode \<Rightarrow> string list \<Rightarrow> pmf \<Rightarrow> (disk, pmf) exec" where
  "make_copy pf mode hugepage_paths p =
     bindX getX (\<lambda>d.
     bindX (if mode = Heap then returnX (replicate (length (file_bytes d)) 0, True)
            else resX (get_huge_region pf p hugepage_paths (length (file_bytes d)))) (\<lambda>region.
     bindX (resX (load_database_file pf (file_bytes d) region)) (\<lambda>region'.
     bindX (runtime_guard (mode = Locked \<longrightarrow> mlock_ok pf) (''Failed to mlock database \"'' @ pm_database_name p @ ''\"'')) (\<lambda>_.
     returnX (p\<lparr>pm_region := Some region', pm_file_region := None\<rparr>)))))"

definition pmf_open :: "platform \<Rightarrow> string \<Rightarrow> string \<Rightarrow> bool \<Rightarrow> nat \<Rightarrow> bool \<Rightarrow> map_mode \<Rightarrow> string list \<Rightarrow> (disk, pmf) exec" where
  "pmf_open pf path name writable shared_file_size allow_dirty mode hugepage_paths =
     (let p0 = pmf_new name writable in
      bindX (runtime_guard (shared_file_size mod db_size_multiple_requirement = 0)
        (''Database must be mulitple of '' @ std_to_string (int db_size_multiple_requirement) @ '' bytes'')) (\<lambda>_.
      bindX (runtime_guard (hugepage_paths = [] \<or> mode = Locked) ''Locked mode is required for hugepage usage'') (\<lambda>_.
      bindX getX (\<lambda>d.
      bindX (runtime_guard (writable \<or> dk_file d \<noteq> None) (''database file not found at '' @ path)) (\<lambda>_.
      bindX (modifyX (\<lambda>d. d\<lparr>dk_dir := True\<rparr>)) (\<lambda>_.
      bindX (resX (case dk_file d of Some bs \<Rightarrow> check_header pf name allow_dirty bs | None \<Rightarrow> Inr ())) (\<lambda>_.
      bindX (if dk_file d = None then create_file pf shared_file_size p0
             else if writable then open_for_writing pf shared_file_size p0
             else open_read_only p0) (\<lambda>p1.
      bindX (if writable then lock_file pf p1 else returnX p1) (\<lambda>p2.
      if mode = Mapped then returnX (p2\<lparr>pm_segment := Seg_file\<rparr>)
      else bindX (catchX (make_copy pf mode hugepage_paths p2)
                         (if writable then set_mapped_file_db_dirty p2 False else returnX ())) (\<lambda>p3.
           returnX (p3\<lparr>pm_segment := Seg_region\<rparr>)))))))))))"

section \<open>Moving and closing\<close>

text \<open>The constructor and the assignment from a moved object; the handle of the file stays behind.\<close>

definition pmf_move :: "pmf \<Rightarrow> pmf \<times> pmf" where
  "pmf_move p =
     (\<lparr>pm_lock = pm_lock p, pm_database_name = pm_database_name p, pm_writable = pm_writable p, pm_mapping = None,
       pm_file_region = pm_file_region p, pm_region = pm_region p, pm_segment = pm_segment p\<rparr>,
      p\<lparr>pm_lock := False, pm_database_name := [], pm_file_region := None, pm_region := None, pm_writable := False\<rparr>)"

definition pmf_move_assign :: "pmf \<Rightarrow> pmf \<Rightarrow> pmf \<times> pmf" where
  "pmf_move_assign this p =
     (this\<lparr>pm_lock := pm_lock p, pm_database_name := pm_database_name p, pm_file_region := pm_file_region p,
       pm_region := pm_region p, pm_segment := pm_segment p, pm_writable := pm_writable p\<rparr>,
      p\<lparr>pm_lock := False, pm_database_name := [], pm_file_region := None, pm_region := None, pm_writable := False\<rparr>)"

text \<open>An exception that leaves the destructor ends the program.\<close>

definition no_throw :: "(disk, 'a) exec \<Rightarrow> (disk, 'a) exec" where
  "no_throw m d =
     (case m d of (Inl Undefined_behaviour, t) \<Rightarrow> (Inl Undefined_behaviour, t) | (Inl e, t) \<Rightarrow> (Inl Abort, t) | (Inr x, t) \<Rightarrow> (Inr x, t))"

definition pmf_destroy :: "pmf \<Rightarrow> (disk, unit) exec" where
  "pmf_destroy p =
     no_throw
      (if pm_writable p
       then (case pm_region p of
               Some (mem, _) \<Rightarrow>
                 bindX (map_file (pm_mapping p) True) (\<lambda>region.
                 bindX (save_database_file (p\<lparr>pm_file_region := region\<rparr>) mem) (\<lambda>_.
                 set_mapped_file_db_dirty (p\<lparr>pm_file_region := region\<rparr>) False))
             | None \<Rightarrow> set_mapped_file_db_dirty p False)
       else returnX ())"

section \<open>Texts\<close>

text \<open>\<open>operator>>\<close> on a word of the input: \<open>None\<close> sets the fail bit and leaves the mode.\<close>

definition read_map_mode :: "string \<Rightarrow> map_mode option" where
  "read_map_mode s =
     (if s = ''mapped'' then Some Mapped
      else if s = ''heap'' then Some Heap
      else if s = ''locked'' then Some Locked
      else None)"

fun show_map_mode :: "map_mode \<Rightarrow> string" where
  "show_map_mode Mapped = ''mapped''"
| "show_map_mode Heap = ''heap''"
| "show_map_mode Locked = ''locked''"

fun print_os :: "os_t \<Rightarrow> string" where
  "print_os OS_LINUX = ''Linux''"
| "print_os OS_MACOS = ''macOS''"
| "print_os OS_WINDOWS = ''Windows''"
| "print_os OS_OTHER = ''Unknown''"

fun print_arch :: "arch_t \<Rightarrow> string" where
  "print_arch ARCH_X86_64 = ''x86_64''"
| "print_arch ARCH_ARM = ''ARM''"
| "print_arch ARCH_RISCV = ''RISC-v''"
| "print_arch ARCH_OTHER = ''Unknown''"

definition setw_right :: "nat \<Rightarrow> string \<Rightarrow> string" where
  "setw_right n s = replicate (n - length s) CHR '' '' @ s"

definition env_text :: "environment \<Rightarrow> string" where
  "env_text dt =
     (let endl = [CHR 0x0A]; v = int (unat (env_boost_version dt));
          compiler = map (char_of \<circ> unat) (takeWhile (\<lambda>b. b \<noteq> 0) (env_compiler dt)) in
      setw_right 17 ''Compiler: '' @ compiler @ endl @
      setw_right 17 ''Debug: '' @ (if env_debug dt then ''Yes'' else ''No'') @ endl @
      setw_right 17 ''OS: '' @ print_os (env_os dt) @ endl @
      setw_right 17 ''Arch: '' @ print_arch (env_arch dt) @ endl @
      setw_right 17 ''Boost: '' @ std_to_string (v div 100000) @ ''.'' @ std_to_string (v div 100 mod 1000) @ ''.''
        @ std_to_string (v mod 100) @ endl)"

end
