(* ===== verification/Mapped_Correct.thy ===== *)
theory Mapped_Correct
  imports Mapped_File
begin

text \<open>
  The loops of the database file against their specifications: loading copies the file,
  saving copies every chunk that is not all zero, \<open>all_zeros\<close> is what it says. Then what
  opening and closing do to the disk: the life cycle of the dirty flag and of the data.
\<close>

section \<open>Testing a chunk\<close>

lemma le_word_zero:
  fixes bs :: "u8 list"
  assumes "length bs = 8"
  shows "(le_word bs :: u64) = 0 \<longleftrightarrow> (\<forall>b \<in> set bs. b = 0)"
proof
  assume "(le_word bs :: u64) = 0"
  moreover have "le_bytes 8 (le_word bs :: u64) = bs" using le_bytes_word [of bs, where 'a = 64] assms by simp
  ultimately have "bs = le_bytes 8 (0 :: u64)" by simp
  then show "\<forall>b \<in> set bs. b = 0" by (auto simp: le_bytes_def)
next
  assume "\<forall>b \<in> set bs. b = 0"
  then show "(le_word bs :: u64) = 0" by (induction bs) simp_all
qed

lemma all_zeros_loop: "8 * n \<le> length data \<Longrightarrow> all_zeros_loop n data \<longleftrightarrow> (\<forall>b \<in> set (take (8 * n) data). b = 0)"
proof (induction n arbitrary: data)
  case (Suc n)
  have "take (8 * Suc n) data = take 8 data @ take (8 * n) (drop 8 data)" by (simp add: take_add)
  moreover have "length (take 8 data) = 8" using Suc.prems by simp
  ultimately show ?case using Suc.IH [of "drop 8 data"] Suc.prems by (auto simp: le_word_zero)
qed simp

abbreviation "M \<equiv> db_size_multiple_requirement"

lemma all_zeros_chunk:
  assumes "offset + M \<le> length src"
  shows "all_zeros (drop offset src) M \<longleftrightarrow> (\<forall>i < M. src ! (offset + i) = 0)"
proof -
  have m: "8 * (M div 8) = M" by (simp add: db_size_multiple_requirement_def)
  have "all_zeros (drop offset src) M \<longleftrightarrow> (\<forall>b \<in> set (take M (drop offset src)). b = 0)"
    using all_zeros_loop [of "M div 8" "drop offset src"] assms m by (simp add: all_zeros_def)
  also have "\<dots> \<longleftrightarrow> (\<forall>i < M. src ! (offset + i) = 0)"
    using assms by (auto simp: all_set_conv_all_nth)
  finally show ?thesis .
qed

section \<open>The loops\<close>

lemma length_copy_chunk [simp]:
  "offset + M \<le> length src \<Longrightarrow> offset + M \<le> length dst \<Longrightarrow> length (copy_chunk offset src dst) = length dst"
  by (simp add: copy_chunk_def)

lemma nth_copy_chunk:
  assumes "offset + M \<le> length src" "offset + M \<le> length dst" "i < length dst"
  shows "copy_chunk offset src dst ! i = (if offset \<le> i \<and> i < offset + M then src ! i else dst ! i)"
proof -
  have "length (take M (drop offset src)) = M" "length (take offset dst) = offset" using assms by simp_all
  then show ?thesis using assms unfolding copy_chunk_def by (auto simp: nth_append simp del: length_take)
qed

lemma load_loop_copies:
  assumes "\<And>k. \<not> sig_poll pf k" "length dst = length src" "offset \<le> length src" "M dvd length src - offset"
    "\<forall>i < offset. dst ! i = src ! i"
  shows "load_loop pf k offset src dst = Inr src"
  using assms
proof (induction pf k offset src dst rule: load_loop.induct)
  case (1 pf k offset src dst)
  show ?case
  proof (cases "offset = length src")
    case True
    then have "dst = src" using 1(3,6) by (intro nth_equalityI) auto
    then show ?thesis using True by (simp add: load_loop.simps)
  next
    case False
    then have le: "offset + M \<le> length src" using 1(4,5) by (metis dvd_imp_le le_diff_conv2 le_neq_implies_less zero_less_diff add.commute)
    then have "load_loop pf (Suc k) (offset + M) src (copy_chunk offset src dst) = Inr src"
      using 1 False by (intro 1(1) [OF False _ refl refl]) (auto simp: nth_copy_chunk dvd_diff_nat diff_diff_left [symmetric] simp del: diff_diff_left)
    then show ?thesis using False le 1(2) by (subst load_loop.simps) (simp add: Let_def)
  qed
qed

text \<open>The chunk of a position is all zero.\<close>

definition zero_chunk :: "u8 list \<Rightarrow> nat \<Rightarrow> bool" where
  "zero_chunk bs i \<longleftrightarrow> (\<forall>j < M. bs ! (i div M * M + j) = 0)"

lemma save_loop_copies:
  assumes "length dst = length src" "M dvd length dst" "M dvd offset" "offset \<le> length dst"
  shows "\<exists>r. save_loop offset src dst = Inr r \<and> length r = length dst \<and>
    (\<forall>i < length dst. r ! i = (if i < offset \<or> zero_chunk src i then dst ! i else src ! i))"
  using assms
proof (induction offset src dst rule: save_loop.induct)
  case (1 offset src dst)
  show ?case
  proof (cases "offset = length dst")
    case True
    then show ?thesis by (simp add: save_loop.simps)
  next
    case False
    obtain a b where ab: "offset = M * a" "length dst = M * b" using 1(3,4) by (auto elim!: dvdE)
    then have "a < b" using False 1(5) by simp
    then have "M * Suc a \<le> M * b" by (intro mult_le_mono2) simp
    then have le: "offset + M \<le> length dst" using ab by simp
    define dst' where "dst' = (if \<not> all_zeros (drop offset src) M then copy_chunk offset src dst else dst)"
    have l: "length dst' = length dst" using le 1(2) by (simp add: dst'_def)
    have "\<not> (offset + M > length dst \<or> offset + M > length src)" using le 1(2) by simp
    from 1(1) [OF False this dst'_def] obtain r where r: "save_loop (offset + M) src dst' = Inr r" "length r = length dst'"
        "\<forall>i < length dst'. r ! i = (if i < offset + M \<or> zero_chunk src i then dst' ! i else src ! i)"
      using 1(2-4) le l by auto
    have z: "zero_chunk src i \<longleftrightarrow> all_zeros (drop offset src) M" if "offset \<le> i" "i < offset + M" for i
    proof -
      have "i div M = a" using that ab(1) by (intro div_nat_eqI) (simp_all add: mult.commute)
      then show ?thesis using all_zeros_chunk [of offset src] le 1(2) ab(1) by (simp add: zero_chunk_def mult.commute)
    qed
    have "r ! i = (if i < offset \<or> zero_chunk src i then dst ! i else src ! i)" if "i < length dst" for i
      using r(3) z [of i] nth_copy_chunk [of offset src dst i] that le l 1(2) by (auto simp: dst'_def)
    moreover have "save_loop offset src dst = Inr r"
      using r(1) False le 1(2) by (subst save_loop.simps) (simp add: dst'_def)
    ultimately show ?thesis using r(2) l by auto
  qed
qed

section \<open>Opening\<close>

definition wf_env :: "environment \<Rightarrow> bool" where
  "wf_env e \<longleftrightarrow> length (env_reserved e) = 512 \<and> length (env_compiler e) = 256"

text \<open>The segment manager stays in its memory, and the environment has its arrays.\<close>

definition wf_platform :: "platform \<Rightarrow> bool" where
  "wf_platform pf \<longleftrightarrow> wf_env (pf_env pf) \<and> (\<forall>n. length (sm_new pf n) = n) \<and> (\<forall>g bs. length (sm_grow pf g bs) = length bs)"

text \<open>A file with the header of this format and environment.\<close>

definition db_file :: "platform \<Rightarrow> u8 list \<Rightarrow> bool" where
  "db_file pf bs \<longleftrightarrow> header_size \<le> length bs \<and> le_word (take 8 bs) = header_id \<and> take env_size (drop 9 bs) = env_bytes (pf_env pf)"

abbreviation (input) is_dirty :: "u8 list \<Rightarrow> bool" where
  "is_dirty bs \<equiv> bs ! header_dirty_bit_offset \<noteq> 0"

lemma wf_env_new: "wf_env (environment_new debug os arch boost version)"
  by (simp add: wf_env_def environment_new_def)

lemma length_env_bytes: "wf_env e \<Longrightarrow> length (env_bytes e) = env_size"
  by (simp add: wf_env_def env_bytes_def env_size_def)

lemma check_header_iff: "check_header pf name allow_dirty bs = Inr () \<longleftrightarrow> db_file pf bs \<and> (allow_dirty \<or> \<not> is_dirty bs)"
  by (auto simp: check_header_def db_file_def bindE_Inr_conv Let_def header_size_def header_dirty_bit_offset_def env_size_def take_drop min_def)

lemma check_header_dirty:
  assumes "db_file pf bs" "is_dirty bs"
  shows "check_header pf' name False bs = Inl (Runtime_error (''\"'' @ name @ ''\" database dirty flag set''))"
  using assms by (simp add: check_header_def db_file_def Let_def header_size_def header_dirty_bit_offset_def min_def)

lemma db_file_update:
  assumes "db_file pf bs"
  shows "db_file pf (bs[header_dirty_bit_offset := v])" "bs[header_dirty_bit_offset := v] ! header_dirty_bit_offset = v"
  using assms by (simp_all add: db_file_def header_dirty_bit_offset_def header_size_def)

lemma db_file_extend: "db_file pf bs \<Longrightarrow> take header_size cs = take header_size bs \<Longrightarrow> length bs \<le> length cs \<Longrightarrow> db_file pf cs"
proof -
  assume a: "db_file pf bs" "take header_size cs = take header_size bs" "length bs \<le> length cs"
  have "take 8 cs = take 8 (take header_size cs)" "take 8 bs = take 8 (take header_size bs)"
    by (simp_all add: header_size_def)
  moreover have "take env_size (drop 9 cs) = take env_size (drop 9 (take header_size cs))"
    "take env_size (drop 9 bs) = take env_size (drop 9 (take header_size bs))"
    by (simp_all add: header_size_def env_size_def drop_take min_def)
  ultimately show ?thesis using a by (simp add: db_file_def)
qed

lemma file_bytes_Some [simp]: "dk_file d = Some bs \<Longrightarrow> file_bytes d = bs" "file_bytes (d\<lparr>dk_file := Some bs\<rparr>) = bs"
  by (simp_all add: file_bytes_def)

text \<open>The file after it is made as large as requested.\<close>

definition grown :: "platform \<Rightarrow> nat \<Rightarrow> u8 list \<Rightarrow> u8 list" where
  "grown pf n bs =
     (if n > length bs
      then take header_size bs @ sm_grow pf (n - length bs) (drop header_size (bs @ replicate (n - length bs) 0))
      else bs)"

lemma db_file_grown: "wf_platform pf \<Longrightarrow> db_file pf bs \<Longrightarrow> db_file pf (grown pf n bs)"
  using db_file_extend [of pf bs "grown pf n bs"] by (auto simp: grown_def wf_platform_def db_file_def header_size_def)

lemma length_grown: "wf_platform pf \<Longrightarrow> header_size \<le> length bs \<Longrightarrow> length (grown pf n bs) = max n (length bs)"
  by (auto simp: grown_def wf_platform_def max_def)

lemma open_for_writing_run:
  assumes "dk_file d = Some bs" "header_size \<le> length bs"
  shows "open_for_writing pf n p d = (Inr (p\<lparr>pm_mapping := Some True, pm_file_region := Some True\<rparr>), d\<lparr>dk_file := Some (grown pf n bs)\<rparr>)"
proof -
  have "bs \<noteq> []" using assms(2) by (auto simp: header_size_def)
  then show ?thesis using assms
    by (cases "n > length bs") (simp_all add: open_for_writing_def Let_def map_file_def bindX_run grown_def poke_file_def)
qed

definition fresh :: "platform \<Rightarrow> nat \<Rightarrow> u8 list" where
  "fresh pf n = db_header (pf_env pf) @ replicate (header_size - length (db_header (pf_env pf))) 0 @ sm_new pf (n - header_size)"

lemma length_db_header: "wf_platform pf \<Longrightarrow> length (db_header (pf_env pf)) = 784"
  by (simp add: wf_platform_def db_header_def length_env_bytes env_size_def)

lemma create_file_run:
  assumes "wf_platform pf" "header_size \<le> n"
  shows "create_file pf n p d = (Inr (p\<lparr>pm_mapping := Some True, pm_file_region := Some True\<rparr>), d\<lparr>dk_file := Some (fresh pf n)\<rparr>)"
proof -
  have "replicate n (0 :: u8) \<noteq> []" using assms(2) by (auto simp: header_size_def)
  then show ?thesis using assms length_db_header [OF assms(1)]
    by (simp add: create_file_def map_file_def bindX_run poke_file_def fresh_def header_size_def)
qed

lemma db_file_fresh:
  assumes "wf_platform pf" "header_size \<le> n"
  shows "db_file pf (fresh pf n)" "length (fresh pf n) = n"
proof -
  have e: "length (env_bytes (pf_env pf)) = env_size" using assms(1) by (simp add: wf_platform_def length_env_bytes)
  have "take 8 (fresh pf n) = le_bytes 8 header_id" "take env_size (drop 9 (fresh pf n)) = env_bytes (pf_env pf)"
    using e by (simp_all add: fresh_def db_header_def)
  moreover show "length (fresh pf n) = n"
    using assms length_db_header [OF assms(1)] by (simp add: fresh_def wf_platform_def header_size_def)
  ultimately show "db_file pf (fresh pf n)" using assms(2) by (simp add: db_file_def le_word_bytes)
qed

text \<open>What a writer that gets the lock finds on the disk, and what it makes of it.\<close>

definition base_file :: "platform \<Rightarrow> nat \<Rightarrow> disk \<Rightarrow> u8 list" where
  "base_file pf n d = (case dk_file d of None \<Rightarrow> fresh pf n | Some bs \<Rightarrow> grown pf n bs)"

definition opened :: "platform \<Rightarrow> nat \<Rightarrow> disk \<Rightarrow> disk" where
  "opened pf n d = \<lparr>dk_file = Some ((base_file pf n d)[header_dirty_bit_offset := 1]), dk_meta = False, dk_dir = True\<rparr>"

definition openable :: "platform \<Rightarrow> nat \<Rightarrow> bool \<Rightarrow> map_mode \<Rightarrow> string list \<Rightarrow> disk \<Rightarrow> bool" where
  "openable pf n allow_dirty mode hugepage_paths d \<longleftrightarrow>
     n mod M = 0 \<and> (hugepage_paths = [] \<or> mode = Locked) \<and> try_lock pf \<and>
     (case dk_file d of None \<Rightarrow> 0 < n | Some bs \<Rightarrow> db_file pf bs \<and> (allow_dirty \<or> \<not> is_dirty bs))"

definition holding :: "string \<Rightarrow> pmf" where
  "holding name =
     \<lparr>pm_lock = True, pm_database_name = name, pm_writable = True, pm_mapping = Some True, pm_file_region = Some True,
      pm_region = None, pm_segment = Seg_null\<rparr>"

lemma size_positive: "n mod M = 0 \<Longrightarrow> 0 < n \<Longrightarrow> header_size \<le> n"
proof -
  assume "n mod M = 0" "0 < n"
  then have "M \<le> n" by (intro dvd_imp_le) (simp_all add: mod_eq_0_iff_dvd)
  then show ?thesis by (simp add: header_size_def db_size_multiple_requirement_def)
qed

lemma base_file_ok:
  assumes "wf_platform pf" "openable pf n ad mode hp d"
  shows "db_file pf (base_file pf n d)" "db_file pf (file_bytes (opened pf n d))" "is_dirty (file_bytes (opened pf n d))"
proof -
  show b: "db_file pf (base_file pf n d)"
    using assms size_positive [of n] by (auto simp: base_file_def openable_def db_file_fresh db_file_grown split: option.splits)
  show "db_file pf (file_bytes (opened pf n d))" "is_dirty (file_bytes (opened pf n d))"
    using db_file_update [OF b, of 1] by (simp_all add: opened_def file_bytes_def)
qed

lemma length_base_file: 
  assumes "wf_platform pf" "openable pf n ad mode hp d" "\<forall>bs. dk_file d = Some bs \<longrightarrow> M dvd length bs"
  shows "M dvd length (base_file pf n d)"
  using assms size_positive [of n] length_grown [OF assms(1)] 
  by (auto simp: base_file_def openable_def db_file_fresh mod_eq_0_iff_dvd max_def db_file_def split: option.splits)

lemma lock_file_run:
  assumes "try_lock pf" "pm_file_region p = Some True"
  shows "lock_file pf p d = (Inr (p\<lparr>pm_lock := True\<rparr>), d\<lparr>dk_file := Some ((file_bytes d)[header_dirty_bit_offset := 1]), dk_meta := False\<rparr>)"
  using assms by (simp add: lock_file_def runtime_guard_def bindX_run set_mapped_file_db_dirty_def poke_file_def file_bytes_def)

lemma pmf_open_run:
  assumes "wf_platform pf" "openable pf n ad mode hp d"
  shows "pmf_open pf path name True n ad mode hp d =
    (if mode = Mapped then (Inr ((holding name)\<lparr>pm_segment := Seg_file\<rparr>), opened pf n d)
     else bindX (catchX (make_copy pf mode hp (holding name)) (set_mapped_file_db_dirty (holding name) False))
            (\<lambda>p. returnX (p\<lparr>pm_segment := Seg_region\<rparr>)) (opened pf n d))"
proof -
  note a = assms(2) [unfolded openable_def]
  let ?p = "(pmf_new name True)\<lparr>pm_mapping := Some True, pm_file_region := Some True\<rparr>"
  define op where "op = (if dk_file d = None then create_file pf n (pmf_new name True) else open_for_writing pf n (pmf_new name True))"
  have f: "op (d\<lparr>dk_dir := True\<rparr>) = (Inr ?p, d\<lparr>dk_dir := True, dk_file := Some (base_file pf n d)\<rparr>)"
  proof (cases "dk_file d")
    case None
    then show ?thesis using a size_positive [of n] create_file_run [OF assms(1)] by (simp add: base_file_def op_def)
  next
    case (Some bs)
    then show ?thesis using a open_for_writing_run [of "d\<lparr>dk_dir := True\<rparr>" bs] by (simp add: base_file_def db_file_def op_def)
  qed
  have h: "(case dk_file d of Some bs \<Rightarrow> check_header pf name ad bs | None \<Rightarrow> Inr ()) = Inr ()"
    using a by (auto simp: check_header_iff split: option.splits)
  have o: "d\<lparr>dk_dir := True, dk_file := Some (base_file pf n d), dk_file := Some ((base_file pf n d)[header_dirty_bit_offset := 1]), dk_meta := False\<rparr> = opened pf n d"
    by (simp add: opened_def)
  have p: "?p\<lparr>pm_lock := True\<rparr> = holding name" by (simp add: pmf_new_def holding_def)
  have l: "lock_file pf ?p (d\<lparr>dk_dir := True, dk_file := Some (base_file pf n d)\<rparr>) = (Inr (holding name), opened pf n d)"
    using lock_file_run [of pf ?p "d\<lparr>dk_dir := True, dk_file := Some (base_file pf n d)\<rparr>"] a o p by (simp add: file_bytes_def)
  have g: "runtime_guard True msg d = (Inr (), d)" for msg d by (simp add: runtime_guard_def)
  show ?thesis
    using a h f l by (cases "dk_file d") (simp_all add: pmf_open_def Let_def op_def g bindX_run)
qed

lemma catchX_ok: "m s = (Inr x, t) \<Longrightarrow> catchX m h s = (Inr x, t)"
  by (simp add: catchX_def)

lemma catchX_error: "m s = (Inl (Runtime_error e), t) \<Longrightarrow> h t = (Inr (), u) \<Longrightarrow> catchX m h s = (Inl (Runtime_error e), u)"
  by (simp add: catchX_def bindX_run)

lemma make_copy_heap:
  assumes "\<And>k. \<not> sig_poll pf k" "M dvd length (file_bytes d)"
  shows "make_copy pf Heap hp p d = (Inr (p\<lparr>pm_region := Some (file_bytes d, True), pm_file_region := None\<rparr>), d)"
proof -
  have "load_loop pf 0 0 (file_bytes d) (replicate (length (file_bytes d)) 0) = Inr (file_bytes d)"
    by (rule load_loop_copies) (use assms in simp_all)
  then show ?thesis by (simp add: make_copy_def load_database_file_def runtime_guard_def)
qed

section \<open>Closing\<close>

lemma pmf_destroy_heap:
  assumes "pm_writable p" "pm_mapping p = Some True" "pm_region p = Some (mem, b)" "dk_file d = Some bs" "bs \<noteq> []"
    "length mem = length bs" "M dvd length bs"
  obtains r where "pmf_destroy p d = (Inr (), d\<lparr>dk_file := Some (r[header_dirty_bit_offset := 0])\<rparr>)" "length r = length bs"
    "\<forall>i < length bs. r ! i = (if zero_chunk mem i then bs ! i else mem ! i)"
proof -
  obtain r where r: "save_loop 0 mem bs = Inr r" "length r = length bs"
      "\<forall>i < length bs. r ! i = (if zero_chunk mem i then bs ! i else mem ! i)"
    using save_loop_copies [of bs mem 0] assms(6,7) by auto
  have "pmf_destroy p d = (Inr (), d\<lparr>dk_file := Some (r[header_dirty_bit_offset := 0])\<rparr>)"
    using assms r(1) by (simp add: pmf_destroy_def no_throw_def map_file_def bindX_run save_database_file_def
        poke_file_def set_mapped_file_db_dirty_def file_bytes_def)
  then show thesis using that r(2,3) by blast
qed

text \<open>
  The handle of the file does not move with the object: closing a moved writable object that
  holds a copy ends the program before anything is saved.
\<close>

lemma moved_copy_not_saved:
  assumes "pm_writable p" "pm_region p = Some r"
  shows "pmf_destroy (fst (pmf_move p)) d = (Inl Abort, d)"
  using assms by (cases r) (simp add: pmf_destroy_def pmf_move_def no_throw_def map_file_def bindX_def)

text \<open>A huge page region of a read-only database is itself read-only, so loading into it faults.\<close>

lemma read_only_huge_region_faults:
  assumes "statfs pf path = Some (True, b)" "b mod 2 ^ 32 \<noteq> 0" "length src mod (b mod 2 ^ 32) = 0" "creat_ok pf path"
    "ftruncate_ok pf path" "\<not> pm_writable p" "src \<noteq> []"
  shows "bindE (get_huge_region pf p [path] (length src)) (load_database_file pf src) = Inl Undefined_behaviour"
  using assms by (simp add: get_huge_region_def om_assign_def om_emplace_def om_erase_def insort_insert_key_def load_database_file_def)

lemma map_mode_roundtrip: "read_map_mode (show_map_mode m) = Some m"
  by (cases m) (simp_all add: read_map_mode_def)

section \<open>A writer at work\<close>

text \<open>An open for writing that succeeds, in any mode: what it found and what it holds.\<close>

lemma open_success:
  assumes "pmf_open pf path name True n ad mode hp d = (Inr p, d1)"
  shows "openable pf n ad mode hp d"
proof -
  have g: "runtime_guard b msg s = (Inr x, t) \<longleftrightarrow> b \<and> t = s" for b msg s x t
    by (auto simp: runtime_guard_def bindE_Inr_conv)
  have "n mod M = 0" "hp = [] \<or> mode = Locked"
    using assms by (auto simp: pmf_open_def Let_def exec_simps g)
  moreover have "case dk_file d of None \<Rightarrow> 0 < n | Some bs \<Rightarrow> db_file pf bs \<and> (ad \<or> \<not> is_dirty bs)"
  proof (cases "dk_file d")
    case None
    then obtain q t where "create_file pf n (pmf_new name True) (d\<lparr>dk_dir := True\<rparr>) = (Inr q, t)"
      using assms by (auto simp: pmf_open_def Let_def exec_simps g)
    then show ?thesis using None by (auto simp: create_file_def map_file_def exec_simps split: if_splits)
  next
    case (Some bs)
    then have "check_header pf name ad bs = Inr ()"
      using assms by (auto simp: pmf_open_def Let_def exec_simps g)
    then show ?thesis using Some by (simp add: check_header_iff)
  qed
  moreover have "try_lock pf"
  proof -
    obtain q r t u where "lock_file pf q t = (Inr r, u)"
      using assms by (auto simp: pmf_open_def Let_def exec_simps g)
    then show ?thesis by (auto simp: lock_file_def exec_simps g)
  qed
  ultimately show ?thesis by (simp add: openable_def)
qed

lemma load_loop_ok:
  assumes "load_loop pf k offset src dst = Inr r" "length dst = length src" "offset \<le> length src"
    "\<forall>i < offset. dst ! i = src ! i"
  shows "r = src \<and> M dvd length src - offset"
  using assms
proof (induction pf k offset src dst rule: load_loop.induct)
  case (1 pf k offset src dst)
  show ?case
  proof (cases "offset = length src")
    case True
    then have "dst = src" using "1.prems" by (intro nth_equalityI) auto
    then show ?thesis using True "1.prems"(1) by (simp add: load_loop.simps)
  next
    case False
    then have s: "offset + M \<le> length src" "\<not> sig_poll pf k"
      "load_loop pf (Suc k) (offset + M) src (copy_chunk offset src dst) = Inr r"
      using "1.prems"(1) by (subst (asm) load_loop.simps, auto simp: Let_def split: if_splits)+
    have "r = src \<and> M dvd length src - (offset + M)"
      using s "1.prems"(2) False
      by (intro "1.IH" [OF False _ refl refl]) (auto simp: nth_copy_chunk "1.prems"(4))
    moreover have "length src - offset = length src - (offset + M) + M" using s(1) by simp
    ultimately show ?thesis by (metis dvd_add dvd_refl)
  qed
qed

lemma get_huge_region_ok:
  assumes "get_huge_region pf p hp n = Inr r"
  shows "fst r = replicate n 0"
proof -
  have t: "try_pages pf w n ps = Inr (Some r) \<Longrightarrow> fst r = replicate n 0" for w ps
    by (induction pf w n ps rule: try_pages.induct) (auto simp: bindE_Inr_conv split: if_splits)
  obtain ps where ps: "collect_pages pf hp [] = Inr ps" using assms by (auto simp: get_huge_region_def bindE_Inr_conv)
  obtain q where q: "try_pages pf (pm_writable p) n (rev ps) = Inr q"
    using assms ps by (auto simp: get_huge_region_def bindE_Inr_conv)
  show ?thesis using assms ps q t [of "pm_writable p" "rev ps"] by (cases q) (auto simp: get_huge_region_def)
qed

lemma make_copy_ok:
  assumes "make_copy pf mode hp p d = (Inr p', d')"
  shows "\<exists>w. p' = p\<lparr>pm_region := Some (file_bytes d, w), pm_file_region := None\<rparr> \<and> d' = d \<and> M dvd length (file_bytes d)"
proof -
  obtain r r' where r: "fst r = replicate (length (file_bytes d)) 0" "load_database_file pf (file_bytes d) r = Inr r'"
    "p' = p\<lparr>pm_region := Some r', pm_file_region := None\<rparr>" "d' = d"
    using assms by (auto simp: make_copy_def runtime_guard_def exec_simps bindE_Inr_conv split: if_splits dest: get_huge_region_ok)
  obtain m where m: "load_loop pf 0 0 (file_bytes d) (fst r) = Inr m" "r' = (m, snd r)"
    using r(2) by (auto simp: load_database_file_def bindE_Inr_conv split: if_splits)
  have "m = file_bytes d \<and> M dvd length (file_bytes d) - 0"
    by (rule load_loop_ok [OF m(1)]) (simp_all add: r(1))
  then show ?thesis using r(3,4) m(2) by auto
qed

lemma open_result:
  assumes "wf_platform pf" "pmf_open pf path name True n ad mode hp d = (Inr p, d1)"
  shows "\<exists>bs. dk_file d1 = Some bs \<and> db_file pf bs \<and> is_dirty bs \<and>
    (p = (holding name)\<lparr>pm_segment := Seg_file\<rparr> \<or>
     (\<exists>w. p = (holding name)\<lparr>pm_region := Some (bs, w), pm_file_region := None, pm_segment := Seg_region\<rparr> \<and> M dvd length bs))"
proof -
  note op = open_success [OF assms(2)]
  note b = base_file_ok(2,3) [OF assms(1) op]
  define bs where "bs = (base_file pf n d)[header_dirty_bit_offset := 1]"
  have f: "dk_file (opened pf n d) = Some bs" by (simp add: opened_def bs_def)
  show ?thesis
  proof (cases "mode = Mapped")
    case True
    then show ?thesis using pmf_open_run [OF assms(1) op, of path name] assms(2) b f by simp
  next
    case False
    let ?h = "set_mapped_file_db_dirty (holding name) False"
    have c: "bindX (catchX (make_copy pf mode hp (holding name)) ?h) (\<lambda>p. returnX (p\<lparr>pm_segment := Seg_region\<rparr>))
        (opened pf n d) = (Inr p, d1)"
      using pmf_open_run [OF assms(1) op, of path name] assms(2) False by simp
    then obtain q t where "catchX (make_copy pf mode hp (holding name)) ?h (opened pf n d) = (Inr q, t)"
      "p = q\<lparr>pm_segment := Seg_region\<rparr>" "d1 = t"
      by (auto simp: exec_simps)
    moreover from this(1) have "make_copy pf mode hp (holding name) (opened pf n d) = (Inr q, t)"
      by (auto simp: catchX_def exec_simps split: prod.splits sum.splits db_error.splits)
    ultimately show ?thesis using make_copy_ok [of pf mode hp "holding name" "opened pf n d" q t] b f by auto
  qed
qed

text \<open>
  Between opening and closing the program works on the segment: the bytes behind the header
  change, in the mapped file or in the copy, and the header stays.
\<close>

definition same_header :: "u8 list \<Rightarrow> u8 list \<Rightarrow> bool" where
  "same_header a b \<longleftrightarrow> length b = length a \<and> take header_size b = take header_size a"

definition at_work :: "pmf \<Rightarrow> disk \<Rightarrow> pmf \<Rightarrow> disk \<Rightarrow> bool" where
  "at_work p d p' d' \<longleftrightarrow>
     (case (dk_file d, dk_file d') of (Some bs, Some bs') \<Rightarrow> same_header bs bs' | _ \<Rightarrow> False) \<and>
     (case pm_region p of
        None \<Rightarrow> p' = p
      | Some (mem, w) \<Rightarrow> \<exists>mem'. same_header mem mem' \<and> p' = p\<lparr>pm_region := Some (mem', w)\<rparr>)"

lemma same_header_nth: "same_header a b \<Longrightarrow> i < header_size \<Longrightarrow> i < length a \<Longrightarrow> b ! i = a ! i"
  unfolding same_header_def by (metis nth_take)

lemma same_header_file: "same_header a b \<Longrightarrow> db_file pf a \<Longrightarrow> db_file pf b"
  using db_file_extend [of pf a b] by (simp add: same_header_def)

lemma same_header_dirty: "same_header a b \<Longrightarrow> db_file pf a \<Longrightarrow> is_dirty b \<longleftrightarrow> is_dirty a"
  using same_header_nth [of a b header_dirty_bit_offset]
  by (simp add: db_file_def header_size_def header_dirty_bit_offset_def)

lemma pmf_open_dirty:
  assumes "dk_file d = Some bs" "db_file pf bs" "is_dirty bs" "n' mod M = 0" "hp' = [] \<or> mode' = Locked"
  shows "fst (pmf_open pf' path name writable' n' False mode' hp' d) =
    Inl (Runtime_error (''\"'' @ name @ ''\" database dirty flag set''))"
  using assms(1,4,5) check_header_dirty [OF assms(2,3), of pf' name] by (simp add: pmf_open_def Let_def runtime_guard_def)

lemma close_at_work:
  assumes "wf_platform pf" "pmf_open pf path name True n ad mode hp d = (Inr p, d1)" "at_work p d1 p' d'"
  shows "\<exists>bs. pmf_destroy p' d' = (Inr (), d'\<lparr>dk_file := Some bs\<rparr>) \<and> db_file pf bs \<and> \<not> is_dirty bs"
proof -
  obtain bs where o: "dk_file d1 = Some bs" "db_file pf bs"
    "p = (holding name)\<lparr>pm_segment := Seg_file\<rparr> \<or>
     (\<exists>w. p = (holding name)\<lparr>pm_region := Some (bs, w), pm_file_region := None, pm_segment := Seg_region\<rparr> \<and> M dvd length bs)"
    using open_result [OF assms(1,2)] by blast
  then obtain bs' where f: "dk_file d' = Some bs'" "same_header bs bs'"
    using assms(3) by (auto simp: at_work_def split: option.splits)
  have ok: "db_file pf bs'" by (rule same_header_file [OF f(2) o(2)])
  from o(3) show ?thesis
  proof (elim disjE exE conjE)
    assume "p = (holding name)\<lparr>pm_segment := Seg_file\<rparr>"
    then have "p' = (holding name)\<lparr>pm_segment := Seg_file\<rparr>" using assms(3) by (simp add: at_work_def holding_def)
    then have "pmf_destroy p' d' = (Inr (), d'\<lparr>dk_file := Some (bs'[header_dirty_bit_offset := 0])\<rparr>)"
      using f(1) by (simp add: pmf_destroy_def no_throw_def set_mapped_file_db_dirty_def poke_file_def holding_def)
    then show ?thesis using db_file_update [OF ok, of 0] by (intro exI [of _ "bs'[header_dirty_bit_offset := 0]"]) simp
  next
    fix w
    assume p: "p = (holding name)\<lparr>pm_region := Some (bs, w), pm_file_region := None, pm_segment := Seg_region\<rparr>" "M dvd length bs"
    then obtain mem where m: "same_header bs mem" "p' = p\<lparr>pm_region := Some (mem, w)\<rparr>"
      using assms(3) by (auto simp: at_work_def)
    have l: "length mem = length bs'" "M dvd length bs'" using m(1) f(2) p(2) by (simp_all add: same_header_def)
    have ne: "bs' \<noteq> []" using ok by (auto simp: db_file_def header_size_def)
    obtain r where r: "pmf_destroy p' d' = (Inr (), d'\<lparr>dk_file := Some (r[header_dirty_bit_offset := 0])\<rparr>)" "length r = length bs'"
        "\<forall>i < length bs'. r ! i = (if zero_chunk mem i then bs' ! i else mem ! i)"
      by (rule pmf_destroy_heap [of p' mem w d' bs']) (use f(1) ne l m p in \<open>simp_all add: holding_def\<close>)
    have "mem ! i = bs' ! i" if "i < header_size" "i < length bs'" for i
      using same_header_nth [OF m(1) that(1)] same_header_nth [OF f(2) that(1)] that(2) f(2) by (simp add: same_header_def)
    then have "take header_size r = take header_size bs'" using r(2,3) by (intro nth_equalityI) auto
    then have "db_file pf r" using db_file_extend [OF ok, of r] r(2) by simp
    then show ?thesis using r(1) db_file_update [of pf r 0] by auto
  qed
qed

section \<open>Properties\<close>

text \<open>
  C26: a session that keeps the database on the heap. Opening a valid file whose size is a
  multiple of the chunk size loads a copy of it, marked dirty on the disk; closing writes back
  the memory, whatever it has become, and clears the mark. Byte \<open>i\<close> of the file is then the
  byte of the memory, except in chunks that are all zero in memory, which are not written and
  keep the old contents of the file.
\<close>

theorem heap_session:
  assumes "wf_platform pf" "openable pf n ad Heap [] d" "\<And>k. \<not> sig_poll pf k"
    and "\<forall>bs. dk_file d = Some bs \<longrightarrow> M dvd length bs"
    and "length mem = length (base_file pf n d)"
  shows "\<exists>p d1 d2 old new.
    pmf_open pf path name True n ad Heap [] d = (Inr p, d1) \<and>
    dk_file d1 = Some old \<and> old = (base_file pf n d)[header_dirty_bit_offset := 1] \<and> pm_region p = Some (old, True) \<and>
    pmf_destroy (p\<lparr>pm_region := Some (mem, True)\<rparr>) d1 = (Inr (), d2) \<and>
    dk_file d2 = Some new \<and> length new = length mem \<and> new ! header_dirty_bit_offset = 0 \<and>
    (\<forall>i < length mem. i \<noteq> header_dirty_bit_offset \<longrightarrow> new ! i = (if zero_chunk mem i then old ! i else mem ! i))"
proof -
  define old where "old = (base_file pf n d)[header_dirty_bit_offset := 1]"
  have f: "dk_file (opened pf n d) = Some old" by (simp add: opened_def old_def)
  have l: "M dvd length old" "length mem = length old" using length_base_file [OF assms(1,2,4)] assms(5) by (simp_all add: old_def)
  have ne: "header_dirty_bit_offset < length old" "old \<noteq> []"
    using base_file_ok(2) [OF assms(1,2)] f by (auto simp: db_file_def header_size_def header_dirty_bit_offset_def)
  define p where "p = (holding name)\<lparr>pm_region := Some (old, True), pm_file_region := None, pm_segment := Seg_region\<rparr>"
  have "make_copy pf Heap [] (holding name) (opened pf n d) =
      (Inr ((holding name)\<lparr>pm_region := Some (old, True), pm_file_region := None\<rparr>), opened pf n d)"
    using make_copy_heap [OF assms(3), of "opened pf n d"] l(1) f by simp
  then have o: "pmf_open pf path name True n ad Heap [] d = (Inr p, opened pf n d)"
    unfolding pmf_open_run [OF assms(1,2)] by (simp add: catchX_ok bindX_run p_def)
  obtain r where r: "pmf_destroy (p\<lparr>pm_region := Some (mem, True)\<rparr>) (opened pf n d) =
        (Inr (), (opened pf n d)\<lparr>dk_file := Some (r[header_dirty_bit_offset := 0])\<rparr>)"
      "length r = length old" "\<forall>i < length old. r ! i = (if zero_chunk mem i then old ! i else mem ! i)"
    by (rule pmf_destroy_heap [of "p\<lparr>pm_region := Some (mem, True)\<rparr>" mem True "opened pf n d" old])
      (use f ne l in \<open>simp_all add: p_def holding_def\<close>)
  show ?thesis
    using o f r l(2) ne(1) unfolding old_def [symmetric]
    by (intro exI [of _ p] exI [of _ "opened pf n d"] exI [of _ "(opened pf n d)\<lparr>dk_file := Some (r[header_dirty_bit_offset := 0])\<rparr>"]
        exI [of _ old] exI [of _ "r[header_dirty_bit_offset := 0]"]) (simp add: p_def)
qed

definition sample_platform :: "(nat \<Rightarrow> bool) \<Rightarrow> platform" where
  "sample_platform sig =
     \<lparr>pf_env = environment_new False OS_LINUX ARCH_X86_64 107400 [], sm_new = (\<lambda>n. replicate n 7), sm_grow = (\<lambda>_ bs. bs),
      sig_poll = sig, try_lock = True, mlock_ok = True, statfs = (\<lambda>_. None), creat_ok = (\<lambda>_. True), ftruncate_ok = (\<lambda>_. True)\<rparr>"

definition empty_disk :: disk where
  "empty_disk = \<lparr>dk_file = None, dk_meta = False, dk_dir = False\<rparr>"

lemma wf_sample_platform: "wf_platform (sample_platform sig)"
  by (simp add: wf_platform_def sample_platform_def wf_env_new)

lemma sample_openable: "openable (sample_platform sig) M ad mode [] empty_disk"
  by (simp add: openable_def sample_platform_def empty_disk_def)

text \<open>The witness: memory that has been set to zero does not reach the file.\<close>

theorem heap_session_witness:
  "\<exists>p d1 d2 new. pmf_open (sample_platform (\<lambda>_. False)) ''db'' ''db'' True M False Heap [] empty_disk = (Inr p, d1) \<and>
     pmf_destroy (p\<lparr>pm_region := Some (replicate M 0, True)\<rparr>) d1 = (Inr (), d2) \<and> dk_file d2 = Some new \<and> new ! 1024 = 7"
proof -
  let ?pf = "sample_platform (\<lambda>_. False)"
  have m: "1024 < M" "header_size \<le> M" by (simp_all add: db_size_multiple_requirement_def header_size_def)
  have b: "base_file ?pf M empty_disk = fresh ?pf M" by (simp add: base_file_def empty_disk_def)
  have l: "length (replicate M (0 :: u8)) = length (base_file ?pf M empty_disk)"
    using db_file_fresh(2) [OF wf_sample_platform m(2)] b by simp
  have "zero_chunk (replicate M 0) 1024" using m by (simp add: zero_chunk_def)
  moreover have "(base_file ?pf M empty_disk)[header_dirty_bit_offset := 1] ! 1024 = 7"
  proof -
    have "fresh ?pf M ! 1024 = sm_new ?pf (M - header_size) ! 0"
      using length_db_header [OF wf_sample_platform, of "\<lambda>_. False"] by (simp add: fresh_def nth_append header_size_def)
    also have "\<dots> = 7" using m by (simp add: sample_platform_def header_size_def)
    finally show ?thesis unfolding b by (simp add: header_dirty_bit_offset_def)
  qed
  moreover have "\<not> sig_poll ?pf k" "\<forall>bs. dk_file empty_disk = Some bs \<longrightarrow> M dvd length bs" for k
    by (simp_all add: sample_platform_def empty_disk_def)
  note s = heap_session [OF wf_sample_platform sample_openable this l, of "''db''" "''db''" False]
  ultimately show ?thesis using s m(1) by (elim exE conjE) (auto simp: header_dirty_bit_offset_def)
qed

text \<open>
  C27: the life of the dirty mark, in every mode. Whenever a writer opens the database
  successfully (mapped, on the heap or locked, with or without huge pages) the file is a
  database file and marked dirty. As long as the writer works, whatever bytes behind the header
  it changes in the file or in its copy, and for ever if it dies, every open with valid
  arguments that does not allow dirty files is refused with the dirty error, on any platform,
  for reading or writing, in any mode. Closing succeeds, and the file it leaves passes the
  header check again.
\<close>

theorem dirty_protocol:
  assumes "wf_platform pf" "pmf_open pf path name True n ad mode hp d = (Inr p, d1)"
  shows "check_header pf name True (file_bytes d1) = Inr () \<and> file_bytes d1 ! header_dirty_bit_offset \<noteq> 0 \<and>
    (\<forall>p' d'. at_work p d1 p' d' \<longrightarrow>
      (\<forall>pf' writable' n' mode' hp'. n' mod M = 0 \<and> (hp' = [] \<or> mode' = Locked) \<longrightarrow>
        fst (pmf_open pf' path name writable' n' False mode' hp' d') = Inl (Runtime_error (''\"'' @ name @ ''\" database dirty flag set''))) \<and>
      (\<exists>d2. pmf_destroy p' d' = (Inr (), d2) \<and> check_header pf name False (file_bytes d2) = Inr ()))"
proof -
  obtain bs where o: "dk_file d1 = Some bs" "db_file pf bs" "is_dirty bs"
    using open_result [OF assms] by blast
  have refused: "fst (pmf_open pf' path name writable' n' False mode' hp' d') =
      Inl (Runtime_error (''\"'' @ name @ ''\" database dirty flag set''))"
    if w: "at_work p d1 p' d'" and n: "n' mod M = 0 \<and> (hp' = [] \<or> mode' = Locked)" for p' d' pf' writable' n' mode' hp'
  proof -
    obtain bs' where f: "dk_file d' = Some bs'" "same_header bs bs'"
      using w o(1) by (auto simp: at_work_def split: option.splits)
    then show ?thesis
      using pmf_open_dirty [OF f(1), of pf] same_header_file [OF f(2) o(2)] same_header_dirty [OF f(2) o(2)] o(3) n by simp
  qed
  have "\<exists>d2. pmf_destroy p' d' = (Inr (), d2) \<and> check_header pf name False (file_bytes d2) = Inr ()"
    if "at_work p d1 p' d'" for p' d'
    using close_at_work [OF assms that] by (auto simp: check_header_iff)
  then show ?thesis using o refused by (simp add: check_header_iff)
qed

lemma sample_opens:
  "\<exists>p d1 mem. pmf_open (sample_platform (\<lambda>_. False)) ''db'' ''db'' True M False Heap [] empty_disk = (Inr p, d1) \<and>
     at_work p d1 (p\<lparr>pm_region := Some (mem[2000 := 9], True)\<rparr>) d1"
proof -
  let ?pf = "sample_platform (\<lambda>_. False)" and ?d = "opened (sample_platform (\<lambda>_. False)) M empty_disk"
  let ?bs = "file_bytes ?d"
  let ?q = "(holding ''db'')\<lparr>pm_region := Some (?bs, True), pm_file_region := None, pm_segment := Seg_region\<rparr>"
  have o: "openable ?pf M False Heap [] empty_disk" by (rule sample_openable)
  have "M dvd length ?bs"
    using length_base_file [OF wf_sample_platform o] by (simp add: opened_def file_bytes_def empty_disk_def)
  then have "make_copy ?pf Heap [] (holding ''db'') ?d = (Inr ((holding ''db'')\<lparr>pm_region := Some (?bs, True), pm_file_region := None\<rparr>), ?d)"
    by (intro make_copy_heap) (simp_all add: sample_platform_def)
  then have p: "pmf_open ?pf ''db'' ''db'' True M False Heap [] empty_disk = (Inr ?q, ?d)"
    unfolding pmf_open_run [OF wf_sample_platform o] by (simp add: catchX_ok bindX_run)
  have f: "dk_file ?d = Some ?bs" by (simp add: opened_def)
  have h: "same_header ?bs (?bs[2000 := 9])" by (simp add: same_header_def header_size_def)
  have "at_work q ?d (q\<lparr>pm_region := Some (?bs[2000 := 9], True)\<rparr>) ?d" if "pm_region q = Some (?bs, True)" for q
    unfolding at_work_def that f option.case prod.case
    using h by (intro conjI exI [of _ "?bs[2000 := 9]"]) (simp_all add: same_header_def [of ?bs ?bs])
  note w = this [of ?q]
  show ?thesis
    by (intro exI [of _ "?q"] exI [of _ ?d] exI [of _ ?bs] conjI, rule p, rule w) simp
qed

theorem dirty_protocol_witness:
  "\<exists>p d1 p' d2. pmf_open (sample_platform (\<lambda>_. False)) ''db'' ''db'' True M False Heap [] empty_disk = (Inr p, d1) \<and>
    fst (pmf_open (sample_platform (\<lambda>_. False)) ''db'' ''db'' False 0 False Mapped [] d1) =
      Inl (Runtime_error ''\"db\" database dirty flag set'') \<and>
    pmf_destroy p' d1 = (Inr (), d2) \<and> check_header (sample_platform (\<lambda>_. False)) ''db'' False (file_bytes d2) = Inr ()"
proof -
  obtain p d1 mem where o: "pmf_open (sample_platform (\<lambda>_. False)) ''db'' ''db'' True M False Heap [] empty_disk = (Inr p, d1)"
    "at_work p d1 (p\<lparr>pm_region := Some (mem[2000 := 9], True)\<rparr>) d1"
    using sample_opens by blast
  note d = dirty_protocol [OF wf_sample_platform o(1)]
  then have "fst (pmf_open (sample_platform (\<lambda>_. False)) ''db'' ''db'' False 0 False Mapped [] d1) =
      Inl (Runtime_error (''\"'' @ ''db'' @ ''\" database dirty flag set''))" using o(2) by simp
  then show ?thesis using d o by fastforce
qed

text \<open>
  A failed load clears the dirty mark without restoring what it was: when the database is
  opened on the heap with dirty files allowed and a signal arrives during the load, the file of a
  crashed writer is marked clean, and the next open takes it for consistent.
\<close>

theorem failed_load_marks_clean:
  assumes "wf_platform pf" "openable pf n True Heap [] d" "sig_poll pf 0"
    and "dk_file d = Some bs" "M \<le> length bs"
  shows "\<exists>d1. pmf_open pf path name True n True Heap [] d = (Inl (Runtime_error ''Database load aborted''), d1) \<and>
    check_header pf name False (file_bytes d1) = Inr ()"
proof -
  let ?d = "opened pf n d"
  note b = base_file_ok [OF assms(1,2)]
  have "length (file_bytes ?d) = max n (length bs)"
    using assms(2,4) length_grown [OF assms(1), of bs n] by (auto simp: opened_def file_bytes_def base_file_def openable_def db_file_def)
  then have len: "M \<le> length (file_bytes ?d)" using assms(5) by simp
  have "0 \<noteq> length (file_bytes ?d)" using len by (auto simp: db_size_multiple_requirement_def)
  then have "load_loop pf 0 0 (file_bytes ?d) dst = Inl (Runtime_error ''Database load aborted'')" for dst
    using assms(3) len by (subst load_loop.simps) simp
  then have "make_copy pf Heap [] (holding name) ?d = (Inl (Runtime_error ''Database load aborted''), ?d)"
    by (simp add: make_copy_def load_database_file_def)
  moreover have "set_mapped_file_db_dirty (holding name) False ?d =
      (Inr (), ?d\<lparr>dk_file := Some ((file_bytes ?d)[header_dirty_bit_offset := 0])\<rparr>)"
    by (simp add: set_mapped_file_db_dirty_def poke_file_def holding_def)
  ultimately have "pmf_open pf path name True n True Heap [] d =
      (Inl (Runtime_error ''Database load aborted''), ?d\<lparr>dk_file := Some ((file_bytes ?d)[header_dirty_bit_offset := 0])\<rparr>)"
    unfolding pmf_open_run [OF assms(1,2)] by (simp add: catchX_error bindX_fail)
  moreover have "check_header pf name False ((file_bytes ?d)[header_dirty_bit_offset := 0]) = Inr ()"
    using db_file_update [OF b(2), of 0] by (simp add: check_header_iff)
  ultimately show ?thesis by simp
qed

theorem failed_load_marks_clean_witness:
  "\<exists>d1. pmf_open (sample_platform (\<lambda>_. True)) ''db'' ''db'' True M True Heap [] (opened (sample_platform (\<lambda>_. False)) M empty_disk) =
      (Inl (Runtime_error ''Database load aborted''), d1) \<and>
    check_header (sample_platform (\<lambda>_. True)) ''db'' False (file_bytes d1) = Inr ()"
proof -
  let ?d = "opened (sample_platform (\<lambda>_. False)) M empty_disk"
  let ?f = "(fresh (sample_platform (\<lambda>_. False)) M)[header_dirty_bit_offset := 1]"
  have f: "dk_file ?d = Some ?f" by (simp add: opened_def base_file_def empty_disk_def)
  have "db_file (sample_platform (\<lambda>_. True)) ?f"
    using base_file_ok(2) [OF wf_sample_platform sample_openable, of "\<lambda>_. False"] f by (simp add: db_file_def sample_platform_def)
  then have "openable (sample_platform (\<lambda>_. True)) M True Heap [] ?d"
    using f by (simp add: openable_def) (simp add: sample_platform_def)
  moreover have "M \<le> length ?f"
    using db_file_fresh(2) [OF wf_sample_platform, of M "\<lambda>_. False"] by (simp add: db_size_multiple_requirement_def header_size_def)
  ultimately show ?thesis
    using failed_load_marks_clean [OF wf_sample_platform _ _ f] by (simp add: sample_platform_def)
qed

end
