(* ===== verification/Safe_Int.thy ===== *)
theory Safe_Int
  imports SD_Prelude "HOL-Library.Signed_Division"
begin

text \<open>
  Checked integers, \<open>fc::safe<T>\<close> (\<open>fc/include/fc/safe.hpp\<close>), for \<open>T\<close> one of the 32- and
  64-bit integer types. A value is an \<open>int\<close> in the range of its type; the arithmetic of \<open>T\<close>
  on a result outside that range is undefined for a signed type and wraps for an unsigned
  one. Division truncates. The comparison with \<open>-1\<close> converts \<open>-1\<close> to \<open>T\<close>.
\<close>

record itype =
  it_signed :: bool
  it_bits :: nat

definition wf_itype :: "itype \<Rightarrow> bool" where
  "wf_itype t \<longleftrightarrow> it_bits t = 32 \<or> it_bits t = 64"

definition safe_min :: "itype \<Rightarrow> int" where
  "safe_min t = (if it_signed t then - (2 ^ (it_bits t - 1)) else 0)"

definition safe_max :: "itype \<Rightarrow> int" where
  "safe_max t = (if it_signed t then 2 ^ (it_bits t - 1) - 1 else 2 ^ it_bits t - 1)"

definition in_range :: "itype \<Rightarrow> int \<Rightarrow> bool" where
  "in_range t v \<longleftrightarrow> safe_min t \<le> v \<and> v \<le> safe_max t"

definition minus_one :: "itype \<Rightarrow> int" where
  "minus_one t = (if it_signed t then - 1 else safe_max t)"

datatype safe_error = Overflow | Underflow | Divide_by_zero | Signed_overflow_undefined

text \<open>The value that an operation of \<open>T\<close> yields for the mathematical result \<open>v\<close>.\<close>

definition arith :: "itype \<Rightarrow> int \<Rightarrow> safe_error + int" where
  "arith t v =
     (if in_range t v then Inr v
      else if it_signed t then Inl Signed_overflow_undefined
      else Inr (v mod 2 ^ it_bits t))"

section \<open>Operations\<close>

text \<open>Every bound that the checks compute lies in the range of the type in the case that computes it.\<close>

definition safe_add :: "itype \<Rightarrow> int \<Rightarrow> int \<Rightarrow> safe_error + int" where
  "safe_add t a b =
     (if b > 0 \<and> a > safe_max t - b then Inl Overflow
      else if b < 0 \<and> a < safe_min t - b then Inl Underflow
      else arith t (a + b))"

definition safe_sub :: "itype \<Rightarrow> int \<Rightarrow> int \<Rightarrow> safe_error + int" where
  "safe_sub t a b =
     (if b > 0 \<and> a < safe_min t + b then Inl Underflow
      else if b < 0 \<and> a > safe_max t + b then Inl Overflow
      else arith t (a - b))"

definition safe_mul :: "itype \<Rightarrow> int \<Rightarrow> int \<Rightarrow> safe_error + int" where
  "safe_mul t a b =
     (if a > 0
      then (if b > 0
            then (if a > safe_max t sdiv b then Inl Overflow else arith t (a * b))
            else (if b < safe_min t sdiv a then Inl Underflow else arith t (a * b)))
      else (if b > 0
            then (if a < safe_min t sdiv b then Inl Underflow else arith t (a * b))
            else (if a \<noteq> 0 \<and> b < safe_max t sdiv a then Inl Overflow else arith t (a * b))))"

definition safe_div :: "itype \<Rightarrow> int \<Rightarrow> int \<Rightarrow> safe_error + int" where
  "safe_div t a b =
     (if b = 0 then Inl Divide_by_zero
      else if a = safe_min t \<and> b = minus_one t then Inl Overflow
      else arith t (a sdiv b))"

definition safe_mod :: "itype \<Rightarrow> int \<Rightarrow> int \<Rightarrow> safe_error + int" where
  "safe_mod t a b =
     (if b = 0 then Inl Divide_by_zero
      else if a = safe_min t \<and> b = minus_one t then Inl Overflow
      else arith t (a smod b))"

definition safe_neg :: "itype \<Rightarrow> int \<Rightarrow> safe_error + int" where
  "safe_neg t v = (if v = safe_min t then Inl Overflow else arith t (- v))"

text \<open>
  The assigning operators replace the value of the object unless the operation throws; the
  increments and decrements add and subtract one, and the postfix forms return the old value.
  The result is the error, if one is thrown, with the value of the object afterwards; it is
  \<open>None\<close> when the arithmetic is undefined, because then the object has no value at all.
\<close>

definition assign :: "(itype \<Rightarrow> int \<Rightarrow> int \<Rightarrow> safe_error + int) \<Rightarrow> itype \<Rightarrow> int \<Rightarrow> int \<Rightarrow> (safe_error option \<times> int) option" where
  "assign f t this b =
     (case f t this b of
        Inr v \<Rightarrow> Some (None, v)
      | Inl e \<Rightarrow> if e = Signed_overflow_undefined then None else Some (Some e, this))"

definition safe_add_assign :: "itype \<Rightarrow> int \<Rightarrow> int \<Rightarrow> (safe_error option \<times> int) option" where
  "safe_add_assign = assign safe_add"

definition safe_sub_assign :: "itype \<Rightarrow> int \<Rightarrow> int \<Rightarrow> (safe_error option \<times> int) option" where
  "safe_sub_assign = assign safe_sub"

definition safe_mul_assign :: "itype \<Rightarrow> int \<Rightarrow> int \<Rightarrow> (safe_error option \<times> int) option" where
  "safe_mul_assign = assign safe_mul"

definition safe_div_assign :: "itype \<Rightarrow> int \<Rightarrow> int \<Rightarrow> (safe_error option \<times> int) option" where
  "safe_div_assign = assign safe_div"

definition safe_mod_assign :: "itype \<Rightarrow> int \<Rightarrow> int \<Rightarrow> (safe_error option \<times> int) option" where
  "safe_mod_assign = assign safe_mod"

text \<open>The old value, returned after the assignment.\<close>

definition returning :: "int \<Rightarrow> (safe_error option \<times> int) option \<Rightarrow> ((safe_error + int) \<times> int) option" where
  "returning bak = map_option (\<lambda>(e, v). (case e of Some err \<Rightarrow> Inl err | None \<Rightarrow> Inr bak, v))"

definition safe_pre_inc :: "itype \<Rightarrow> int \<Rightarrow> (safe_error option \<times> int) option" where
  "safe_pre_inc t this = safe_add_assign t this 1"

definition safe_post_inc :: "itype \<Rightarrow> int \<Rightarrow> ((safe_error + int) \<times> int) option" where
  "safe_post_inc t this = returning this (safe_add_assign t this 1)"

definition safe_pre_dec :: "itype \<Rightarrow> int \<Rightarrow> (safe_error option \<times> int) option" where
  "safe_pre_dec t this = safe_sub_assign t this 1"

definition safe_post_dec :: "itype \<Rightarrow> int \<Rightarrow> ((safe_error + int) \<times> int) option" where
  "safe_post_dec t this = returning this (safe_sub_assign t this 1)"

text \<open>The comparisons; the overloads with a plain \<open>T\<close> on either side read the same value.\<close>

definition safe_eq :: "int \<Rightarrow> int \<Rightarrow> bool" where
  "safe_eq a b \<longleftrightarrow> a = b"

definition safe_less :: "int \<Rightarrow> int \<Rightarrow> bool" where
  "safe_less a b \<longleftrightarrow> a < b"

definition safe_greater :: "int \<Rightarrow> int \<Rightarrow> bool" where
  "safe_greater a b \<longleftrightarrow> a > b"

definition safe_neq :: "int \<Rightarrow> int \<Rightarrow> bool" where
  "safe_neq a b \<longleftrightarrow> \<not> safe_eq a b"

definition safe_le :: "int \<Rightarrow> int \<Rightarrow> bool" where
  "safe_le a b \<longleftrightarrow> \<not> safe_greater a b"

definition safe_ge :: "int \<Rightarrow> int \<Rightarrow> bool" where
  "safe_ge a b \<longleftrightarrow> \<not> safe_less a b"

section \<open>Exactness\<close>

text \<open>The specification: the exact result, or the error that tells on which side it lies.\<close>

definition exact :: "itype \<Rightarrow> int \<Rightarrow> safe_error + int" where
  "exact t v = (if v > safe_max t then Inl Overflow else if v < safe_min t then Inl Underflow else Inr v)"

lemma range_facts:
  assumes "wf_itype t"
  shows "safe_min t \<le> 0" "0 < safe_max t" "it_signed t \<Longrightarrow> safe_min t = - safe_max t - 1" "\<not> it_signed t \<Longrightarrow> safe_min t = 0"
  using assms by (auto simp: wf_itype_def safe_min_def safe_max_def)

lemma add_exact: "wf_itype t \<Longrightarrow> in_range t a \<Longrightarrow> in_range t b \<Longrightarrow> safe_add t a b = exact t (a + b)"
  by (auto simp: safe_add_def exact_def arith_def in_range_def)

lemma sub_exact: "wf_itype t \<Longrightarrow> in_range t a \<Longrightarrow> in_range t b \<Longrightarrow> safe_sub t a b = exact t (a - b)"
  by (auto simp: safe_sub_def exact_def arith_def in_range_def)

lemma sdiv_pos: "0 \<le> x \<Longrightarrow> 0 < y \<Longrightarrow> x sdiv y = x div (y :: int)"
  by (auto simp: signed_divide_int_def sgn_if)

lemma sdiv_neg_pos: "x \<le> 0 \<Longrightarrow> 0 < y \<Longrightarrow> x sdiv y = - ((- x) div (y :: int))"
  by (auto simp: signed_divide_int_def sgn_if)

lemma sdiv_pos_neg: "0 \<le> x \<Longrightarrow> y < 0 \<Longrightarrow> x sdiv y = - (x div (- y :: int))"
  by (auto simp: signed_divide_int_def sgn_if)

lemma gt_div_iff: "0 < y \<Longrightarrow> x div y < a \<longleftrightarrow> x < a * (y :: int)"
proof
  assume y: "0 < y" and "x div y < a"
  then have "y * (x div y) \<le> y * (a - 1)" by simp
  moreover have "x = y * (x div y) + x mod y" "x mod y < y" using y by simp_all
  ultimately have "x < y * (a - 1) + y" by linarith
  then show "x < a * y" by (simp add: algebra_simps)
next
  assume y: "0 < y" and x: "x < a * y"
  show "x div y < a"
  proof (rule ccontr)
    assume "\<not> x div y < a"
    then have "y * a \<le> y * (x div y)" using y by simp
    moreover have "x = y * (x div y) + x mod y" "0 \<le> x mod y" using y by simp_all
    ultimately show False using x by (simp add: mult.commute)
  qed
qed

lemma mul_sides:
  fixes a b :: int
  shows "0 < a \<Longrightarrow> 0 < b \<Longrightarrow> 0 < a * b" "0 < a \<Longrightarrow> b \<le> 0 \<Longrightarrow> a * b \<le> 0"
    "a \<le> 0 \<Longrightarrow> 0 < b \<Longrightarrow> a * b \<le> 0" "a \<le> 0 \<Longrightarrow> b \<le> 0 \<Longrightarrow> 0 \<le> a * b"
  by (simp_all add: mult_nonneg_nonpos mult_nonpos_nonneg mult_nonpos_nonpos)

lemma mul_exact:
  assumes t: "wf_itype t" and "in_range t a" "in_range t b"
  shows "safe_mul t a b = exact t (a * b)"
proof -
  note r = range_facts [OF t]
  define c where "c = a * b"
  have in_c: "arith t c = exact t c" if "safe_min t \<le> c" "c \<le> safe_max t" using that by (simp add: arith_def exact_def in_range_def)
  consider "0 < a" "0 < b" | "0 < a" "b \<le> 0" | "a \<le> 0" "0 < b" | "a < 0" "b \<le> 0" | "a = 0" "b \<le> 0" by linarith
  then show ?thesis
  proof cases
    case 1
    have "safe_max t sdiv b < a \<longleftrightarrow> safe_max t < a * b" using 1 r by (simp add: sdiv_pos gt_div_iff)
    then show ?thesis using 1 r mul_sides(1) [OF 1] in_c
      unfolding safe_mul_def c_def [symmetric] by (simp add: exact_def)
  next
    case 2
    have "b < safe_min t sdiv a \<longleftrightarrow> (- safe_min t) div a < - b" using 2 r by (simp add: sdiv_neg_pos) linarith
    also have "\<dots> \<longleftrightarrow> a * b < safe_min t" using 2 gt_div_iff [of a "- safe_min t" "- b"] by (simp add: mult.commute)
    finally show ?thesis using 2 r mul_sides(2) [OF 2] in_c
      unfolding safe_mul_def c_def [symmetric] by (simp add: exact_def)
  next
    case 3
    have "a < safe_min t sdiv b \<longleftrightarrow> (- safe_min t) div b < - a" using 3 r by (simp add: sdiv_neg_pos) linarith
    also have "\<dots> \<longleftrightarrow> a * b < safe_min t" using 3 gt_div_iff [of b "- safe_min t" "- a"] by simp
    finally show ?thesis using 3 r mul_sides(3) [OF 3] in_c
      unfolding safe_mul_def c_def [symmetric] by (simp add: exact_def)
  next
    case 4
    have "b < safe_max t sdiv a \<longleftrightarrow> safe_max t div (- a) < - b" using 4 r by (simp add: sdiv_pos_neg) linarith
    also have "\<dots> \<longleftrightarrow> safe_max t < a * b" using 4 gt_div_iff [of "- a" "safe_max t" "- b"] by (simp add: mult.commute)
    finally show ?thesis using 4 r mul_sides(4) [of a b] in_c
      unfolding safe_mul_def c_def [symmetric] by (simp add: exact_def)
  next
    case 5
    then show ?thesis using r by (auto simp: safe_mul_def exact_def arith_def in_range_def)
  qed
qed

lemma div_in_range:
  assumes t: "wf_itype t" "it_signed t" and "in_range t a" "b \<noteq> 0" "\<not> (a = safe_min t \<and> b = - 1)"
  shows "in_range t (a sdiv b)"
proof -
  note r = range_facts [OF t(1)]
  have m: "safe_min t = - safe_max t - 1" using r(3) t(2) .
  have q: "a sdiv b = sgn a * sgn b * (\<bar>a\<bar> div \<bar>b\<bar>)" by (simp add: signed_divide_int_def)
  have q0: "0 \<le> \<bar>a\<bar> div \<bar>b\<bar>" by (simp add: div_int_pos_iff)
  have "\<bar>a\<bar> div \<bar>b\<bar> \<le> \<bar>a\<bar> div 1" using assms(4) by (intro zdiv_mono2) simp_all
  then have qa: "\<bar>a\<bar> div \<bar>b\<bar> \<le> \<bar>a\<bar>" by simp
  have le: "\<bar>a\<bar> div \<bar>b\<bar> \<le> safe_max t" if "\<not> (a = safe_min t \<and> \<bar>b\<bar> = 1)"
  proof (cases "a = safe_min t")
    case True
    then have "2 \<le> \<bar>b\<bar>" using that assms(4) by linarith
    then have "\<bar>a\<bar> div \<bar>b\<bar> \<le> \<bar>a\<bar> div 2" by (simp add: zdiv_mono2)
    then show ?thesis using True m r(2) by simp
  next
    case False
    then have "\<bar>a\<bar> \<le> safe_max t" using assms(3) m unfolding in_range_def by linarith
    then show ?thesis using qa by linarith
  qed
  show ?thesis
  proof (cases "b = 1")
    case True
    then show ?thesis using q assms(3) by (simp add: abs_sgn mult.commute)
  next
    case False
    then have "\<bar>a\<bar> div \<bar>b\<bar> \<le> safe_max t" using assms(5) by (intro le) auto
    moreover have "a sdiv b = \<bar>a\<bar> div \<bar>b\<bar> \<or> a sdiv b = - (\<bar>a\<bar> div \<bar>b\<bar>)" using q q0 assms(4) by (auto simp: sgn_if)
    ultimately show ?thesis using m q0 unfolding in_range_def by linarith
  qed
qed

lemma mod_in_range:
  assumes t: "wf_itype t" "in_range t a" and "b \<noteq> 0"
  shows "in_range t (a smod b)"
proof -
  have s: "a smod b = sgn a * (\<bar>a\<bar> mod \<bar>b\<bar>)" by (rule signed_modulo_int_def)
  have "0 \<le> \<bar>a\<bar> mod \<bar>b\<bar>" "\<bar>a\<bar> mod \<bar>b\<bar> \<le> \<bar>a\<bar>" using assms(3) by (simp_all add: zmod_le_nonneg_dividend)
  then show ?thesis using s t(2) range_facts(1,2) [OF t(1)] by (auto simp: in_range_def sgn_if)
qed

lemma signed_exact:
  assumes "wf_itype t" "it_signed t" "in_range t a"
  shows "safe_neg t a = exact t (- a)"
    and "safe_div t a b = (if b = 0 then Inl Divide_by_zero else exact t (a sdiv b))"
    and "safe_mod t a b = (if b = 0 then Inl Divide_by_zero else if a = safe_min t \<and> b = - 1 then Inl Overflow else Inr (a smod b))"
proof -
  note r = range_facts [OF assms(1)]
  have m: "safe_min t = - safe_max t - 1" using r(3) assms(2) .
  have o: "minus_one t = - 1" using assms(2) by (simp add: minus_one_def)
  show "safe_neg t a = exact t (- a)"
    using assms(3) m r(2) by (auto simp: safe_neg_def exact_def arith_def in_range_def)
  show "safe_div t a b = (if b = 0 then Inl Divide_by_zero else exact t (a sdiv b))"
  proof (cases "a = safe_min t \<and> b = - 1")
    case True
    then have "a sdiv b = - a" by (simp add: signed_divide_int_def abs_sgn [symmetric] sgn_if)
    then show ?thesis using True m o by (simp add: safe_div_def exact_def)
  next
    case False
    then show ?thesis using div_in_range [OF assms, of b] o by (cases "b = 0") (auto simp: safe_div_def exact_def arith_def in_range_def)
  qed
  show "safe_mod t a b = (if b = 0 then Inl Divide_by_zero else if a = safe_min t \<and> b = - 1 then Inl Overflow else Inr (a smod b))"
    using mod_in_range [OF assms(1,3), of b] o by (auto simp: safe_mod_def arith_def)
qed

text \<open>
  C28: on a signed type the checks are exact: addition, subtraction, multiplication, division and
  negation return the mathematical result when the type can hold it, and otherwise throw the
  overflow or underflow error of the side on which it lies; division by zero throws its own error,
  and the remainder is exact except that the smallest value modulo -1 throws. No operation
  reaches undefined behaviour.
\<close>

theorem safe_signed_exact:
  assumes "wf_itype t" "it_signed t" "in_range t a" "in_range t b"
  shows "safe_add t a b = exact t (a + b) \<and> safe_sub t a b = exact t (a - b) \<and> safe_mul t a b = exact t (a * b) \<and>
    safe_neg t a = exact t (- a) \<and>
    safe_div t a b = (if b = 0 then Inl Divide_by_zero else exact t (a sdiv b)) \<and>
    safe_mod t a b = (if b = 0 then Inl Divide_by_zero else if a = safe_min t \<and> b = - 1 then Inl Overflow else Inr (a smod b))"
  using assms signed_exact [OF assms(1-3)] by (simp add: add_exact sub_exact mul_exact)

theorem safe_signed_exact_witness:
  "safe_mul \<lparr>it_signed = True, it_bits = 32\<rparr> 65536 (- 32769) = Inl Underflow"
  using safe_signed_exact [of "\<lparr>it_signed = True, it_bits = 32\<rparr>" 65536 "- 32769"]
  by (simp add: wf_itype_def in_range_def safe_min_def safe_max_def exact_def)

text \<open>
  On an unsigned type the sum, difference and product are exact too, but the checks written for
  signed types are wrong for division and negation: the conversion of -1 to the type is its
  largest value, so zero divided by the largest value throws, and negation throws for zero and
  wraps for every other value.
\<close>

lemma safe_unsigned:
  assumes "wf_itype t" "\<not> it_signed t" "in_range t a" "in_range t b"
  shows "safe_add t a b = exact t (a + b)" "safe_sub t a b = exact t (a - b)" "safe_mul t a b = exact t (a * b)"
    "safe_div t 0 (safe_max t) = Inl Overflow" "safe_mod t 0 (safe_max t) = Inl Overflow"
    "safe_neg t 0 = Inl Overflow" "0 < a \<Longrightarrow> safe_neg t a = Inr (safe_max t + 1 - a)"
proof -
  note r = range_facts [OF assms(1)]
  show "safe_add t a b = exact t (a + b)" "safe_sub t a b = exact t (a - b)" "safe_mul t a b = exact t (a * b)"
    using assms by (simp_all add: add_exact sub_exact mul_exact)
  show "safe_div t 0 (safe_max t) = Inl Overflow" "safe_mod t 0 (safe_max t) = Inl Overflow" "safe_neg t 0 = Inl Overflow"
    using r assms(2) by (simp_all add: safe_div_def safe_mod_def safe_neg_def minus_one_def)
  assume a: "0 < a"
  have "(2 ^ it_bits t - a) mod 2 ^ it_bits t = 2 ^ it_bits t - a"
    using a assms(2,3) by (intro mod_pos_pos_trivial) (auto simp: in_range_def safe_max_def)
  then have "(- a) mod 2 ^ it_bits t = 2 ^ it_bits t - a"
    using mod_add_self1 [of "2 ^ it_bits t" "- a"] by simp
  then show "safe_neg t a = Inr (safe_max t + 1 - a)"
    using a r assms(2) by (simp add: safe_neg_def arith_def in_range_def safe_max_def)
qed

lemma unsigned_div:
  assumes "wf_itype t" "\<not> it_signed t" "in_range t a" "in_range t b"
  shows "safe_div t a b = (if b = 0 then Inl Divide_by_zero else if a = 0 \<and> b = safe_max t then Inl Overflow else Inr (a div b))"
    "safe_mod t a b = (if b = 0 then Inl Divide_by_zero else if a = 0 \<and> b = safe_max t then Inl Overflow else Inr (a mod b))"
proof -
  note r = range_facts [OF assms(1)]
  have p: "0 \<le> a" "a \<le> safe_max t" "0 \<le> b" using assms(3,4) r(4) [OF assms(2)] by (simp_all add: in_range_def)
  have d: "a sdiv b = a div b" "a smod b = a mod b" if "b \<noteq> 0"
    using p that by (auto simp: signed_divide_int_def signed_modulo_int_def sgn_if)
  have "a div b \<le> a" "a mod b \<le> a" if "b \<noteq> 0"
    using p that zdiv_mono2 [of a 1 b] by (simp_all add: zmod_le_nonneg_dividend)
  then have "in_range t (a div b)" "in_range t (a mod b)" if "b \<noteq> 0"
    using p that r(4) [OF assms(2)] by (auto simp: in_range_def pos_imp_zdiv_nonneg_iff)
  then show "safe_div t a b = (if b = 0 then Inl Divide_by_zero else if a = 0 \<and> b = safe_max t then Inl Overflow else Inr (a div b))"
    "safe_mod t a b = (if b = 0 then Inl Divide_by_zero else if a = 0 \<and> b = safe_max t then Inl Overflow else Inr (a mod b))"
    using d r(4) [OF assms(2)] assms(2) by (auto simp: safe_div_def safe_mod_def minus_one_def arith_def)
qed

text \<open>
  The specification of an assignment: the object takes the exact result, or the error of its side
  is thrown and it keeps its value.
\<close>

definition stores :: "int \<Rightarrow> safe_error + int \<Rightarrow> (safe_error option \<times> int) option" where
  "stores this r = Some (case r of Inl e \<Rightarrow> (Some e, this) | Inr v \<Rightarrow> (None, v))"

lemma assign_stores:
  "f t this b = r \<Longrightarrow> r \<noteq> Inl Signed_overflow_undefined \<Longrightarrow> assign f t this b = stores this r"
  by (auto simp: assign_def stores_def split: sum.splits)

lemma exact_defined: "exact t v \<noteq> Inl Signed_overflow_undefined"
  by (simp add: exact_def)

lemma assign_exact:
  assumes "wf_itype t" "in_range t this" "in_range t b"
  shows "safe_add_assign t this b = stores this (exact t (this + b))" "safe_sub_assign t this b = stores this (exact t (this - b))"
    "safe_mul_assign t this b = stores this (exact t (this * b))"
  unfolding safe_add_assign_def safe_sub_assign_def safe_mul_assign_def
  using assms by (auto intro!: assign_stores simp: add_exact sub_exact mul_exact exact_defined)

text \<open>
  C29: the assigning operators, increments and decrements of a checked integer, on signed and
  unsigned types. From an object and an operand in the range of the type, none of them reaches
  undefined arithmetic. Sum, difference and product, and the increments and decrements, store the
  exact mathematical result when the type can hold it; otherwise they throw the overflow or
  underflow error of the side on which it lies and the object keeps its value. The postfix forms
  return the old value. Quotient and remainder are exact in the same sense; they throw for a zero
  divisor, a signed type refuses the smallest value over -1 (for the remainder too), and
  an unsigned type refuses zero over the largest value.
\<close>

theorem safe_assign_exact:
  assumes "wf_itype t" "in_range t this" "in_range t b"
  shows "safe_add_assign t this b = stores this (exact t (this + b)) \<and>
    safe_sub_assign t this b = stores this (exact t (this - b)) \<and>
    safe_mul_assign t this b = stores this (exact t (this * b)) \<and>
    safe_div_assign t this b = stores this
      (if b = 0 then Inl Divide_by_zero
       else if it_signed t then exact t (this sdiv b)
       else if this = 0 \<and> b = safe_max t then Inl Overflow else Inr (this div b)) \<and>
    safe_mod_assign t this b = stores this
      (if b = 0 then Inl Divide_by_zero
       else if it_signed t then (if this = safe_min t \<and> b = - 1 then Inl Overflow else Inr (this smod b))
       else if this = 0 \<and> b = safe_max t then Inl Overflow else Inr (this mod b)) \<and>
    safe_pre_inc t this = stores this (exact t (this + 1)) \<and>
    safe_pre_dec t this = stores this (exact t (this - 1)) \<and>
    safe_post_inc t this = Some (if this = safe_max t then (Inl Overflow, this) else (Inr this, this + 1)) \<and>
    safe_post_dec t this = Some (if this = safe_min t then (Inl Underflow, this) else (Inr this, this - 1))"
proof (intro conjI)
  note r = range_facts [OF assms(1)]
  have one: "in_range t 1" using r by (simp add: in_range_def)
  show inc: "safe_pre_inc t this = stores this (exact t (this + 1))" and dec: "safe_pre_dec t this = stores this (exact t (this - 1))"
    using assign_exact [OF assms(1,2) one] by (simp_all add: safe_pre_inc_def safe_pre_dec_def)
  show "safe_post_inc t this = Some (if this = safe_max t then (Inl Overflow, this) else (Inr this, this + 1))"
    "safe_post_dec t this = Some (if this = safe_min t then (Inl Underflow, this) else (Inr this, this - 1))"
    using inc dec assms(2) unfolding safe_post_inc_def safe_post_dec_def safe_pre_inc_def [symmetric] safe_pre_dec_def [symmetric]
    by (auto simp: returning_def stores_def exact_def in_range_def)
  show "safe_div_assign t this b = stores this
      (if b = 0 then Inl Divide_by_zero else if it_signed t then exact t (this sdiv b)
       else if this = 0 \<and> b = safe_max t then Inl Overflow else Inr (this div b))"
    unfolding safe_div_assign_def using signed_exact(2) [OF assms(1) _ assms(2)] unsigned_div(1) [OF assms(1) _ assms(2,3)]
    by (intro assign_stores) (auto simp: exact_defined)
  show "safe_mod_assign t this b = stores this
      (if b = 0 then Inl Divide_by_zero
       else if it_signed t then (if this = safe_min t \<and> b = - 1 then Inl Overflow else Inr (this smod b))
       else if this = 0 \<and> b = safe_max t then Inl Overflow else Inr (this mod b))"
    unfolding safe_mod_assign_def using signed_exact(3) [OF assms(1) _ assms(2)] unsigned_div(2) [OF assms(1) _ assms(2,3)]
    by (intro assign_stores) auto
qed (use assign_exact [OF assms] in simp_all)

theorem safe_assign_exact_witness:
  "safe_pre_inc \<lparr>it_signed = True, it_bits = 32\<rparr> 2147483647 = Some (Some Overflow, 2147483647) \<and>
   safe_sub_assign \<lparr>it_signed = False, it_bits = 64\<rparr> 5 7 = Some (Some Underflow, 5)"
  using safe_assign_exact [of "\<lparr>it_signed = True, it_bits = 32\<rparr>" 2147483647 1]
    safe_assign_exact [of "\<lparr>it_signed = False, it_bits = 64\<rparr>" 5 7]
  by (simp add: wf_itype_def in_range_def safe_min_def safe_max_def exact_def stores_def)

end
