(* ===== verification/Uint128.thy ===== *)
theory Uint128
  imports SD_Prelude
begin

text \<open>
  \<open>fc::uint128\<close> (\<open>fc/include/fc/uint128.hpp\<close>, \<open>fc/src/uint128.cpp\<close>): a 128-bit unsigned
  integer of two 64-bit halves, with its own carries, shifts, multiplication and division.
  \<open>boost::multiprecision::uint128_t\<close>, which \<open>operator/=\<close> uses, is \<open>128 word\<close>. The conversions to
  \<open>bigint\<close> and \<open>variant\<close> and the hash are not modelled.
\<close>

unbundle bit_operations_syntax

record uint128 =
  u_hi :: u64
  u_lo :: u64

section \<open>Construction and conversion\<close>

definition u128 :: "u64 \<Rightarrow> u64 \<Rightarrow> uint128" where
  "u128 h l = \<lparr>u_hi = h, u_lo = l\<rparr>"

definition u128_zero :: uint128 where
  "u128_zero = u128 0 0"

definition u128_of_uint32 :: "u32 \<Rightarrow> uint128" where
  "u128_of_uint32 l = u128 0 (ucast l)"

definition u128_of_int32 :: "u32 \<Rightarrow> uint128" where
  "u128_of_int32 l = u128 (if l <s 0 then - 1 else 0) (scast l)"

definition u128_of_int64 :: "u64 \<Rightarrow> uint128" where
  "u128_of_int64 l = u128 (if l <s 0 then - 1 else 0) l"

definition u128_of_uint64 :: "u64 \<Rightarrow> uint128" where
  "u128_of_uint64 l = u128 0 l"

definition u128_of_int128 :: "128 word \<Rightarrow> uint128" where
  "u128_of_int128 i = u128 (ucast (drop_bit 64 i)) (ucast i)"

definition u128_to_int128 :: "uint128 \<Rightarrow> 128 word" where
  "u128_to_int128 u = push_bit 64 (ucast (u_hi u)) OR ucast (u_lo u)"

definition to_integer :: "uint128 \<Rightarrow> u32 res" where
  "to_integer u =
     bindE (assertE (u_hi u = 0) ''hi == 0'') (\<lambda>_.
     let lo32 = ucast (u_lo u) in
     bindE (assertE (u_lo u = ucast lo32) ''lo == lo32'') (\<lambda>_. Inr lo32))"

definition to_uint64 :: "uint128 \<Rightarrow> u64 res" where
  "to_uint64 u = bindE (assertE (u_hi u = 0) ''hi == 0'') (\<lambda>_. Inr (u_lo u))"

definition u128_max_value :: uint128 where
  "u128_max_value = u128 (- 1) (- 1)"

section \<open>Comparison\<close>

definition u128_eq :: "uint128 \<Rightarrow> uint128 \<Rightarrow> bool" where
  "u128_eq a b \<longleftrightarrow> u_hi a = u_hi b \<and> u_lo a = u_lo b"

definition u128_neq :: "uint128 \<Rightarrow> uint128 \<Rightarrow> bool" where
  "u128_neq a b \<longleftrightarrow> u_hi a \<noteq> u_hi b \<or> u_lo a \<noteq> u_lo b"

definition u128_less :: "uint128 \<Rightarrow> uint128 \<Rightarrow> bool" where
  "u128_less a b \<longleftrightarrow> (if u_hi a = u_hi b then u_lo a < u_lo b else u_hi a < u_hi b)"

definition u128_is_zero :: "uint128 \<Rightarrow> bool" where
  "u128_is_zero u \<longleftrightarrow> \<not> (u_hi u \<noteq> 0 \<or> u_lo u \<noteq> 0)"

definition u128_greater :: "uint128 \<Rightarrow> uint128 \<Rightarrow> bool" where
  "u128_greater l r \<longleftrightarrow> u128_less r l"

definition u128_ge :: "uint128 \<Rightarrow> uint128 \<Rightarrow> bool" where
  "u128_ge l r \<longleftrightarrow> u128_eq l r \<or> u128_greater l r"

definition u128_le :: "uint128 \<Rightarrow> uint128 \<Rightarrow> bool" where
  "u128_le l r \<longleftrightarrow> u128_eq l r \<or> u128_less l r"

section \<open>Addition and bitwise operations\<close>

definition u128_inc :: "uint128 \<Rightarrow> uint128" where
  "u128_inc u = (let lo = u_lo u + 1 in u128 (u_hi u + (if lo = 0 then 1 else 0)) lo)"

definition u128_dec :: "uint128 \<Rightarrow> uint128" where
  "u128_dec u = u128 (u_hi u - (if u_lo u = 0 then 1 else 0)) (u_lo u - 1)"

definition u128_not :: "uint128 \<Rightarrow> uint128" where
  "u128_not u = u128 (NOT (u_hi u)) (NOT (u_lo u))"

definition u128_neg :: "uint128 \<Rightarrow> uint128" where
  "u128_neg u = u128_inc (u128 (NOT (u_hi u)) (NOT (u_lo u)))"

definition u128_or :: "uint128 \<Rightarrow> uint128 \<Rightarrow> uint128" where
  "u128_or a u = u128 (u_hi a OR u_hi u) (u_lo a OR u_lo u)"

definition u128_and :: "uint128 \<Rightarrow> uint128 \<Rightarrow> uint128" where
  "u128_and a u = u128 (u_hi a AND u_hi u) (u_lo a AND u_lo u)"

definition u128_xor :: "uint128 \<Rightarrow> uint128 \<Rightarrow> uint128" where
  "u128_xor a u = u128 (u_hi a XOR u_hi u) (u_lo a XOR u_lo u)"

definition u128_add :: "uint128 \<Rightarrow> uint128 \<Rightarrow> uint128" where
  "u128_add a u =
     (let old = u_lo a; lo = u_lo a + u_lo u
      in u128 (u_hi a + (u_hi u + (if lo < old then 1 else 0))) lo)"

definition u128_sub :: "uint128 \<Rightarrow> uint128 \<Rightarrow> uint128" where
  "u128_sub a u = u128_add a (u128_neg u)"

section \<open>Shifts\<close>

text \<open>
  The shift count below 128 is read with \<open>to_integer\<close>, whose assertions hold for it (lemma
  \<open>to_integer_small\<close>).
\<close>

definition u128_shl :: "uint128 \<Rightarrow> uint128 \<Rightarrow> uint128" where
  "u128_shl a rhs =
     (if u128_ge rhs (u128_of_int64 128) then u128 0 0
      else let n = unat (ucast (u_lo rhs) :: u32);
               (n, hi, lo) = (if n \<ge> 64 then (n - 64, u_lo a, 0) else (n, u_hi a, u_lo a))
           in if n \<noteq> 0
              then let mask = NOT (drop_bit n (- 1 :: u64))
                   in u128 (push_bit n hi OR drop_bit (64 - n) (lo AND mask)) (push_bit n lo)
              else u128 hi lo)"

definition u128_shr :: "uint128 \<Rightarrow> uint128 \<Rightarrow> uint128" where
  "u128_shr a rhs =
     (if u128_ge rhs (u128_of_int64 128) then u128 0 0
      else let n = unat (ucast (u_lo rhs) :: u32);
               (n, hi, lo) = (if n \<ge> 64 then (n - 64, 0, u_hi a) else (n, u_hi a, u_lo a))
           in if n \<noteq> 0
              then let mask = NOT (push_bit n (- 1 :: u64))
                   in u128 (drop_bit n hi) (drop_bit n lo OR push_bit (64 - n) (hi AND mask))
              else u128 hi lo)"

section \<open>Multiplication\<close>

definition u128_mul :: "uint128 \<Rightarrow> uint128 \<Rightarrow> uint128" where
  "u128_mul this b =
     (let a0 = ucast (ucast (u_lo this) :: u32) :: u64;
          a1 = ucast (ucast (drop_bit 32 (u_lo this)) :: u32) :: u64;
          a2 = ucast (ucast (u_hi this) :: u32) :: u64;
          a3 = ucast (ucast (drop_bit 32 (u_hi this)) :: u32) :: u64;
          b0 = ucast (ucast (u_lo b) :: u32) :: u64;
          b1 = ucast (ucast (drop_bit 32 (u_lo b)) :: u32) :: u64;
          b2 = ucast (ucast (u_hi b) :: u32) :: u64;
          b3 = ucast (ucast (drop_bit 32 (u_hi b)) :: u32) :: u64;
          t = u128 0 (a3 * b0);
          t = u128_add t (u128_of_uint64 (a2 * b1));
          t = u128_add t (u128_of_uint64 (a1 * b2));
          t = u128_add t (u128_of_uint64 (a0 * b3));
          t = u128_shl t (u128_of_int32 0x20);
          t = u128_add t (u128_of_uint64 (a2 * b0));
          t = u128_add t (u128_of_uint64 (a1 * b1));
          t = u128_add t (u128_of_uint64 (a0 * b2));
          t = u128_shl t (u128_of_int32 0x20);
          t = u128_add t (u128_of_uint64 (a1 * b0));
          t = u128_add t (u128_of_uint64 (a0 * b1));
          t = u128_shl t (u128_of_int32 0x20)
      in u128_add t (u128_of_uint64 (a0 * b0)))"

text \<open>The product of two numbers at full width: the high and the low half.\<close>

definition u128_full_product :: "uint128 \<Rightarrow> uint128 \<Rightarrow> uint128 \<times> uint128" where
  "u128_full_product a b =
     (let ah = u_hi a; al = u_lo a; bh = u_hi b; bl = u_lo b;
          s = u128_mul (u128_of_uint64 al) (u128_of_uint64 bl);
          r = u128_mul (u128_of_uint64 ah) (u128_of_uint64 bl);
          q = u128_mul (u128_of_uint64 al) (u128_of_uint64 bh);
          p = u128_mul (u128_of_uint64 ah) (u128_of_uint64 bh);
          y0 = u_lo s;
          acc = u128_of_uint64 (u_hi s);
          acc = u128_add acc (u128_of_uint64 (u_lo q));
          acc = u128_add acc (u128_of_uint64 (u_lo r));
          y1 = u_lo acc;
          acc = u128_of_uint64 (u_hi acc);
          acc = u128_add acc (u128_of_uint64 (u_hi q));
          acc = u128_add acc (u128_of_uint64 (u_hi r));
          acc = u128_add acc (u128_of_uint64 (u_lo p));
          y2 = u_lo acc;
          y3 = u_hi acc + u_hi p
      in (u128 y3 y2, u128 y1 y0))"

section \<open>Division\<close>

text \<open>
  The template \<open>divide\<close> at \<open>uint128\<close>: the first loop doubles the divisor while it fits, and would
  not end for the divisor zero; the second one subtracts it on the way back.
\<close>

partial_function (option) divide_up :: "uint128 \<Rightarrow> uint128 \<Rightarrow> uint128 \<Rightarrow> (uint128 \<times> uint128) option" where
  "divide_up n d x =
     (if u128_ge n d \<and> u128_eq (u128_and (u128_shr d (u128_of_int32 127)) (u128_of_int32 1)) (u128_of_int32 0)
      then divide_up n (u128_shl d (u128_of_int32 1)) (u128_shl x (u128_of_int32 1))
      else Some (d, x))"

text \<open>\<open>x\<close> is at most 128 bits long, so 128 rounds shift it to zero.\<close>

fun divide_down :: "nat \<Rightarrow> uint128 \<Rightarrow> uint128 \<Rightarrow> uint128 \<Rightarrow> uint128 \<Rightarrow> (uint128 \<times> uint128) option" where
  "divide_down 0 n d x answer = (if u128_neq x (u128_of_int32 0) then None else Some (answer, n))"
| "divide_down (Suc fuel) n d x answer =
     (if u128_neq x (u128_of_int32 0)
      then (let (n', answer') = (if u128_ge n d then (u128_sub n d, u128_or answer x) else (n, answer))
            in divide_down fuel n' (u128_shr d (u128_of_int32 1)) (u128_shr x (u128_of_int32 1)) answer')
      else Some (answer, n))"

definition divide :: "uint128 \<Rightarrow> uint128 \<Rightarrow> (uint128 \<times> uint128) option res" where
  "divide numerator denominator =
     (if u128_eq denominator (u128_of_int32 0) then Inl (Logic_error ''divide by zero'')
      else Inr (case divide_up numerator denominator (u128_of_int32 1) of
             None \<Rightarrow> None
           | Some (d, x) \<Rightarrow> divide_down 128 numerator d x (u128_of_int32 0)))"

definition u128_mod :: "uint128 \<Rightarrow> uint128 \<Rightarrow> uint128 option res" where
  "u128_mod this b = bindE (divide this b) (\<lambda>qr. Inr (map_option snd qr))"

text \<open>\<open>operator/=\<close> divides with Boost, which throws on the divisor zero.\<close>

definition u128_div :: "uint128 \<Rightarrow> uint128 \<Rightarrow> uint128 res" where
  "u128_div this b =
     (let self = push_bit 64 (ucast (u_hi this)) + ucast (u_lo this) :: 128 word;
          other = push_bit 64 (ucast (u_hi b)) + ucast (u_lo b) :: 128 word
      in if other = 0 then Inl (Runtime_error ''Division by zero.'')
         else let self = self div other
              in Inr (u128 (ucast (drop_bit 64 self)) (ucast (drop_bit 64 (push_bit 64 self)))))"

section \<open>Text\<close>

text \<open>The value of a character as a digit of the radix, if it is one.\<close>

definition digit_value :: "nat \<Rightarrow> char \<Rightarrow> u32 option" where
  "digit_value radix ch =
     (let c = of_char ch :: nat in
      if c \<ge> of_char (CHR ''A'') \<and> c \<le> of_char (CHR ''Z'')
      then (if c - of_char (CHR ''A'') + 10 < radix then Some (of_nat (c - of_char (CHR ''A'') + 10)) else None)
      else if c \<ge> of_char (CHR ''a'') \<and> c \<le> of_char (CHR ''z'')
      then (if c - of_char (CHR ''a'') + 10 < radix then Some (of_nat (c - of_char (CHR ''a'') + 10)) else None)
      else if c \<ge> of_char (CHR ''0'') \<and> c \<le> of_char (CHR ''9'')
      then (if c - of_char (CHR ''0'') < radix then Some (of_nat (c - of_char (CHR ''0''))) else None)
      else None)"

fun parse_digits :: "nat \<Rightarrow> string \<Rightarrow> uint128 \<Rightarrow> uint128" where
  "parse_digits radix [] u = u"
| "parse_digits radix (ch # cs) u =
     (case digit_value radix ch of
        None \<Rightarrow> u
      | Some n \<Rightarrow> parse_digits radix cs (u128_add (u128_mul u (u128_of_int32 (of_nat radix))) (u128_of_uint32 n)))"

definition u128_of_string :: "string \<Rightarrow> uint128" where
  "u128_of_string sz =
     (if sz = [] then u128 0 0
      else let minus = (hd sz = CHR ''-'');
               i = (if minus then tl sz else sz);
               (radix, i) = (if i \<noteq> [] \<and> hd i = CHR ''0''
                             then (if tl i \<noteq> [] \<and> hd (tl i) = CHR ''x'' then (16, tl (tl i)) else (8, tl i))
                             else (10, i));
               u = parse_digits radix i (u128 0 0)
           in if minus then u128_neg u else u)"

text \<open>
  \<open>operator std::string\<close>: the digits are written from the end of a buffer of 129 characters; the
  index \<open>i\<close> counts down from 127. The result is the text from the first digit to the terminator.
\<close>

definition digit_chars :: string where
  "digit_chars = ''0123456789abcdefghijklmnopqrstuvwxyz''"

fun print_loop :: "nat \<Rightarrow> uint128 \<Rightarrow> string \<Rightarrow> string res" where
  "print_loop i ii acc =
     (if u128_neq ii (u128_of_int32 0) \<and> i \<noteq> 0
      then bindE (divide ii (u128_of_int32 10)) (\<lambda>qr.
           case qr of
             None \<Rightarrow> Inl Undefined_behaviour
           | Some (q, r) \<Rightarrow>
               bindE (to_integer r) (\<lambda>k.
               if unat k < length digit_chars then print_loop (i - 1) q (digit_chars ! unat k # acc)
               else Inl Undefined_behaviour))
      else Inr acc)"

definition u128_to_string :: "uint128 \<Rightarrow> string res" where
  "u128_to_string u = (if u128_eq u (u128_of_int32 0) then Inr ''0'' else print_loop 127 u [])"

section \<open>Counting bits\<close>

definition popcount_masks :: "u64 list" where
  "popcount_masks = [0x5555555555555555, 0x3333333333333333, 0x0F0F0F0F0F0F0F0F, 0x00FF00FF00FF00FF, 0x0000FFFF0000FFFF, 0x00000000FFFFFFFF]"

fun popcount_loop :: "nat \<Rightarrow> u64 list \<Rightarrow> u64 \<Rightarrow> u64" where
  "popcount_loop w [] x = x"
| "popcount_loop w (m # ms) x = popcount_loop (w + w) ms ((x AND m) + (drop_bit w x AND m))"

definition popcount_64 :: "u64 \<Rightarrow> u8" where
  "popcount_64 x = ucast (popcount_loop 1 popcount_masks x)"

definition u128_popcount :: "uint128 \<Rightarrow> u8" where
  "u128_popcount u = popcount_64 (u_lo u) + popcount_64 (u_hi u)"

declare print_loop.simps [simp del]

end
