(* ===== verification/Uint128_Correct.thy ===== *)
theory Uint128_Correct
  imports Uint128
begin

text \<open>
  Every operation of \<open>fc::uint128\<close> is the operation of the ring of 128-bit numbers: the
  conversion \<open>val\<close> (the operator \<open>unsigned __int128\<close>) is a bijection that carries each of them
  to the operation on \<open>128 word\<close>.
\<close>

abbreviation val :: "uint128 \<Rightarrow> 128 word" where
  "val \<equiv> u128_to_int128"

named_theorems val_simps \<open>operations carried to 128-bit words\<close>

section \<open>The two halves\<close>

lemma u128_sel [simp]: "u_hi (u128 h l) = h" "u_lo (u128 h l) = l"
  by (simp_all add: u128_def)

lemma bit_val: "bit (val u) i \<longleftrightarrow> (if i < 64 then bit (u_lo u) i else bit (u_hi u) (i - 64))"
proof (cases "i < 64")
  case True
  then show ?thesis
    by (simp only: u128_to_int128_def bit_or_iff bit_push_bit_iff bit_unsigned_iff) simp
next
  case False
  then show ?thesis using bit_imp_le_length [of "u_hi u" "i - 64"] bit_imp_le_length [of "u_lo u" i]
    by (simp only: u128_to_int128_def bit_or_iff bit_push_bit_iff bit_unsigned_iff) auto
qed

lemma val_inject: "val a = val b \<longleftrightarrow> a = b"
proof
  assume v: "val a = val b"
  have "u_lo a = u_lo b"
  proof (rule bit_word_eqI)
    fix n
    assume "n < LENGTH(64)"
    then show "bit (u_lo a) n = bit (u_lo b) n" using bit_val [of a n] bit_val [of b n] v by simp
  qed
  moreover have "u_hi a = u_hi b"
  proof (rule bit_word_eqI)
    fix n
    show "bit (u_hi a) n = bit (u_hi b) n" using bit_val [of a "n + 64"] bit_val [of b "n + 64"] v by simp
  qed
  ultimately show "a = b" by (cases a; cases b) simp
qed simp

lemma val_of_int128 [val_simps]: "val (u128_of_int128 w) = w"
proof (rule bit_word_eqI)
  fix n
  assume n: "n < LENGTH(128)"
  show "bit (val (u128_of_int128 w)) n = bit w n"
  proof (cases "n < 64")
    case True
    then show ?thesis by (simp add: bit_val u128_of_int128_def bit_unsigned_iff)
  next
    case False
    then show ?thesis using n unfolding bit_val u128_of_int128_def u128_sel bit_unsigned_iff bit_drop_bit_eq by auto
  qed
qed

lemma val_sum: "val u = of_nat (unat (u_hi u)) * 2 ^ 64 + of_nat (unat (u_lo u))"
proof -
  have "push_bit 64 (ucast (u_hi u)) AND (ucast (u_lo u) :: 128 word) = 0"
    by (rule bit_word_eqI) (simp only: bit_and_iff bit_push_bit_iff bit_unsigned_iff bit_0_eq, auto dest: bit_imp_le_length)
  from disjunctive_add_eq_or [OF this] show ?thesis by (simp add: u128_to_int128_def push_bit_eq_mult)
qed

lemma unat_u64_less: "unat (x :: u64) < 2 ^ 64"
  using unsigned_less [of x] by simp

lemma unat_val: "unat (val u) = unat (u_hi u) * 2 ^ 64 + unat (u_lo u)"
proof -
  have "unat (u_hi u) * 2 ^ 64 + unat (u_lo u) < 2 ^ 128"
    using unat_u64_less [of "u_hi u"] unat_u64_less [of "u_lo u"] by simp
  moreover have "val u = of_nat (unat (u_hi u) * 2 ^ 64 + unat (u_lo u))" by (simp add: val_sum)
  ultimately show ?thesis by (simp only: unsigned_of_nat take_bit_eq_mod) simp
qed

text \<open>The high half counts modulo \<open>2^64\<close>.\<close>

lemma high_half: "of_nat (m mod 2 ^ 64) * 2 ^ 64 = (of_nat m * 2 ^ 64 :: 128 word)"
proof -
  define q r where "q = m div 2 ^ 64" and "r = m mod 2 ^ 64"
  have m: "m = q * 2 ^ 64 + r" by (simp add: q_def r_def)
  have "(of_nat m :: 128 word) * 2 ^ 64 = of_nat q * (2 ^ 64 * 2 ^ 64) + of_nat r * 2 ^ 64"
    unfolding m by (simp add: algebra_simps)
  also have "(2 ^ 64 * 2 ^ 64 :: 128 word) = 0" by simp
  finally show ?thesis by (simp add: r_def)
qed

lemma unat_plus_u64: "unat (x + y :: u64) = (unat x + unat y) mod 2 ^ 64"
  by (simp add: unat_word_ariths)


section \<open>Arithmetic\<close>

lemma val_u128: "val (u128 h l) = of_nat (unat h) * 2 ^ 64 + of_nat (unat l)"
  by (simp add: val_sum)

lemma mod_carry:
  fixes x y n :: nat
  assumes "x < n" "y < n"
  shows "(x + y) mod n < x \<longleftrightarrow> n \<le> x + y" "(x + y) mod n + (if n \<le> x + y then n else 0) = x + y"
proof -
  have "(x + y) mod n = (if x + y < n then x + y else x + y - n)" using assms by (simp add: mod_if)
  then show "(x + y) mod n < x \<longleftrightarrow> n \<le> x + y" "(x + y) mod n + (if n \<le> x + y then n else 0) = x + y"
    using assms by auto
qed

lemma carry_u64: "x + y < x \<longleftrightarrow> 2 ^ 64 \<le> unat x + unat (y :: u64)"
  unfolding word_less_nat_alt unat_plus_u64 by (rule mod_carry(1) [OF unat_u64_less unat_u64_less])

lemma low_half: "of_nat (unat (x + y :: u64)) + (if x + y < x then 2 ^ 64 else 0) = (of_nat (unat x) + of_nat (unat y) :: 128 word)"
proof -
  have "unat (x + y) + (if x + y < x then 2 ^ 64 else 0) = unat x + unat y"
    unfolding carry_u64 unat_plus_u64 by (rule mod_carry(2) [OF unat_u64_less unat_u64_less])
  then have "of_nat (unat (x + y) + (if x + y < x then 2 ^ 64 else 0)) = (of_nat (unat x + unat y) :: 128 word)" by (simp only:)
  then show ?thesis by (simp split: if_splits)
qed

lemma val_add [val_simps]: "val (u128_add a b) = val a + val b"
proof -
  define c :: u64 where "c = (if u_lo a + u_lo b < u_lo a then 1 else 0)"
  have h: "of_nat (unat (u_hi a + (u_hi b + c))) * 2 ^ 64 = (of_nat (unat (u_hi a)) + of_nat (unat (u_hi b)) + of_nat (unat c)) * (2 ^ 64 :: 128 word)"
  proof -
    have "unat (u_hi a + (u_hi b + c)) = (unat (u_hi a) + unat (u_hi b) + unat c) mod 2 ^ 64"
      unfolding unat_plus_u64 by (simp add: mod_simps add.assoc)
    then show ?thesis using high_half [of "unat (u_hi a) + unat (u_hi b) + unat c"] by (simp only: of_nat_add)
  qed
  have "of_nat (unat c) * (2 ^ 64 :: 128 word) = (if u_lo a + u_lo b < u_lo a then 2 ^ 64 else 0)" by (simp add: c_def)
  with low_half [of "u_lo a" "u_lo b"]
  have l: "of_nat (unat (u_lo a + u_lo b)) + of_nat (unat c) * 2 ^ 64 = (of_nat (unat (u_lo a)) + of_nat (unat (u_lo b)) :: 128 word)" by (simp only:)
  have "val (u128_add a b) = of_nat (unat (u_hi a + (u_hi b + c))) * 2 ^ 64 + of_nat (unat (u_lo a + u_lo b))"
    unfolding u128_add_def Let_def val_u128 c_def ..
  also have "\<dots> = (of_nat (unat (u_hi a)) + of_nat (unat (u_hi b))) * 2 ^ 64 + (of_nat (unat (u_lo a + u_lo b)) + of_nat (unat c) * 2 ^ 64)"
    unfolding h by (simp only: distrib_right add_ac)
  also have "\<dots> = val a + val b" unfolding l val_sum by (simp only: distrib_right add_ac)
  finally show ?thesis .
qed

lemma val_inc [val_simps]: "val (u128_inc u) = val u + 1"
proof -
  have "u128_inc u = u128_add u (u128 0 1)"
  proof -
    have "u_lo u + 1 = 0 \<longleftrightarrow> u_lo u + 1 < u_lo u"
    proof
      assume z: "u_lo u + 1 = 0"
      then have "u_lo u \<noteq> 0" by auto
      then show "u_lo u + 1 < u_lo u" unfolding z by (simp add: word_gt_0)
    next
      assume "u_lo u + 1 < u_lo u"
      then have "2 ^ 64 \<le> unat (u_lo u) + unat (1 :: u64)" unfolding carry_u64 .
      then have "unat (u_lo u) + 1 = 2 ^ 64" using unat_u64_less [of "u_lo u"] by simp
      then have "unat (u_lo u + 1) = 0" unfolding unat_plus_u64 by simp
      then show "u_lo u + 1 = 0" by (simp only: unat_eq_zero)
    qed
    then show ?thesis by (simp add: u128_inc_def u128_add_def Let_def)
  qed
  moreover have "val (u128 0 1) = 1" by (simp add: val_u128)
  ultimately show ?thesis by (simp add: val_add)
qed

lemma val_not [val_simps]: "val (u128_not u) = NOT (val u)"
proof (rule bit_word_eqI)
  fix n
  assume "n < LENGTH(128)"
  then show "bit (val (u128_not u)) n = bit (NOT (val u)) n" by (auto simp: bit_val u128_not_def bit_not_iff)
qed

lemma val_neg [val_simps]: "val (u128_neg u) = - val u"
proof -
  have "u128_neg u = u128_inc (u128_not u)" by (simp add: u128_neg_def u128_not_def)
  then show ?thesis by (simp add: val_inc val_not minus_eq_not_plus_1)
qed

lemma val_sub [val_simps]: "val (u128_sub a b) = val a - val b"
  by (simp add: u128_sub_def val_add val_neg)

lemma val_dec [val_simps]: "val (u128_dec u) = val u - 1"
proof -
  have "u128_inc (u128_dec u) = u" by (cases u) (simp add: u128_inc_def u128_dec_def Let_def u128_def)
  then have "val (u128_dec u) + 1 = val u" using val_inc [of "u128_dec u"] by simp
  then show ?thesis by (simp add: eq_diff_eq)
qed

lemma val_bitwise [val_simps]:
  "val (u128_or a b) = val a OR val b" "val (u128_and a b) = val a AND val b" "val (u128_xor a b) = val a XOR val b"
  by (rule bit_word_eqI, simp add: bit_val u128_or_def u128_and_def u128_xor_def bit_or_iff bit_and_iff bit_xor_iff)+

lemma val_less [val_simps]: "u128_less a b \<longleftrightarrow> val a < val b"
proof -
  have "unat (u_lo a) < 2 ^ 64" "unat (u_lo b) < 2 ^ 64" by (rule unat_u64_less)+
  moreover have "x * n + r < y * n + s \<longleftrightarrow> (if x = y then r < s else x < y)" if "r < n" "s < n" for x y r s n :: nat
  proof (cases x y rule: linorder_cases)
    case less
    then have "Suc x * n \<le> y * n" by (intro mult_le_mono1) simp
    then show ?thesis using less that by simp
  next
    case greater
    then have "Suc y * n \<le> x * n" by (intro mult_le_mono1) simp
    then show ?thesis using greater that by simp
  qed simp
  ultimately show ?thesis
    unfolding u128_less_def word_less_nat_alt unat_val word_unat_eq_iff by blast
qed

lemma val_compare [val_simps]:
  "u128_eq a b \<longleftrightarrow> val a = val b" "u128_neq a b \<longleftrightarrow> val a \<noteq> val b" "u128_is_zero a \<longleftrightarrow> val a = 0"
  "u128_greater a b \<longleftrightarrow> val b < val a" "u128_ge a b \<longleftrightarrow> val b \<le> val a" "u128_le a b \<longleftrightarrow> val a \<le> val b"
proof -
  show e: "u128_eq a b \<longleftrightarrow> val a = val b" for a b by (cases a; cases b) (simp add: val_inject u128_eq_def)
  show "u128_neq a b \<longleftrightarrow> val a \<noteq> val b" by (cases a; cases b) (simp add: val_inject u128_neq_def)
  have z: "val (u128 0 0) = 0" by (simp add: val_u128)
  show "u128_is_zero a \<longleftrightarrow> val a = 0"
    using e [of a "u128 0 0"] unfolding z by (simp add: u128_is_zero_def u128_eq_def)
  show "u128_greater a b \<longleftrightarrow> val b < val a" "u128_ge a b \<longleftrightarrow> val b \<le> val a" "u128_le a b \<longleftrightarrow> val a \<le> val b"
    unfolding u128_ge_def u128_le_def u128_greater_def e val_less by auto
qed

section \<open>Shifts\<close>

lemma val_of_uint [val_simps]:
  "val (u128_of_uint64 l) = ucast l" "val (u128_of_uint32 k) = ucast k" "val u128_zero = 0" "val u128_max_value = - 1"
proof -
  have "(ucast (ucast k :: u64) :: 128 word) = ucast k" by (rule bit_word_eqI) (auto simp: bit_unsigned_iff dest: bit_imp_le_length)
  then show "val (u128_of_uint64 l) = ucast l" "val (u128_of_uint32 k) = ucast k" "val u128_zero = 0"
    by (simp_all add: u128_of_uint64_def u128_of_uint32_def u128_zero_def val_u128)
  show "val u128_max_value = - 1" by (rule bit_word_eqI) (auto simp: u128_max_value_def bit_val)
qed

lemma val_of_int_literal: "val (u128_of_int64 128) = 128" "val (u128_of_int32 32) = 32" "val (u128_of_int32 10) = 10"
  by (simp_all add: u128_of_int64_def u128_of_int32_def val_u128 word_sless_alt)

lemma shift_count:
  assumes "\<not> u128_ge rhs (u128_of_int64 128)"
  shows "unat (ucast (u_lo rhs) :: u32) = unat (val rhs)" "unat (val rhs) < 128"
proof -
  have "val rhs < 128" using assms by (simp add: val_compare val_of_int_literal)
  then show v: "unat (val rhs) < 128" by (simp add: word_less_nat_alt)
  have "\<not> 1 \<le> unat (u_hi rhs)"
  proof
    assume "1 \<le> unat (u_hi rhs)"
    then have "1 * 2 ^ 64 \<le> unat (u_hi rhs) * 2 ^ 64" by (rule mult_le_mono1)
    then show False using v unfolding unat_val by simp
  qed
  then have lo: "unat (val rhs) = unat (u_lo rhs)" by (simp add: unat_val)
  then have "take_bit 32 (unat (u_lo rhs)) = unat (u_lo rhs)" using v by (simp add: take_bit_nat_eq_self)
  then show "unat (ucast (u_lo rhs) :: u32) = unat (val rhs)" using lo by (simp add: unsigned_ucast_eq)
qed

lemma to_integer_small: "\<not> u128_ge rhs (u128_of_int64 128) \<Longrightarrow> to_integer rhs = Inr (ucast (u_lo rhs))"
proof -
  assume a: "\<not> u128_ge rhs (u128_of_int64 128)"
  have v: "unat (u_hi rhs) * 2 ^ 64 + unat (u_lo rhs) < 128" using shift_count(2) [OF a] unfolding unat_val .
  then have "unat (u_hi rhs) = 0" by (cases "unat (u_hi rhs)") simp_all
  then have "u_hi rhs = 0" by (simp only: unat_eq_zero)
  moreover have "u_lo rhs = ucast (ucast (u_lo rhs) :: u32)"
  proof (rule word_unat_eq_iff [THEN iffD2])
    have "take_bit 32 (unat (u_lo rhs)) = unat (u_lo rhs)" using v by (simp add: take_bit_nat_eq_self)
    then show "unat (u_lo rhs) = unat (ucast (ucast (u_lo rhs) :: u32) :: u64)"
      by (simp add: unsigned_ucast_eq unsigned_take_bit_eq)
  qed
  ultimately show ?thesis by (simp add: to_integer_def Let_def)
qed

lemma bit_mask_shifts:
  assumes "n < 64"
  shows "bit (NOT (drop_bit n (- 1 :: u64))) i \<longleftrightarrow> i < 64 \<and> 64 \<le> n + i"
    "bit (NOT (push_bit n (- 1 :: u64))) i \<longleftrightarrow> i < 64 \<and> i < n"
  using assms by (auto simp: bit_not_iff bit_drop_bit_eq bit_push_bit_iff bit_minus_1_iff bit_mask_iff)

lemma shl_core:
  assumes "n < 64" "m = NOT (drop_bit n (- 1))"
  shows "val (if n \<noteq> 0 then u128 (push_bit n hi OR drop_bit (64 - n) (lo AND m)) (push_bit n lo) else u128 hi lo)
    = push_bit n (val (u128 hi lo))"
proof (cases "n = 0")
  case False
  have m: "bit m i \<longleftrightarrow> i < 64 \<and> 64 \<le> n + i" for i unfolding assms(2) by (rule bit_mask_shifts(1) [OF assms(1)])
  have "val (u128 (push_bit n hi OR drop_bit (64 - n) (lo AND m)) (push_bit n lo)) = push_bit n (val (u128 hi lo))"
  proof (rule bit_word_eqI)
    fix i
    assume i: "i < LENGTH(128)"
    have h: "bit lo j \<Longrightarrow> j < 64" for j using bit_imp_le_length [of lo j] by simp
    consider "i < 64" | "64 \<le> i" "i < 64 + n" | "64 + n \<le> i" by linarith
    then show "bit (val (u128 (push_bit n hi OR drop_bit (64 - n) (lo AND m)) (push_bit n lo))) i = bit (push_bit n (val (u128 hi lo))) i"
    proof cases
      case 1
      then show ?thesis using i by (auto simp: bit_val bit_push_bit_iff)
    next
      case 2
      have "64 - n + (i - 64) = i - n" using 2 assms by simp
      then show ?thesis using 2 i assms(1) by (auto simp: bit_val bit_push_bit_iff bit_or_iff bit_and_iff bit_drop_bit_eq m)
    next
      case 3
      then have "i - 64 - n = i - n - 64" "\<not> i - n < 64" by simp_all
      then show ?thesis using 3 i assms(1) h [of "64 - n + (i - 64)"]
        by (auto simp: bit_val bit_push_bit_iff bit_or_iff bit_and_iff bit_drop_bit_eq)
    qed
  qed
  then show ?thesis using False by simp
qed simp

lemma val_shl [val_simps]: "val (u128_shl a rhs) = push_bit (unat (val rhs)) (val a)"
proof (cases "u128_ge rhs (u128_of_int64 128)")
  case True
  then have "128 \<le> val rhs" by (simp add: val_compare val_of_int_literal)
  then have "128 \<le> unat (val rhs)" by (simp add: word_le_nat_alt)
  then have "push_bit (unat (val rhs)) (val a) = 0" by (intro bit_word_eqI) (simp add: bit_push_bit_iff)
  then show ?thesis using True by (simp add: u128_shl_def val_u128)
next
  case False
  note c = shift_count [OF False]
  define n where "n = unat (val rhs)"
  have n: "n < 128" using c(2) by (simp add: n_def)
  show ?thesis
  proof (cases "64 \<le> n")
    case True
    then have "n - 64 < 64" using n by simp
    note core = shl_core [OF this refl, of "u_lo a" 0]
    have "val (u128_shl a rhs) = push_bit (n - 64) (val (u128 (u_lo a) 0))"
      unfolding core [symmetric] u128_shl_def c(1) n_def [symmetric] using False True by (simp only: Let_def if_True if_False prod.case)
    also have "val (u128 (u_lo a) 0) = push_bit 64 (val a)"
      by (rule bit_word_eqI) (simp only: bit_val bit_push_bit_iff u128_sel bit_0_eq, auto)
    finally show ?thesis using True unfolding n_def [symmetric] push_bit_push_bit by simp
  next
    case less: False
    then have "n < 64" by simp
    note core = shl_core [OF this refl, of "u_hi a" "u_lo a"]
    have "u128 (u_hi a) (u_lo a) = a" by (cases a) (simp add: u128_def)
    then show ?thesis
      using core False less unfolding u128_shl_def c(1) n_def [symmetric] by (simp only: Let_def if_True if_False prod.case)
  qed
qed

lemma shr_core:
  assumes "n < 64" "m = NOT (push_bit n (- 1))"
  shows "val (if n \<noteq> 0 then u128 (drop_bit n hi) (drop_bit n lo OR push_bit (64 - n) (hi AND m)) else u128 hi lo)
    = drop_bit n (val (u128 hi lo))"
proof (cases "n = 0")
  case False
  have m: "bit m i \<longleftrightarrow> i < 64 \<and> i < n" for i unfolding assms(2) by (rule bit_mask_shifts(2) [OF assms(1)])
  have "val (u128 (drop_bit n hi) (drop_bit n lo OR push_bit (64 - n) (hi AND m))) = drop_bit n (val (u128 hi lo))"
  proof (rule bit_word_eqI)
    fix i
    assume i: "i < LENGTH(128)"
    have h: "bit hi j \<Longrightarrow> j < 64" "bit lo j \<Longrightarrow> j < 64" for j using bit_imp_le_length [of lo j] bit_imp_le_length [of hi j] by simp_all
    consider "i + n < 64" | "64 \<le> i + n" "i < 64" | "64 \<le> i" by linarith
    then show "bit (val (u128 (drop_bit n hi) (drop_bit n lo OR push_bit (64 - n) (hi AND m)))) i = bit (drop_bit n (val (u128 hi lo))) i"
    proof cases
      case 1
      then show ?thesis using i by (auto simp: bit_val bit_push_bit_iff bit_or_iff bit_and_iff bit_drop_bit_eq add.commute)
    next
      case 2
      have "i - (64 - n) = n + i - 64" "i - (64 - n) < n" using 2 assms(1) False by simp_all
      then show ?thesis using 2 i assms(1) h(2) [of "n + i"]
        by (auto simp: bit_val bit_push_bit_iff bit_or_iff bit_and_iff bit_drop_bit_eq m)
    next
      case 3
      then have "n + (i - 64) = n + i - 64" by simp
      then show ?thesis using 3 i assms(1) by (auto simp: bit_val bit_drop_bit_eq)
    qed
  qed
  then show ?thesis using False by simp
qed simp

lemma val_shr [val_simps]: "val (u128_shr a rhs) = drop_bit (unat (val rhs)) (val a)"
proof (cases "u128_ge rhs (u128_of_int64 128)")
  case True
  then have "128 \<le> val rhs" by (simp add: val_compare val_of_int_literal)
  then have "128 \<le> unat (val rhs)" by (simp add: word_le_nat_alt)
  then have "drop_bit (unat (val rhs)) (val a) = 0"
    by (intro bit_word_eqI) (auto simp: bit_drop_bit_eq dest: bit_imp_le_length)
  then show ?thesis using True by (simp add: u128_shr_def val_u128)
next
  case False
  note c = shift_count [OF False]
  define n where "n = unat (val rhs)"
  have n: "n < 128" using c(2) by (simp add: n_def)
  show ?thesis
  proof (cases "64 \<le> n")
    case True
    then have "n - 64 < 64" using n by simp
    note core = shr_core [OF this refl, of 0 "u_hi a"]
    have "val (u128_shr a rhs) = drop_bit (n - 64) (val (u128 0 (u_hi a)))"
      unfolding core [symmetric] u128_shr_def c(1) n_def [symmetric] using False True by (simp only: Let_def if_True if_False prod.case)
    also have "val (u128 0 (u_hi a)) = drop_bit 64 (val a)"
      by (rule bit_word_eqI) (simp only: bit_val bit_drop_bit_eq comp_apply u128_sel bit_0_eq, auto dest: bit_imp_le_length)
    finally show ?thesis using True unfolding n_def [symmetric] drop_bit_drop_bit by simp
  next
    case less: False
    then have "n < 64" by simp
    note core = shr_core [OF this refl, of "u_hi a" "u_lo a"]
    have "u128 (u_hi a) (u_lo a) = a" by (cases a) (simp add: u128_def)
    then show ?thesis
      using core False less unfolding u128_shr_def c(1) n_def [symmetric] by (simp only: Let_def if_True if_False prod.case)
  qed
qed

section \<open>Multiplication\<close>

text \<open>The 32-bit quarters of a number.\<close>

lemma unat_ucast_mod: "unat (ucast (w :: 'a::len word) :: 'b::len word) = unat w mod 2 ^ LENGTH('b)"
  by (simp add: unsigned_ucast_eq take_bit_eq_mod)

lemma quarters:
  fixes x :: u64
  defines "l \<equiv> ucast (ucast x :: u32) :: u64" and "h \<equiv> ucast (ucast (drop_bit 32 x) :: u32) :: u64"
  shows "unat l < 2 ^ 32" "unat h < 2 ^ 32" "unat x = unat h * 2 ^ 32 + unat l"
proof -
  have l: "unat l = unat x mod 2 ^ 32" and h: "unat h = unat x div 2 ^ 32 mod 2 ^ 32"
    unfolding l_def h_def unat_ucast_mod unat_drop_bit_eq by (simp_all add: mod_mod_cancel drop_bit_eq_div)
  show "unat l < 2 ^ 32" "unat h < 2 ^ 32" unfolding l h by simp_all
  have "unat x div 2 ^ 32 < 2 ^ 32" using unat_u64_less [of x] by (simp add: div_less_iff_less_mult)
  then show "unat x = unat h * 2 ^ 32 + unat l" unfolding l h by simp
qed

lemma unat_product: "unat a < 2 ^ 32 \<Longrightarrow> unat b < 2 ^ 32 \<Longrightarrow> unat (a * b :: u64) = unat a * unat b"
proof -
  assume "unat a < 2 ^ 32" "unat b < 2 ^ 32"
  then have "unat a * unat b < 2 ^ 32 * 2 ^ 32" by (intro mult_strict_mono) simp_all
  then show ?thesis by (simp add: unat_word_ariths)
qed

lemma horner_product:
  fixes s :: "'a::comm_ring_1"
  assumes "s * s * s * s = 0"
  shows "(a0 + a1 * s + a2 * (s * s) + a3 * (s * s * s)) * (b0 + b1 * s + b2 * (s * s) + b3 * (s * s * s)) =
    (((a3 * b0 + a2 * b1 + a1 * b2 + a0 * b3) * s + a2 * b0 + a1 * b1 + a0 * b2) * s + a1 * b0 + a0 * b1) * s + a0 * b0"
proof -
  have "(a0 + a1 * s + a2 * (s * s) + a3 * (s * s * s)) * (b0 + b1 * s + b2 * (s * s) + b3 * (s * s * s)) =
    (((a3 * b0 + a2 * b1 + a1 * b2 + a0 * b3) * s + a2 * b0 + a1 * b1 + a0 * b2) * s + a1 * b0 + a0 * b1) * s + a0 * b0
    + s * s * s * s * (a3 * b1 + a2 * b2 + a1 * b3 + (a3 * b2 + a2 * b3) * s + a3 * b3 * (s * s))"
    by (simp add: algebra_simps)
  then show ?thesis using assms by simp
qed

lemma val_mul [val_simps]: "val (u128_mul a b) = val a * val b"
proof -
  define s :: "128 word" where "s = 2 ^ 32"
  have s4: "s * s * s * s = 0" "2 ^ 64 = s * s" by (simp_all add: s_def)
  have sh: "push_bit (unat (val (u128_of_int32 32))) x = x * s" for x :: "128 word"
    unfolding val_of_int_literal s_def by (simp add: push_bit_eq_mult)
  define q where "q x = (of_nat (unat (ucast (ucast x :: u32) :: u64)) :: 128 word)" for x :: u64
  have half: "of_nat (unat x) = q x + q (drop_bit 32 x) * s" for x :: u64
    unfolding q_def s_def quarters(3) [of x] by (simp add: algebra_simps)
  have v: "val u = q (u_lo u) + q (drop_bit 32 (u_lo u)) * s + q (u_hi u) * (s * s) + q (drop_bit 32 (u_hi u)) * (s * s * s)" for u
    unfolding val_sum half s4(2) by (simp add: algebra_simps)
  have p: "(ucast ((ucast (ucast x :: u32) :: u64) * ucast (ucast y :: u32)) :: 128 word) = q x * q y" for x y :: u64
  proof -
    have u: "(ucast z :: 128 word) = of_nat (unat z)" for z :: u64 by simp
    show ?thesis unfolding u q_def unat_product [OF quarters(1) quarters(1)] of_nat_mult ..
  qed
  have p0: "val (u128 0 ((ucast (ucast x :: u32) :: u64) * ucast (ucast y :: u32))) = q x * q y" for x y :: u64
    using p [of x y] by (simp add: val_u128)
  have "val (u128_mul a b) = (((q (drop_bit 32 (u_hi a)) * q (u_lo b) + q (u_hi a) * q (drop_bit 32 (u_lo b)) + q (drop_bit 32 (u_lo a)) * q (u_hi b)
        + q (u_lo a) * q (drop_bit 32 (u_hi b))) * s + q (u_hi a) * q (u_lo b) + q (drop_bit 32 (u_lo a)) * q (drop_bit 32 (u_lo b)) + q (u_lo a) * q (u_hi b)) * s
      + q (drop_bit 32 (u_lo a)) * q (u_lo b) + q (u_lo a) * q (drop_bit 32 (u_lo b))) * s + q (u_lo a) * q (u_lo b)"
    unfolding u128_mul_def Let_def by (simp only: val_add val_shl val_of_uint sh p p0)
  also have "\<dots> = val a * val b" unfolding v [of a] v [of b] horner_product [OF s4(1)] ..
  finally show ?thesis .
qed

text \<open>The schoolbook product of two two-digit numbers, with the carries of the code.\<close>

lemma schoolbook:
  fixes n :: nat
  assumes "sh * n + sl = al * bl" "rh * n + rl = ah * bl" "qh * n + ql = al * bh" "ph * n + pl = ah * bh"
    and "c * n + y1 = sh + ql + rl" "d * n + y2 = c + qh + rh + pl"
  shows "((d + ph) * n + y2) * (n * n) + (y1 * n + sl) = (ah * n + al) * (bh * n + bl)"
proof -
  have "((d + ph) * n + y2) * (n * n) + (y1 * n + sl) = (d * n + y2) * (n * n) + ph * n * (n * n) + y1 * n + sl"
    by (simp add: algebra_simps)
  also have "\<dots> = (c * n + y1) * n + (qh + rh + pl) * (n * n) + ph * n * (n * n) + sl"
    unfolding assms(6) by (simp add: algebra_simps)
  also have "\<dots> = (ph * n + pl) * (n * n) + (qh * n + ql) * n + (rh * n + rl) * n + (sh * n + sl)"
    unfolding assms(5) by (simp add: algebra_simps)
  also have "\<dots> = (ah * n + al) * (bh * n + bl)" unfolding assms(1-4) by (simp add: algebra_simps)
  finally show ?thesis .
qed

lemma unat_less_128: "unat (x :: 128 word) < 2 ^ 128"
  using unsigned_less [of x] by simp

lemma unat_val_add:
  assumes "unat (val a) + unat (val b) < 2 ^ 128"
  shows "unat (val (u128_add a b)) = unat (val a) + unat (val b)"
  using assms by (simp add: val_add unat_word_ariths)

lemma unat_val_u64: "unat (val (u128_of_uint64 x)) = unat x"
  by (simp add: unat_val u128_of_uint64_def)

lemma unat_val_mul_u64: "unat (val (u128_mul (u128_of_uint64 x) (u128_of_uint64 y))) = unat x * unat y"
proof -
  have "unat x * unat y < 2 ^ 64 * 2 ^ 64" using unat_u64_less by (intro mult_strict_mono) simp_all
  then show ?thesis
    using unat_word_ariths(2) [of "val (u128_of_uint64 x)" "val (u128_of_uint64 y)"] by (simp add: val_mul unat_val_u64)
qed

lemma full_product_exact:
  assumes "u128_full_product a b = (rh, rl)"
  shows "unat (val rh) * 2 ^ 128 + unat (val rl) = unat (val a) * unat (val b)"
proof -
  define n :: nat where "n = 2 ^ 64"
  have nn: "2 ^ 128 = n * n" by (simp add: n_def)
  have less: "unat (x :: u64) < n" for x using unat_u64_less [of x] by (simp add: n_def)
  have v: "unat (val u) = unat (u_hi u) * n + unat (u_lo u)" for u by (simp add: unat_val n_def)
  define s r q p where "s = u128_mul (u128_of_uint64 (u_lo a)) (u128_of_uint64 (u_lo b))"
    and "r = u128_mul (u128_of_uint64 (u_hi a)) (u128_of_uint64 (u_lo b))"
    and "q = u128_mul (u128_of_uint64 (u_lo a)) (u128_of_uint64 (u_hi b))"
    and "p = u128_mul (u128_of_uint64 (u_hi a)) (u128_of_uint64 (u_hi b))"
  have prods: "unat (u_hi s) * n + unat (u_lo s) = unat (u_lo a) * unat (u_lo b)"
    "unat (u_hi r) * n + unat (u_lo r) = unat (u_hi a) * unat (u_lo b)"
    "unat (u_hi q) * n + unat (u_lo q) = unat (u_lo a) * unat (u_hi b)"
    "unat (u_hi p) * n + unat (u_lo p) = unat (u_hi a) * unat (u_hi b)"
    unfolding v [symmetric] s_def r_def q_def p_def unat_val_mul_u64 by (rule refl)+
  define acc1 where "acc1 = u128_add (u128_add (u128_of_uint64 (u_hi s)) (u128_of_uint64 (u_lo q))) (u128_of_uint64 (u_lo r))"
  define acc2 where "acc2 = u128_add (u128_add (u128_add (u128_of_uint64 (u_hi acc1)) (u128_of_uint64 (u_hi q))) (u128_of_uint64 (u_hi r))) (u128_of_uint64 (u_lo p))"
  have four: "w + x + y + z < 2 ^ 128" if "w < n" "x < n" "y < n" "z < n" for w x y z :: nat
    using that by (simp add: n_def)
  have acc1: "unat (u_hi acc1) * n + unat (u_lo acc1) = unat (u_hi s) + unat (u_lo q) + unat (u_lo r)"
    using four [OF less less less less, of "u_hi s" "u_lo q" "u_lo r" 0] unfolding v [symmetric] acc1_def
    by (simp add: unat_val_add unat_val_u64)
  have acc2: "unat (u_hi acc2) * n + unat (u_lo acc2) = unat (u_hi acc1) + unat (u_hi q) + unat (u_hi r) + unat (u_lo p)"
    using four [OF less less less less, of "u_hi acc1" "u_hi q" "u_hi r" "u_lo p"] unfolding v [symmetric] acc2_def
    by (simp add: unat_val_add unat_val_u64)
  note sb = schoolbook [OF prods acc1 acc2]
  have "unat (u_hi acc2) + unat (u_hi p) < n"
  proof (rule ccontr)
    assume "\<not> unat (u_hi acc2) + unat (u_hi p) < n"
    then have "n * n * (n * n) \<le> (unat (u_hi acc2) + unat (u_hi p)) * n * (n * n)" by simp
    also have "\<dots> \<le> (unat (u_hi a) * n + unat (u_lo a)) * (unat (u_hi b) * n + unat (u_lo b))" unfolding sb [symmetric]
      by (rule trans_le_add1, rule mult_le_mono1, rule le_add1)
    also have "\<dots> < n * n * (n * n)"
      unfolding v [symmetric] nn [symmetric] using unat_less_128 by (intro mult_strict_mono) simp_all
    finally show False by simp
  qed
  then have y3: "unat (u_hi acc2 + u_hi p) = unat (u_hi acc2) + unat (u_hi p)" unfolding unat_plus_u64 n_def [symmetric] by simp
  have "rh = u128 (u_hi acc2 + u_hi p) (u_lo acc2)" "rl = u128 (u_lo acc1) (u_lo s)"
    using assms unfolding u128_full_product_def Let_def s_def r_def q_def p_def acc1_def acc2_def by simp_all
  then show ?thesis unfolding nn v [of a] v [of b] sb [symmetric] by (simp add: v y3)
qed

end
