(* ===== verification/Uint128_Division.thy ===== *)
theory Uint128_Division
  imports Uint128_Correct
begin

text \<open>
  The shift-and-subtract division returns the quotient and the remainder, its loops end, and
  with it printing a number in decimal and reading it back is the identity.
\<close>

section \<open>Division\<close>

lemma val_int32 [val_simps]:
  "val (u128_of_int32 0) = 0" "val (u128_of_int32 1) = 1" "val (u128_of_int32 127) = 127"
  by (simp_all add: u128_of_int32_def val_u128 word_sless_alt)

lemma unat_ge: "u128_ge a b \<longleftrightarrow> unat (val b) \<le> unat (val a)"
  by (simp add: val_compare word_le_nat_alt)

lemma unat_zero: "u128_neq a (u128_of_int32 0) \<longleftrightarrow> unat (val a) \<noteq> 0" "u128_eq a (u128_of_int32 0) \<longleftrightarrow> unat (val a) = 0"
  by (simp_all add: val_compare val_int32 unat_eq_zero)

lemma top_bit: "u128_eq (u128_and (u128_shr d (u128_of_int32 127)) (u128_of_int32 1)) (u128_of_int32 0) \<longleftrightarrow> unat (val d) < 2 ^ 127"
proof -
  have "unat (drop_bit 127 (val d) AND 1) = unat (val d) div 2 ^ 127 mod 2"
    unfolding unsigned_and_eq unat_drop_bit_eq by (simp add: drop_bit_eq_div and_one_eq)
  moreover have "unat (val d) div 2 ^ 127 < 2" using unat_less_128 [of "val d"] by (simp add: div_less_iff_less_mult)
  moreover have "unat (val d) div 2 ^ 127 = 0 \<longleftrightarrow> unat (val d) < 2 ^ 127" by (simp add: div_eq_0_iff)
  ultimately show ?thesis unfolding unat_zero val_bitwise val_shr val_int32 by simp
qed

lemma unat_double: "unat (val d) < 2 ^ 127 \<Longrightarrow> unat (val (u128_shl d (u128_of_int32 1))) = 2 * unat (val d)"
  unfolding val_shl val_int32 by (simp add: push_bit_eq_mult unat_word_ariths)

lemma unat_halve: "unat (val (u128_shr d (u128_of_int32 1))) = unat (val d) div 2"
proof -
  have "unat (drop_bit 1 (val d)) = unat (val d) div 2 ^ 1" unfolding unat_drop_bit_eq by (rule drop_bit_eq_div)
  then show ?thesis unfolding val_shr val_int32 by simp
qed

lemma divide_up_ends:
  assumes "unat (val d) = D * 2 ^ k" "unat (val x) = 2 ^ k" "0 < D"
  shows "\<exists>d' x' k'. divide_up n d x = Some (d', x') \<and> unat (val d') = D * 2 ^ k' \<and> unat (val x') = 2 ^ k' \<and>
    k' < 128 \<and> unat (val n) < 2 * (D * 2 ^ k')"
  using assms(1,2)
proof (induction "2 ^ 128 - unat (val d)" arbitrary: d x k rule: less_induct)
  case less
  have pow: "2 ^ k \<le> D * 2 ^ k" using assms(3) by simp
  show ?case
  proof (cases "unat (val d) \<le> unat (val n) \<and> unat (val d) < 2 ^ 127")
    case True
    let ?d = "u128_shl d (u128_of_int32 1)" and ?x = "u128_shl x (u128_of_int32 1)"
    have d: "unat (val ?d) = D * 2 ^ Suc k" using True less.prems(1) by (simp add: unat_double)
    have "unat (val x) \<le> unat (val d)" using pow less.prems by (simp only:)
    then have "unat (val x) < 2 ^ 127" using True by linarith
    then have x: "unat (val ?x) = 2 ^ Suc k" using less.prems(2) by (simp add: unat_double)
    have "unat (val d) < unat (val ?d)" using d less.prems(1) assms(3) by simp
    moreover have "unat (val ?d) < 2 ^ 128" by (rule unat_less_128)
    ultimately have "2 ^ 128 - unat (val ?d) < 2 ^ 128 - unat (val d)" by linarith
    from less.hyps [OF this d x] show ?thesis
      using True by (subst divide_up.simps) (simp add: unat_ge top_bit)
  next
    case False
    then have "divide_up n d x = Some (d, x)" by (subst divide_up.simps) (auto simp: unat_ge top_bit)
    moreover have "unat (val n) < 2 * (D * 2 ^ k)"
      using False less.prems(1) unat_less_128 [of "val n"] assms(3) by auto
    moreover have "k < 128"
    proof -
      have "2 ^ k < (2 :: nat) ^ 128" using less.prems(2) unat_less_128 [of "val x"] by simp
      then show ?thesis by (rule power_less_imp_less_exp [rotated]) simp
    qed
    ultimately show ?thesis using less.prems by blast
  qed
qed

lemma unat_sub: "unat (val b) \<le> unat (val a) \<Longrightarrow> unat (val (u128_sub a b)) = unat (val a) - unat (val b)"
  by (simp add: val_sub unat_sub_if_size word_le_nat_alt unat_sub)

lemma unat_set_bit:
  assumes "unat (val answer) = 2 ^ Suc k * A" "unat (val x) = 2 ^ k"
  shows "unat (val (u128_or answer x)) = 2 ^ k * (2 * A + 1)"
proof -
  have "unat (val (u128_or answer x)) = 2 ^ k OR push_bit (Suc k) A"
    unfolding val_bitwise unsigned_or_eq assms by (simp only: push_bit_eq_mult or.commute mult.commute)
  also have "\<dots> = 2 ^ k + 2 ^ Suc k * A" by (rule or_shifted) simp
  finally show ?thesis by (simp add: algebra_simps)
qed

lemma divide_down_ok:
  assumes "unat (val d) = D * 2 ^ k" "unat (val x) = 2 ^ k" "unat (val answer) = 2 ^ Suc k * A"
    and "unat (val n) < 2 * (D * 2 ^ k)" "k < fuel"
  shows "\<exists>q r. divide_down fuel n d x answer = Some (q, r) \<and>
    unat (val q) * D + unat (val r) = 2 ^ Suc k * A * D + unat (val n) \<and> unat (val r) < D"
  using assms
proof (induction fuel arbitrary: n d x answer k A)
  case (Suc fuel)
  define n' answer' where "n' = (if u128_ge n d then u128_sub n d else n)" and "answer' = (if u128_ge n d then u128_or answer x else answer)"
  define B where "B = (if u128_ge n d then 2 * A + 1 else 2 * A)"
  let ?d = "u128_shr d (u128_of_int32 1)" and ?x = "u128_shr x (u128_of_int32 1)"
  have a: "unat (val answer') = 2 ^ k * B"
    using unat_set_bit [OF Suc.prems(3,2)] Suc.prems(3) by (simp add: answer'_def B_def)
  have n: "unat (val n') < D * 2 ^ k" "2 ^ k * B * D + unat (val n') = 2 ^ Suc k * A * D + unat (val n)"
    using Suc.prems(1,4) by (auto simp: n'_def B_def unat_ge unat_sub algebra_simps)
  have "u128_neq x (u128_of_int32 0)" using Suc.prems(2) by (simp add: unat_zero)
  then have step: "divide_down (Suc fuel) n d x answer = divide_down fuel n' ?d ?x answer'"
    by (simp add: n'_def answer'_def)
  show ?case
  proof (cases k)
    case 0
    have "unat (val ?x) = 0" using Suc.prems(2) 0 by (simp add: unat_halve)
    then have "divide_down fuel n' ?d ?x answer' = Some (answer', n')"
      by (cases fuel) (simp_all add: unat_zero)
    then show ?thesis using step a n 0 by simp
  next
    case (Suc j)
    have "unat (val ?d) = D * 2 ^ j" "unat (val ?x) = 2 ^ j" using Suc.prems(1,2) Suc by (simp_all add: unat_halve)
    moreover have "unat (val answer') = 2 ^ Suc j * B" using a Suc by simp
    moreover have "unat (val n') < 2 * (D * 2 ^ j)" using n(1) Suc by simp
    moreover have "j < fuel" using Suc.prems(5) Suc by simp
    ultimately obtain q r where "divide_down fuel n' ?d ?x answer' = Some (q, r)"
        "unat (val q) * D + unat (val r) = 2 ^ Suc j * B * D + unat (val n')" "unat (val r) < D"
      using Suc.IH by blast
    then show ?thesis using step n(2) Suc by simp
  qed
qed simp

lemma divide_ok:
  assumes "0 < unat (val d)"
  shows "\<exists>q r. divide n d = Inr (Some (q, r)) \<and> unat (val q) = unat (val n) div unat (val d) \<and> unat (val r) = unat (val n) mod unat (val d)"
proof -
  let ?D = "unat (val d)"
  obtain d' x k where u: "divide_up n d (u128_of_int32 1) = Some (d', x)" "unat (val d') = ?D * 2 ^ k" "unat (val x) = 2 ^ k"
      "k < 128" "unat (val n) < 2 * (?D * 2 ^ k)"
    using divide_up_ends [of d ?D 0 "u128_of_int32 1" n] assms by (auto simp: val_int32)
  obtain q r where q: "divide_down 128 n d' x (u128_of_int32 0) = Some (q, r)"
      "unat (val q) * ?D + unat (val r) = unat (val n)" "unat (val r) < ?D"
    using divide_down_ok [OF u(2,3) _ u(5,4), of "u128_of_int32 0" 0] by (auto simp: val_int32)
  have "unat (val q) = unat (val n) div ?D" "unat (val r) = unat (val n) mod ?D"
    using q(2,3) by (metis div_mult_self3 add.commute div_less add_0 mult.commute assms neq0_conv, metis mod_mult_self3 mod_less)
  moreover have "divide n d = Inr (Some (q, r))" using u(1) q(1) assms by (simp add: divide_def unat_zero)
  ultimately show ?thesis by blast
qed

lemma val_div:
  "u128_div a b = (if val b = 0 then Inl (Runtime_error ''Division by zero.'') else Inr (u128_of_int128 (val a div val b)))"
proof -
  have v: "push_bit 64 (ucast (u_hi u)) + ucast (u_lo u) = val u" for u
    by (simp add: val_sum push_bit_eq_mult)
  have "(ucast (drop_bit 64 (push_bit 64 w)) :: u64) = ucast w" for w :: "128 word"
  proof (rule bit_word_eqI)
    fix n
    assume "n < LENGTH(64)"
    then show "bit (ucast (drop_bit 64 (push_bit 64 w)) :: u64) n = bit (ucast w :: u64) n"
      by (simp only: bit_unsigned_iff bit_drop_bit_eq comp_apply bit_push_bit_iff) simp
  qed
  then show ?thesis unfolding u128_div_def Let_def v u128_of_int128_def by simp
qed

section \<open>Decimal text\<close>

lemma digit_char: "(k :: nat) < 10 \<Longrightarrow> digit_chars ! k = char_of (48 + k)" "length digit_chars = 36"
proof -
  assume "k < 10"
  then have "k \<in> {0, 1, 2, 3, 4, 5, 6, 7, 8, 9}" by auto
  then show "digit_chars ! k = char_of (48 + k)" by (elim insertE emptyE) (simp_all add: digit_chars_def char_of_def bit_0)
qed (simp add: digit_chars_def)

lemma digit_value_dec: "(k :: nat) < 10 \<Longrightarrow> digit_value 10 (char_of (48 + k)) = Some (of_nat k)"
  by (simp add: digit_value_def Let_def)

lemma unat_ten: "unat (val (u128_of_int32 10)) = 10"
  by (simp add: val_of_int_literal)

lemma to_integer_digit: "unat (val r) < 10 \<Longrightarrow> \<exists>k. to_integer r = Inr k \<and> unat k = unat (val r)"
proof -
  assume "unat (val r) < 10"
  then have "val r < 128" by (simp add: word_less_nat_alt)
  then have "\<not> u128_ge r (u128_of_int64 128)" by (simp add: val_compare val_of_int_literal)
  then show ?thesis using to_integer_small shift_count(1) by blast
qed

lemma print_loop_digits:
  "unat (val u) < 10 ^ i \<Longrightarrow> print_loop i u acc = Inr ((if unat (val u) = 0 then [] else nat_digits (unat (val u))) @ acc)"
proof (induction i arbitrary: u acc)
  case 0
  then show ?case by (simp add: print_loop.simps)
next
  case (Suc i)
  show ?case
  proof (cases "unat (val u) = 0")
    case True
    then show ?thesis by (simp add: print_loop.simps unat_zero)
  next
    case False
    obtain q r where q: "divide u (u128_of_int32 10) = Inr (Some (q, r))" "unat (val q) = unat (val u) div 10" "unat (val r) = unat (val u) mod 10"
      using divide_ok [of "u128_of_int32 10" u] unat_ten by auto
    have r: "unat (val r) < 10" using q(3) by simp
    then obtain k where k: "to_integer r = Inr k" "unat k = unat (val r)" using to_integer_digit by blast
    have "unat (val q) < 10 ^ i" using Suc.prems q(2) by (simp add: div_less_iff_less_mult mult.commute)
    note ih = Suc.IH [OF this, of "char_of (48 + unat (val u) mod 10) # acc"]
    have "print_loop (Suc i) u acc = print_loop i q (char_of (48 + unat (val u) mod 10) # acc)"
    proof -
      have "unat k < 10" "unat k = unat (val u) mod 10" using k(2) r q(3) by simp_all
      then have "unat k < length digit_chars" "digit_chars ! unat k = char_of (48 + unat (val u) mod 10)"
        using digit_char by simp_all
      then show ?thesis using False q(1) k(1) by (subst print_loop.simps) (simp add: unat_zero)
    qed
    then show ?thesis
      using ih False q(2) nat_digits.simps [of "unat (val u)"] by (simp add: div_eq_0_iff)
  qed
qed

lemma to_string_digits: "u128_to_string u = Inr (nat_digits (unat (val u)))"
proof (cases "unat (val u) = 0")
  case True
  then show ?thesis by (simp add: u128_to_string_def unat_zero nat_digits.simps char_of_def bit_0)
next
  case False
  have "(2 :: nat) ^ 128 \<le> 10 ^ 127" by simp
  then have "unat (val u) < 10 ^ 127" using unat_less_128 [of "val u"] by linarith
  from print_loop_digits [OF this, of "[]"] False show ?thesis by (simp add: u128_to_string_def unat_zero)
qed

lemma nat_digits_chars: "c \<in> set (nat_digits n) \<Longrightarrow> \<exists>k :: nat. k < 10 \<and> c = char_of (48 + k)"
proof (induction n rule: nat_digits.induct)
  case (1 n)
  show ?case
  proof (cases "n < 10")
    case True
    then show ?thesis using 1(2) by (auto simp: nat_digits.simps [of n])
  next
    case False
    then have "c \<in> set (nat_digits (n div 10)) \<or> c = char_of (48 + n mod 10)" using 1(2) by (auto simp: nat_digits.simps [of n])
    moreover have "n mod 10 < 10" by simp
    ultimately show ?thesis using 1(1) [OF False] by blast
  qed
qed

lemma parse_digits_append:
  "\<forall>c \<in> set xs. digit_value radix c \<noteq> None \<Longrightarrow> parse_digits radix (xs @ ys) u = parse_digits radix ys (parse_digits radix xs u)"
  by (induction xs arbitrary: u) auto

lemma parse_nat_digits: "val (parse_digits 10 (nat_digits n) u128_zero) = of_nat n"
proof (induction n rule: nat_digits.induct)
  case (1 n)
  have step: "val (parse_digits 10 [char_of (48 + k)] v) = val v * 10 + of_nat k" if "k < 10" for k v
    using that val_of_int_literal(3) by (simp add: digit_value_dec val_add val_mul val_of_uint unsigned_of_nat take_bit_nat_eq_self)
  show ?case
  proof (cases "n < 10")
    case True
    then show ?thesis using step [OF True, of u128_zero] by (simp add: nat_digits.simps [of n] val_of_uint)
  next
    case False
    have v: "\<forall>c \<in> set (nat_digits (n div 10)). digit_value 10 c \<noteq> None"
      using nat_digits_chars digit_value_dec by fastforce
    have "val (parse_digits 10 (nat_digits n) u128_zero) = of_nat (n div 10) * 10 + of_nat (n mod 10)"
      using False 1 [OF False] step [of "n mod 10"] parse_digits_append [OF v] by (simp add: nat_digits.simps [of n])
    also have "\<dots> = of_nat (n div 10 * 10 + n mod 10)" by (simp only: of_nat_add of_nat_mult of_nat_numeral)
    also have "\<dots> = of_nat n" by (simp only: div_mult_mod_eq)
    finally show ?thesis .
  qed
qed

lemma nat_digits_hd: "0 < n \<Longrightarrow> nat_digits n \<noteq> [] \<and> (\<exists>k :: nat. 0 < k \<and> k < 10 \<and> hd (nat_digits n) = char_of (48 + k))"
proof (induction n rule: nat_digits.induct)
  case (1 n)
  show ?case
  proof (cases "n < 10")
    case True
    then show ?thesis using 1(2) by (auto simp: nat_digits.simps [of n])
  next
    case False
    then have "0 < n div 10" by (simp add: div_greater_zero_iff)
    with 1(1) [OF False] False show ?thesis by (auto simp: nat_digits.simps [of n])
  qed
qed

section \<open>Counting bits\<close>

text \<open>The sum of the first \<open>k\<close> fields of \<open>w\<close> bits, the mask of every second field, one round.\<close>

fun field_sum :: "nat \<Rightarrow> nat \<Rightarrow> nat \<Rightarrow> nat" where
  "field_sum w 0 n = 0"
| "field_sum w (Suc k) n = n mod 2 ^ w + field_sum w k (n div 2 ^ w)"

fun field_mask :: "nat \<Rightarrow> nat \<Rightarrow> nat" where
  "field_mask w 0 = 0"
| "field_mask w (Suc k) = (2 ^ w - 1) + 2 ^ (2 * w) * field_mask w k"

definition field_round :: "nat \<Rightarrow> nat \<Rightarrow> nat \<Rightarrow> nat" where
  "field_round w k n = (n AND field_mask w k) + (n div 2 ^ w AND field_mask w k)"

lemma and_field:
  fixes n :: nat
  assumes "b < 2 ^ v"
  shows "n AND (b + 2 ^ v * m) = (n mod 2 ^ v AND b) + 2 ^ v * (n div 2 ^ v AND m)"
proof -
  have lo: "b + 2 ^ v * m = b OR push_bit v m" using or_shifted [OF assms] by simp
  have b: "\<not> bit b i" if "v \<le> i" for i
    using that assms bit_take_bit_iff [of v b i] by (simp add: take_bit_nat_eq_self)
  have "take_bit v (n mod 2 ^ v AND b) = (n mod 2 ^ v AND b)"
    using assms by (simp add: take_bit_and take_bit_nat_eq_self)
  then have "(n mod 2 ^ v AND b) < 2 ^ v" by (simp only: take_bit_nat_eq_self_iff)
  then have "(n mod 2 ^ v AND b) + 2 ^ v * (n div 2 ^ v AND m) = (n mod 2 ^ v AND b) OR push_bit v (n div 2 ^ v AND m)"
    by (rule or_shifted [symmetric])
  also have "\<dots> = n AND (b + 2 ^ v * m)"
    unfolding lo
    by (rule bit_eqI) (use b in \<open>auto simp: bit_or_iff bit_and_iff bit_push_bit_iff bit_take_bit_iff bit_drop_bit_eq not_le
        simp flip: take_bit_eq_mod drop_bit_eq_div\<close>)
  finally show ?thesis by simp
qed

lemma and_low: "n mod 2 ^ v AND (2 ^ w - 1) = n mod 2 ^ w" if "w \<le> v" for n :: nat
proof -
  have "n mod 2 ^ v AND (2 ^ w - 1) = take_bit w (take_bit v n)"
    unfolding take_bit_eq_mask [of w] mask_eq_exp_minus_1 take_bit_eq_mod [of v] ..
  also have "\<dots> = n mod 2 ^ w" unfolding take_bit_take_bit min_absorb1 [OF that] by (rule take_bit_eq_mod)
  finally show ?thesis .
qed

lemma field_round_Suc:
  assumes "0 < w"
  shows "field_round w (Suc k) n = (n mod 2 ^ w + n div 2 ^ w mod 2 ^ w) + 2 ^ (2 * w) * field_round w k (n div 2 ^ (2 * w))"
proof -
  have w: "w \<le> 2 * w" by simp
  have "(2 :: nat) ^ w \<le> 2 ^ (2 * w)" by (rule power_increasing) simp_all
  moreover have "(2 :: nat) ^ w - 1 < 2 ^ w" by simp
  ultimately have m: "(2 :: nat) ^ w - 1 < 2 ^ (2 * w)" by linarith
  have "n div 2 ^ w div 2 ^ (2 * w) = n div 2 ^ (2 * w) div 2 ^ w" by (simp add: div_mult2_eq [symmetric] mult.commute)
  then show ?thesis
    unfolding field_round_def field_mask.simps and_field [OF m] and_low [OF w]
    by (simp add: algebra_simps)
qed

lemma field_low: "0 < w \<Longrightarrow> n mod 2 ^ w + m mod 2 ^ w < (2 :: nat) ^ (2 * w)"
proof -
  assume "0 < w"
  then have "2 * 2 ^ w \<le> (2 :: nat) ^ w * 2 ^ w" by (intro mult_le_mono1 self_le_power) simp_all
  moreover have "n mod 2 ^ w < (2 :: nat) ^ w" "m mod 2 ^ w < (2 :: nat) ^ w" by simp_all
  moreover have "(2 :: nat) ^ (2 * w) = 2 ^ w * 2 ^ w" by (simp add: power_add mult_2)
  ultimately show ?thesis by linarith
qed

lemma field_round_bound: "0 < w \<Longrightarrow> field_round w k n < 2 ^ (2 * w * k)"
proof (induction k arbitrary: n)
  case 0
  then show ?case by (simp add: field_round_def)
next
  case (Suc k)
  let ?r = "field_round w k (n div 2 ^ (2 * w))"
  have "2 ^ (2 * w) * ?r + 2 ^ (2 * w) \<le> 2 ^ (2 * w) * 2 ^ (2 * w * k)"
    using mult_le_mono2 [of "Suc ?r" "2 ^ (2 * w * k)" "2 ^ (2 * w)"] Suc.IH [OF Suc.prems, of "n div 2 ^ (2 * w)"] by simp
  then show ?case
    using field_low [OF Suc.prems, of n "n div 2 ^ w"] unfolding field_round_Suc [OF Suc.prems] by (simp add: power_add)
qed

lemma field_round_sum: "0 < w \<Longrightarrow> field_sum (2 * w) k (field_round w k n) = field_sum w (2 * k) n"
proof (induction k arbitrary: n)
  case (Suc k)
  let ?f = "n mod 2 ^ w + n div 2 ^ w mod 2 ^ w"
  note lo = field_low [OF Suc.prems, of n "n div 2 ^ w"]
  have "field_sum (2 * w) (Suc k) (field_round w (Suc k) n) = ?f + field_sum (2 * w) k (field_round w k (n div 2 ^ (2 * w)))"
    unfolding field_round_Suc [OF Suc.prems] using lo by simp
  also have "\<dots> = ?f + field_sum w (2 * k) (n div 2 ^ (2 * w))" using Suc by simp
  also have "\<dots> = field_sum w (2 * Suc k) n" by (simp add: div_mult2_eq [symmetric] power_add mult_2)
  finally show ?case .
qed simp

lemma field_sum_bits: "field_sum 1 k n = length (filter (bit n) [0..<k])"
proof (induction k arbitrary: n)
  case (Suc k)
  have "[0..<Suc k] = 0 # map Suc [0..<k]" by (simp add: map_Suc_upt upt_conv_Cons del: upt_Suc)
  moreover have "bit n \<circ> Suc = bit (n div 2)" by (simp add: fun_eq_iff bit_Suc)
  ultimately show ?case using Suc.IH [of "n div 2"] by (simp add: filter_map bit_0 odd_iff_mod_2_eq_one)
qed simp

lemma popcount_round:
  assumes "0 < w" "2 * w * k = 64" "unat m = field_mask w k"
  shows "unat ((x AND m) + (drop_bit w x AND m) :: u64) = field_round w k (unat x)"
proof -
  have "unat (x AND m) + unat (drop_bit w x AND m) = field_round w k (unat x)"
    unfolding unsigned_and_eq unat_drop_bit_eq assms(3) field_round_def by (simp add: drop_bit_eq_div)
  then show ?thesis using field_round_bound [OF assms(1), of k "unat x"] assms(2) by (simp add: unat_word_ariths)
qed

lemma field_mask_numeral:
  "field_mask w (numeral k) = (2 ^ w - 1) + 2 ^ (2 * w) * field_mask w (pred_numeral k)"
  by (simp add: numeral_eq_Suc)

lemma popcount_masks_fields:
  "popcount_masks = map (\<lambda>(w, k). of_nat (field_mask w k)) [(1, 32), (2, 16), (4, 8), (8, 4), (16, 2), (32, 1)]"
  by (simp add: popcount_masks_def field_mask_numeral)

lemma field_mask_bound: "field_mask w k < 2 ^ (2 * w * k)"
proof (induction k)
  case (Suc k)
  have "2 ^ (2 * w) * field_mask w k + 2 ^ (2 * w) \<le> 2 ^ (2 * w) * 2 ^ (2 * w * k)"
    using mult_le_mono2 [of "Suc (field_mask w k)" "2 ^ (2 * w * k)" "2 ^ (2 * w)"] Suc by simp
  moreover have "(2 :: nat) ^ w - 1 < 2 ^ w" "(2 :: nat) ^ w \<le> 2 ^ (2 * w)" by (simp_all add: power_increasing)
  moreover have "(2 :: nat) ^ (2 * w * Suc k) = 2 ^ (2 * w) * 2 ^ (2 * w * k)" by (simp add: power_add)
  ultimately show ?case unfolding field_mask.simps by linarith
qed simp

lemma popcount_step:
  assumes "0 < w" "2 * w * k = 64" "field_sum w (2 * k) (unat x) = s"
  shows "field_sum (2 * w) k (unat ((x AND of_nat (field_mask w k)) + (drop_bit w x AND of_nat (field_mask w k)) :: u64)) = s"
proof -
  have "unat (of_nat (field_mask w k) :: u64) = field_mask w k"
    using field_mask_bound [of w k] assms(2) by (simp add: unsigned_of_nat take_bit_nat_eq_self)
  from popcount_round [OF assms(1,2) this, of x] show ?thesis using field_round_sum [OF assms(1), of k "unat x"] assms(3) by simp
qed

lemma popcount_loop_sum: "unat (popcount_loop 1 popcount_masks x) = field_sum 1 64 (unat x)"
proof -
  define r where "r w k y = (y AND of_nat (field_mask w k)) + (drop_bit w y AND of_nat (field_mask w k) :: u64)" for w k y
  have st: "field_sum (2 * w) k (unat (r w k y)) = field_sum w (2 * k) (unat y)" if "0 < w" "2 * w * k = 64" for w k y
    unfolding r_def by (rule popcount_step [OF that refl])
  define y where "y = r 32 1 (r 16 2 (r 8 4 (r 4 8 (r 2 16 (r 1 32 x)))))"
  have "popcount_loop 1 popcount_masks x = y"
  proof -
    have "popcount_loop w (of_nat (field_mask w k) # ms) z = popcount_loop (w + w) ms (r w k z)" for w k ms z
      by (simp only: popcount_loop.simps r_def)
    then show ?thesis
      unfolding popcount_masks_fields y_def
      by (simp only: list.map prod.case popcount_loop.simps(1) one_add_one numeral_plus_numeral add_num_simps)
  qed
  moreover have "field_sum 64 1 (unat y) = field_sum 1 64 (unat x)"
    using st [of 32 1] st [of 16 2] st [of 8 4] st [of 4 8] st [of 2 16] st [of 1 32] unfolding y_def by simp
  moreover have "field_sum 64 1 (unat y) = unat y" using unat_u64_less [of y] by simp
  ultimately show ?thesis by simp
qed

lemma popcount_64_bits: "unat (popcount_64 x) = length (filter (bit x) [0..<64])"
proof -
  have "unat (popcount_loop 1 popcount_masks x) = length (filter (bit (unat x)) [0..<64])"
    unfolding popcount_loop_sum by (rule field_sum_bits)
  also have "filter (bit (unat x)) [0..<64] = filter (bit x) [0..<64]" by (intro filter_cong) (simp_all add: bit_unsigned_iff)
  finally have "unat (popcount_loop 1 popcount_masks x) = length (filter (bit x) [0..<64])" .
  moreover have "length (filter (bit x) [0..<64]) \<le> length [0..<64]" by (rule length_filter_le)
  ultimately show ?thesis by (simp add: popcount_64_def unat_ucast_mod)
qed

section \<open>Properties\<close>

text \<open>
  C30: the operators of \<open>uint128\<close> are the operations of 128-bit machine arithmetic: sum,
  difference, product, negation, increment and decrement modulo \<open>2^128\<close>; complement, or, and,
  exclusive or; the shifts for every count; equality, the test for zero and all the order
  comparisons; the quotient and the remainder, whose loop ends for every divisor but zero, which
  is refused. The two halves of the full product are the product without reduction, and the
  population count is the number of one bits.
\<close>

theorem uint128_is_word:
  "val (u128_add a b) = val a + val b \<and> val (u128_sub a b) = val a - val b \<and> val (u128_mul a b) = val a * val b \<and>
   val (u128_neg a) = - val a \<and> val (u128_inc a) = val a + 1 \<and> val (u128_dec a) = val a - 1 \<and>
   val (u128_not a) = NOT (val a) \<and> val (u128_or a b) = val a OR val b \<and> val (u128_and a b) = val a AND val b \<and>
   val (u128_xor a b) = val a XOR val b \<and>
   val (u128_shl a b) = push_bit (unat (val b)) (val a) \<and> val (u128_shr a b) = drop_bit (unat (val b)) (val a) \<and>
   (u128_eq a b \<longleftrightarrow> val a = val b) \<and> (u128_neq a b \<longleftrightarrow> val a \<noteq> val b) \<and> (u128_is_zero a \<longleftrightarrow> val a = 0) \<and>
   (u128_less a b \<longleftrightarrow> val a < val b) \<and> (u128_greater a b \<longleftrightarrow> val b < val a) \<and>
   (u128_ge a b \<longleftrightarrow> val b \<le> val a) \<and> (u128_le a b \<longleftrightarrow> val a \<le> val b) \<and>
   u128_div a b = (if val b = 0 then Inl (Runtime_error ''Division by zero.'') else Inr (u128_of_int128 (val a div val b))) \<and>
   u128_mod a b = (if val b = 0 then Inl (Logic_error ''divide by zero'') else Inr (Some (u128_of_int128 (val a mod val b)))) \<and>
   unat (val (fst (u128_full_product a b))) * 2 ^ 128 + unat (val (snd (u128_full_product a b))) = unat (val a) * unat (val b) \<and>
   unat (u128_popcount a) = length (filter (bit (val a)) [0..<128])"
proof (intro conjI)
  have of_val: "u128_of_int128 (val u) = u" for u using val_of_int128 [of "val u"] by (simp add: val_inject)
  show "u128_mod a b = (if val b = 0 then Inl (Logic_error ''divide by zero'') else Inr (Some (u128_of_int128 (val a mod val b))))"
  proof (cases "val b = 0")
    case True
    then show ?thesis by (simp add: u128_mod_def divide_def unat_zero)
  next
    case False
    then have "0 < unat (val b)" by (simp add: unat_gt_0)
    then obtain q r where q: "divide a b = Inr (Some (q, r))" "unat (val r) = unat (val a) mod unat (val b)"
      using divide_ok by blast
    then have "val r = val a mod val b" by (simp add: word_unat_eq_iff unat_mod)
    then have "r = u128_of_int128 (val a mod val b)" using of_val [of r] by simp
    then show ?thesis using False q(1) by (simp add: u128_mod_def)
  qed
  have "[0..<128] = [0..<64] @ map (\<lambda>i. i + 64) [0..<64]" by (simp add: map_add_upt upt_add_eq_append [of 0 64 64, simplified])
  have "length (filter (bit (val a)) [0..<128]) = length (filter (bit (u_lo a)) [0..<64]) + length (filter (bit (u_hi a)) [0..<64])"
  proof -
    have "filter (bit (val a)) [0..<64] = filter (bit (u_lo a)) [0..<64]" by (rule filter_cong) (simp_all add: bit_val)
    moreover have "bit (val a) \<circ> (\<lambda>i. i + 64) = bit (u_hi a)" by (simp add: fun_eq_iff bit_val)
    ultimately show ?thesis using \<open>[0..<128] = _\<close> by (simp add: filter_map)
  qed
  moreover have "length (filter (bit (u_lo a)) [0..<64]) + length (filter (bit (u_hi a)) [0..<64]) < 256"
    using length_filter_le [of "bit (u_lo a)" "[0..<64]"] length_filter_le [of "bit (u_hi a)" "[0..<64]"] unfolding length_upt by linarith
  ultimately show "unat (u128_popcount a) = length (filter (bit (val a)) [0..<128])"
    using popcount_64_bits [of "u_lo a"] popcount_64_bits [of "u_hi a"] by (simp add: u128_popcount_def unat_word_ariths)
  show "unat (val (fst (u128_full_product a b))) * 2 ^ 128 + unat (val (snd (u128_full_product a b))) = unat (val a) * unat (val b)"
    by (rule full_product_exact) simp
qed (rule val_add val_sub val_mul val_neg val_inc val_dec val_not val_bitwise val_shl val_shr val_compare val_less val_div)+

text \<open>
  C31: a number printed in decimal is read back: \<open>operator std::string\<close> always returns, without
  leaving its buffer, the decimal digits of the number, and the constructor from a string
  returns the number for them.
\<close>

theorem uint128_text_roundtrip:
  "u128_to_string u = Inr (nat_digits (unat (val u))) \<and> bindE (u128_to_string u) (\<lambda>s. Inr (u128_of_string s)) = Inr u"
proof -
  let ?n = "unat (val u)"
  have of_val: "parse_digits 10 (nat_digits ?n) (u128 0 0) = u"
    using parse_nat_digits [of ?n] val_inject by (simp add: u128_zero_def)
  have "u128_of_string (nat_digits ?n) = u"
  proof (cases "?n = 0")
    case True
    then have "u = u128 0 0" using val_inject [of u "u128 0 0"] by (simp add: val_u128 unat_eq_zero)
    moreover have "u128_of_string ''0'' = u128 0 0" by (simp add: u128_of_string_def)
    ultimately show ?thesis using True by (simp add: nat_digits.simps char_of_def bit_0)
  next
    case False
    obtain k :: nat where k: "nat_digits ?n \<noteq> []" "0 < k" "k < 10" "hd (nat_digits ?n) = char_of (48 + k)"
      using nat_digits_hd [of ?n] False by auto
    have "k \<in> {1, 2, 3, 4, 5, 6, 7, 8, 9}" using k(2,3) by auto
    then have "char_of (48 + k) \<noteq> CHR ''0''" "char_of (48 + k) \<noteq> CHR ''-''"
      by (elim insertE emptyE; simp add: char_of_def bit_0)+
    then show ?thesis using k(1,4) of_val by (simp add: u128_of_string_def)
  qed
  then show ?thesis by (simp add: to_string_digits)
qed

end
