(* ===== verification/Hex.thy ===== *)
theory Hex
  imports Datastream
begin

text \<open>
  Hexadecimal text (\<open>fc/src/crypto/hex.cpp\<close>) and the shifts of byte strings shared by the hash
  types (\<open>fc/src/crypto/_digest_common.cpp\<close>). Text is a list of characters, memory a list of
  bytes; \<open>from_hex\<close> writes into a buffer of the caller, so that the buffer is part of its result
  also when a character is refused. The shifts treat the bytes as one big-endian number
  (\<open>be_num\<close>); their loops keep the aliasing of the source, which goes on in place after moving
  whole bytes.
\<close>

unbundle bit_operations_syntax

section \<open>Hexadecimal text\<close>

datatype hex_error = Invalid_hex_character char

definition hex_digits :: string where
  "hex_digits = ''0123456789abcdef''"

definition from_hex_char :: "char \<Rightarrow> hex_error + u8" where
  "from_hex_char ch =
     (let c = of_char ch :: nat in
      if c \<ge> of_char (CHR ''0'') \<and> c \<le> of_char (CHR ''9'') then Inr (of_nat (c - of_char (CHR ''0'')))
      else if c \<ge> of_char (CHR ''a'') \<and> c \<le> of_char (CHR ''f'') then Inr (of_nat (c - of_char (CHR ''a'') + 10))
      else if c \<ge> of_char (CHR ''A'') \<and> c \<le> of_char (CHR ''F'') then Inr (of_nat (c - of_char (CHR ''A'') + 10))
      else Inl (Invalid_hex_character ch))"

fun to_hex :: "u8 list \<Rightarrow> string" where
  "to_hex [] = []"
| "to_hex (c # cs) = hex_digits ! unat (drop_bit 4 c) # hex_digits ! unat (c AND 0x0f) # to_hex cs"

definition to_hex_vector :: "u8 list \<Rightarrow> string" where
  "to_hex_vector data = (if length data \<noteq> 0 then to_hex data else [])"

text \<open>
  The loop of \<open>from_hex\<close>: the rest of the text, the buffer and the offset of \<open>out_pos\<close> in it.
  The value of the first digit is stored before the second digit is looked at.
\<close>

fun from_hex_loop :: "string \<Rightarrow> u8 list \<Rightarrow> nat \<Rightarrow> (hex_error + nat) \<times> u8 list" where
  "from_hex_loop [] buf pos = (Inr pos, buf)"
| "from_hex_loop [a] buf pos =
     (if pos = length buf then (Inr pos, buf)
      else case from_hex_char a of
             Inl e \<Rightarrow> (Inl e, buf)
           | Inr hi \<Rightarrow> (Inr (Suc pos), buf[pos := push_bit 4 hi]))"
| "from_hex_loop (a # b # cs) buf pos =
     (if pos = length buf then (Inr pos, buf)
      else case from_hex_char a of
             Inl e \<Rightarrow> (Inl e, buf)
           | Inr hi \<Rightarrow>
               (case from_hex_char b of
                  Inl e \<Rightarrow> (Inl e, buf[pos := push_bit 4 hi])
                | Inr lo \<Rightarrow> from_hex_loop cs (buf[pos := push_bit 4 hi OR lo]) (Suc pos)))"

definition from_hex :: "string \<Rightarrow> u8 list \<Rightarrow> (hex_error + nat) \<times> u8 list" where
  "from_hex hex_str out_data = from_hex_loop hex_str out_data 0"

lemma to_hex_length [simp]: "length (to_hex bs) = 2 * length bs"
  by (induction bs rule: to_hex.induct) simp_all

lemma from_hex_digit:
  assumes "n < 16"
  shows "from_hex_char (hex_digits ! n) = Inr (of_nat n)"
proof -
  have "\<forall>n \<in> set [0..<16]. from_hex_char (hex_digits ! n) = Inr (of_nat n)"
    by code_simp
  then show ?thesis using assms by simp
qed

lemma u8_less: "unat (b :: u8) < 256"
proof -
  have "unat b < 2 ^ LENGTH(8)" by (rule unsigned_less)
  then show ?thesis by simp
qed

lemma nibbles_of_byte:
  fixes c :: u8
  shows "unat (drop_bit 4 c) < 16" "unat (c AND 0x0f) < 16" "push_bit 4 (drop_bit 4 c) OR (c AND 0x0f) = c"
proof -
  show "unat (drop_bit 4 c) < 16"
    using u8_less [of c] by (simp add: drop_bit_eq_div unat_div_distrib)
  have "c AND 0x0f = take_bit 4 c" by (simp add: take_bit_eq_mask mask_eq_exp_minus_1)
  then show "unat (c AND 0x0f) < 16" by (simp add: take_bit_eq_mod unat_mod_distrib)
  have "push_bit 4 (drop_bit 4 c) OR take_bit 4 c = c" by (intro bit_word_eqI) (auto simp only: bit_simps possible_bit_word comp_apply le_add_diff_inverse)
  then show "push_bit 4 (drop_bit 4 c) OR (c AND 0x0f) = c" unfolding \<open>c AND 0x0f = take_bit 4 c\<close> .
qed

lemma from_hex_loop_to_hex:
  "pos + length bs \<le> length buf \<Longrightarrow>
     from_hex_loop (to_hex bs) buf pos = (Inr (pos + length bs), take pos buf @ bs @ drop (pos + length bs) buf)"
proof (induction bs arbitrary: buf pos)
  case (Cons b bs)
  let ?buf = "buf[pos := b]"
  have "from_hex_loop (to_hex bs) ?buf (Suc pos) =
      (Inr (Suc pos + length bs), take (Suc pos) ?buf @ bs @ drop (Suc pos + length bs) ?buf)"
    using Cons.prems by (intro Cons.IH) simp
  moreover have "take (Suc pos) ?buf = take pos buf @ [b]"
    using Cons.prems by (simp add: take_Suc_conv_app_nth)
  ultimately show ?case using Cons.prems nibbles_of_byte [of b] by (simp add: from_hex_digit)
qed simp

lemma hex_roundtrip_buffer:
  assumes "length bs \<le> length buf"
  shows "from_hex (to_hex bs) buf = (Inr (length bs), bs @ drop (length bs) buf)"
  using from_hex_loop_to_hex [of 0 bs buf] assms by (simp add: from_hex_def)

text \<open>Of the characters that fit the buffer the first that is no digit is refused.\<close>

definition is_hex :: "char \<Rightarrow> bool" where
  "is_hex c \<longleftrightarrow> c \<in> set ''0123456789abcdefABCDEF''"

lemma from_hex_char_outcome:
  "is_hex c \<Longrightarrow> \<exists>v. from_hex_char c = Inr v" "\<not> is_hex c \<Longrightarrow> from_hex_char c = Inl (Invalid_hex_character c)"
proof -
  have "\<forall>c \<in> set Enum.enum. (case from_hex_char c of Inl e \<Rightarrow> \<not> is_hex c \<and> e = Invalid_hex_character c | Inr v \<Rightarrow> is_hex c)"
    by code_simp
  then have "case from_hex_char c of Inl e \<Rightarrow> \<not> is_hex c \<and> e = Invalid_hex_character c | Inr v \<Rightarrow> is_hex c"
    by (simp only: enum_UNIV UNIV_I ball_UNIV)
  then show "is_hex c \<Longrightarrow> \<exists>v. from_hex_char c = Inr v" "\<not> is_hex c \<Longrightarrow> from_hex_char c = Inl (Invalid_hex_character c)"
    by (cases "from_hex_char c"; simp)+
qed

lemma from_hex_outcome:
  "pos \<le> length buf \<Longrightarrow> fst (from_hex_loop s buf pos) =
     (case find (\<lambda>c. \<not> is_hex c) (take (2 * (length buf - pos)) s) of
        Some c \<Rightarrow> Inl (Invalid_hex_character c)
      | None \<Rightarrow> Inr (pos + min (length buf - pos) (Suc (length s) div 2)))"
proof (induction s buf pos rule: from_hex_loop.induct)
  case (2 a buf pos)
  show ?case
  proof (cases "pos = length buf")
    case False
    then obtain k where "length buf - pos = Suc k" using 2 by (cases "length buf - pos") auto
    then show ?thesis using False from_hex_char_outcome [of a] by (cases "is_hex a") auto
  qed simp
next
  case (3 a b cs buf pos)
  show ?case
  proof (cases "pos = length buf")
    case False
    then obtain k where k: "length buf - pos = Suc k" "length buf - Suc pos = k" using 3 by (cases "length buf - pos") auto
    show ?thesis
    proof (cases "is_hex a \<and> is_hex b")
      case True
      then obtain v w where "from_hex_char a = Inr v" "from_hex_char b = Inr w" using from_hex_char_outcome(1) by blast
      then show ?thesis using False True k 3 by (auto split: option.splits)
    next
      case bad: False
      then show ?thesis
        using False k from_hex_char_outcome [of a] from_hex_char_outcome [of b] by (cases "is_hex a") auto
    qed
  qed simp
qed simp

section \<open>Shifts of byte strings\<close>

text \<open>
  The static overloads move whole bytes: \<open>n - i\<close> bytes are copied when \<open>i < n\<close> and the rest of
  the result is zero.
\<close>

definition shift_l_bytes :: "u8 list \<Rightarrow> nat \<Rightarrow> nat \<Rightarrow> u8 list" where
  "shift_l_bytes xs n i =
     (let copied = (if i < n then take (n - i) (drop i xs) else []);
          i = (if i < n then i else n)
      in copied @ replicate i 0)"

definition shift_r_bytes :: "u8 list \<Rightarrow> nat \<Rightarrow> nat \<Rightarrow> u8 list" where
  "shift_r_bytes xs n i =
     (let copied = (if i < n then take (n - i) xs else []);
          i = (if i < n then i else n)
      in replicate i 0 @ copied)"

text \<open>\<open>in8[p]\<close>: the input, or the output itself after \<open>in8 = out8\<close> (\<open>None\<close>).\<close>

definition in8 :: "u8 list option \<Rightarrow> u8 list \<Rightarrow> nat \<Rightarrow> u8" where
  "in8 src out8 p = (case src of None \<Rightarrow> out8 ! p | Some xs \<Rightarrow> xs ! p)"

text \<open>The loop of \<open>shift_l\<close> for \<open>p\<close> from its current value, with \<open>k\<close> bytes left up to \<open>n - 1\<close>.\<close>

fun shift_l_loop :: "u8 list option \<Rightarrow> nat \<Rightarrow> nat \<Rightarrow> nat \<Rightarrow> u8 list \<Rightarrow> u8 list" where
  "shift_l_loop src i p 0 out8 = out8[p := push_bit i (in8 src out8 p)]"
| "shift_l_loop src i p (Suc k) out8 =
     shift_l_loop src i (Suc p) k
       (out8[p := push_bit i (in8 src out8 p) OR drop_bit (8 - i) (in8 src out8 (p + 1))])"

definition shift_l :: "u8 list \<Rightarrow> u8 list \<Rightarrow> nat \<Rightarrow> u32 \<Rightarrow> u8 list" where
  "shift_l xs out n i =
     (if i \<ge> 8 then shift_l_loop None (unat (i AND 7)) 0 (n - 1) (shift_l_bytes xs n (unat (i div 8)))
      else shift_l_loop (Some xs) (unat i) 0 (n - 1) out)"

text \<open>The loop of \<open>shift_r\<close> runs from \<open>p = n - 1\<close> down to 1.\<close>

fun shift_r_loop :: "u8 list option \<Rightarrow> nat \<Rightarrow> nat \<Rightarrow> u8 list \<Rightarrow> u8 list" where
  "shift_r_loop src i 0 out8 = out8[0 := drop_bit i (in8 src out8 0)]"
| "shift_r_loop src i (Suc p) out8 =
     shift_r_loop src i p
       (out8[Suc p := drop_bit i (in8 src out8 (Suc p)) OR push_bit (8 - i) (in8 src out8 p)])"

definition shift_r :: "u8 list \<Rightarrow> u8 list \<Rightarrow> nat \<Rightarrow> u32 \<Rightarrow> u8 list" where
  "shift_r xs out n i =
     (if i \<ge> 8 then shift_r_loop None (unat (i AND 7)) (n - 1) (shift_r_bytes xs n (unat (i div 8)))
      else shift_r_loop (Some xs) (unat i) (n - 1) out)"

section \<open>The shifts as arithmetic\<close>

fun be_num :: "u8 list \<Rightarrow> nat" where
  "be_num [] = 0"
| "be_num (b # bs) = unat b * 256 ^ length bs + be_num bs"

text \<open>What the loops compute, as functions of the input alone.\<close>

fun shl_bytes :: "nat \<Rightarrow> u8 list \<Rightarrow> u8 list" where
  "shl_bytes i [] = []"
| "shl_bytes i [x] = [push_bit i x]"
| "shl_bytes i (x # y # ys) = (push_bit i x OR drop_bit (8 - i) y) # shl_bytes i (y # ys)"

fun shr_bytes :: "nat \<Rightarrow> u8 \<Rightarrow> u8 list \<Rightarrow> u8 list" where
  "shr_bytes i c [] = []"
| "shr_bytes i c (x # xs) = (drop_bit i x OR push_bit (8 - i) c) # shr_bytes i x xs"

lemma be_num_less: "be_num bs < 256 ^ length bs"
proof (induction bs)
  case (Cons b bs)
  have "(unat b + 1) * 256 ^ length bs \<le> 256 * 256 ^ length bs" using u8_less [of b] by (intro mult_right_mono) auto
  then show ?case using Cons.IH unfolding be_num.simps length_Cons power_Suc add_mult_distrib by linarith
qed simp

lemma be_num_append: "be_num (xs @ ys) = be_num xs * 256 ^ length ys + be_num ys"
  by (induction xs) (simp_all add: power_add algebra_simps)

lemma be_num_zeros [simp]: "be_num (replicate k 0) = 0"
  by (induction k) simp_all

lemma in8_simps [simp]: "in8 (Some xs) out8 p = xs ! p" "in8 None out8 p = out8 ! p"
  by (simp_all add: in8_def)

lemma length_shl_bytes [simp]: "length (shl_bytes i xs) = length xs"
  by (induction i xs rule: shl_bytes.induct) simp_all

lemma length_shr_bytes [simp]: "length (shr_bytes i c xs) = length xs"
  by (induction i c xs rule: shr_bytes.induct) simp_all

text \<open>
  Whether the loop reads a separate input or the bytes it is overwriting, the bytes that are
  still to be read are those of the input.
\<close>

lemma shift_l_loop_shl:
  assumes "length xs = Suc k" "length out = p + Suc k" "src = None \<Longrightarrow> drop p out = xs" "\<And>ys. src = Some ys \<Longrightarrow> drop p ys = xs"
  shows "shift_l_loop src i p k out = take p out @ shl_bytes i xs"
  using assms
proof (induction k arbitrary: xs out p)
  case 0
  then obtain x where x: "xs = [x]" by (cases xs) auto
  have r: "in8 src out p = x" using 0 x by (cases src) (auto simp: in8_def intro: nth_via_drop)
  have "take p out @ [push_bit i x] = out[p := push_bit i x]"
    using 0(2) by (simp add: list_eq_iff_nth_eq nth_append nth_list_update less_Suc_eq)
  then show ?case using x r by simp
next
  case (Suc k)
  then obtain x y ys where x: "xs = x # y # ys" by (cases xs; cases "tl xs") auto
  have d: "drop (Suc p) zs = y # ys" "zs ! p = x" "zs ! Suc p = y" if "drop p zs = xs" for zs
  proof -
    show "drop (Suc p) zs = y # ys" using that x by (metis drop_Suc tl_drop list.sel(3))
    then show "zs ! Suc p = y" by (rule nth_via_drop)
    show "zs ! p = x" using that x by (auto intro: nth_via_drop)
  qed
  have r: "in8 src out p = x" "in8 src out (p + 1) = y"
    using Suc.prems(3,4) d by (cases src; auto simp: in8_def)+
  let ?o = "out[p := push_bit i x OR drop_bit (8 - i) y]"
  have "shift_l_loop src i (Suc p) k ?o = take (Suc p) ?o @ shl_bytes i (y # ys)"
    using Suc.prems d x by (intro Suc.IH) auto
  moreover have "take (Suc p) ?o = take p out @ [push_bit i x OR drop_bit (8 - i) y]"
    using Suc.prems by (simp add: take_Suc_conv_app_nth)
  ultimately show ?case using r x by simp
qed

lemma shift_r_loop_shr:
  assumes "p < length out" "src = None \<Longrightarrow> take (Suc p) out = xs" "\<And>ys. src = Some ys \<Longrightarrow> take (Suc p) ys = xs" "length xs = Suc p"
  shows "shift_r_loop src i p out = shr_bytes i 0 xs @ drop (Suc p) out"
  using assms
proof (induction p arbitrary: xs out)
  case 0
  then obtain x where x: "xs = [x]" by (cases xs) auto
  have r: "in8 src out 0 = x"
  proof -
    have "zs ! 0 = x" if "take (Suc 0) zs = [x]" for zs using nth_take [of 0 "Suc 0" zs] that by simp
    then show ?thesis using 0(2,3) x by (cases src) (simp_all add: in8_def)
  qed
  show ?case using 0(1) x r by (cases out) simp_all
next
  case (Suc p)
  define ys z where "ys = butlast xs" and "z = last xs"
  have "xs \<noteq> []" using Suc.prems(4) by auto
  then have x: "xs = ys @ [z]" "length ys = Suc p" using Suc.prems(4) by (simp_all add: ys_def z_def)
  then have "ys \<noteq> []" by auto
  have d: "take (Suc p) zs = ys" "zs ! Suc p = z" "zs ! p = last ys" if "take (Suc (Suc p)) zs = xs" for zs
  proof -
    have "Suc p < length zs" using arg_cong [OF that, of length] Suc.prems(4) by (simp add: min_def split: if_splits)
    then have e: "take (Suc p) zs @ [zs ! Suc p] = ys @ [z]" using that x by (simp add: take_Suc_conv_app_nth)
    then show t: "take (Suc p) zs = ys" "zs ! Suc p = z" by simp_all
    have "last ys = ys ! p" using x(2) \<open>ys \<noteq> []\<close> by (simp add: last_conv_nth)
    also have "\<dots> = zs ! p" unfolding t(1) [symmetric] by simp
    finally show "zs ! p = last ys" by simp
  qed
  have r: "in8 src out (Suc p) = z" "in8 src out p = last ys"
    using Suc.prems(2,3) d by (cases src; auto simp: in8_def)+
  let ?b = "drop_bit i z OR push_bit (8 - i) (last ys)"
  have "shift_r_loop src i p (out[Suc p := ?b]) = shr_bytes i 0 ys @ drop (Suc p) (out[Suc p := ?b])"
    using Suc.prems d x by (intro Suc.IH) auto
  moreover have "drop (Suc p) (out[Suc p := ?b]) = ?b # drop (Suc (Suc p)) out"
    using Suc.prems(1) by (simp add: Cons_nth_drop_Suc [symmetric])
  moreover have "shr_bytes i c (ys @ [z]) = shr_bytes i c ys @ [?b]" if "ys \<noteq> []" for c
    using that by (induction ys arbitrary: c) auto
  ultimately show ?case using r x \<open>ys \<noteq> []\<close> by simp
qed

lemma unat_push_bit_u8: "i \<le> 8 \<Longrightarrow> unat (push_bit i (x :: u8)) = push_bit i (unat x mod 2 ^ (8 - i))"
proof -
  assume "i \<le> 8"
  then have "(2 :: nat) ^ LENGTH(8) = 2 ^ i * 2 ^ (8 - i)" by (simp flip: power_add)
  moreover have "unat (push_bit i x) = take_bit LENGTH(8) (push_bit i (unat x))" by (rule unsigned_push_bit_eq)
  ultimately show ?thesis by (simp only: take_bit_eq_mod push_bit_eq_mult mult_mod_right mult.commute)
qed

lemma unat_drop_bit_u8: "unat (drop_bit i (x :: u8)) = unat x div 2 ^ i"
proof -
  have "unat (drop_bit i x) = drop_bit i (take_bit LENGTH(8) (unat x))" by (rule unsigned_drop_bit_eq)
  then show ?thesis using u8_less [of x] by (simp only: drop_bit_eq_div take_bit_eq_mod) simp
qed

lemma byte_shl:
  assumes "i < 8"
  shows "unat (push_bit i x OR drop_bit (8 - i) (y :: u8)) = unat x * 2 ^ i mod 256 + unat y div 2 ^ (8 - i)"
proof -
  have "(2 :: nat) ^ i * 2 ^ (8 - i) = 256" using assms by (simp flip: power_add)
  then have k: "unat y div 2 ^ (8 - i) < 2 ^ i" using u8_less [of y] by (simp add: div_less_iff_less_mult)
  have "unat (push_bit i x OR drop_bit (8 - i) y) = push_bit i (unat x mod 2 ^ (8 - i)) OR (unat y div 2 ^ (8 - i))"
    using assms by (simp only: unsigned_or_eq unat_push_bit_u8 less_imp_le unat_drop_bit_u8)
  also have "\<dots> = unat y div 2 ^ (8 - i) + 2 ^ i * (unat x mod 2 ^ (8 - i))"
    unfolding or.commute [of "push_bit i _"] by (rule or_shifted [OF k])
  finally show ?thesis using \<open>2 ^ i * 2 ^ (8 - i) = 256\<close> by (simp add: mult_mod_right mult.commute)
qed

lemma byte_shr:
  assumes "i < 8"
  shows "unat (drop_bit i x OR push_bit (8 - i) (c :: u8)) = unat x div 2 ^ i + unat c * 2 ^ (8 - i) mod 256"
proof (cases "i = 0")
  case True
  have "push_bit 8 c = 0" by (rule bit_word_eqI) (simp add: bit_simps)
  then show ?thesis using True by simp
next
  case False
  then show ?thesis using byte_shl [of "8 - i" c x] assms by (simp add: or.commute)
qed

lemma shl_bytes_num:
  assumes "i < 8"
  shows "be_num (shl_bytes i xs) = be_num xs * 2 ^ i mod 256 ^ length xs"
proof (induction xs rule: induct_list012)
  case (2 x)
  have "push_bit i x = push_bit i x OR drop_bit (8 - i) 0" by simp
  then show ?case using byte_shl [OF assms, of x 0] by simp
next
  case (3 x y ys)
  define K where "K = (256 :: nat) ^ length ys"
  define M where "M = 256 * K"
  define N where "N = be_num (y # ys)"
  have K: "be_num ys < K" "0 < K" by (simp_all add: K_def be_num_less)
  have p: "(256 :: nat) = 2 ^ i * 2 ^ (8 - i)" using assms by (simp flip: power_add)
  let ?c = "unat y div 2 ^ (8 - i)"
  let ?a = "(unat x * M + N) * 2 ^ i"
  have "N * 2 ^ i div M = N div (2 ^ (8 - i) * K)"
    unfolding M_def p by (simp add: mult.assoc mult.left_commute [of K] mult.commute [of N])
  also have "\<dots> = N div K div 2 ^ (8 - i)" by (metis div_mult2_eq mult.commute)
  also have "N div K = unat y" using K by (simp add: N_def K_def)
  finally have c: "N * 2 ^ i div M = ?c" .
  have a: "?a = unat x * 2 ^ i * M + N * 2 ^ i" by (simp add: algebra_simps)
  have d: "?a div M = unat x * 2 ^ i + ?c" unfolding a c [symmetric] using K by (simp add: M_def)
  have b: "(unat x * 2 ^ i + ?c) mod 256 = unat x * 2 ^ i mod 256 + ?c"
  proof -
    have "unat x * 2 ^ i mod 256 + ?c < 256"
      using u8_less [of "push_bit i x OR drop_bit (8 - i) y"] byte_shl [OF assms, of x y] by simp
    then show ?thesis by (metis mod_add_left_eq mod_less)
  qed
  have m: "?a mod M = N * 2 ^ i mod M" unfolding a by simp
  have "?a mod (M * 256) = M * (?a div M mod 256) + ?a mod M" by (rule mod_mult2_eq)
  then have "?a mod (256 * M) = (unat x * 2 ^ i mod 256 + ?c) * M + N * 2 ^ i mod M"
    unfolding d m b by (simp only: mult.commute)
  then show ?case
    using 3(2) byte_shl [OF assms, of x y] 
    by (simp only: shl_bytes.simps be_num.simps(2) length_shl_bytes length_Cons power_Suc M_def K_def N_def)
qed simp

lemma shr_bytes_num:
  assumes "i < 8"
  shows "be_num (shr_bytes i c xs) = (unat c * 256 ^ length xs + be_num xs) div 2 ^ i mod 256 ^ length xs"
proof (induction xs arbitrary: c)
  case (Cons x xs)
  define M where "M = (256 :: nat) ^ length xs"
  define N where "N = be_num xs"
  have M: "N < M" "0 < M" by (simp_all add: M_def N_def be_num_less)
  have p: "(256 :: nat) = 2 ^ i * 2 ^ (8 - i)" using assms by (simp flip: power_add)
  let ?a = "(unat c * (256 * M) + (unat x * M + N)) div 2 ^ i"
  have a: "?a = unat c * 2 ^ (8 - i) * M + (unat x * M + N) div 2 ^ i"
  proof -
    have "unat c * (256 * M) = (unat c * 2 ^ (8 - i) * M) * 2 ^ i" by (simp add: p)
    then show ?thesis by (simp only: div_mult_self3) simp
  qed
  have "(unat x * M + N) div 2 ^ i div M = (unat x * M + N) div M div 2 ^ i"
    by (metis div_mult2_eq mult.commute)
  then have d: "?a div M = unat c * 2 ^ (8 - i) + unat x div 2 ^ i"
    unfolding a using M by simp
  have m: "?a mod M = (unat x * M + N) div 2 ^ i mod M" unfolding a by simp
  have b: "(unat c * 2 ^ (8 - i) + unat x div 2 ^ i) mod 256 = unat x div 2 ^ i + unat c * 2 ^ (8 - i) mod 256"
  proof -
    have "unat x div 2 ^ i + unat c * 2 ^ (8 - i) mod 256 < 256"
      using u8_less [of "drop_bit i x OR push_bit (8 - i) c"] byte_shr [OF assms, of x c] by simp
    then show ?thesis by (metis add.commute mod_add_left_eq mod_less)
  qed
  have "?a mod (M * 256) = M * (?a div M mod 256) + ?a mod M" by (rule mod_mult2_eq)
  then have "?a mod (256 * M) = (unat x div 2 ^ i + unat c * 2 ^ (8 - i) mod 256) * M + (unat x * M + N) div 2 ^ i mod M"
    unfolding d m b by (simp only: mult.commute)
  then show ?case
    using Cons.IH [of x] byte_shr [OF assms, of x c] by (simp only: shr_bytes.simps be_num.simps length_shr_bytes length_Cons power_Suc M_def N_def)
qed simp

lemma shift_l_bytes_num:
  assumes "length xs = n"
  shows "be_num (shift_l_bytes xs n j) = be_num xs * 256 ^ j mod 256 ^ n" "length (shift_l_bytes xs n j) = n"
proof -
  show "length (shift_l_bytes xs n j) = n" using assms by (auto simp: shift_l_bytes_def)
  show "be_num (shift_l_bytes xs n j) = be_num xs * 256 ^ j mod 256 ^ n"
  proof (cases "j < n")
    case True
    then have p: "(256 :: nat) ^ n = 256 ^ (n - j) * 256 ^ j" by (simp flip: power_add)
    have "be_num xs = be_num (take j xs) * 256 ^ (n - j) + be_num (drop j xs)"
      using be_num_append [of "take j xs" "drop j xs"] assms by simp
    moreover have "be_num (drop j xs) < 256 ^ (n - j)" using be_num_less [of "drop j xs"] assms by simp
    ultimately have "be_num xs mod 256 ^ (n - j) = be_num (drop j xs)" by simp
    then show ?thesis using True assms
      by (simp add: shift_l_bytes_def be_num_append) (simp add: p flip: mult_mod_left)
  next
    case False
    then have "(256 :: nat) ^ n dvd 256 ^ j" by (simp add: le_imp_power_dvd)
    then show ?thesis using False by (simp add: shift_l_bytes_def)
  qed
qed

lemma shift_r_bytes_num:
  assumes "length xs = n"
  shows "be_num (shift_r_bytes xs n j) = be_num xs div 256 ^ j" "length (shift_r_bytes xs n j) = n"
proof -
  show "length (shift_r_bytes xs n j) = n" using assms by (auto simp: shift_r_bytes_def)
  show "be_num (shift_r_bytes xs n j) = be_num xs div 256 ^ j"
  proof (cases "j < n")
    case True
    have "be_num xs = be_num (take (n - j) xs) * 256 ^ j + be_num (drop (n - j) xs)"
      using be_num_append [of "take (n - j) xs" "drop (n - j) xs"] assms True by simp
    moreover have "be_num (drop (n - j) xs) < 256 ^ j" using be_num_less [of "drop (n - j) xs"] assms True by simp
    ultimately have "be_num xs div 256 ^ j = be_num (take (n - j) xs)" by simp
    then show ?thesis using True assms by (simp add: shift_r_bytes_def be_num_append)
  next
    case False
    then have "be_num xs < 256 ^ j" using be_num_less [of xs] assms
      by (meson less_le_trans not_less power_increasing one_le_numeral)
    then show ?thesis using False by (simp add: shift_r_bytes_def)
  qed
qed

lemma shift_amount:
  fixes i :: u32
  shows "unat (i AND 7) = unat i mod 8" "unat (i div 8) = unat i div 8"
proof -
  have "i AND 7 = take_bit 3 i" by (simp add: take_bit_eq_mask mask_eq_exp_minus_1)
  then show "unat (i AND 7) = unat i mod 8" by (simp add: take_bit_eq_mod unat_mod_distrib)
  show "unat (i div 8) = unat i div 8" by (simp add: unat_div_distrib)
qed

lemma byte_bit_amount: "(256 :: nat) ^ (k div 8) * 2 ^ (k mod 8) = 2 ^ k"
proof -
  have "(2 :: nat) ^ (8 * (k div 8) + k mod 8) = (2 ^ 8) ^ (k div 8) * 2 ^ (k mod 8)" by (simp only: power_add power_mult)
  then show ?thesis by simp
qed

lemma shift_l_num:
  assumes "length xs = n" "length out = n" "0 < n"
  shows "be_num (shift_l xs out n i) = be_num xs * 2 ^ unat i mod 256 ^ n" "length (shift_l xs out n i) = n"
proof -
  have n: "n = Suc (n - 1)" using assms(3) by simp
  have loop: "shift_l_loop None r 0 (n - 1) ys = shl_bytes r ys" if "length ys = n" for r ys
    using shift_l_loop_shl [of ys "n - 1" ys 0 None r] that n by simp
  have "be_num (shift_l xs out n i) = be_num xs * 2 ^ unat i mod 256 ^ n \<and> length (shift_l xs out n i) = n"
  proof (cases "i \<ge> 8")
    case True
    let ?j = "unat i div 8" and ?r = "unat i mod 8"
    have "shift_l xs out n i = shl_bytes ?r (shift_l_bytes xs n ?j)"
      using True loop shift_l_bytes_num(2) [OF assms(1)] by (simp add: shift_l_def shift_amount)
    moreover have "be_num (shl_bytes ?r (shift_l_bytes xs n ?j)) = be_num xs * (256 ^ ?j * 2 ^ ?r) mod 256 ^ n"
      using shl_bytes_num [of ?r "shift_l_bytes xs n ?j"] shift_l_bytes_num [OF assms(1), of ?j]
      by (simp add: mod_mult_left_eq mult.assoc)
    ultimately show ?thesis using shift_l_bytes_num(2) [OF assms(1)] by (simp add: byte_bit_amount)
  next
    case False
    then have "unat i < 8" by (simp add: word_le_nat_alt)
    moreover have "shift_l xs out n i = shl_bytes (unat i) xs"
      using False shift_l_loop_shl [of xs "n - 1" out 0 "Some xs" "unat i"] assms n by (simp add: shift_l_def)
    ultimately show ?thesis using shl_bytes_num [of "unat i" xs] assms by simp
  qed
  then show "be_num (shift_l xs out n i) = be_num xs * 2 ^ unat i mod 256 ^ n" "length (shift_l xs out n i) = n" by simp_all
qed

lemma shift_r_num:
  assumes "length xs = n" "length out = n" "0 < n"
  shows "be_num (shift_r xs out n i) = be_num xs div 2 ^ unat i" "length (shift_r xs out n i) = n"
proof -
  have n: "n = Suc (n - 1)" using assms(3) by simp
  have shr: "be_num (shr_bytes r 0 ys) = be_num ys div 2 ^ r" if "r < 8" for r ys
  proof -
    have "be_num ys div 2 ^ r < 256 ^ length ys" using be_num_less [of ys] by (meson div_le_dividend le_less_trans)
    then show ?thesis using shr_bytes_num [OF that, of 0 ys] by simp
  qed
  have loop: "shift_r_loop None r (n - 1) ys = shr_bytes r 0 ys" if "length ys = n" for r ys
    using shift_r_loop_shr [of "n - 1" ys None ys r] that n by simp
  have "be_num (shift_r xs out n i) = be_num xs div 2 ^ unat i \<and> length (shift_r xs out n i) = n"
  proof (cases "i \<ge> 8")
    case True
    let ?j = "unat i div 8" and ?r = "unat i mod 8"
    have "shift_r xs out n i = shr_bytes ?r 0 (shift_r_bytes xs n ?j)"
      using True loop shift_r_bytes_num(2) [OF assms(1)] by (simp add: shift_r_def shift_amount)
    moreover have "be_num (shr_bytes ?r 0 (shift_r_bytes xs n ?j)) = be_num xs div (256 ^ ?j * 2 ^ ?r)"
      using shr [of ?r] shift_r_bytes_num [OF assms(1), of ?j] by (simp add: div_mult2_eq)
    ultimately show ?thesis using shift_r_bytes_num(2) [OF assms(1)] by (simp add: byte_bit_amount)
  next
    case False
    then have "unat i < 8" by (simp add: word_le_nat_alt)
    moreover have "shift_r xs out n i = shr_bytes (unat i) 0 xs"
      using False shift_r_loop_shr [of "n - 1" out "Some xs" xs "unat i"] assms n by (simp add: shift_r_def)
    ultimately show ?thesis using shr assms by simp
  qed
  then show "be_num (shift_r xs out n i) = be_num xs div 2 ^ unat i" "length (shift_r xs out n i) = n" by simp_all
qed

end
