(* ===== verification/Sha256_Ops.thy ===== *)
theory Sha256_Ops
  imports Sha256 Hex "HOL-Library.Log_Nat"
begin

text \<open>
  The operations of \<open>fc::sha256\<close> that treat the digest as a number or as text
  (\<open>fc/src/crypto/sha256.cpp\<close>): the constructors from memory and from hexadecimal text, the
  shifts, the comparisons, the number of leading zero bits, the approximate logarithm and its
  inverse. The number of a digest is its 32 bytes in big-endian order (\<open>sha256_num\<close>). Writing
  through \<open>data()\<close> changes the words, which are the bytes read in little-endian order
  (\<open>sha256_of_bytes\<close>).
\<close>

unbundle bit_operations_syntax

section \<open>Construction and text\<close>

datatype sha256_error = Size_mismatch | Hex_error hex_error

definition sha256_of_bytes :: "u8 list \<Rightarrow> sha256" where
  "sha256_of_bytes bs =
     Sha256 (le_word (take 8 bs)) (le_word (take 8 (drop 8 bs))) (le_word (take 8 (drop 16 bs))) (le_word (take 8 (drop 24 bs)))"

definition sha256_of_memory :: "u8 list \<Rightarrow> sha256_error + sha256" where
  "sha256_of_memory data = (if length data \<noteq> 32 then Inl Size_mismatch else Inr (sha256_of_bytes data))"

text \<open>\<open>mem\<close> is what the 32 bytes of the new object hold before the constructor runs.\<close>

definition sha256_of_string :: "u8 list \<Rightarrow> string \<Rightarrow> sha256_error + sha256" where
  "sha256_of_string mem hex_str =
     (case from_hex hex_str mem of
        (Inl e, buf) \<Rightarrow> Inl (Hex_error e)
      | (Inr bytes_written, buf) \<Rightarrow>
          Inr (sha256_of_bytes
                 (if bytes_written < 32 then take bytes_written buf @ replicate (32 - bytes_written) 0 else buf)))"

definition sha256_str :: "sha256 \<Rightarrow> string" where
  "sha256_str h = to_hex (sha256_data h)"

section \<open>Streams\<close>

definition ds_write_sha256 :: "sha256 \<Rightarrow> (dstream, unit) exec" where
  "ds_write_sha256 h = ds_write (sha256_data h)"

definition ds_read_sha256 :: "(dstream, sha256) exec" where
  "ds_read_sha256 = bindX (ds_read 32) (\<lambda>bs. returnX (sha256_of_bytes bs))"

section \<open>Shifts and comparisons\<close>

definition sha256_shl :: "sha256 \<Rightarrow> u32 \<Rightarrow> sha256" where
  "sha256_shl h i = sha256_of_bytes (shift_l (sha256_data h) (sha256_data sha256_zero) 32 i)"

definition sha256_shr :: "sha256 \<Rightarrow> u32 \<Rightarrow> sha256" where
  "sha256_shr h i = sha256_of_bytes (shift_r (sha256_data h) (sha256_data sha256_zero) 32 i)"

definition sha256_ge :: "sha256 \<Rightarrow> sha256 \<Rightarrow> bool" where
  "sha256_ge g h \<longleftrightarrow> memcmp (sha256_data g) (sha256_data h) \<ge> 0"

definition sha256_gt :: "sha256 \<Rightarrow> sha256 \<Rightarrow> bool" where
  "sha256_gt g h \<longleftrightarrow> memcmp (sha256_data g) (sha256_data h) > 0"

fun sha256_eq :: "sha256 \<Rightarrow> sha256 \<Rightarrow> bool" where
  "sha256_eq (Sha256 a b c d) (Sha256 a' b' c' d') \<longleftrightarrow> a = a' \<and> b = b' \<and> c = c' \<and> d = d'"

definition sha256_neq :: "sha256 \<Rightarrow> sha256 \<Rightarrow> bool" where
  "sha256_neq g h \<longleftrightarrow> \<not> sha256_eq g h"

section \<open>Leading zeros and the approximate logarithm\<close>

definition char2lzbits :: "nat list" where
  "char2lzbits =
    [8, 7, 6, 6, 5, 5, 5, 5, 4, 4, 4, 4, 4, 4, 4, 4, 3, 3, 3, 3, 3, 3, 3, 3, 3, 3, 3, 3, 3, 3, 3, 3,
     2, 2, 2, 2, 2, 2, 2, 2, 2, 2, 2, 2, 2, 2, 2, 2, 2, 2, 2, 2, 2, 2, 2, 2, 2, 2, 2, 2, 2, 2, 2, 2,
     1, 1, 1, 1, 1, 1, 1, 1, 1, 1, 1, 1, 1, 1, 1, 1, 1, 1, 1, 1, 1, 1, 1, 1, 1, 1, 1, 1, 1, 1, 1, 1,
     1, 1, 1, 1, 1, 1, 1, 1, 1, 1, 1, 1, 1, 1, 1, 1, 1, 1, 1, 1, 1, 1, 1, 1, 1, 1, 1, 1, 1, 1, 1, 1,
     0, 0, 0, 0, 0, 0, 0, 0, 0, 0, 0, 0, 0, 0, 0, 0, 0, 0, 0, 0, 0, 0, 0, 0, 0, 0, 0, 0, 0, 0, 0, 0,
     0, 0, 0, 0, 0, 0, 0, 0, 0, 0, 0, 0, 0, 0, 0, 0, 0, 0, 0, 0, 0, 0, 0, 0, 0, 0, 0, 0, 0, 0, 0, 0,
     0, 0, 0, 0, 0, 0, 0, 0, 0, 0, 0, 0, 0, 0, 0, 0, 0, 0, 0, 0, 0, 0, 0, 0, 0, 0, 0, 0, 0, 0, 0, 0,
     0, 0, 0, 0, 0, 0, 0, 0, 0, 0, 0, 0, 0, 0, 0, 0, 0, 0, 0, 0, 0, 0, 0, 0, 0, 0, 0, 0, 0, 0, 0, 0]"

text \<open>The loop of \<open>clz\<close> on the bytes from index \<open>i\<close>; there is at least one byte left.\<close>

fun clz_loop :: "nat \<Rightarrow> u8 list \<Rightarrow> nat" where
  "clz_loop lzbits [] = 0x100"
| "clz_loop lzbits (c # cs) =
     (let lzbits = lzbits + char2lzbits ! unat c
      in if c \<noteq> 0 then lzbits else clz_loop lzbits cs)"

definition sha256_clz :: "sha256 \<Rightarrow> 16 word" where
  "sha256_clz h = of_nat (clz_loop 0 (sha256_data h))"

definition approx_log_32 :: "sha256 \<Rightarrow> u32" where
  "approx_log_32 h =
     (let lzbits = sha256_clz h in
      if lzbits \<ge> 0x100 then 0
      else let nzbits = ucast (0xFF - lzbits) :: u8;
               offset = unat (drop_bit 3 lzbits);
               my_bytes = sha256_data h;
               byte_at = (\<lambda>k. if k < 32 then ucast (my_bytes ! k) else 0 :: u32);
               y = push_bit 0x18 (byte_at offset) OR push_bit 0x10 (byte_at (offset + 1))
                   OR push_bit 0x08 (byte_at (offset + 2)) OR byte_at (offset + 3);
               y = drop_bit (unat (nzbits AND 7)) y;
               y = y XOR push_bit 0x18 1
           in y OR push_bit 0x18 (ucast nzbits))"

definition set_to_inverse_approx_log_32 :: "u32 \<Rightarrow> sha256" where
  "set_to_inverse_approx_log_32 x =
     (let nzbits = ucast (drop_bit 0x18 x) :: u8;
          this = Sha256 0 0 0 0
      in if nzbits = 0 then this
         else let x0 = ucast (x AND 0xFF);
                  x1 = ucast (drop_bit 0x08 x AND 0xFF);
                  x2 = ucast (drop_bit 0x10 x AND 0xFF);
                  this = sha256_of_bytes ((sha256_data this)[0x1F := x0, 0x1E := x1, 0x1D := x2, 0x1C := 1])
              in if nzbits \<le> 0x18 then sha256_shr this (0x18 - ucast nzbits)
                 else sha256_shl this (ucast nzbits - 0x18))"

text \<open>The value of the \<open>double\<close>; its 25 significant bits make it exact.\<close>

definition inverse_approx_log_32_double :: "u32 \<Rightarrow> rat" where
  "inverse_approx_log_32_double x =
     (let nzbits = ucast (drop_bit 0x18 x) :: u8
      in if nzbits = 0 then 0
         else let b = push_bit 0x18 1 :: u32;
                  y = (x AND (b - 1)) OR b
              in of_nat (unat y) * 2 ^ unat nzbits / 2 ^ 0x18)"

section \<open>The digest as a number\<close>

definition sha256_num :: "sha256 \<Rightarrow> nat" where
  "sha256_num h = be_num (sha256_data h)"

lemma word_bytes_le: "word_bytes w = le_bytes 8 w"
  by (simp add: word_bytes_def le_bytes_def upt_rec)

lemma sha256_data_of_bytes: "length bs = 32 \<Longrightarrow> sha256_data (sha256_of_bytes bs) = bs"
proof -
  assume l: "length bs = 32"
  have "word_bytes (le_word xs :: u64) = xs" if "length xs = 8" for xs
    using le_bytes_word [where 'a = 64, of xs] that by (simp add: word_bytes_le)
  then have "sha256_data (sha256_of_bytes bs) = take 8 bs @ take 8 (drop 8 bs) @ take 8 (drop 16 bs) @ take 8 (drop 24 bs)"
    using l by (simp add: sha256_of_bytes_def)
  also have "\<dots> = bs" using l by (simp add: take_add [symmetric] flip: append_assoc)
  finally show ?thesis .
qed

lemma sha256_of_bytes_data: "sha256_of_bytes (sha256_data h) = h"
  by (rule sha256_data_inj) (simp add: sha256_data_of_bytes)

lemma sha256_num_less: "sha256_num h < 2 ^ 256"
  using be_num_less [of "sha256_data h"] by (simp add: sha256_num_def)

lemma sha256_num_shl: "sha256_num (sha256_shl h i) = sha256_num h * 2 ^ unat i mod 2 ^ 256"
  using shift_l_num [of "sha256_data h" 32 "sha256_data sha256_zero" i]
  by (simp add: sha256_num_def sha256_shl_def sha256_data_of_bytes)

lemma sha256_num_shr: "sha256_num (sha256_shr h i) = sha256_num h div 2 ^ unat i"
  using shift_r_num [of "sha256_data h" 32 "sha256_data sha256_zero" i]
  by (simp add: sha256_num_def sha256_shr_def sha256_data_of_bytes)

section \<open>Leading zeros\<close>

lemma char2lzbits_floorlog: "char2lzbits ! unat (c :: u8) = 8 - floorlog 2 (unat c)" "floorlog 2 (unat c) \<le> 8"
proof -
  have "char2lzbits = map (\<lambda>c. 8 - floorlog 2 c) [0..<256]" by code_simp
  then show "char2lzbits ! unat c = 8 - floorlog 2 (unat c)"
    using nth_map_upt [of "unat c" 256 0 "\<lambda>c. 8 - floorlog 2 c"] u8_less [of c] by (simp only: diff_zero add_0)
  show "floorlog 2 (unat c) \<le> 8" using u8_less [of c] by (intro floorlog_leI) simp_all
qed

lemma floorlog_digits:
  fixes c :: nat
  assumes "0 < c" "N < 2 ^ k"
  shows "floorlog 2 (c * 2 ^ k + N) = floorlog 2 c + k"
proof (rule antisym)
  have b: "2 ^ (floorlog 2 c - 1) \<le> c" "c < 2 ^ floorlog 2 c" "0 < floorlog 2 c"
    using floorlog_bounds [of c 2] assms(1) floorlog_eq_zero_iff [of 2 c] by auto
  have "(c + 1) * 2 ^ k \<le> 2 ^ floorlog 2 c * 2 ^ k" using b by (intro mult_right_mono) auto
  then have "c * 2 ^ k + N < 2 ^ (floorlog 2 c + k)"
    using assms(2) unfolding power_add add_mult_distrib by linarith
  then show "floorlog 2 (c * 2 ^ k + N) \<le> floorlog 2 c + k" by (intro floorlog_leI) simp_all
  have "floorlog 2 c + k = floorlog 2 (c * 2 ^ k)" using assms(1) by simp
  also have "\<dots> \<le> floorlog 2 (c * 2 ^ k + N)" by (rule floorlog_mono) simp
  finally show "floorlog 2 c + k \<le> floorlog 2 (c * 2 ^ k + N)" .
qed

lemma clz_loop_floorlog:
  "clz_loop lz bs = (if be_num bs = 0 then 256 else lz + 8 * length bs - floorlog 2 (be_num bs))"
proof (induction bs arbitrary: lz)
  case (Cons c bs)
  show ?case
  proof (cases "c = 0")
    case True
    then show ?thesis using Cons.IH char2lzbits_floorlog(1) [of 0]
      by (simp add: Let_def floorlog_eq_zero_iff [THEN iffD2] add.assoc)
  next
    case False
    have p: "(256 :: nat) ^ length bs = 2 ^ (8 * length bs)" by (simp add: power_mult)
    have "0 < unat c" using False by (simp add: unat_gt_0)
    moreover have "be_num bs < 2 ^ (8 * length bs)" using be_num_less [of bs] by (simp only: p)
    ultimately have "floorlog 2 (be_num (c # bs)) = floorlog 2 (unat c) + 8 * length bs"
      by (simp only: be_num.simps p floorlog_digits)
    then show ?thesis using False char2lzbits_floorlog [of c] \<open>0 < unat c\<close> by (simp add: Let_def)
  qed
qed simp

lemma sha256_clz_num: "unat (sha256_clz h) = 256 - floorlog 2 (sha256_num h)"
proof -
  have "clz_loop 0 (sha256_data h) = 256 - floorlog 2 (sha256_num h)"
    by (simp add: clz_loop_floorlog sha256_num_def floorlog_eq_zero_iff [THEN iffD2])
  then show ?thesis by (simp add: sha256_clz_def unat_of_nat)
qed

section \<open>The approximate logarithm\<close>

text \<open>Four bytes from an offset, with zeros beyond the end, are a window of the number.\<close>

lemma be_num_window:
  assumes "off < 32" "length bs = 32" "be_num bs < 256 ^ (32 - off)"
  defines "val_at \<equiv> \<lambda>k. if k < 32 then unat (bs ! k) else 0"
  shows "val_at off * 2 ^ 24 + val_at (off + 1) * 2 ^ 16 + val_at (off + 2) * 2 ^ 8 + val_at (off + 3) = be_num bs * 2 ^ 24 div 256 ^ (31 - off)"
proof -
  define zs where "zs = bs @ [0, 0, 0]"
  have z: "unat (zs ! k) = val_at k" if "k < 35" for k
    using that assms(2) by (auto simp: zs_def val_at_def nth_append nth_Cons less_Suc_eq numeral_eq_Suc split: nat.splits)
  define a b c where "a = take off zs" and "b = take 4 (drop off zs)" and "c = drop 4 (drop off zs)"
  have "zs = a @ b @ c" by (simp only: a_def b_def c_def append_take_drop_id)
  have l: "length b = 4" "length c = 31 - off" using assms(1,2) by (simp_all add: a_def b_def c_def zs_def)
  have "be_num zs = be_num bs * 2 ^ 24" by (simp add: zs_def be_num_append)
  then have e: "be_num a * 256 ^ (35 - off) + (be_num b * 256 ^ (31 - off) + be_num c) = be_num bs * 2 ^ 24"
    using l assms(1) by (simp add: \<open>zs = a @ b @ c\<close> be_num_append Nat.diff_add_assoc2)
  have "(256 :: nat) ^ (35 - off) = 256 ^ (32 - off) * 2 ^ 24" 
    using power_add [of "256 :: nat" "32 - off" 3] assms(1) by simp
  then have "be_num bs * 2 ^ 24 < 256 ^ (35 - off)" using assms(3) by simp
  then have "be_num a = 0" using e by (cases "be_num a") auto
  moreover have "be_num c < 256 ^ (31 - off)" using be_num_less [of c] l by simp
  ultimately have "be_num bs * 2 ^ 24 div 256 ^ (31 - off) = be_num b" using e [symmetric] by simp
  moreover have "b = [zs ! off, zs ! (off + 1), zs ! (off + 2), zs ! (off + 3)]"
  proof -
    have "length zs = 35" using assms(2) by (simp add: zs_def)
    then have "drop off zs = zs ! off # zs ! Suc off # zs ! Suc (Suc off) # zs ! Suc (Suc (Suc off)) # drop (Suc (Suc (Suc (Suc off)))) zs"
      using assms(1) Cons_nth_drop_Suc [of off zs] Cons_nth_drop_Suc [of "Suc off" zs]
        Cons_nth_drop_Suc [of "Suc (Suc off)" zs] Cons_nth_drop_Suc [of "Suc (Suc (Suc off))" zs]
      by simp
    then show ?thesis by (simp add: b_def numeral_3_eq_3)
  qed
  ultimately show ?thesis using z [of off] z [of "off + 1"] z [of "off + 2"] z [of "off + 3"] assms(1) by simp
qed

lemma unat_shifted_u32:
  fixes b :: "'a::len word"
  assumes "unat b < 2 ^ 8" "k \<le> 24"
  shows "unat (push_bit k (ucast b :: u32)) = push_bit k (unat b)"
proof -
  have "unat (ucast b :: u32) = take_bit LENGTH(32) (unat b)" by (rule unsigned_ucast_eq)
  then have "unat (ucast b :: u32) = unat b" using assms(1) by (simp add: take_bit_nat_eq_self)
  moreover have "unat b * 2 ^ k < 2 ^ 8 * 2 ^ 24" using assms by (intro mult_less_le_imp_less power_increasing) auto
  moreover have "unat (push_bit k (ucast b :: u32)) = take_bit LENGTH(32) (push_bit k (unat (ucast b :: u32)))"
    by (rule unsigned_push_bit_eq)
  ultimately show ?thesis by (simp add: push_bit_eq_mult take_bit_nat_eq_self)
qed

lemma or_four_bytes:
  fixes a b c d :: nat
  assumes "b < 256" "c < 256" "d < 256"
  shows "push_bit 24 a OR push_bit 16 b OR push_bit 8 c OR d = a * 2 ^ 24 + b * 2 ^ 16 + c * 2 ^ 8 + d"
proof -
  have "push_bit 24 a OR push_bit 16 b OR push_bit 8 c OR d = d OR push_bit 8 (c OR push_bit 8 (b OR push_bit 8 a))"
    unfolding push_bit_or push_bit_push_bit by (simp add: ac_simps)
  also have "\<dots> = d + 2 ^ 8 * (c + 2 ^ 8 * (b + 2 ^ 8 * a))"
  proof -
    have "b < 2 ^ 8" "c < 2 ^ 8" "d < 2 ^ 8" using assms by simp_all
    then show ?thesis by (simp only: or_shifted)
  qed
  finally show ?thesis by simp
qed

lemma replace_top_bits:
  fixes z n :: nat
  assumes "2 ^ 24 \<le> z" "z < 2 ^ 25"
  shows "(z XOR 2 ^ 24) OR push_bit 24 n = n * 2 ^ 24 + (z - 2 ^ 24)"
proof -
  define l where "l = z - 2 ^ 24"
  have l: "l < 2 ^ 24" using assms by (simp add: l_def)
  have "z = l OR push_bit 24 1" using or_shifted [OF l, of 1] assms by (simp add: l_def)
  moreover have "\<not> bit l 24"
  proof -
    have "take_bit 24 l = l" using l by (simp add: take_bit_nat_eq_self)
    then show ?thesis using bit_take_bit_iff [of 24 l 24] by simp
  qed
  ultimately have "z XOR 2 ^ 24 = l" by (intro bit_eqI) (auto simp only: bit_simps push_bit_of_1)
  then show ?thesis using or_shifted [OF l, of n] by (simp add: l_def)
qed

lemma approx_log_32_num:
  assumes "sha256_num h \<noteq> 0"
  defines "L \<equiv> floorlog 2 (sha256_num h) - 1"
  shows "unat (approx_log_32 h) = L * 2 ^ 24 + (sha256_num h * 2 ^ 24 div 2 ^ L - 2 ^ 24)"
proof -
  define N where "N = sha256_num h"
  define lz where "lz = unat (sha256_clz h)"
  define off where "off = lz div 8"
  have F: "0 < floorlog 2 N" "floorlog 2 N \<le> 256" "2 ^ L \<le> N" "N < 2 ^ floorlog 2 N"
    using assms floorlog_bounds [of N 2] sha256_num_less [of h] floorlog_le_iff [of 2 N 256] floorlog_eq_zero_iff [of 2 N]
    by (auto simp: N_def)
  have lz: "lz = 255 - L" "L \<le> 255" using F by (simp_all add: lz_def sha256_clz_num L_def N_def)
  have "255 - L = 8 * (31 - L div 8) + (7 - L mod 8)"
    using div_mult_mod_eq [of L 8] lz(2) mod_less_divisor [of 8 L] by linarith
  moreover have "7 - L mod 8 < 8" by simp
  ultimately have "(255 - L) div 8 = 31 - L div 8" by (simp only: div_mult_self4 div_less zero_neq_numeral [symmetric] not_False_eq_True add_0_right)
  then have "31 - (255 - L) div 8 = L div 8" using lz(2) by simp
  then have L: "8 * (31 - off) + L mod 8 = L" "off < 32" "floorlog 2 N = Suc L"
    using lz F(1) by (simp_all add: off_def L_def N_def)
  have "N < 256 ^ (32 - off)"
  proof -
    have "(256 :: nat) ^ (32 - off) = 2 ^ (8 * (32 - off))" by (simp add: power_mult)
    moreover have "Suc L \<le> 8 * (32 - off)" using L by arith
    ultimately show ?thesis using F(4) L(3) power_increasing [of "Suc L" "8 * (32 - off)" "2 :: nat"] by simp
  qed
  then have window: "N * 2 ^ 24 div 256 ^ (31 - off) div 2 ^ (L mod 8) = N * 2 ^ 24 div 2 ^ L"
  proof -
    have "(256 :: nat) ^ (31 - off) * 2 ^ (L mod 8) = 2 ^ (8 * (31 - off) + L mod 8)" by (simp only: power_add power_mult) simp
    then show ?thesis unfolding L(1) by (metis div_mult2_eq)
  qed
  have z: "2 ^ 24 \<le> N * 2 ^ 24 div 2 ^ L" "N * 2 ^ 24 div 2 ^ L < 2 ^ 25"
  proof -
    have "2 ^ L * 2 ^ 24 div 2 ^ L \<le> N * 2 ^ 24 div 2 ^ L" using F(3) by (intro div_le_mono mult_right_mono) simp_all
    then show "2 ^ 24 \<le> N * 2 ^ 24 div 2 ^ L" by simp
    have "N * 2 ^ 24 < 2 ^ 25 * 2 ^ L" using F(4) L(3) by simp
    then show "N * 2 ^ 24 div 2 ^ L < 2 ^ 25" by (simp add: less_mult_imp_div_less)
  qed
  define nz where "nz = (ucast (0xFF - sha256_clz h) :: u8)"
  have nz: "unat nz = L"
  proof -
    have "unat (0xFF - sha256_clz h) = L"
      using lz by (simp add: unat_sub word_le_nat_alt lz_def [symmetric])
    moreover have "unat nz = take_bit LENGTH(8) (unat (0xFF - sha256_clz h))" unfolding nz_def by (rule unsigned_ucast_eq)
    ultimately show ?thesis using lz(2) by (simp add: take_bit_nat_eq_self)
  qed
  define byte_at where "byte_at k = (if k < 32 then sha256_data h ! k else 0)" for k
  define y where "y = push_bit 24 (ucast (byte_at off) :: u32) OR push_bit 16 (ucast (byte_at (off + 1)))
      OR push_bit 8 (ucast (byte_at (off + 2))) OR ucast (byte_at (off + 3))"
  have y: "unat y = N * 2 ^ 24 div 256 ^ (31 - off)"
  proof -
    have b: "unat (byte_at k) < 2 ^ 8" for k using u8_less [of "byte_at k"] by simp
    have "unat y = push_bit 24 (unat (byte_at off)) OR push_bit 16 (unat (byte_at (off + 1)))
        OR push_bit 8 (unat (byte_at (off + 2))) OR unat (byte_at (off + 3))"
    proof -
      have "unat (push_bit 24 (ucast (byte_at k) :: u32)) = push_bit 24 (unat (byte_at k))"
        "unat (push_bit 16 (ucast (byte_at k) :: u32)) = push_bit 16 (unat (byte_at k))"
        "unat (push_bit 8 (ucast (byte_at k) :: u32)) = push_bit 8 (unat (byte_at k))"
        "unat (ucast (byte_at k) :: u32) = unat (byte_at k)" for k
        using b [of k] unat_shifted_u32 [OF b, of 0 k] by (simp_all only: unat_shifted_u32 push_bit_0_id id_apply)
      then show ?thesis unfolding y_def unsigned_or_eq by (simp only:)
    qed
    then have "unat y = unat (byte_at off) * 2 ^ 24 + unat (byte_at (off + 1)) * 2 ^ 16 + unat (byte_at (off + 2)) * 2 ^ 8 + unat (byte_at (off + 3))"
      by (simp only: or_four_bytes [OF u8_less u8_less u8_less])
    moreover have "unat (byte_at k) = (if k < 32 then unat (sha256_data h ! k) else 0)" for k by (simp add: byte_at_def)
    moreover note be_num_window [OF L(2) sha256_data_length \<open>N < 256 ^ (32 - off)\<close> [unfolded N_def sha256_num_def]]
    ultimately show ?thesis by (simp only: N_def sha256_num_def)
  qed
  have "approx_log_32 h = (drop_bit (unat (nz AND 7)) y XOR push_bit 24 1) OR push_bit 24 (ucast nz)"
  proof -
    have "\<not> 0x100 \<le> sha256_clz h" using lz by (simp add: word_le_nat_alt lz_def [symmetric])
    moreover have "unat (drop_bit 3 (sha256_clz h)) = off"
    proof -
      have "unat (drop_bit 3 (sha256_clz h)) = drop_bit 3 (take_bit LENGTH(16) lz)" unfolding lz_def by (rule unsigned_drop_bit_eq)
      then show ?thesis using lz by (simp add: off_def drop_bit_eq_div take_bit_nat_eq_self)
    qed
    ultimately show ?thesis
      by (simp only: approx_log_32_def Let_def if_False nz_def [symmetric] y_def byte_at_def if_distrib [of "ucast :: u8 \<Rightarrow> u32"] ucast_0)
  qed
  moreover have "unat (drop_bit (unat (nz AND 7)) y) = N * 2 ^ 24 div 2 ^ L"
  proof -
    have "nz AND 7 = take_bit 3 nz" by (simp add: take_bit_eq_mask mask_eq_exp_minus_1)
    then have "unat (nz AND 7) = L mod 8" using nz by (simp add: take_bit_eq_mod unat_mod_distrib)
    moreover have "unat (drop_bit k y) = drop_bit k (take_bit LENGTH(32) (unat y))" for k by (rule unsigned_drop_bit_eq)
    moreover have "take_bit LENGTH(32) (unat y) = unat y" by (rule take_bit_nat_eq_self) (rule unsigned_less)
    ultimately show ?thesis using window y by (simp only: drop_bit_eq_div)
  qed
  moreover have "unat (push_bit 24 (ucast nz :: u32)) = push_bit 24 L"
    using unat_shifted_u32 [of nz 24] u8_less [of nz] nz by simp
  ultimately show ?thesis
    using replace_top_bits [OF z, of L] by (simp add: unsigned_or_eq unsigned_xor_eq N_def)
qed

section \<open>The inverse of the logarithm\<close>

lemma unat_byte_of_u32: "unat (ucast (drop_bit k x AND 0xFF) :: u8) = unat (x :: u32) div 2 ^ k mod 256"
proof -
  have "unat (ucast (drop_bit k x AND 0xFF) :: u8) = take_bit LENGTH(8) (unat (drop_bit k x AND 0xFF))" by (rule unsigned_ucast_eq)
  moreover have "drop_bit k x AND 0xFF = take_bit 8 (drop_bit k x)" by (simp add: take_bit_eq_mask mask_eq_exp_minus_1)
  moreover have "unat (take_bit 8 (drop_bit k x)) = take_bit 8 (unat (drop_bit k x))" by (simp only: unsigned_take_bit_eq)
  moreover have "unat (drop_bit k x) = drop_bit k (take_bit LENGTH(32) (unat x))" by (rule unsigned_drop_bit_eq)
  moreover have "take_bit LENGTH(32) (unat x) = unat x" by (rule take_bit_nat_eq_self) (rule unsigned_less)
  ultimately show ?thesis by (simp only: take_bit_eq_mod drop_bit_eq_div) simp
qed

lemma sha256_num_zero: "sha256_num (Sha256 0 0 0 0) = 0"
  by (simp add: sha256_num_def word_bytes_def)

definition log_bytes :: "u32 \<Rightarrow> u8 list" where
  "log_bytes x = (sha256_data (Sha256 0 0 0 0))[0x1F := ucast (x AND 0xFF), 0x1E := ucast (drop_bit 0x08 x AND 0xFF),
      0x1D := ucast (drop_bit 0x10 x AND 0xFF), 0x1C := 1]"

lemma log_bytes_num: "be_num (log_bytes x) = 2 ^ 24 + unat x mod 2 ^ 24"
proof -
  have "log_bytes x = replicate 28 0 @ [1, ucast (drop_bit 0x10 x AND 0xFF), ucast (drop_bit 0x08 x AND 0xFF), ucast (drop_bit 0 x AND 0xFF)]"
    unfolding log_bytes_def by (simp add: word_bytes_def numeral_eq_Suc)
  then have "be_num (log_bytes x) = 2 ^ 24 + (unat x div 2 ^ 16 mod 256 * 2 ^ 16 + (unat x div 2 ^ 8 mod 256 * 2 ^ 8 + unat x mod 256))"
    by (simp only: be_num_append be_num_zeros be_num.simps unat_byte_of_u32) simp
  also have "unat x div 2 ^ 16 mod 256 * 2 ^ 16 + (unat x div 2 ^ 8 mod 256 * 2 ^ 8 + unat x mod 256) = unat x mod 2 ^ 24"
  proof -
    have "unat x mod (2 ^ 8 * 2 ^ 16) = 2 ^ 8 * (unat x div 2 ^ 8 mod 2 ^ 16) + unat x mod 2 ^ 8" by (rule mod_mult2_eq)
    moreover have "unat x div 2 ^ 8 mod (2 ^ 8 * 2 ^ 8) = 2 ^ 8 * (unat x div 2 ^ 8 div 2 ^ 8 mod 2 ^ 8) + unat x div 2 ^ 8 mod 2 ^ 8"
      by (rule mod_mult2_eq)
    moreover have "unat x div 2 ^ 8 div 2 ^ 8 = unat x div 2 ^ 16" by (simp flip: div_mult2_eq)
    ultimately show ?thesis by simp
  qed
  finally show ?thesis .
qed

lemma inverse_approx_num:
  defines "n \<equiv> \<lambda>x. unat (x :: u32) div 2 ^ 24"
  shows "sha256_num (set_to_inverse_approx_log_32 x) = (if n x = 0 then 0 else (2 ^ 24 + unat x mod 2 ^ 24) * 2 ^ n x div 2 ^ 24)"
proof -
  define nz where "nz = (ucast (drop_bit 24 x) :: u8)"
  have "unat x < 2 ^ LENGTH(32)" by (rule unsigned_less)
  then have n: "n x < 256" unfolding n_def by (simp add: less_mult_imp_div_less)
  have nz: "unat nz = n x"
  proof -
    have "unat nz = take_bit LENGTH(8) (unat (drop_bit 24 x))" unfolding nz_def by (rule unsigned_ucast_eq)
    moreover have "unat (drop_bit 24 x) = drop_bit 24 (take_bit LENGTH(32) (unat x))" by (rule unsigned_drop_bit_eq)
    moreover have "take_bit LENGTH(32) (unat x) = unat x" by (rule take_bit_nat_eq_self) (rule unsigned_less)
    ultimately show ?thesis using n unfolding n_def by (simp only: take_bit_eq_mod drop_bit_eq_div) simp
  qed
  have l: "length (log_bytes x) = 32" by (simp add: log_bytes_def)
  define B where "B = 2 ^ 24 + unat x mod 2 ^ 24"
  have B: "sha256_num (sha256_of_bytes (log_bytes x)) = B" "B < 2 ^ 25"
    using l log_bytes_num [of x] by (simp_all add: sha256_num_def sha256_data_of_bytes B_def)
  have e: "set_to_inverse_approx_log_32 x =
      (if nz = 0 then Sha256 0 0 0 0
       else if nz \<le> 0x18 then sha256_shr (sha256_of_bytes (log_bytes x)) (0x18 - ucast nz)
       else sha256_shl (sha256_of_bytes (log_bytes x)) (ucast nz - 0x18))"
    by (simp only: set_to_inverse_approx_log_32_def Let_def nz_def log_bytes_def)
  have u: "unat (ucast nz :: u32) = n x"
    using unat_shifted_u32 [of nz 0] u8_less [of nz] nz by simp
  consider "n x = 0" | "0 < n x" "n x \<le> 24" | "24 < n x" by linarith
  then show ?thesis
  proof cases
    case 1
    then have "nz = 0" using nz by (simp add: unat_eq_zero)
    then show ?thesis using e 1 sha256_num_zero by simp
  next
    case 2
    then have "nz \<noteq> 0" "nz \<le> 0x18" using nz by (auto simp: word_le_nat_alt)
    moreover have "unat (0x18 - ucast nz :: u32) = 24 - n x"
      using 2 u by (simp add: unat_sub word_le_nat_alt)
    ultimately have "sha256_num (set_to_inverse_approx_log_32 x) = B div 2 ^ (24 - n x)"
      using e B(1) by (simp add: sha256_num_shr)
    moreover have "B * 2 ^ n x div 2 ^ 24 = B div 2 ^ (24 - n x)"
    proof -
      have "(2 :: nat) ^ 24 = 2 ^ (24 - n x) * 2 ^ n x" using 2 by (simp flip: power_add)
      then show ?thesis by (simp only: div_mult_mult2 power_not_zero zero_neq_numeral [symmetric] not_False_eq_True)
    qed
    ultimately show ?thesis using 2 by (simp add: B_def)
  next
    case 3
    then have "nz \<noteq> 0" "\<not> nz \<le> 0x18" using nz by (auto simp: word_le_nat_alt)
    moreover have "unat (ucast nz - 0x18 :: u32) = n x - 24"
      using 3 u by (simp add: unat_sub word_le_nat_alt)
    ultimately have "sha256_num (set_to_inverse_approx_log_32 x) = B * 2 ^ (n x - 24) mod 2 ^ 256"
      using e B(1) by (simp add: sha256_num_shl)
    moreover have "B * 2 ^ (n x - 24) < 2 ^ 256"
    proof -
      have "B * 2 ^ (n x - 24) < 2 ^ 25 * 2 ^ 231" using n B(2) by (intro mult_less_le_imp_less power_increasing) auto
      also have "\<dots> = 2 ^ 256" by (simp flip: power_add)
      finally show ?thesis .
    qed
    moreover have "B * 2 ^ n x div 2 ^ 24 = B * 2 ^ (n x - 24)"
    proof -
      have "(2 :: nat) ^ n x = 2 ^ (n x - 24) * 2 ^ 24" using 3 by (simp only: power_add [symmetric] le_add_diff_inverse2 less_imp_le)
      then show ?thesis by (simp only: mult.assoc [symmetric] nonzero_mult_div_cancel_right power_not_zero zero_neq_numeral [symmetric] not_False_eq_True)
    qed
    ultimately show ?thesis using 3 by (simp add: B_def)
  qed
qed

lemma round_down_window:
  fixes B n :: nat
  shows "B * 2 ^ n div 2 ^ 24 * 2 ^ 24 div 2 ^ n = B - B mod 2 ^ (24 - n)"
proof (cases "n \<le> 24")
  case True
  then have p: "(2 :: nat) ^ 24 = 2 ^ (24 - n) * 2 ^ n" by (simp flip: power_add)
  have "B * 2 ^ n div 2 ^ 24 = B div 2 ^ (24 - n)" unfolding p by simp
  then show ?thesis unfolding p by (simp add: minus_mod_eq_div_mult flip: mult.assoc)
next
  case False
  then have p: "(2 :: nat) ^ n = 2 ^ (n - 24) * 2 ^ 24" by (simp only: power_add [symmetric]) simp
  have "B * 2 ^ n div 2 ^ 24 = B * 2 ^ (n - 24)" unfolding p by (simp flip: mult.assoc)
  moreover have "B * 2 ^ (n - 24) * 2 ^ 24 div 2 ^ n = B" unfolding p by (simp only: mult.assoc) simp
  ultimately show ?thesis using False by simp
qed

lemma round_down_sum:
  fixes d m lo q :: nat
  assumes "d dvd m"
  shows "q * m + (m + lo - (m + lo) mod d - m) = q * m + lo - (q * m + lo) mod d"
proof -
  obtain k where k: "m = d * k" using assms by (rule dvdE)
  have "(m + lo) mod d = lo mod d" "(q * m + lo) mod d = lo mod d"
    by (simp_all add: k mult.left_commute [of q])
  then show ?thesis using mod_less_eq_dividend [of lo d] by simp
qed

lemma inverse_floorlog:
  assumes "2 ^ 24 \<le> B" "B < 2 ^ 25"
  shows "floorlog 2 (B * 2 ^ n div 2 ^ 24) = Suc n"
proof (rule antisym)
  have "B * 2 ^ n < 2 ^ Suc n * 2 ^ 24" using assms(2) by simp
  then have "B * 2 ^ n div 2 ^ 24 < 2 ^ Suc n" by (rule less_mult_imp_div_less)
  then show "floorlog 2 (B * 2 ^ n div 2 ^ 24) \<le> Suc n" by (intro floorlog_leI) simp_all
  have "2 ^ 24 * 2 ^ n div 2 ^ 24 \<le> B * 2 ^ n div 2 ^ 24" using assms(1) by (intro div_le_mono mult_right_mono) simp_all
  then show "Suc n \<le> floorlog 2 (B * 2 ^ n div 2 ^ 24)" by (intro floorlog_ge_SucI) simp_all
qed

lemma approx_log_of_zero: "sha256_num h = 0 \<Longrightarrow> approx_log_32 h = 0"
proof -
  assume "sha256_num h = 0"
  then have "unat (sha256_clz h) = 256" by (simp add: sha256_clz_num floorlog_eq_zero_iff [THEN iffD2])
  then have "0x100 \<le> sha256_clz h" by (simp add: word_le_nat_alt)
  then show ?thesis by (simp add: approx_log_32_def)
qed

section \<open>The order of the digests\<close>

lemma memcmp_num: "length xs = length ys \<Longrightarrow> memcmp xs ys < 0 \<longleftrightarrow> be_num xs < be_num ys"
proof (induction xs ys rule: memcmp.induct)
  case (1 x xs y ys)
  have l: "length xs = length ys" using 1(2) by simp
  have less: "be_num (a # as) < be_num (b # bs)" if "a < b" "length as = length bs" for a b as bs
  proof -
    have "(unat a + 1) * 256 ^ length bs \<le> unat b * 256 ^ length bs"
      using that(1) by (intro mult_right_mono) (simp_all add: word_less_nat_alt)
    then show ?thesis using be_num_less [of as] that(2) unfolding be_num.simps add_mult_distrib by simp
  qed
  consider "x < y" | "y < x" | "x = y" by (rule linorder_cases)
  then show ?case
  proof cases
    case 1
    then show ?thesis using less [OF _ l] by simp
  next
    case 2
    then show ?thesis using less [OF 2 l [symmetric]] by simp
  next
    case 3
    then show ?thesis using 1(1) l by simp
  qed
qed simp_all

lemma sha256_less_num: "g < h \<longleftrightarrow> sha256_num g < sha256_num h"
  by (simp add: less_sha256_def sha256_num_def memcmp_num)

lemma sha256_eq_iff: "sha256_eq g h \<longleftrightarrow> g = h"
  by (cases g; cases h) simp

lemma sha256_gt_iff: "sha256_gt g h \<longleftrightarrow> h < g"
  using memcmp_swap [of "sha256_data g" "sha256_data h"] by (simp add: sha256_gt_def less_sha256_def)

lemma sha256_ge_iff: "sha256_ge g h \<longleftrightarrow> h \<le> g"
  using memcmp_swap [of "sha256_data g" "sha256_data h"] by (simp add: sha256_ge_def less_eq_sha256_def)

section \<open>Properties\<close>

text \<open>
  C32: a digest behaves as the 256-bit number that its bytes are in big-endian order: \<open><<\<close> and
  \<open>>>\<close> multiply and divide it by a power of two for every amount of shift, also when the loop
  runs in place after whole bytes were moved, the comparisons compare it, and \<open>clz\<close> counts its
  leading zero bits.
\<close>

theorem sha256_is_number:
  "sha256_num (sha256_shl g i) = sha256_num g * 2 ^ unat i mod 2 ^ 256 \<and>
   sha256_num (sha256_shr g i) = sha256_num g div 2 ^ unat i \<and>
   (g < h \<longleftrightarrow> sha256_num g < sha256_num h) \<and>
   (sha256_gt g h \<longleftrightarrow> sha256_num g > sha256_num h) \<and>
   (sha256_ge g h \<longleftrightarrow> sha256_num g \<ge> sha256_num h) \<and>
   (sha256_eq g h \<longleftrightarrow> sha256_num g = sha256_num h) \<and>
   (sha256_neq g h \<longleftrightarrow> sha256_num g \<noteq> sha256_num h) \<and>
   unat (sha256_clz g) = 256 - floorlog 2 (sha256_num g)"
proof -
  have "g = h \<longleftrightarrow> sha256_num g = sha256_num h" "h \<le> g \<longleftrightarrow> sha256_num h \<le> sha256_num g"
    using sha256_less_num [of g h] sha256_less_num [of h g] by (auto simp: not_less [symmetric])
  then show ?thesis
    by (simp add: sha256_num_shl sha256_num_shr sha256_less_num sha256_gt_iff sha256_ge_iff sha256_eq_iff sha256_neq_def sha256_clz_num)
qed

text \<open>
  The approximate logarithm of a digest has the position of its highest bit in the upper 8
  bits and the 24 bits below it in the lower 24, zeros where the digest has fewer; it is 0 for
  0 and also for 1. It undoes \<open>set_to_inverse_approx_log_32\<close> but for the bits that the digest
  cannot hold, which are cut off when the position is below 24.
\<close>

theorem approx_log_inverse:
  "unat (approx_log_32 h) =
     (if sha256_num h = 0 then 0
      else let L = floorlog 2 (sha256_num h) - 1 in L * 2 ^ 24 + (sha256_num h * 2 ^ 24 div 2 ^ L - 2 ^ 24)) \<and>
   unat (approx_log_32 (set_to_inverse_approx_log_32 x)) = unat x - unat x mod 2 ^ (24 - unat x div 2 ^ 24)"
proof -
  let ?n = "unat x div 2 ^ 24" and ?h = "set_to_inverse_approx_log_32 x"
  define B where "B = 2 ^ 24 + unat x mod 2 ^ 24"
  have "unat (approx_log_32 ?h) = unat x - unat x mod 2 ^ (24 - ?n)"
  proof (cases "?n = 0")
    case True
    then show ?thesis using inverse_approx_num [of x] approx_log_of_zero [of ?h] by simp
  next
    case False
    have N: "sha256_num ?h = B * 2 ^ ?n div 2 ^ 24" using inverse_approx_num [of x] False by (simp add: B_def)
    have F: "floorlog 2 (sha256_num ?h) = Suc ?n" unfolding N by (rule inverse_floorlog) (simp_all add: B_def)
    then have "sha256_num ?h \<noteq> 0" using floorlog_eq_zero_iff [of 2 "sha256_num ?h"] by auto
    then have "unat (approx_log_32 ?h) = ?n * 2 ^ 24 + (B - B mod 2 ^ (24 - ?n) - 2 ^ 24)"
      using approx_log_32_num [of ?h] unfolding F diff_Suc_1 unfolding N round_down_window by simp
    moreover have "(2 :: nat) ^ (24 - ?n) dvd 2 ^ 24" by (rule le_imp_power_dvd) simp
    note round_down_sum [OF this, of ?n "unat x mod 2 ^ 24"]
    ultimately show ?thesis by (simp only: B_def div_mult_mod_eq)
  qed
  then show ?thesis using approx_log_32_num [of h] approx_log_of_zero [of h] by (simp add: Let_def)
qed

text \<open>
  C33: the hexadecimal text of a digest has 64 characters and is read back as the same digest,
  whatever the memory of the new object held; a text is refused exactly when one of its first 64
  characters is no hexadecimal digit, with the first such character; construction from memory
  of another size than 32 bytes fails; a digest is read from a stream that holds its bytes.
\<close>

theorem sha256_text_roundtrip:
  assumes "length mem = 32" "ds_at ds (sha256_data h)" "length (ds_buf ds) < 2 ^ 64"
  shows "length (sha256_str h) = 64 \<and> sha256_of_string mem (sha256_str h) = Inr h \<and>
    (\<forall>s e. sha256_of_string mem s = Inl e \<longleftrightarrow>
       (\<exists>c. find (\<lambda>c. \<not> is_hex c) (take 64 s) = Some c \<and> e = Hex_error (Invalid_hex_character c))) \<and>
    (\<forall>bs. sha256_of_memory bs = (if length bs = 32 then Inr (sha256_of_bytes bs) else Inl Size_mismatch)) \<and>
    ds_read_sha256 ds = (Inr h, ds_fwd 32 ds)"
proof -
  have "sha256_of_string mem s = Inl e \<longleftrightarrow>
      (\<exists>c. find (\<lambda>c. \<not> is_hex c) (take 64 s) = Some c \<and> e = Hex_error (Invalid_hex_character c))" for s e
    using from_hex_outcome [of 0 mem s] assms(1)
    by (cases "from_hex s mem") (auto simp: sha256_of_string_def from_hex_def split: sum.splits option.splits)
  then show ?thesis using assms(1) hex_roundtrip_buffer [of "sha256_data h" mem] ds_read_at [OF assms(2,3)]
    by (simp add: sha256_str_def sha256_of_string_def sha256_of_memory_def sha256_of_bytes_data ds_read_sha256_def exec_simps)
qed

theorem sha256_text_roundtrip_witness:
  "sha256_of_string (replicate 32 7) (sha256_str (Sha256 1 2 3 4)) = Inr (Sha256 1 2 3 4)"
  using sha256_text_roundtrip [of "replicate 32 7" "ds_open (sha256_data (Sha256 1 2 3 4))" "Sha256 1 2 3 4"]
    ds_at_open [of "sha256_data (Sha256 1 2 3 4)" "[]"] by (simp add: ds_open_def del: sha256_data.simps)

end
