(* ===== verification/Blowfish_Correct.thy ===== *)
theory Blowfish_Correct
  imports Blowfish
begin

text \<open>
  Decryption undoes encryption: a line of the rounds is undone by the line with the subkeys
  exchanged on the exchanged halves, and the lines of \<open>decrypt\<close> are those of \<open>encrypt\<close> in
  reverse. The locale \<open>chained_mode\<close> states what the body of a decryption loop promises for the
  body of an encryption loop; the buffers follow from it once for the three modes.
\<close>

unbundle bit_operations_syntax

section \<open>Blocks\<close>

lemma xor_cancel: "(a XOR b) XOR b = (a :: 'a::len word)"
  by (simp add: xor.assoc)

lemma bf_line_undo: "bf_line bf (prod.swap (bf_line bf s p)) (prod.swap p) = prod.swap s"
  by (cases s; cases p) (simp only: bf_line.simps swap_simp Let_def xor_cancel)

lemma bf_lines_undo:
  "foldl (bf_line bf) (prod.swap (foldl (bf_line bf) s ps)) (rev (map prod.swap ps)) = prod.swap s"
proof (induction ps arbitrary: s)
  case (Cons p ps)
  show ?case using Cons.IH [of "bf_line bf s p"] bf_line_undo [of bf s p] by simp
qed simp

lemma decrypt_lines_rev: "decrypt_lines = rev (map prod.swap encrypt_lines)" "encrypt_lines = rev (map prod.swap decrypt_lines)"
  by (simp_all add: decrypt_lines_def encrypt_lines_def)

lemma decrypt_encrypt_block: "decrypt_block bf (encrypt_block bf b) = b"
proof -
  obtain l r where e: "foldl (bf_line bf) (m_uil b XOR m_auiP bf ! 0, m_uir b) encrypt_lines = (l, r)" by fastforce
  have "foldl (bf_line bf) (r, l) decrypt_lines = (m_uir b, m_uil b XOR m_auiP bf ! 0)"
    using bf_lines_undo [of bf "(m_uil b XOR m_auiP bf ! 0, m_uir b)" encrypt_lines] e by (simp add: decrypt_lines_rev(1))
  then show ?thesis using e by (simp add: encrypt_block_def decrypt_block_def xor_cancel)
qed

lemma encrypt_decrypt_block: "encrypt_block bf (decrypt_block bf b) = b"
proof -
  obtain l r where e: "foldl (bf_line bf) (m_uil b XOR m_auiP bf ! 17, m_uir b) decrypt_lines = (l, r)" by fastforce
  have "foldl (bf_line bf) (r, l) encrypt_lines = (m_uir b, m_uil b XOR m_auiP bf ! 17)"
    using bf_lines_undo [of bf "(m_uil b XOR m_auiP bf ! 17, m_uir b)" decrypt_lines] e by (simp add: decrypt_lines_rev(2))
  then show ?thesis using e by (simp add: encrypt_block_def decrypt_block_def xor_cancel)
qed

lemma sblock_xor_cancel: "sblock_xor (sblock_xor a b) b = a"
  by (simp add: sblock_xor_def xor_cancel)

section \<open>Bytes\<close>

lemma low_byte_ucast: "low_byte w = ucast w"
proof -
  have "w AND 0xff = take_bit 8 w" by (simp add: take_bit_eq_mask mask_eq_exp_minus_1)
  then show ?thesis unfolding low_byte_def by (intro bit_word_eqI) (simp add: bit_simps)
qed

lemma be_word_le:
  "push_bit 24 (ucast a) OR push_bit 16 (ucast b) OR push_bit 8 (ucast c) OR ucast d = (le_word [d, c, b, a] :: u32)"
  by (simp add: push_bit_or ac_simps)

lemma low_bytes_le:
  "[low_byte w, low_byte (drop_bit 8 w), low_byte (drop_bit 16 w), low_byte (drop_bit 24 w)] = le_bytes 4 w"
  by (simp add: le_bytes_def low_byte_ucast upt_rec)

lemma BlockToBytes_le: "BlockToBytes b = rev (le_bytes 4 (m_uil b)) @ rev (le_bytes 4 (m_uir b))"
  unfolding low_bytes_le [symmetric] by (simp add: BlockToBytes_def)

lemma BytesToBlock_le:
  "BytesToBlock p = make_sblock (le_word [p ! 3, p ! 2, p ! 1, p ! 0]) (le_word [p ! 7, p ! 6, p ! 5, p ! 4])"
  by (simp only: BytesToBlock_def be_word_le)

lemma first_eight: "8 \<le> length p \<Longrightarrow> take 8 p = [p ! 0, p ! 1, p ! 2, p ! 3, p ! 4, p ! 5, p ! 6, p ! 7]"
  by (rule nth_equalityI) (auto simp: less_Suc_eq numeral_eq_Suc)

lemma BlockToBytes_length [simp]: "length (BlockToBytes b) = 8"
  by (simp add: BlockToBytes_def)

lemma four_bytes: "le_bytes 4 (le_word [a, b, c, d] :: u32) = [a, b, c, d]" "le_word (le_bytes 4 w) = (w :: u32)"
proof -
  show "le_bytes 4 (le_word [a, b, c, d] :: u32) = [a, b, c, d]"
    using le_bytes_word [where 'a = 32, of "[a, b, c, d]"] by (simp add: numeral_eq_Suc del: le_word.simps)
  show "le_word (le_bytes 4 w) = w" by (rule le_word_bytes) simp
qed

lemma bytes_block_bytes: "8 \<le> length p \<Longrightarrow> BlockToBytes (BytesToBlock p) = take 8 p"
  by (simp add: BytesToBlock_le BlockToBytes_le make_sblock_def first_eight four_bytes del: le_word.simps)

lemma block_bytes_block: "BytesToBlock (BlockToBytes b @ rest) = b"
proof -
  have "BytesToBlock (BlockToBytes b @ rest) =
      make_sblock (le_word [low_byte (m_uil b), low_byte (drop_bit 8 (m_uil b)), low_byte (drop_bit 16 (m_uil b)), low_byte (drop_bit 24 (m_uil b))])
        (le_word [low_byte (m_uir b), low_byte (drop_bit 8 (m_uir b)), low_byte (drop_bit 16 (m_uir b)), low_byte (drop_bit 24 (m_uir b))])"
    by (simp add: BytesToBlock_le BlockToBytes_def del: le_word.simps)
  then show ?thesis unfolding low_bytes_le four_bytes(2) by (simp add: make_sblock_def)
qed

section \<open>Buffers\<close>

text \<open>What the body of a decryption loop promises: it recovers the block and continues with the same chain.\<close>

locale chained_mode =
  fixes enc dec :: "sblock \<Rightarrow> sblock \<Rightarrow> sblock \<times> sblock"
  assumes dec_undoes: "enc chain work = (chain', crypt) \<Longrightarrow> dec chain crypt = (chain', work)"
begin

lemma in_place_undo:
  "8 * k \<le> length buf \<Longrightarrow> in_place_loop dec chain k (in_place_loop enc chain k buf) = buf"
proof (induction k arbitrary: chain buf)
  case (Suc k)
  obtain chain' crypt where e: "enc chain (BytesToBlock buf) = (chain', crypt)" by fastforce
  have "in_place_loop dec chain' k (in_place_loop enc chain' k (drop 8 buf)) = drop 8 buf"
    using Suc.prems by (intro Suc.IH) simp
  then show ?case
    using Suc.prems e dec_undoes [OF e] bytes_block_bytes [of buf] by (simp add: block_bytes_block)
qed simp

lemma copy_undo:
  "8 * k \<le> length inp \<Longrightarrow> 8 * k \<le> length out \<Longrightarrow> 8 * k \<le> length out' \<Longrightarrow>
     copy_loop dec chain k (copy_loop enc chain k inp out) out' = take (8 * k) inp @ drop (8 * k) out'"
proof (induction k arbitrary: chain inp out out')
  case (Suc k)
  obtain chain' crypt where e: "enc chain (BytesToBlock inp) = (chain', crypt)" by fastforce
  have "copy_loop dec chain' k (copy_loop enc chain' k (drop 8 inp) (drop 8 out)) (drop 8 out') =
      take (8 * k) (drop 8 inp) @ drop (8 * k) (drop 8 out')"
    using Suc.prems by (intro Suc.IH) simp_all
  moreover have "take 8 inp @ take (8 * k) (drop 8 inp) = take (8 * Suc k) inp" by (simp add: take_add [symmetric])
  moreover have "drop (8 * k) (drop 8 out') = drop (8 * Suc k) out'" by (simp add: add.commute)
  ultimately show ?case
    using Suc.prems e dec_undoes [OF e] bytes_block_bytes [of inp] by (simp add: block_bytes_block flip: append_assoc)
qed simp

end

interpretation cbc: chained_mode "cbc_encrypt_step bf" "cbc_decrypt_step bf" for bf
  by unfold_locales (auto simp: cbc_encrypt_step_def cbc_decrypt_step_def Let_def decrypt_encrypt_block sblock_xor_cancel)

interpretation cfb: chained_mode "cfb_encrypt_step bf" "cfb_decrypt_step bf" for bf
  by unfold_locales (auto simp: cfb_encrypt_step_def cfb_decrypt_step_def Let_def sblock_xor_cancel)

interpretation ecb: chained_mode "ecb_encrypt_step bf" "ecb_decrypt_step bf" for bf
  by unfold_locales (auto simp: ecb_encrypt_step_def ecb_decrypt_step_def decrypt_encrypt_block)

lemma loop_lengths:
  "8 * k \<le> length buf \<Longrightarrow> length (in_place_loop step chain k buf) = length buf"
  "8 * k \<le> length inp \<Longrightarrow> 8 * k \<le> length out \<Longrightarrow> length (copy_loop step chain k inp out) = length out"
proof -
  show "8 * k \<le> length buf \<Longrightarrow> length (in_place_loop step chain k buf) = length buf"
    by (induction k arbitrary: chain buf) (auto split: prod.splits)
  show "8 * k \<le> length inp \<Longrightarrow> 8 * k \<le> length out \<Longrightarrow> length (copy_loop step chain k inp out) = length out"
    by (induction k arbitrary: chain inp out) (auto split: prod.splits)
qed

lemma in_place_is_copy: "8 * k \<le> length buf \<Longrightarrow> in_place_loop step chain k buf = copy_loop step chain k buf buf"
  by (induction k arbitrary: chain buf) (auto split: prod.splits)

section \<open>The key schedule\<close>

definition bf_wf :: "blowfish \<Rightarrow> bool" where
  "bf_wf bf \<longleftrightarrow> length (m_auiP bf) = 18 \<and> length (m_auiS bf) = 4 \<and> (\<forall>s \<in> set (m_auiS bf). length s = 256)"

lemma bf_wf_indices:
  assumes "bf_wf bf" "j < 4"
  shows "j < length (m_auiS bf)" "unat (b :: u8) < length (m_auiS bf ! j)"
proof -
  show j: "j < length (m_auiS bf)" using assms by (simp add: bf_wf_def)
  have "unat b < 2 ^ LENGTH(8)" by (rule unsigned_less)
  then show "unat b < length (m_auiS bf ! j)" using assms nth_mem [OF j] by (simp add: bf_wf_def)
qed

lemma load_key_length [simp]: "length (load_key key iCount qs) = length qs"
  by (induction qs arbitrary: iCount) (auto split: prod.splits)

lemma load_key_word_range:
  "iCount < length key \<Longrightarrow> snd (load_key_word key n x iCount) < length key"
proof (induction n arbitrary: x iCount)
  case (Suc n)
  show ?case unfolding load_key_word.simps Let_def by (rule Suc.IH) (use Suc.prems in auto)
qed simp

lemma reflect_P_wf: "bf_wf bf \<Longrightarrow> bf_wf (snd (reflect_P k i block bf))"
proof (induction k arbitrary: i block bf)
  case (Suc k)
  show ?case unfolding reflect_P.simps Let_def by (rule Suc.IH) (use Suc.prems in \<open>simp add: bf_wf_def\<close>)
qed simp

lemma bf_wf_update_S:
  assumes "bf_wf bf"
  shows "bf_wf (bf\<lparr>m_auiS := (m_auiS bf)[j := (m_auiS bf ! j)[i := x, i' := y]]\<rparr>)"
proof (cases "j < length (m_auiS bf)")
  case True
  have "length s = 256" if "s \<in> set ((m_auiS bf)[j := (m_auiS bf ! j)[i := x, i' := y]])" for s
  proof -
    have "s = (m_auiS bf ! j)[i := x, i' := y] \<or> s \<in> set (m_auiS bf)" using that set_update_subset_insert by fastforce
    then show ?thesis using assms nth_mem [OF True] by (auto simp: bf_wf_def)
  qed
  then show ?thesis using assms by (simp add: bf_wf_def)
next
  case False
  then have "(m_auiS bf)[j := v] = m_auiS bf" for v by (simp add: list_update_beyond)
  then show ?thesis using assms by simp
qed

lemma reflect_S_wf: "bf_wf bf \<Longrightarrow> bf_wf (snd (reflect_S j k i block bf))"
proof (induction k arbitrary: i block bf)
  case (Suc k)
  show ?case unfolding reflect_S.simps Let_def by (rule Suc.IH) (rule bf_wf_update_S [OF Suc.prems])
qed simp

lemma reflect_chain:
  "m_oChain (snd (reflect_P k i block bf)) = m_oChain bf" "m_oChain0 (snd (reflect_P k i block bf)) = m_oChain0 bf"
  "m_oChain (snd (reflect_S j k i block bf)) = m_oChain bf" "m_oChain0 (snd (reflect_S j k i block bf)) = m_oChain0 bf"
  by (induction k arbitrary: i block bf) (simp_all add: Let_def)

lemma reflect_all_keeps:
  "bf_wf (snd s) \<Longrightarrow> bf_wf (snd (reflect_all s))"
  "m_oChain (snd (reflect_all s)) = m_oChain (snd s)" "m_oChain0 (snd (reflect_all s)) = m_oChain0 (snd s)"
  unfolding reflect_all_def by (simp_all only: foldl.simps reflect_S_wf reflect_chain)

lemma initial_wf: "bf_wf (bf\<lparr>m_auiS := scm_auiInitS, m_auiP := load_key key 0 scm_auiInitP\<rparr>)"
proof -
  have "length scm_auiInitP = 18" by (simp add: scm_auiInitP_def)
  moreover have "length scm_auiInitS0 = 256" by (simp add: scm_auiInitS0_def)
  moreover have "length scm_auiInitS1 = 256" by (simp add: scm_auiInitS1_def)
  moreover have "length scm_auiInitS2 = 256" by (simp add: scm_auiInitS2_def)
  moreover have "length scm_auiInitS3 = 256" by (simp add: scm_auiInitS3_def)
  ultimately show ?thesis by (simp add: bf_wf_def scm_auiInitS_def)
qed

section \<open>Properties\<close>

text \<open>
  C34: decryption undoes encryption, for every key schedule and in every mode: in place it
  restores the buffer, and from buffer to buffer it writes the original bytes and leaves what
  lies behind them. A length of zero or no multiple of eight is refused by all four functions.
\<close>

theorem blowfish_roundtrip:
  assumes "0 < n" "n mod 8 = 0" "n \<le> length buf" "n \<le> length out" "n \<le> length out'"
  shows "bindE (bf_encrypt bf buf n m) (\<lambda>c. bf_decrypt bf c n m) = Inr buf \<and>
    bindE (bf_encrypt_copy bf buf out n m) (\<lambda>c. bf_decrypt_copy bf c out' n m) = Inr (take n buf @ drop n out') \<and>
    bf_encrypt bf buf n m = bf_encrypt_copy bf buf buf n m \<and>
    (\<forall>k. k = 0 \<or> k mod 8 \<noteq> 0 \<longrightarrow>
       bf_encrypt bf buf k m = Inl (Runtime_error ''invalid buffer length'') \<and>
       bf_decrypt bf buf k m = Inl (Runtime_error ''invalid buffer length'') \<and>
       bf_encrypt_copy bf buf out k m = Inl (Runtime_error ''invalid buffer length'') \<and>
       bf_decrypt_copy bf buf out k m = Inl (Runtime_error ''invalid buffer length''))"
proof -
  have n: "8 * (n div 8) = n" using assms(2) by auto
  note u = cbc.in_place_undo cfb.in_place_undo ecb.in_place_undo
  note c = cbc.copy_undo [of "n div 8"] cfb.copy_undo [of "n div 8"] ecb.copy_undo [of "n div 8"]
  show ?thesis
  proof (intro conjI)
    show "bindE (bf_encrypt bf buf n m) (\<lambda>c. bf_decrypt bf c n m) = Inr buf"
      using assms n by (simp add: bf_encrypt_def bf_decrypt_def loop_lengths u)
    show "bindE (bf_encrypt_copy bf buf out n m) (\<lambda>c. bf_decrypt_copy bf c out' n m) = Inr (take n buf @ drop n out')"
      using assms n by (simp add: bf_encrypt_copy_def bf_decrypt_copy_def loop_lengths c)
    show "bf_encrypt bf buf n m = bf_encrypt_copy bf buf buf n m"
      using assms n by (simp add: bf_encrypt_def bf_encrypt_copy_def in_place_is_copy)
  qed (simp add: bf_encrypt_def bf_decrypt_def bf_encrypt_copy_def bf_decrypt_copy_def)
qed

definition sample_blowfish :: blowfish where
  "sample_blowfish = \<lparr>m_oChain0 = make_sblock 1 2, m_oChain = make_sblock 1 2, m_auiP = scm_auiInitP, m_auiS = scm_auiInitS\<rparr>"

theorem blowfish_roundtrip_witness:
  "bindE (bf_encrypt sample_blowfish [1, 2, 3, 4, 5, 6, 7, 8, 9] 8 1) (\<lambda>c. bf_decrypt sample_blowfish c 8 1) =
     Inr [1, 2, 3, 4, 5, 6, 7, 8, 9]"
  by (rule blowfish_roundtrip [where out = "replicate 8 0" and out' = "replicate 8 0", THEN conjunct1]) simp_all

text \<open>
  C35: \<open>start\<close> fails exactly for the empty key, with the error about it, and still sets the
  chain; otherwise it fills the arrays of subkeys and tables at their sizes, so that every index
  of the rounds is in range, sets both chains, and depends on nothing of the old object. Keys
  that agree on their first 56 bytes give the same cipher.
\<close>

theorem blowfish_start:
  "(fst (bf_start key chain bf) = (if key = [] then Inl (Runtime_error ''invalid key length'') else Inr ())) \<and>
   m_oChain (snd (bf_start key chain bf)) = chain \<and> m_oChain0 (snd (bf_start key chain bf)) = chain \<and>
   (key \<noteq> [] \<longrightarrow> bf_wf (snd (bf_start key chain bf)) \<and> bf_start key chain bf = bf_start (take 56 key) chain bf')"
proof -
  let ?b = "\<lambda>key bf. bf\<lparr>m_oChain0 := chain, m_oChain := chain, m_auiS := scm_auiInitS, m_auiP := load_key (take 56 key) 0 scm_auiInitP\<rparr>"
  have start: "bf_start key chain bf = (Inr (), snd (reflect_all (reflect_P 9 0 (make_sblock 0 0) (?b key bf))))"
    if "key \<noteq> []" for key bf
    using that by (simp add: bf_start_def Let_def case_prod_beta not_less Suc_le_eq)
  have e: "?b key bf = ?b (take 56 key) bf'" by (cases bf; cases bf') simp
  have "bf_start key chain bf = bf_start (take 56 key) chain bf'" if "key \<noteq> []"
  proof -
    have "take 56 key \<noteq> []" using that by simp
    from start [OF this] start [OF that] e show ?thesis by (simp only:)
  qed
  moreover have "bf_wf (?b key bf)" by (rule initial_wf)
  then have "key \<noteq> [] \<longrightarrow> bf_wf (snd (bf_start key chain bf))" using start reflect_all_keeps(1) reflect_P_wf by simp
  moreover have "m_oChain (snd (bf_start key chain bf)) = chain" "m_oChain0 (snd (bf_start key chain bf)) = chain"
    using start [of key bf] by (cases "key = []"; simp add: reflect_all_keeps reflect_chain; simp add: bf_start_def)+
  moreover have "fst (bf_start key chain bf) = (if key = [] then Inl (Runtime_error ''invalid key length'') else Inr ())"
    using start [of key bf] by (cases "key = []") (simp_all add: bf_start_def)
  ultimately show ?thesis by simp
qed

theorem blowfish_start_witness:
  "fst (bf_start [1] (make_sblock 3 4) sample_blowfish) = Inr () \<and> bf_wf (snd (bf_start [1] (make_sblock 3 4) sample_blowfish))"
  using blowfish_start [of "[1]" "make_sblock 3 4" sample_blowfish sample_blowfish] by (simp del: take_Cons_numeral)

end
