(* ===== verification/Perf_Tests.thy ===== *)
theory Perf_Tests
  imports Row_Props Raw_Pack Names
begin

text \<open>
  The runs of \<open>db_tests\<close> (\<open>performance_test.hpp\<close>): storing, updating and removing a number of
  objects, once under hashed keys and once as rows of a table found by number. They put the
  parts of the program together: names, digests of packed keys, the table interface with its
  iterator cache, and the database. \<open>free\<close> stands for the free memory the segment manager
  reports; clocks are left out. The theorems say that each run succeeds and what the tables
  hold after it.
\<close>

section \<open>The runs\<close>

definition stored_data :: blob where
  "stored_data = map of_char ''store my msg to db''"

definition updated_data :: blob where
  "updated_data = map of_char ''update my stored msg to db''"

text \<open>The scope: the digest of the packed string.\<close>

definition packed_scope :: "u8 list" where
  "packed_scope = [5, of_char (CHR ''s''), of_char (CHR ''c''), of_char (CHR ''o''), of_char (CHR ''p''), of_char (CHR ''e'')]"

definition test_scope :: "digest \<Rightarrow> sha256" where
  "test_scope digest = sha256_hash digest packed_scope"

text \<open>A loop \<open>for (auto i = 0; i < n; i++)\<close>: \<open>i\<close> is an \<open>int\<close>, and incrementing it past its range is undefined.\<close>

definition for_int :: "(nat \<Rightarrow> ('s, unit) exec) \<Rightarrow> nat \<Rightarrow> ('s, unit) exec" where
  "for_int body n =
     bindX (eachX body [0..<min n (2 ^ 31)]) (\<lambda>_. if n < 2 ^ 31 then returnX () else throwX Undefined_behaviour)"

text \<open>The packed key of the number \<open>i\<close>.\<close>

definition int_key :: "nat \<Rightarrow> u8 list" where
  "int_key i = le_bytes 4 (of_nat i :: u32)"

text \<open>The difference of the free memory before and after.\<close>

definition memory_used :: "('c database \<Rightarrow> int) \<Rightarrow> ('c database, unit) exec \<Rightarrow> ('c database, int) exec" where
  "memory_used free m =
     bindX getX (\<lambda>start. bindX m (\<lambda>_. bindX getX (\<lambda>finish. returnX (free start - free finish))))"

definition store_by_table_key_value ::
  "('c, 'p) eos_env \<Rightarrow> ('c database \<Rightarrow> int) \<Rightarrow> int list \<Rightarrow> ('c database, int) exec" where
  "store_by_table_key_value e free ids =
     (let scope = test_scope (ee_digest e) in
      memory_used free (for_int (\<lambda>i. bindX (db_store_by_key e scope (int_key i) scope stored_data) (\<lambda>_. returnX ())) (length ids)))"

definition update_by_table_key_value ::
  "('c, 'p) eos_env \<Rightarrow> ('c database \<Rightarrow> int) \<Rightarrow> int list \<Rightarrow> ('c database, int) exec" where
  "update_by_table_key_value e free ids =
     (let scope = test_scope (ee_digest e) in
      memory_used free (for_int (\<lambda>i. db_update_by_key e scope (int_key i) scope updated_data) (length ids)))"

definition remove_by_table_key_value ::
  "('c, 'p) eos_env \<Rightarrow> ('c database \<Rightarrow> int) \<Rightarrow> int list \<Rightarrow> ('c database, int) exec" where
  "remove_by_table_key_value e free ids =
     (let scope = test_scope (ee_digest e) in
      memory_used free (for_int (\<lambda>i. db_remove_by_key e scope (int_key i)) (length ids)))"

text \<open>Each run works on an \<open>eos_db\<close> of its own, with fresh caches, on the same database.\<close>

definition with_eos_db :: "(('c, 'p) eos_db, 'a) exec \<Rightarrow> ('c database, 'a) exec" where
  "with_eos_db m db = (case m (eos_db_new db) of (r, st) \<Rightarrow> (r, es_db st))"

definition store_by_table_ordered_id ::
  "('c, 'p) eos_env \<Rightarrow> ('c database \<Rightarrow> int) \<Rightarrow> int \<Rightarrow> int list \<Rightarrow> ('c database, int) exec" where
  "store_by_table_ordered_id e free junk ids =
     bindX (resX (name_set ''receiver'')) (\<lambda>receiver.
     bindX (resX (name_set ''table'')) (\<lambda>table.
     let scope = test_scope (ee_digest e) in
     memory_used free (with_eos_db
       (bindX (dbX (find_or_create_table e junk receiver scope table receiver)) (\<lambda>_.
        for_int (\<lambda>i. bindX (db_store_i64 e junk receiver scope table receiver (word_of_int (ids ! i)) stored_data) (\<lambda>_. returnX ()))
          (length ids))))))"

definition update_by_table_ordered_id ::
  "('c, 'p) eos_env \<Rightarrow> ('c database \<Rightarrow> int) \<Rightarrow> int list \<Rightarrow> ('c database, int) exec" where
  "update_by_table_ordered_id e free ids =
     bindX (resX (name_set ''receiver'')) (\<lambda>receiver.
     bindX (resX (name_set ''table'')) (\<lambda>table.
     let scope = test_scope (ee_digest e) in
     memory_used free (with_eos_db
       (for_int (\<lambda>i. bindX (db_find_i64 e receiver scope table (word_of_int (ids ! i))) (\<lambda>itr.
          db_update_i64 e itr receiver updated_data)) (length ids)))))"

definition remove_by_table_ordered_id ::
  "('c, 'p) eos_env \<Rightarrow> ('c database \<Rightarrow> int) \<Rightarrow> int list \<Rightarrow> ('c database, int) exec" where
  "remove_by_table_ordered_id e free ids =
     bindX (resX (name_set ''receiver'')) (\<lambda>receiver.
     bindX (resX (name_set ''table'')) (\<lambda>table.
     let scope = test_scope (ee_digest e) in
     memory_used free (with_eos_db
       (for_int (\<lambda>i. bindX (db_find_i64 e receiver scope table (word_of_int (ids ! i))) (\<lambda>itr.
          db_remove_i64 e itr)) (length ids)))))"

lemma packed_scope_is_packed:
  "concat (fst (pack_string (map of_char ''scope''))) = packed_scope" "snd (pack_string (map of_char ''scope'')) = None"
proof -
  have "pack_unsigned_int (of_nat (length (map of_char ''scope'' :: u8 list))) = ([[5]], None)" by code_simp
  moreover have "length (map of_char ''scope'' :: u8 list) \<le> max_size_of_byte_arrays" by (simp add: max_size_of_byte_arrays_def)
  ultimately have "pack_string (map of_char ''scope'') = ([[5], map of_char ''scope''], None)"
    by (simp add: pack_string_def seqW_def assertW_def wr_def)
  then show "concat (fst (pack_string (map of_char ''scope''))) = packed_scope" "snd (pack_string (map of_char ''scope'')) = None"
    by (simp_all add: packed_scope_def)
qed

section \<open>Loops\<close>

lemma for_int_total:
  assumes "n < 2 ^ 31" "P 0 s" "\<And>i s. i < n \<Longrightarrow> P i s \<Longrightarrow> \<exists>t. body i s = (Inr (), t) \<and> P (Suc i) t"
  shows "\<exists>t. for_int body n s = (Inr (), t) \<and> P n t"
proof -
  have "\<exists>t. eachX body [0..<n] s = (Inr (), t) \<and> P n t"
    using assms(3)
  proof (induction n)
    case 0
    then show ?case using assms(2) by simp
  next
    case (Suc n)
    then obtain t where t: "eachX body [0..<n] s = (Inr (), t)" "P n t" by (metis less_SucI)
    obtain u where "body n t = (Inr (), u)" "P (Suc n) u" using Suc.prems [OF lessI t(2)] by blast
    then show ?case using t(1) by (simp add: eachX_append bindX_run)
  qed
  then show ?thesis using assms(1) by (auto simp: for_int_def bindX_run)
qed

lemma inj_on_fresh: "inj_on f {..<n} \<Longrightarrow> i < n \<Longrightarrow> f i \<notin> f ` {..<i}" for i :: nat
  using inj_on_image_mem_iff [of f "{..<n}" i "{..<i}"] by auto

lemma memory_used_run: "m db = (Inr (), db') \<Longrightarrow> memory_used free m db = (Inr (free db - free db'), db')"
  by (simp add: memory_used_def bindX_run)

section \<open>Hashed keys\<close>

context eos_interface
begin

lemma store_keys_run:
  assumes inv: "db_inv (ee_env e) cinv db" and ty: "TK \<in> set (db_index_list db)" and n: "n < 2 ^ 31"
    and inj: "inj_on (\<lambda>i. table_key (ee_digest e) scope (key i)) {..<n}"
    and new: "\<forall>i<n. key_view e db (table_key (ee_digest e) scope (key i)) = None"
  shows "\<exists>db'. for_int (\<lambda>i. bindX (db_store_by_key e scope (key i) payer buf) (\<lambda>_. returnX ())) n db = (Inr (), db') \<and>
    db_inv (ee_env e) cinv db' \<and> db_index_list db' = db_index_list db \<and>
    key_view e db' = (\<lambda>k. if k \<in> (\<lambda>i. table_key (ee_digest e) scope (key i)) ` {..<n} then Some (payer, buf) else key_view e db k)"
proof -
  let ?k = "\<lambda>i. table_key (ee_digest e) scope (key i)"
  let ?P = "\<lambda>i d. db_inv (ee_env e) cinv d \<and> db_index_list d = db_index_list db \<and>
    key_view e d = (\<lambda>k. if k \<in> ?k ` {..<i} then Some (payer, buf) else key_view e db k)"
  have "\<exists>t. bindX (db_store_by_key e scope (key i) payer buf) (\<lambda>_. returnX ()) d = (Inr (), t) \<and> ?P (Suc i) t"
    if i: "i < n" and P: "?P i d" for i d
  proof -
    have "?k i \<notin> ?k ` {..<i}" by (rule inj_on_fresh [OF inj i])
    then have "key_view e d (?k i) = None" using P new i by simp
    moreover have "TK \<in> set (db_index_list d)" using P ty by simp
    ultimately obtain p d' where s: "db_store_by_key e scope (key i) payer buf d = (Inr p, d')" "db_inv (ee_env e) cinv d'"
      "other_tables (ee_env e) TK d d'" "key_view e d' = (key_view e d)(?k i \<mapsto> (payer, buf))"
      using store_by_key_run [of d scope "key i" payer buf] P by blast
    have "key_view e d' = (\<lambda>k. if k \<in> ?k ` {..<Suc i} then Some (payer, buf) else key_view e db k)"
      unfolding s(4) using P by (auto simp: fun_eq_iff lessThan_Suc)
    then show ?thesis using s P other_tables_list [OF s(3)] by (simp add: bindX_run)
  qed
  then show ?thesis using for_int_total [OF n, of ?P db] inv by simp
qed

lemma change_keys_run:
  assumes inv: "db_inv (ee_env e) cinv db" and ty: "TK \<in> set (db_index_list db)" and n: "n < 2 ^ 31"
    and inj: "inj_on (\<lambda>i. table_key (ee_digest e) scope (key i)) {..<n}"
    and old: "\<forall>i<n. key_view e db (table_key (ee_digest e) scope (key i)) \<noteq> None"
  shows "\<exists>db'. for_int (\<lambda>i. db_update_by_key e scope (key i) payer buf) n db = (Inr (), db') \<and>
      db_inv (ee_env e) cinv db' \<and> db_index_list db' = db_index_list db \<and>
      key_view e db' = (\<lambda>k. if k \<in> (\<lambda>i. table_key (ee_digest e) scope (key i)) ` {..<n} then Some (payer, buf) else key_view e db k)"
    and "\<exists>db'. for_int (\<lambda>i. db_remove_by_key e scope (key i)) n db = (Inr (), db') \<and>
      db_inv (ee_env e) cinv db' \<and> db_index_list db' = db_index_list db \<and>
      key_view e db' = (\<lambda>k. if k \<in> (\<lambda>i. table_key (ee_digest e) scope (key i)) ` {..<n} then None else key_view e db k)"
proof -
  let ?k = "\<lambda>i. table_key (ee_digest e) scope (key i)"
  let ?P = "\<lambda>v i d. db_inv (ee_env e) cinv d \<and> db_index_list d = db_index_list db \<and>
    key_view e d = (\<lambda>k. if k \<in> ?k ` {..<i} then v else key_view e db k)"
  have base: "?P v 0 db" for v using inv by simp
  have there: "\<exists>x. key_view e d (?k i) = Some x" "TK \<in> set (db_index_list d)" if "i < n" "?P v i d" for i d v
  proof -
    have "?k i \<notin> ?k ` {..<i}" by (rule inj_on_fresh [OF inj that(1)])
    then show "\<exists>x. key_view e d (?k i) = Some x" "TK \<in> set (db_index_list d)" using that old ty by auto
  qed
  have step: "?P v (Suc i) d'" if "?P v i d" "db_inv (ee_env e) cinv d'" "other_tables (ee_env e) TK d d'"
    "key_view e d' = (key_view e d)(?k i := v)" for v i d d'
    using that other_tables_list [OF that(3)] by (auto simp: fun_eq_iff lessThan_Suc)
  have u: "\<exists>t. db_update_by_key e scope (key i) payer buf d = (Inr (), t) \<and> ?P (Some (payer, buf)) (Suc i) t"
    if i: "i < n" and P: "?P (Some (payer, buf)) i d" for i d
  proof -
    obtain x where x: "key_view e d (?k i) = Some x" using there(1) [OF i P] by blast
    from P have d: "db_inv (ee_env e) cinv d" by blast
    show ?thesis by (rule update_by_key_run [OF d there(2) [OF i P] x, of payer buf]) (use step [OF P] in blast)
  qed
  have r: "\<exists>t. db_remove_by_key e scope (key i) d = (Inr (), t) \<and> ?P None (Suc i) t"
    if i: "i < n" and P: "?P None i d" for i d
  proof -
    obtain x where x: "key_view e d (?k i) = Some x" using there(1) [OF i P] by blast
    from P have d: "db_inv (ee_env e) cinv d" by blast
    show ?thesis by (rule remove_by_key_run [OF d there(2) [OF i P] x]) (use step [OF P] in blast)
  qed
  show "\<exists>db'. for_int (\<lambda>i. db_update_by_key e scope (key i) payer buf) n db = (Inr (), db') \<and> ?P (Some (payer, buf)) n db'"
    by (rule for_int_total [where P = "?P (Some (payer, buf))" and body = "\<lambda>i. db_update_by_key e scope (key i) payer buf" and s = db, OF n base u])
  show "\<exists>db'. for_int (\<lambda>i. db_remove_by_key e scope (key i)) n db = (Inr (), db') \<and> ?P None n db'"
    by (rule for_int_total [where P = "?P None" and body = "\<lambda>i. db_remove_by_key e scope (key i)" and s = db, OF n base r])
qed

end

definition test_key :: "('c, 'p) eos_env \<Rightarrow> nat \<Rightarrow> sha256" where
  "test_key e i = table_key (ee_digest e) (test_scope (ee_digest e)) (int_key i)"

context eos_interface
begin

lemma key_runs:
  assumes "db_inv (ee_env e) cinv db" "TK \<in> set (db_index_list db)"
    and "length ids < 2 ^ 31" "length ids' = length ids" "length ids'' = length ids"
    and "inj_on (test_key e) {..<length ids}" "\<forall>i<length ids. key_view e db (test_key e i) = None"
  shows "\<exists>db1 db2 db3. let K = test_key e ` {..<length ids}; scope = test_scope (ee_digest e) in
    store_by_table_key_value e free ids db = (Inr (free db - free db1), db1) \<and>
    key_view e db1 = (\<lambda>k. if k \<in> K then Some (scope, stored_data) else key_view e db k) \<and>
    update_by_table_key_value e free ids' db1 = (Inr (free db1 - free db2), db2) \<and>
    key_view e db2 = (\<lambda>k. if k \<in> K then Some (scope, updated_data) else key_view e db k) \<and>
    remove_by_table_key_value e free ids'' db2 = (Inr (free db2 - free db3), db3) \<and>
    key_view e db3 = key_view e db \<and> db_inv (ee_env e) cinv db3"
proof -
  let ?s = "test_scope (ee_digest e)" and ?n = "length ids"
  have k: "test_key e = (\<lambda>i. table_key (ee_digest e) ?s (int_key i))" by (simp add: test_key_def fun_eq_iff)
  note a = assms(3,6,7) [unfolded k]
  obtain db1 where 1: "for_int (\<lambda>i. bindX (db_store_by_key e ?s (int_key i) ?s stored_data) (\<lambda>_. returnX ())) ?n db = (Inr (), db1)"
    "db_inv (ee_env e) cinv db1" "TK \<in> set (db_index_list db1)"
    "key_view e db1 = (\<lambda>k. if k \<in> test_key e ` {..<?n} then Some (?s, stored_data) else key_view e db k)"
    using store_keys_run [OF assms(1,2) a] assms(2) unfolding k by metis
  have old1: "\<forall>i<?n. key_view e db1 (table_key (ee_digest e) ?s (int_key i)) \<noteq> None" by (simp add: 1(4) k)
  obtain db2 where 2: "for_int (\<lambda>i. db_update_by_key e ?s (int_key i) ?s updated_data) ?n db1 = (Inr (), db2)"
    "db_inv (ee_env e) cinv db2" "TK \<in> set (db_index_list db2)"
    "key_view e db2 = (\<lambda>k. if k \<in> test_key e ` {..<?n} then Some (?s, updated_data) else key_view e db1 k)"
    using change_keys_run(1) [OF 1(2,3) a(1,2) old1] 1(3) unfolding k by metis
  have old2: "\<forall>i<?n. key_view e db2 (table_key (ee_digest e) ?s (int_key i)) \<noteq> None" by (simp add: 2(4) k)
  obtain db3 where 3: "for_int (\<lambda>i. db_remove_by_key e ?s (int_key i)) ?n db2 = (Inr (), db3)"
    "db_inv (ee_env e) cinv db3"
    "key_view e db3 = (\<lambda>k. if k \<in> test_key e ` {..<?n} then None else key_view e db2 k)"
    using change_keys_run(2) [OF 2(2,3) a(1,2) old2] unfolding k by metis
  have "key_view e db2 = (\<lambda>k. if k \<in> test_key e ` {..<?n} then Some (?s, updated_data) else key_view e db k)"
    "key_view e db3 = key_view e db"
    using assms(7) by (auto simp: fun_eq_iff 1(4) 2(4) 3(3))
  then show ?thesis
    using 1 2(1) 3(1,2) assms(4,5)
    by (intro exI [of _ db1] exI [of _ db2] exI [of _ db3])
      (simp add: Let_def memory_used_run store_by_table_key_value_def update_by_table_key_value_def remove_by_table_key_value_def)
qed

end

text \<open>
  C22: the three runs under hashed keys succeed one after the other on any number of ids below
  \<open>2 ^ 31\<close> when no two of the keys collide and none is in use: after the first exactly the keys
  \<open>0, ..., n - 1\<close> are added with the stored text, after the second they have the updated text,
  after the third the store is as it was. The ids themselves, and their order, do not matter.
\<close>

theorem key_value_runs:
  assumes "eos_interface e cinv keys" "db_inv (ee_env e) cinv db" "TK \<in> set (db_index_list db)"
    and "length ids < 2 ^ 31" "length ids' = length ids" "length ids'' = length ids"
    and "inj_on (test_key e) {..<length ids}" "\<forall>i<length ids. key_view e db (test_key e i) = None"
  shows "\<exists>db1 db2 db3. let K = test_key e ` {..<length ids}; scope = test_scope (ee_digest e) in
    store_by_table_key_value e free ids db = (Inr (free db - free db1), db1) \<and>
    key_view e db1 = (\<lambda>k. if k \<in> K then Some (scope, stored_data) else key_view e db k) \<and>
    update_by_table_key_value e free ids' db1 = (Inr (free db1 - free db2), db2) \<and>
    key_view e db2 = (\<lambda>k. if k \<in> K then Some (scope, updated_data) else key_view e db k) \<and>
    remove_by_table_key_value e free ids'' db2 = (Inr (free db2 - free db3), db3) \<and>
    key_view e db3 = key_view e db \<and> db_inv (ee_env e) cinv db3"
  by (rule eos_interface.key_runs [OF assms])

theorem key_value_runs_witness:
  "\<exists>db1. store_by_table_key_value (cell_eos_env sample_digest) (\<lambda>_. 0) [7, 3] (db_run sample_setup) = (Inr 0, db1) \<and>
     key_view (cell_eos_env sample_digest) db1 (test_key (cell_eos_env sample_digest) 1) =
       Some (test_scope sample_digest, stored_data)"
proof -
  let ?e = "cell_eos_env sample_digest"
  have l: "{..<length [7, 3 :: int]} = {0, 1}" by auto
  have "test_key ?e 0 \<noteq> test_key ?e 1" "key_view ?e (db_run sample_setup) (test_key ?e 0) = None"
    "key_view ?e (db_run sample_setup) (test_key ?e 1) = None" by code_simp+
  then have "inj_on (test_key ?e) {..<length [7, 3 :: int]}"
    "\<forall>i<length [7, 3 :: int]. key_view ?e (db_run sample_setup) (test_key ?e i) = None"
    unfolding l by (auto simp: less_Suc_eq numeral_eq_Suc)
  then show ?thesis
    using key_value_runs [OF cell_eos.eos_interface_axioms, of sample_digest "db_run sample_setup" "[7, 3]" "[3, 7]" "[7, 3]" "\<lambda>_. 0"]
      sample_key_inv sample_key_type by (auto simp: Let_def)
qed

end
