(* ===== verification/Perf_Rows.thy ===== *)
theory Perf_Rows
  imports Perf_Tests "HOL-Library.Multiset"
begin

text \<open>
  The runs of \<open>db_tests\<close> on the rows of a table. The rows of the database are seen by their id
  (\<open>row_view\<close>); \<open>grows\<close> bounds by how many entries an operation can extend the iterator cache,
  so that the cache of a run stays within the numbers an iterator can take.
\<close>

section \<open>The size of the cache\<close>

definition iterators :: "('c, 'p) eos_db \<Rightarrow> nat" where
  "iterators st = length (ic_iterator_to_object (es_keyval_cache st))"

definition end_iterators :: "('c, 'p) eos_db \<Rightarrow> nat" where
  "end_iterators st = length (ic_end_iterator_to_table (es_keyval_cache st))"

definition grows :: "nat \<Rightarrow> nat \<Rightarrow> (('c, 'p) eos_db, 'a) exec \<Rightarrow> bool" where
  "grows i j m \<longleftrightarrow> (\<forall>s. iterators (snd (m s)) \<le> iterators s + i \<and> end_iterators (snd (m s)) \<le> end_iterators s + j)"

lemma growsD:
  assumes "grows i j m" "m s = (r, s')"
  shows "iterators s' \<le> iterators s + i" "end_iterators s' \<le> end_iterators s + j"
  using assms(1) [unfolded grows_def, rule_format, of s] assms(2) by simp_all

lemma grows_bind:
  assumes "grows i j m" "\<And>x. grows k l (f x)"
  shows "grows (i + k) (j + l) (bindX m f)"
  unfolding grows_def
proof
  fix s
  obtain r t where m: "m s = (r, t)" by fastforce
  note a = growsD [OF assms(1) m]
  show "iterators (snd (bindX m f s)) \<le> iterators s + (i + k) \<and> end_iterators (snd (bindX m f s)) \<le> end_iterators s + (j + l)"
  proof (cases r)
    case (Inl e)
    then show ?thesis using a m by (simp add: bindX_def)
  next
    case (Inr x)
    obtain r' u where f: "f x t = (r', u)" by fastforce
    then show ?thesis using a growsD [OF assms(2) f] m Inr by (simp add: bindX_def)
  qed
qed

lemma grows_dbX: "grows 0 0 (dbX m)"
  by (simp add: grows_def dbX_def liftX_def iterators_def end_iterators_def split: prod.splits)

lemma grows_const: "grows 0 0 (returnX x)" "grows 0 0 (throwX e)"
  by (simp_all add: grows_def)

lemma grows_mono: "grows i j m \<Longrightarrow> i \<le> k \<Longrightarrow> j \<le> l \<Longrightarrow> grows k l m"
  unfolding grows_def by (meson add_left_mono order_trans)

lemma grows_keyvalX:
  assumes "\<And>c. length (ic_iterator_to_object (snd (m c))) \<le> length (ic_iterator_to_object c) + i"
    "\<And>c. length (ic_end_iterator_to_table (snd (m c))) \<le> length (ic_end_iterator_to_table c) + j"
  shows "grows i j (keyvalX m)"
  unfolding grows_def
proof
  fix s
  show "iterators (snd (keyvalX m s)) \<le> iterators s + i \<and> end_iterators (snd (keyvalX m s)) \<le> end_iterators s + j"
    using assms [of "es_keyval_cache s"]
    by (cases "m (es_keyval_cache s)") (simp add: keyvalX_def liftX_def iterators_def end_iterators_def)
qed

lemma grows_cache:
  "grows 0 0 (keyvalX (ic_get i))" "grows 0 0 (keyvalX (get_table t))" "grows 0 1 (keyvalX (cache_table t p))"
  "grows 1 0 (keyvalX (ic_add p))" "grows 0 0 (keyvalX (ic_remove i))"
proof -
  show "grows 0 0 (keyvalX (ic_get i))"
    by (rule grows_keyvalX) (auto simp: ic_get_def bindX_def assertE_def guardE_def split: option.splits sum.splits prod.splits)
  show "grows 0 0 (keyvalX (get_table t))"
    by (rule grows_keyvalX) (auto simp: get_table_def split: option.splits prod.splits)
  show "grows 0 1 (keyvalX (cache_table t p))"
    by (rule grows_keyvalX) (auto simp: cache_table_def Let_def split: option.splits prod.splits)
  show "grows 1 0 (keyvalX (ic_add p))"
    by (rule grows_keyvalX) (auto simp: ic_add_def Let_def split: option.splits)
  show "grows 0 0 (keyvalX (ic_remove i))"
    by (rule grows_keyvalX) (auto simp: ic_remove_def bindX_def assertE_def guardE_def split: option.splits sum.splits prod.splits)
qed

lemma grows_store: "grows 1 1 (db_store_i64 e junk code scope table payer i buf)"
proof -
  have "grows (0 + (0 + (0 + (0 + (0 + (0 + 1)))))) (0 + (0 + (0 + (0 + (0 + (1 + 0)))))) (db_store_i64 e junk code scope table payer i buf)"
    unfolding db_store_i64_def by (intro grows_bind grows_dbX grows_cache)
  then show ?thesis by simp
qed

lemma grows_option: "grows i j m \<Longrightarrow> (\<And>p. grows i j (f p)) \<Longrightarrow> grows i j (case x of None \<Rightarrow> m | Some p \<Rightarrow> f p)"
  by (cases x) simp_all

lemma grows_find: "grows 1 1 (db_find_i64 e code scope table i)"
proof -
  have "grows (0 + (0 + (0 + (0 + 1)))) (0 + (0 + (1 + (0 + 0)))) (db_find_i64 e code scope table i)"
    unfolding db_find_i64_def
    by (intro grows_bind grows_dbX grows_option grows_cache grows_mono [OF grows_const(1)]) simp_all
  then show ?thesis by simp
qed

lemma grows_update: "grows 0 0 (db_update_i64 e itr payer buf)"
proof -
  have "grows (0 + 0) (0 + 0) (db_update_i64 e itr payer buf)"
    unfolding db_update_i64_def by (intro grows_bind grows_dbX grows_cache)
  then show ?thesis by simp
qed

lemma grows_remove: "grows 0 0 (db_remove_i64 e itr)"
proof -
  have i: "grows 0 0 (if b then dbX m else returnX ())" for b and m :: "('c database, unit) exec"
    by (simp add: grows_dbX grows_const)
  have "grows (0 + (0 + (0 + (0 + (0 + (0 + (0 + 0))))))) (0 + (0 + (0 + (0 + (0 + (0 + (0 + 0))))))) (db_remove_i64 e itr)"
    unfolding db_remove_i64_def by (intro grows_bind grows_dbX grows_cache i)
  then show ?thesis by simp
qed

section \<open>Rows by id\<close>

definition row_view :: "('c, 'p) eos_env \<Rightarrow> 'c database \<Rightarrow> int \<rightharpoonup> key_value_object" where
  "row_view e db k = Option.bind (db_contents (ee_env e) db KV (Id_i64 k)) the_kv"

definition test_row :: "int \<Rightarrow> name \<Rightarrow> blob \<Rightarrow> int \<Rightarrow> key_value_object" where
  "test_row tid payer buf k = \<lparr>kv_id = k, kv_t_id = tid, kv_primary_key = word_of_int k, kv_payer = payer, kv_value = buf\<rparr>"

text \<open>The ids are values of \<open>int\<close>, and no row has one of them as its id or primary key.\<close>

definition int32_list :: "int list \<Rightarrow> bool" where
  "int32_list ids \<longleftrightarrow> (\<forall>x \<in> set ids. - (2 ^ 31) \<le> x \<and> x < 2 ^ 31)"

definition ids_free :: "('c, 'p) eos_env \<Rightarrow> 'c database \<Rightarrow> int list \<Rightarrow> bool" where
  "ids_free e db ids \<longleftrightarrow> (\<forall>n. has_row e db n \<longrightarrow> kv_id n \<notin> set ids \<and> kv_primary_key n \<notin> word_of_int ` set ids)"

lemma sint_int32: "- (2 ^ 31) \<le> x \<Longrightarrow> x < 2 ^ 31 \<Longrightarrow> sint (word_of_int x :: u64) = x"
  by (simp add: signed_of_int signed_take_bit_int_eq_self)

lemma int32_list_sint: "int32_list ids \<Longrightarrow> i < length ids \<Longrightarrow> sint (word_of_int (ids ! i) :: u64) = ids ! i"
  by (rule sint_int32) (simp_all add: int32_list_def)

lemma int32_list_inj:
  "int32_list ids \<Longrightarrow> x \<in> set ids \<Longrightarrow> y \<in> set ids \<Longrightarrow> (word_of_int x :: u64) = word_of_int y \<Longrightarrow> x = y"
proof -
  assume ids: "int32_list ids" "x \<in> set ids" "y \<in> set ids" and e: "(word_of_int x :: u64) = word_of_int y"
  have "sint (word_of_int z :: u64) = z" if "z \<in> set ids" for z
    using ids(1) that by (intro sint_int32) (simp_all add: int32_list_def)
  from this [OF ids(2)] this [OF ids(3)] show "x = y" unfolding e by (rule trans [OF sym])
qed

lemma distinct_nth_take: "distinct xs \<Longrightarrow> i < length xs \<Longrightarrow> xs ! i \<notin> set (take i xs)"
  by (auto simp: in_set_conv_nth nth_eq_iff_index_eq)

lemma of_nat_count_one: "0 < m \<Longrightarrow> m < 2 ^ 31 \<Longrightarrow> (of_nat m :: u32) = 1 \<longleftrightarrow> m = 1"
proof -
  assume "0 < m" "m < 2 ^ 31"
  then have "unat (of_nat m :: u32) = m" by (simp add: unsigned_of_nat take_bit_nat_eq_self)
  then show ?thesis by (metis of_nat_1 unat_1)
qed

lemma view_step:
  assumes "i < length ids"
  shows "(\<lambda>k. if k \<in> set (take i ids) then f k else v k)(ids ! i := f (ids ! i)) = (\<lambda>k. if k \<in> set (take (Suc i) ids) then f k else v k)"
  using assms by (auto simp: fun_eq_iff take_Suc_conv_app_nth)

lemma option_eqI: "(\<And>r. x = Some r \<longleftrightarrow> y = Some r) \<Longrightarrow> x = y"
  by (cases x; cases y) auto

context eos_interface
begin

lemma row_view_iff:
  assumes "db_inv (ee_env e) cinv db"
  shows "row_view e db k = Some r \<longleftrightarrow> (\<exists>p. row_at e db p = Some r \<and> kv_id r = k)"
  unfolding row_view_def bind_eq_Some_conv contents_at [OF assms] row_at_Some by auto

lemma row_same:
  assumes "db_inv (ee_env e) cinv db" "row_at e db p = Some n" "row_at e db q = Some m"
    "kv_id n = kv_id m \<or> by_scope_primary n = by_scope_primary m"
  shows "p = q"
  using at_no_clash [OF assms(1), of KV p "Key_value_row n" q "Key_value_row m"] assms(2-4)
  by (auto simp: row_at_Some row_clash_def)

lemma table_same:
  assumes "db_inv (ee_env e) cinv db" "table_at e db p = Some t" "table_at e db q = Some u"
    "tid_id t = tid_id u \<or> by_code_scope_table t = by_code_scope_table u"
  shows "p = q"
  using at_no_clash [OF assms(1), of TI p "Table_id_row t" q "Table_id_row u"] assms(2-4)
  by (auto simp: table_at_Some row_clash_def)

text \<open>A change of the store at one address is a change of the view at one id.\<close>

lemma row_view_upd:
  assumes inv: "db_inv (ee_env e) cinv db" "db_inv (ee_env e) cinv db'"
    and at: "row_at e db' = (row_at e db)(p := x)"
    and old: "row_at e db p = None \<and> x \<noteq> None \<or> (\<exists>o1. row_at e db p = Some o1 \<and> kv_id o1 = k)"
    and new: "\<forall>n. x = Some n \<longrightarrow> kv_id n = k"
  shows "row_view e db' = (row_view e db)(k := x)"
proof -
  have other: "kv_id r \<noteq> k" if q: "q \<noteq> p" "row_at e db q = Some r" for q r
  proof
    assume k: "kv_id r = k"
    from old show False
    proof
      assume "row_at e db p = None \<and> x \<noteq> None"
      then obtain n where n: "row_at e db' p = Some n" "kv_id n = k" using new at by auto
      have r: "row_at e db' q = Some r" using q at by simp
      have "p = q" by (rule row_same [OF inv(2) n(1) r]) (simp add: n(2) k)
      then show False using q(1) by simp
    next
      assume "\<exists>o1. row_at e db p = Some o1 \<and> kv_id o1 = k"
      then obtain o1 where o: "row_at e db p = Some o1" "kv_id o1 = k" by blast
      have "p = q" by (rule row_same [OF inv(1) o(1) q(2)]) (simp add: o(2) k)
      then show False using q(1) by simp
    qed
  qed
  have "row_view e db' i = Some r \<longleftrightarrow> ((row_view e db)(k := x)) i = Some r" for i r
  proof (cases "i = k")
    case True
    then show ?thesis unfolding row_view_iff [OF inv(2)] at using other new by auto
  next
    case False
    then have "row_at e db' q = Some r \<and> kv_id r = i \<longleftrightarrow> row_at e db q = Some r \<and> kv_id r = i" for q
      using old new unfolding at by (cases "q = p") auto
    then show ?thesis using False unfolding fun_upd_apply if_not_P [OF False] row_view_iff [OF inv(2)] row_view_iff [OF inv(1)] by simp
  qed
  then show ?thesis by (intro ext option_eqI) blast
qed

text \<open>The step of the storing run: one more row in the one table.\<close>

lemma store_step:
  assumes inv: "eos_inv e cinv st" and room: "iterators st < ic_limit" "end_iterators st < ic_limit"
    and tab: "table_at e (es_db st) p = Some t" "by_code_scope_table t = (code, scope, table)"
    and free: "\<forall>n. has_row e (es_db st) n \<longrightarrow> kv_id n \<noteq> sint i \<and> kv_primary_key n \<noteq> i"
  obtains j st' where "db_store_i64 e junk code scope table payer i buf st = (Inr j, st')" "eos_inv e cinv st'"
    "iterators st' \<le> iterators st + 1" "end_iterators st' \<le> end_iterators st + 1"
    "table_at e (es_db st') = (table_at e (es_db st))(p \<mapsto> t\<lparr>tid_count := tid_count t + 1\<rparr>)"
    "row_view e (es_db st') = (row_view e (es_db st))(sint i \<mapsto>
       \<lparr>kv_id = sint i, kv_t_id = tid_id t, kv_primary_key = i, kv_payer = payer, kv_value = buf\<rparr>)"
proof (rule store_ok [OF inv _ free, where payer = payer and buf = buf and junk = junk and code = code and scope = scope and table = table])
  show "cache_room (es_keyval_cache st)" using room by (simp add: cache_room_def iterators_def end_iterators_def)
  show "\<forall>p t. table_at e (es_db st) p = Some t \<longrightarrow> tid_id t \<noteq> junk"
    if "\<forall>p t. table_at e (es_db st) p = Some t \<longrightarrow> by_code_scope_table t \<noteq> (code, scope, table)"
    using that tab by blast
  fix j p' q t' st'
  assume s: "db_store_i64 e junk code scope table payer i buf st = (Inr j, st')" "eos_inv e cinv st'"
    "by_code_scope_table t' = (code, scope, table)"
    "table_at e (es_db st) p' = Some t' \<or> table_at e (es_db st) p' = None \<and> t' = new_table junk code scope table payer"
    "table_at e (es_db st') = (table_at e (es_db st))(p' \<mapsto> t'\<lparr>tid_count := tid_count t' + 1\<rparr>)"
    "row_at e (es_db st) q = None"
    "row_at e (es_db st') = (row_at e (es_db st))(q \<mapsto>
       \<lparr>kv_id = sint i, kv_t_id = tid_id t', kv_primary_key = i, kv_payer = payer, kv_value = buf\<rparr>)"
  have p: "p' = p"
  proof (rule ccontr)
    assume "p' \<noteq> p"
    then have "table_at e (es_db st') p = Some t" using s(5) tab(1) by simp
    moreover have "table_at e (es_db st') p' = Some (t'\<lparr>tid_count := tid_count t' + 1\<rparr>)" using s(5) by simp
    ultimately have "p' = p"
      using table_same [OF eos_invD(1) [OF s(2)], of p' _ p] tab(2) s(3) by (simp add: by_code_scope_table_def)
    then show False using \<open>p' \<noteq> p\<close> by simp
  qed
  then have t: "t' = t" using s(4) tab(1) by simp
  have v: "row_view e (es_db st') = (row_view e (es_db st))(sint i \<mapsto>
      \<lparr>kv_id = sint i, kv_t_id = tid_id t, kv_primary_key = i, kv_payer = payer, kv_value = buf\<rparr>)"
    by (rule row_view_upd [OF eos_invD(1) [OF inv] eos_invD(1) [OF s(2)] s(7) [unfolded t]]) (simp_all add: s(6))
  show thesis by (rule that [OF s(1,2) growsD [OF grows_store s(1)] s(5) [unfolded p t] v])
qed

text \<open>Finding a row that is there.\<close>

lemma find_step:
  assumes inv: "eos_inv e cinv st" and room: "iterators st < ic_limit" "end_iterators st < ic_limit"
    and tab: "table_at e (es_db st) p = Some t" "by_code_scope_table t = (code, scope, table)"
    and row: "row_view e (es_db st) k = Some r" "kv_t_id r = tid_id t" "kv_primary_key r = i"
  obtains j q st' where "db_find_i64 e code scope table i st = (Inr j, st')" "eos_inv e cinv st'" "es_db st' = es_db st"
    "iterators st' \<le> iterators st + 1" "end_iterators st' \<le> end_iterators st + 1"
    "ic_get j (es_keyval_cache st') = (Inr q, es_keyval_cache st')" "row_at e (es_db st') q = Some r"
proof (rule find_ok [OF inv _ tab, of i])
  show "cache_room (es_keyval_cache st)" using room by (simp add: cache_room_def iterators_def end_iterators_def)
  obtain q0 where q0: "row_at e (es_db st) q0 = Some r" using row(1) row_view_iff [OF eos_invD(1) [OF inv]] by blast
  fix j st'
  assume f: "db_find_i64 e code scope table i st = (Inr j, st')" "eos_inv e cinv st'" "es_db st' = es_db st"
    "no_row e (es_db st) (tid_id t) (\<lambda>k. k = i) \<and> end_itr st' (tid_id t) j \<or>
     (\<exists>n. has_row e (es_db st) n \<and> kv_t_id n = tid_id t \<and> kv_primary_key n = i \<and> itr_row e st' j = Some n)"
  have "\<not> no_row e (es_db st) (tid_id t) (\<lambda>k. k = i)" using q0 row(2,3) by (auto simp: no_row_def has_row_def)
  then obtain n where n: "kv_t_id n = tid_id t" "kv_primary_key n = i" "itr_row e st' j = Some n" using f(4) by blast
  then obtain q where q: "ic_get j (es_keyval_cache st') = (Inr q, es_keyval_cache st')" "row_at e (es_db st') q = Some n"
    unfolding itr_row_Some by blast
  have "q = q0"
    by (rule row_same [OF eos_invD(1) [OF inv] _ q0]) (use q(2) f(3) n row in \<open>auto simp: by_scope_primary_def\<close>)
  then have "row_at e (es_db st') q = Some r" using q0 f(3) by simp
  then show thesis by (rule that [OF f(1-3) growsD [OF grows_find f(1)] q(1)])
qed

lemma next_id_free:
  assumes inv: "db_inv (ee_env e) cinv db0" "db_inv (ee_env e) cinv db"
    and ids: "distinct ids" "int32_list ids" "ids_free e db0 ids" and i: "i < length ids"
    and view: "row_view e db = (\<lambda>k. if k \<in> set (take i ids) then Some (test_row tid payer buf k) else row_view e db0 k)"
  shows "\<forall>n. has_row e db n \<longrightarrow> kv_id n \<noteq> sint (word_of_int (ids ! i) :: u64) \<and> kv_primary_key n \<noteq> word_of_int (ids ! i)"
proof (intro allI impI)
  fix n
  assume "has_row e db n"
  then have "row_view e db (kv_id n) = Some n" using row_view_iff [OF inv(2)] by (auto simp: has_row_def)
  then consider "kv_id n \<in> set (take i ids)" "n = test_row tid payer buf (kv_id n)" | "row_view e db0 (kv_id n) = Some n"
    unfolding view by (auto split: if_splits)
  then show "kv_id n \<noteq> sint (word_of_int (ids ! i) :: u64) \<and> kv_primary_key n \<noteq> word_of_int (ids ! i)"
  proof cases
    case 1
    have "kv_id n \<noteq> ids ! i" using 1(1) distinct_nth_take [OF ids(1) i] by auto
    moreover have "kv_primary_key n = word_of_int (kv_id n)" by (subst 1(2)) (simp add: test_row_def)
    moreover have "kv_id n \<in> set ids" using 1(1) by (rule in_set_takeD)
    ultimately show ?thesis using int32_list_inj [OF ids(2) _ nth_mem [OF i]] int32_list_sint [OF ids(2) i] by auto
  next
    case 2
    then have "has_row e db0 n" using row_view_iff [OF inv(1)] by (auto simp: has_row_def)
    then show ?thesis using ids(3) i int32_list_sint [OF ids(2) i] by (auto simp: ids_free_def)
  qed
qed

lemma store_rows_run:
  assumes inv: "eos_inv e cinv st" and size: "iterators st = 0" "end_iterators st = 0" "length ids < ic_limit"
    and tab: "table_at e (es_db st) p = Some t" "by_code_scope_table t = (code, scope, table)"
    and ids: "distinct ids" "int32_list ids" "ids_free e (es_db st) ids"
  shows "\<exists>st'. for_int (\<lambda>i. bindX (db_store_i64 e junk code scope table payer (word_of_int (ids ! i)) buf) (\<lambda>_. returnX ())) (length ids) st = (Inr (), st') \<and>
    eos_inv e cinv st' \<and>
    table_at e (es_db st') = (table_at e (es_db st))(p \<mapsto> t\<lparr>tid_count := tid_count t + of_nat (length ids)\<rparr>) \<and>
    row_view e (es_db st') = (\<lambda>k. if k \<in> set ids then Some (test_row (tid_id t) payer buf k) else row_view e (es_db st) k)"
proof -
  let ?v = "\<lambda>i k. if k \<in> set (take i ids) then Some (test_row (tid_id t) payer buf k) else row_view e (es_db st) k"
  let ?P = "\<lambda>i s. eos_inv e cinv s \<and> iterators s \<le> i \<and> end_iterators s \<le> i \<and>
    table_at e (es_db s) = (table_at e (es_db st))(p \<mapsto> t\<lparr>tid_count := tid_count t + of_nat i\<rparr>) \<and> row_view e (es_db s) = ?v i"
  have step: "\<exists>u. bindX (db_store_i64 e junk code scope table payer (word_of_int (ids ! i)) buf) (\<lambda>_. returnX ()) s = (Inr (), u) \<and> ?P (Suc i) u"
    if i: "i < length ids" and P: "?P i s" for i s
  proof -
    let ?t = "t\<lparr>tid_count := tid_count t + of_nat i\<rparr>"
    have inv': "eos_inv e cinv s" using P by blast
    have w: "sint (word_of_int (ids ! i) :: u64) = ids ! i" using ids(2) i by (simp add: int32_list_sint)
    have free: "\<forall>n. has_row e (es_db s) n \<longrightarrow> kv_id n \<noteq> sint (word_of_int (ids ! i) :: u64) \<and> kv_primary_key n \<noteq> word_of_int (ids ! i)"
      by (rule next_id_free [OF eos_invD(1) [OF inv] eos_invD(1) [OF inv'] ids i]) (use P in blast)
    have tab': "table_at e (es_db s) p = Some ?t" "by_code_scope_table ?t = (code, scope, table)"
      using P tab(2) by (simp_all add: by_code_scope_table_def)
    have room: "iterators s < ic_limit" "end_iterators s < ic_limit" using P i size(3) by simp_all
    show ?thesis
    proof (rule store_step [OF inv' room tab' free, where junk = junk and payer = payer and buf = buf])
      fix j u
      assume u: "db_store_i64 e junk code scope table payer (word_of_int (ids ! i)) buf s = (Inr j, u)" "eos_inv e cinv u"
        "iterators u \<le> iterators s + 1" "end_iterators u \<le> end_iterators s + 1"
        "table_at e (es_db u) = (table_at e (es_db s))(p \<mapsto> ?t\<lparr>tid_count := tid_count ?t + 1\<rparr>)"
        "row_view e (es_db u) = (row_view e (es_db s))(sint (word_of_int (ids ! i) :: u64) \<mapsto>
           \<lparr>kv_id = sint (word_of_int (ids ! i) :: u64), kv_t_id = tid_id ?t, kv_primary_key = word_of_int (ids ! i), kv_payer = payer, kv_value = buf\<rparr>)"
      have "row_view e (es_db u) = (row_view e (es_db s))(ids ! i \<mapsto> test_row (tid_id t) payer buf (ids ! i))"
        unfolding u(6) w by (simp add: test_row_def)
      also have "\<dots> = ?v (Suc i)" using P view_step [OF i, of "\<lambda>k. Some (test_row (tid_id t) payer buf k)"] by simp
      finally have "row_view e (es_db u) = ?v (Suc i)" .
      moreover have "iterators u \<le> Suc i" "end_iterators u \<le> Suc i" using u(3,4) P by simp_all
      moreover have "table_at e (es_db u) = (table_at e (es_db st))(p \<mapsto> t\<lparr>tid_count := tid_count t + of_nat (Suc i)\<rparr>)"
        unfolding u(5) using P by (simp add: ac_simps)
      ultimately show ?thesis using u(1,2) by (simp add: bindX_run)
    qed
  qed
  have base: "?P 0 st" using inv size tab(1) by (simp add: fun_upd_idem)
  have n: "length ids < 2 ^ 31" using size(3) by (simp add: ic_limit_def)
  have "\<exists>u. for_int (\<lambda>i. bindX (db_store_i64 e junk code scope table payer (word_of_int (ids ! i)) buf) (\<lambda>_. returnX ())) (length ids) st = (Inr (), u) \<and> ?P (length ids) u"
    by (rule for_int_total [where P = ?P, OF n base step])
  then show ?thesis by auto
qed

lemma update_rows_run:
  assumes inv: "eos_inv e cinv st" and size: "iterators st = 0" "end_iterators st = 0" "length ids < ic_limit"
    and tab: "table_at e (es_db st) p = Some t" "by_code_scope_table t = (code, scope, table)"
    and ids: "distinct ids" "\<forall>k \<in> set ids. row_view e (es_db st) k = Some (test_row (tid_id t) payer0 buf0 k)"
  shows "\<exists>st'. for_int (\<lambda>i. bindX (db_find_i64 e code scope table (word_of_int (ids ! i))) (\<lambda>itr. db_update_i64 e itr payer buf)) (length ids) st = (Inr (), st') \<and>
    eos_inv e cinv st' \<and> table_at e (es_db st') = table_at e (es_db st) \<and>
    row_view e (es_db st') = (\<lambda>k. if k \<in> set ids then Some (test_row (tid_id t) payer buf k) else row_view e (es_db st) k)"
proof -
  let ?v = "\<lambda>i k. if k \<in> set (take i ids) then Some (test_row (tid_id t) payer buf k) else row_view e (es_db st) k"
  let ?P = "\<lambda>i s. eos_inv e cinv s \<and> iterators s \<le> i \<and> end_iterators s \<le> i \<and>
    table_at e (es_db s) = table_at e (es_db st) \<and> row_view e (es_db s) = ?v i"
  let ?b = "\<lambda>i. bindX (db_find_i64 e code scope table (word_of_int (ids ! i))) (\<lambda>itr. db_update_i64 e itr payer buf)"
  have step: "\<exists>u. ?b i s = (Inr (), u) \<and> ?P (Suc i) u" if i: "i < length ids" and P: "?P i s" for i s
  proof -
    let ?k = "ids ! i" and ?r = "test_row (tid_id t) payer0 buf0 (ids ! i)"
    have s: "eos_inv e cinv s" "iterators s < ic_limit" "end_iterators s < ic_limit" using P i size(3) by simp_all
    have t: "table_at e (es_db s) p = Some t" using P tab(1) by simp
    have r: "row_view e (es_db s) ?k = Some ?r" using P distinct_nth_take [OF ids(1) i] ids(2) i by simp
    obtain j q u where f: "db_find_i64 e code scope table (word_of_int ?k) s = (Inr j, u)" "eos_inv e cinv u" "es_db u = es_db s"
      "iterators u \<le> iterators s + 1" "end_iterators u \<le> end_iterators s + 1"
      "ic_get j (es_keyval_cache u) = (Inr q, es_keyval_cache u)" "row_at e (es_db u) q = Some ?r"
      by (rule find_step [OF s t tab(2) r]) (simp_all add: test_row_def)
    show ?thesis
    proof (rule update_ok [OF f(2,6,7), of payer buf])
      fix u'
      assume u: "db_update_i64 e j payer buf u = (Inr (), u')" "eos_inv e cinv u'" "table_at e (es_db u') = table_at e (es_db u)"
        "row_at e (es_db u') = (row_at e (es_db u))(q \<mapsto> ?r\<lparr>kv_value := buf, kv_payer := payer\<rparr>)"
      have "row_view e (es_db u') = (row_view e (es_db u))(?k \<mapsto> ?r\<lparr>kv_value := buf, kv_payer := payer\<rparr>)"
        by (rule row_view_upd [OF eos_invD(1) [OF f(2)] eos_invD(1) [OF u(2)] u(4)]) (use f(7) in \<open>simp_all add: test_row_def\<close>)
      also have "\<dots> = ?v (Suc i)"
        using P f(3) view_step [OF i, of "\<lambda>k. Some (test_row (tid_id t) payer buf k)"] by (simp add: test_row_def)
      finally have "row_view e (es_db u') = ?v (Suc i)" .
      moreover have "iterators u' \<le> Suc i" "end_iterators u' \<le> Suc i" using growsD [OF grows_update u(1)] f(4,5) P by simp_all
      ultimately show ?thesis using u f(1,3) P by (simp add: bindX_run)
    qed
  qed
  have base: "?P 0 st" using inv size by simp
  have n: "length ids < 2 ^ 31" using size(3) by (simp add: ic_limit_def)
  have "\<exists>u. for_int ?b (length ids) st = (Inr (), u) \<and> ?P (length ids) u"
    by (rule for_int_total [where P = ?P, OF n base step])
  then show ?thesis by auto
qed

lemma remove_rows_run:
  assumes inv: "eos_inv e cinv st" and size: "iterators st = 0" "end_iterators st = 0" "length ids < ic_limit"
    and tab: "table_at e (es_db st) p = Some t" "by_code_scope_table t = (code, scope, table)" "tid_count t = of_nat (length ids)"
    and ids: "distinct ids" "\<forall>k \<in> set ids. row_view e (es_db st) k = Some (test_row (tid_id t) payer0 buf0 k)"
  shows "\<exists>st'. for_int (\<lambda>i. bindX (db_find_i64 e code scope table (word_of_int (ids ! i))) (\<lambda>itr. db_remove_i64 e itr)) (length ids) st = (Inr (), st') \<and>
    db_inv (ee_env e) cinv (es_db st') \<and> table_at e (es_db st') = (table_at e (es_db st))(p := if ids = [] then Some t else None) \<and>
    row_view e (es_db st') = (\<lambda>k. if k \<in> set ids then None else row_view e (es_db st) k)"
proof -
  let ?n = "length ids"
  let ?v = "\<lambda>i k. if k \<in> set (take i ids) then None else row_view e (es_db st) k"
  let ?t = "\<lambda>i. if i = ?n \<and> ids \<noteq> [] then None else Some (t\<lparr>tid_count := of_nat (?n - i)\<rparr>)"
  let ?P = "\<lambda>i s. (i < ?n \<longrightarrow> eos_inv e cinv s) \<and> db_inv (ee_env e) cinv (es_db s) \<and> iterators s \<le> i \<and> end_iterators s \<le> i \<and>
    table_at e (es_db s) = (table_at e (es_db st))(p := ?t i) \<and> row_view e (es_db s) = ?v i"
  let ?b = "\<lambda>i. bindX (db_find_i64 e code scope table (word_of_int (ids ! i))) (\<lambda>itr. db_remove_i64 e itr)"
  have step: "\<exists>u. ?b i s = (Inr (), u) \<and> ?P (Suc i) u" if i: "i < ?n" and P: "?P i s" for i s
  proof -
    let ?k = "ids ! i" and ?r = "test_row (tid_id t) payer0 buf0 (ids ! i)" and ?ti = "t\<lparr>tid_count := of_nat (?n - i)\<rparr>"
    have s: "eos_inv e cinv s" "iterators s < ic_limit" "end_iterators s < ic_limit" using P i size(3) by simp_all
    have t: "table_at e (es_db s) p = Some ?ti" "by_code_scope_table ?ti = (code, scope, table)"
      using P i tab(2) by (simp_all add: by_code_scope_table_def)
    have r: "row_view e (es_db s) ?k = Some ?r" using P distinct_nth_take [OF ids(1) i] ids(2) i by simp
    obtain j q u where f: "db_find_i64 e code scope table (word_of_int ?k) s = (Inr j, u)" "eos_inv e cinv u" "es_db u = es_db s"
      "iterators u \<le> iterators s + 1" "end_iterators u \<le> end_iterators s + 1"
      "ic_get j (es_keyval_cache u) = (Inr q, es_keyval_cache u)" "row_at e (es_db u) q = Some ?r"
      by (rule find_step [OF s t r]) (simp_all add: test_row_def)
    obtain p' ei where c: "map_of (ic_table_cache (es_keyval_cache u)) (kv_t_id ?r) = Some (p', ei)"
      using cache_okD(2) [OF eos_invD(5) [OF f(2)] f(6)] f(7) by auto
    have "p' = p"
    proof -
      obtain t' where t': "table_at e (es_db u) p' = Some t'" "tid_id t' = kv_t_id ?r"
        using cache_okD(3) [OF eos_invD(5) [OF f(2)] c] by blast
      have "table_at e (es_db u) p = Some ?ti" using t(1) f(3) by simp
      then show ?thesis by (rule table_same [OF eos_invD(1) [OF f(2)] t'(1)]) (simp add: t'(2) test_row_def)
    qed
    then have tu: "table_at e (es_db u) p' = Some ?ti" using t(1) f(3) by simp
    have one: "tid_count ?ti = 1 \<longleftrightarrow> Suc i = ?n" "tid_count ?ti - 1 = of_nat (?n - Suc i)"
      using of_nat_count_one [of "?n - i"] i size(3) by (auto simp: ic_limit_def of_nat_diff)
    show ?thesis
    proof (rule remove_ok [OF f(2,6,7) c tu])
      fix u'
      assume u: "db_remove_i64 e j u = (Inr (), u')" "db_inv (ee_env e) cinv (es_db u')" "row_at e (es_db u') = (row_at e (es_db u))(q := None)"
        "table_at e (es_db u') = (table_at e (es_db u))(p' := (if tid_count ?ti = 1 then None else Some (?ti\<lparr>tid_count := tid_count ?ti - 1\<rparr>)))"
        "tid_count ?ti \<noteq> 1 \<longrightarrow> eos_inv e cinv u'"
      have "row_view e (es_db u') = (row_view e (es_db u))(?k := None)"
        by (rule row_view_upd [OF eos_invD(1) [OF f(2)] u(2,3)]) (use f(7) in \<open>simp_all add: test_row_def\<close>)
      also have "\<dots> = ?v (Suc i)" using P f(3) view_step [OF i, of "\<lambda>k. None"] by simp
      finally have "row_view e (es_db u') = ?v (Suc i)" .
      moreover have "iterators u' \<le> Suc i" "end_iterators u' \<le> Suc i" using growsD [OF grows_remove u(1)] f(4,5) P by simp_all
      moreover have "table_at e (es_db u') = (table_at e (es_db st))(p := ?t (Suc i))"
        unfolding u(4) one(1) using P f(3) one(2) i \<open>p' = p\<close> by auto
      ultimately show ?thesis using u(1,2,5) one(1) f(1) by (simp add: bindX_run)
    qed
  qed
  have base: "?P 0 st" using inv size tab by (auto simp: fun_upd_idem eos_invD(1) [OF inv])
  have n: "length ids < 2 ^ 31" using size(3) by (simp add: ic_limit_def)
  have "\<exists>u. for_int ?b ?n st = (Inr (), u) \<and> ?P ?n u"
    by (rule for_int_total [where P = ?P, OF n base step])
  moreover have "Some (t\<lparr>tid_count := of_nat (length ids - length ids)\<rparr>) = Some t" if "ids = []" using tab(3) that by (cases t) simp
  ultimately show ?thesis by (cases "ids = []") auto
qed

end

section \<open>The runs one after the other\<close>

definition receiver_name :: name where
  "receiver_name = Name (string_to_uint64_t ''receiver'')"

definition table_name :: name where
  "table_name = Name (string_to_uint64_t ''table'')"

lemma test_names: "name_set ''receiver'' = Inr receiver_name" "name_set ''table'' = Inr table_name"
  by code_simp+

definition test_table :: "digest \<Rightarrow> int \<Rightarrow> nat \<Rightarrow> table_id_object" where
  "test_table digest junk n = (new_table junk receiver_name (test_scope digest) table_name receiver_name)\<lparr>tid_count := of_nat n\<rparr>"

lemma test_table_key: "by_code_scope_table (test_table d junk n) = (receiver_name, test_scope d, table_name)"
  by (simp add: test_table_def new_table_def by_code_scope_table_def)

lemma with_eos_db_run: "m (eos_db_new db) = (r, st) \<Longrightarrow> with_eos_db m db = (r, es_db st)"
  by (simp add: with_eos_db_def)

lemma new_sizes: "iterators (eos_db_new db) = 0" "end_iterators (eos_db_new db) = 0" "es_db (eos_db_new db) = db"
  by (simp_all add: iterators_def end_iterators_def eos_db_new_def ic_new_def)

lemma eos_inv_new: "eos_inv e cinv st \<Longrightarrow> eos_inv e cinv (eos_db_new (es_db st))"
  using eos_invD by (intro eos_db_new_inv) blast+

context eos_interface
begin

lemma ordered_store_run:
  assumes inv: "eos_inv e cinv (eos_db_new db)" and ids: "length ids < ic_limit" "distinct ids" "int32_list ids" "ids_free e db ids"
    and tab: "\<forall>p t. table_at e db p = Some t \<longrightarrow> tid_id t \<noteq> junk \<and> by_code_scope_table t \<noteq> (receiver_name, test_scope (ee_digest e), table_name)"
  obtains st p where "store_by_table_ordered_id e free junk ids db = (Inr (free db - free (es_db st)), es_db st)" "eos_inv e cinv st"
    "table_at e db p = None" "table_at e (es_db st) = (table_at e db)(p \<mapsto> test_table (ee_digest e) junk (length ids))"
    "row_view e (es_db st) = (\<lambda>k. if k \<in> set ids then Some (test_row junk receiver_name stored_data k) else row_view e db k)"
proof (rule find_or_create_run [OF eos_invD(1,2,4) [OF inv, unfolded new_sizes], of receiver_name "test_scope (ee_digest e)" table_name junk receiver_name])
  show "\<forall>p t. table_at e db p = Some t \<longrightarrow> tid_id t \<noteq> junk" using tab by blast
  fix p t db'
  assume c: "find_or_create_table e junk receiver_name (test_scope (ee_digest e)) table_name receiver_name db = (Inr p, db')"
    "db_inv (ee_env e) cinv db'" "db_index_list db' = db_index_list db" "rows_typed e db'" "row_at e db' = row_at e db"
    "table_at e db' = (table_at e db)(p \<mapsto> t)" "by_code_scope_table t = (receiver_name, test_scope (ee_digest e), table_name)"
    "table_at e db p = Some t \<or> table_at e db p = None \<and> t = new_table junk receiver_name (test_scope (ee_digest e)) table_name receiver_name \<and>
      (\<forall>q u. table_at e db q = Some u \<longrightarrow> by_code_scope_table u \<noteq> (receiver_name, test_scope (ee_digest e), table_name))"
  then have t: "table_at e db p = None" "t = new_table junk receiver_name (test_scope (ee_digest e)) table_name receiver_name" using tab by blast+
  define st0 where "st0 = (eos_db_new db :: ('c, 'p) eos_db)\<lparr>es_db := db'\<rparr>"
  have f: "dbX (find_or_create_table e junk receiver_name (test_scope (ee_digest e)) table_name receiver_name) (eos_db_new db) = (Inr p, st0)"
    using dbX_run [where m = "find_or_create_table e junk receiver_name (test_scope (ee_digest e)) table_name receiver_name" and st = "eos_db_new db"] c(1)
    by (simp add: new_sizes st0_def)
  have st: "eos_inv e cinv st0"
    using eos_db_new_inv [of e cinv db'] eos_invD(2,3) [OF inv] c(2,3,4) by (simp add: eos_db_new_def st0_def)
  have sz: "iterators st0 = 0" "end_iterators st0 = 0" by (simp_all add: iterators_def end_iterators_def eos_db_new_def ic_new_def st0_def)
  have d: "es_db st0 = db'" by (simp add: st0_def)
  have tp: "table_at e (es_db st0) p = Some t" using c(6) d by simp
  have fr: "ids_free e (es_db st0) ids" using ids(4) c(5) d by (simp add: ids_free_def has_row_def)
  have view: "row_view e db' = row_view e db"
    by (intro ext option_eqI) (simp add: row_view_iff [OF c(2)] row_view_iff [OF eos_invD(1) [OF inv, unfolded new_sizes]] c(5))
  obtain s where s: "for_int (\<lambda>i. bindX (db_store_i64 e junk receiver_name (test_scope (ee_digest e)) table_name receiver_name (word_of_int (ids ! i)) stored_data) (\<lambda>_. returnX ())) (length ids) st0 = (Inr (), s)"
    "eos_inv e cinv s" "table_at e (es_db s) = (table_at e (es_db st0))(p \<mapsto> t\<lparr>tid_count := tid_count t + of_nat (length ids)\<rparr>)"
    "row_view e (es_db s) = (\<lambda>k. if k \<in> set ids then Some (test_row (tid_id t) receiver_name stored_data k) else row_view e (es_db st0) k)"
    using store_rows_run [OF st sz ids(1) tp c(7) ids(2,3) fr, of junk receiver_name stored_data] by (elim exE conjE) (rule that)
  have "store_by_table_ordered_id e free junk ids db = (Inr (free db - free (es_db s)), es_db s)"
    unfolding store_by_table_ordered_id_def test_names Let_def bindX_res
    by (rule memory_used_run, rule with_eos_db_run) (simp only: bindX_def [of "dbX _"] f s(1) prod.case sum.case)
  moreover have "table_at e (es_db s) = (table_at e db)(p \<mapsto> test_table (ee_digest e) junk (length ids))"
    unfolding s(3) by (simp add: d c(6) t(2) test_table_def new_table_def)
  moreover have "row_view e (es_db s) = (\<lambda>k. if k \<in> set ids then Some (test_row junk receiver_name stored_data k) else row_view e db k)"
    unfolding s(4) d view by (simp only: t(2) new_table_def table_id_object.select_convs)
  ultimately show thesis using that s(2) t(1) by blast
qed

lemma ordered_update_run:
  assumes inv: "eos_inv e cinv (eos_db_new db)" and ids: "length ids < ic_limit" "distinct ids"
    and tab: "table_at e db p = Some (test_table (ee_digest e) junk n)"
    and rows: "\<forall>k \<in> set ids. row_view e db k = Some (test_row junk receiver_name stored_data k)"
  obtains st where "update_by_table_ordered_id e free ids db = (Inr (free db - free (es_db st)), es_db st)" "eos_inv e cinv st"
    "table_at e (es_db st) = table_at e db"
    "row_view e (es_db st) = (\<lambda>k. if k \<in> set ids then Some (test_row junk receiver_name updated_data k) else row_view e db k)"
proof -
  let ?t = "test_table (ee_digest e) junk n"
  have j: "tid_id ?t = junk" by (simp add: test_table_def new_table_def)
  obtain s where s: "for_int (\<lambda>i. bindX (db_find_i64 e receiver_name (test_scope (ee_digest e)) table_name (word_of_int (ids ! i)))
      (\<lambda>itr. db_update_i64 e itr receiver_name updated_data)) (length ids) (eos_db_new db) = (Inr (), s)"
    "eos_inv e cinv s" "table_at e (es_db s) = table_at e db"
    "row_view e (es_db s) = (\<lambda>k. if k \<in> set ids then Some (test_row junk receiver_name updated_data k) else row_view e db k)"
    using update_rows_run [OF inv new_sizes(1,2) ids(1), of p ?t, OF _ test_table_key ids(2), of receiver_name stored_data receiver_name updated_data]
      tab rows unfolding new_sizes(3) j by blast
  have "update_by_table_ordered_id e free ids db = (Inr (free db - free (es_db s)), es_db s)"
    unfolding update_by_table_ordered_id_def test_names Let_def bindX_res
    by (rule memory_used_run, rule with_eos_db_run) (rule s(1))
  then show thesis by (rule that) (use s in simp_all)
qed

lemma ordered_remove_run:
  assumes inv: "eos_inv e cinv (eos_db_new db)" and ids: "length ids < ic_limit" "distinct ids"
    and tab: "table_at e db p = Some (test_table (ee_digest e) junk (length ids))"
    and rows: "\<forall>k \<in> set ids. row_view e db k = Some (test_row junk receiver_name updated_data k)"
  obtains db' where "remove_by_table_ordered_id e free ids db = (Inr (free db - free db'), db')" "db_inv (ee_env e) cinv db'"
    "table_at e db' = (table_at e db)(p := if ids = [] then Some (test_table (ee_digest e) junk 0) else None)"
    "row_view e db' = (\<lambda>k. if k \<in> set ids then None else row_view e db k)"
proof -
  let ?t = "test_table (ee_digest e) junk (length ids)"
  have j: "tid_id ?t = junk" "tid_count ?t = of_nat (length ids)" by (simp_all add: test_table_def new_table_def)
  obtain s where s: "for_int (\<lambda>i. bindX (db_find_i64 e receiver_name (test_scope (ee_digest e)) table_name (word_of_int (ids ! i)))
      (\<lambda>itr. db_remove_i64 e itr)) (length ids) (eos_db_new db) = (Inr (), s)"
    "db_inv (ee_env e) cinv (es_db s)" "table_at e (es_db s) = (table_at e db)(p := if ids = [] then Some ?t else None)"
    "row_view e (es_db s) = (\<lambda>k. if k \<in> set ids then None else row_view e db k)"
    using remove_rows_run [OF inv new_sizes(1,2) ids(1), of p ?t, OF _ test_table_key j(2) ids(2), of receiver_name updated_data]
      tab rows unfolding new_sizes(3) j(1) by blast
  have "remove_by_table_ordered_id e free ids db = (Inr (free db - free (es_db s)), es_db s)"
    unfolding remove_by_table_ordered_id_def test_names Let_def bindX_res
    by (rule memory_used_run, rule with_eos_db_run) (rule s(1))
  then show thesis by (rule that) (use s in simp_all)
qed

lemma ordered_runs:
  assumes "eos_inv e cinv (eos_db_new db)"
    and "length ids < ic_limit" "distinct ids" "int32_list ids" "ids_free e db ids" "mset ids' = mset ids" "mset ids'' = mset ids"
    and "\<forall>p t. table_at e db p = Some t \<longrightarrow> tid_id t \<noteq> junk \<and> by_code_scope_table t \<noteq> (receiver_name, test_scope (ee_digest e), table_name)"
  shows "\<exists>p db1 db2 db3. table_at e db p = None \<and>
    store_by_table_ordered_id e free junk ids db = (Inr (free db - free db1), db1) \<and>
    table_at e db1 = (table_at e db)(p \<mapsto> test_table (ee_digest e) junk (length ids)) \<and>
    row_view e db1 = (\<lambda>k. if k \<in> set ids then Some (test_row junk receiver_name stored_data k) else row_view e db k) \<and>
    update_by_table_ordered_id e free ids' db1 = (Inr (free db1 - free db2), db2) \<and>
    table_at e db2 = table_at e db1 \<and>
    row_view e db2 = (\<lambda>k. if k \<in> set ids then Some (test_row junk receiver_name updated_data k) else row_view e db k) \<and>
    remove_by_table_ordered_id e free ids'' db2 = (Inr (free db2 - free db3), db3) \<and>
    table_at e db3 = (if ids = [] then table_at e db1 else table_at e db) \<and> row_view e db3 = row_view e db \<and>
    db_inv (ee_env e) cinv db3"
proof -
  have sets: "set ids' = set ids" "set ids'' = set ids" "length ids' = length ids" "length ids'' = length ids" "distinct ids'" "distinct ids''"
    using assms(3,6,7) mset_eq_setD mset_eq_length mset_eq_imp_distinct_iff by metis+
  obtain st1 p where 1: "store_by_table_ordered_id e free junk ids db = (Inr (free db - free (es_db st1)), es_db st1)" "eos_inv e cinv st1"
    "table_at e db p = None" "table_at e (es_db st1) = (table_at e db)(p \<mapsto> test_table (ee_digest e) junk (length ids))"
    "row_view e (es_db st1) = (\<lambda>k. if k \<in> set ids then Some (test_row junk receiver_name stored_data k) else row_view e db k)"
    by (rule ordered_store_run [OF assms(1-5,8)])
  have t1: "table_at e (es_db st1) p = Some (test_table (ee_digest e) junk (length ids))"
    "\<forall>k \<in> set ids'. row_view e (es_db st1) k = Some (test_row junk receiver_name stored_data k)" using 1(4,5) sets(1) by simp_all
  have l: "length ids' < ic_limit" "length ids'' < ic_limit" using assms(2) sets by simp_all
  obtain st2 where 2: "update_by_table_ordered_id e free ids' (es_db st1) = (Inr (free (es_db st1) - free (es_db st2)), es_db st2)" "eos_inv e cinv st2"
    "table_at e (es_db st2) = table_at e (es_db st1)"
    "row_view e (es_db st2) = (\<lambda>k. if k \<in> set ids' then Some (test_row junk receiver_name updated_data k) else row_view e (es_db st1) k)"
    by (rule ordered_update_run [OF eos_inv_new [OF 1(2)] l(1) sets(5) t1])
  have t2: "table_at e (es_db st2) p = Some (test_table (ee_digest e) junk (length ids''))"
    "\<forall>k \<in> set ids''. row_view e (es_db st2) k = Some (test_row junk receiver_name updated_data k)" using 2(3,4) t1(1) sets by simp_all
  obtain db3 where 3: "remove_by_table_ordered_id e free ids'' (es_db st2) = (Inr (free (es_db st2) - free db3), db3)" "db_inv (ee_env e) cinv db3"
    "table_at e db3 = (table_at e (es_db st2))(p := if ids'' = [] then Some (test_table (ee_digest e) junk 0) else None)"
    "row_view e db3 = (\<lambda>k. if k \<in> set ids'' then None else row_view e (es_db st2) k)"
    by (rule ordered_remove_run [OF eos_inv_new [OF 2(2)] l(2) sets(6) t2])
  have "row_view e db k = None" if "k \<in> set ids" for k
    using assms(5) that row_view_iff [OF eos_invD(1) [OF assms(1), unfolded new_sizes]]
    by (cases "row_view e db k") (auto simp: ids_free_def has_row_def)
  then have "row_view e db3 = row_view e db"
    "row_view e (es_db st2) = (\<lambda>k. if k \<in> set ids then Some (test_row junk receiver_name updated_data k) else row_view e db k)"
    using sets by (auto simp: fun_eq_iff 1(5) 2(4) 3(4))
  moreover have "table_at e db3 = (if ids = [] then table_at e (es_db st1) else table_at e db)"
    using 1(3,4) sets(4) by (auto simp: 3(3) 2(3) fun_upd_idem)
  ultimately show ?thesis using 1 2(1,3) 3(1,2)
    by - (rule exI [of _ p], rule exI [of _ "es_db st1"], rule exI [of _ "es_db st2"], rule exI [of _ db3], intro conjI; assumption)
qed

end

text \<open>
  C23: the three runs on the rows of a table succeed one after the other on any permutations of
  distinct ids, as many as iterators can number, when the table does not exist, its
  uninitialised id is not in use and no row uses one of the ids: after the first the table
  exists with one row for each id and the right count, after the second the rows hold the
  updated text, and after the third rows and tables are as they were before, except that
  without any ids the empty table stays.
\<close>

theorem ordered_id_runs:
  assumes "eos_interface e cinv keys" "eos_inv e cinv (eos_db_new db)"
    and "length ids < ic_limit" "distinct ids" "int32_list ids" "ids_free e db ids" "mset ids' = mset ids" "mset ids'' = mset ids"
    and "\<forall>p t. table_at e db p = Some t \<longrightarrow> tid_id t \<noteq> junk \<and> by_code_scope_table t \<noteq> (receiver_name, test_scope (ee_digest e), table_name)"
  shows "\<exists>p db1 db2 db3. table_at e db p = None \<and>
    store_by_table_ordered_id e free junk ids db = (Inr (free db - free db1), db1) \<and>
    table_at e db1 = (table_at e db)(p \<mapsto> test_table (ee_digest e) junk (length ids)) \<and>
    row_view e db1 = (\<lambda>k. if k \<in> set ids then Some (test_row junk receiver_name stored_data k) else row_view e db k) \<and>
    update_by_table_ordered_id e free ids' db1 = (Inr (free db1 - free db2), db2) \<and>
    table_at e db2 = table_at e db1 \<and>
    row_view e db2 = (\<lambda>k. if k \<in> set ids then Some (test_row junk receiver_name updated_data k) else row_view e db k) \<and>
    remove_by_table_ordered_id e free ids'' db2 = (Inr (free db2 - free db3), db3) \<and>
    table_at e db3 = (if ids = [] then table_at e db1 else table_at e db) \<and> row_view e db3 = row_view e db"
  using eos_interface.ordered_runs [OF assms, of free]
  by (elim exE conjE) (rule exI, rule exI, rule exI, rule exI, intro conjI; assumption)

theorem ordered_id_runs_witness:
  "\<exists>p db1. store_by_table_ordered_id sample_env (\<lambda>_. 0) 40 [2, 0, 1] sample_tables = (Inr 0, db1) \<and>
     table_at sample_env db1 = [p \<mapsto> test_table sample_digest 40 3] \<and>
     row_view sample_env db1 1 = Some (test_row 40 receiver_name stored_data 1)"
proof -
  have t: "table_at sample_env sample_tables = Map.empty" "row_at sample_env sample_tables = Map.empty"
    by (auto simp: fun_eq_iff table_at_def row_at_def sample_tables_empty)
  have "eos_inv sample_env cell_inv (eos_db_new sample_tables)" using sample_st0_inv by (simp add: sample_st0_def)
  note run = ordered_id_runs [OF cell_eos.eos_interface_axioms this, where ids = "[2, 0, 1]" and ids' = "[0, 1, 2]" and ids'' = "[1, 2, 0]" and junk = 40 and free = "\<lambda>_. 0"]
  have "length [2, 0, 1 :: int] < ic_limit" "distinct [2, 0, 1 :: int]" "int32_list [2, 0, 1]" "ids_free sample_env sample_tables [2, 0, 1]"
    "mset [0, 1, 2 :: int] = mset [2, 0, 1]" "mset [1, 2, 0 :: int] = mset [2, 0, 1]"
    "\<forall>p u. table_at sample_env sample_tables p = Some u \<longrightarrow>
      tid_id u \<noteq> 40 \<and> by_code_scope_table u \<noteq> (receiver_name, test_scope (ee_digest sample_env), table_name)"
    using t by (simp_all add: ic_limit_def int32_list_def ids_free_def has_row_def)
  from run [OF this] obtain p db1 where r: "store_by_table_ordered_id sample_env (\<lambda>_. 0) 40 [2, 0, 1] sample_tables = (Inr (0 - 0), db1)"
    "table_at sample_env db1 = (table_at sample_env sample_tables)(p \<mapsto> test_table (ee_digest sample_env) 40 (length [2, 0, 1 :: int]))"
    "row_view sample_env db1 = (\<lambda>k. if k \<in> set [2, 0, 1] then Some (test_row 40 receiver_name stored_data k) else row_view sample_env sample_tables k)"
    by (elim exE conjE)
  have "length [2, 0, 1 :: int] = 3" by simp
  then show ?thesis using r t by (intro exI [of _ p] exI [of _ db1]) (simp only: cell_eos_env_sel, simp)
qed

end
