(* ===== verification/Statedb.thy ===== *)
theory Statedb
  imports Perf_Rows Mapped_Correct
begin

text \<open>
  The program (\<open>statedb.cpp\<close>): \<open>main\<close> takes each argument as a number of elements, opens the
  database in a file of 720 MB, registers three indices, runs the six tests of \<open>db_tests\<close> and
  removes the directory. The state is the disk with the database file, the open database, whose
  segment stands for the objects in that file, and what was printed, without the times. The
  shuffles of \<open>random_ids\<close> (\<open>shuf\<close>, one for each argument and test), the reported free memory
  (\<open>free\<close>) and the uninitialised ids of the tables (\<open>junk\<close>) are parameters, and so is the
  host: the platform of the database file, the errors of the operating system when the
  file is created and mapped, and the point where the allocator of Boost finds no more room in
  the segment.
\<close>

section \<open>The program\<close>

datatype line = Message string | Measured string u64 int

record 'c world =
  w_disk :: disk
  w_db :: "'c database"
  w_out :: "line list"

text \<open>
  \<open>h_refuses i\<close>: the error when the directory, the file or the mapping cannot be made for argument
  \<open>i\<close>. \<open>h_exhausted i k db\<close>: the segment has no room for what step \<open>k\<close> (0 is the registration of the
  indices, \<open>Suc t\<close> the test \<open>t\<close>) of argument \<open>i\<close> allocates from the state \<open>db\<close> on, and what the step
  has made of \<open>db\<close> when the allocation fails.
\<close>

record 'c host =
  h_platform :: platform
  h_refuses :: "nat \<Rightarrow> db_error option"
  h_exhausted :: "nat \<Rightarrow> nat \<Rightarrow> 'c database \<Rightarrow> 'c database option"

record config =
  database_dir :: string
  cache_size :: nat
  db_map_mode :: map_mode
  db_hugepage_paths :: "string list"

definition cfg :: config where
  "cfg = \<lparr>database_dir = ''state'', cache_size = 720 * 1024 * 1024, db_map_mode = Mapped, db_hugepage_paths = []\<rparr>"

definition bad_alloc :: db_error where
  "bad_alloc = Runtime_error ''boost::interprocess::bad_alloc''"

definition allocating :: "('c database \<Rightarrow> 'c database option) \<Rightarrow> ('c database, 'a) exec \<Rightarrow> ('c database, 'a) exec" where
  "allocating exhausted m db = (case exhausted db of None \<Rightarrow> m db | Some db' \<Rightarrow> (Inl bad_alloc, db'))"

definition diskW :: "(disk, 'a) exec \<Rightarrow> ('c world, 'a) exec" where
  "diskW = liftX w_disk (\<lambda>d w. w\<lparr>w_disk := d\<rparr>)"

definition dbW :: "('c database, 'a) exec \<Rightarrow> ('c world, 'a) exec" where
  "dbW = liftX w_db (\<lambda>d w. w\<lparr>w_db := d\<rparr>)"

definition print_line :: "line \<Rightarrow> ('c world, unit) exec" where
  "print_line l = modifyX (\<lambda>w. w\<lparr>w_out := w_out w @ [l]\<rparr>)"

text \<open>The times are divided by the number of elements; dividing an integer by zero is undefined.\<close>

definition printout :: "string \<Rightarrow> u64 \<Rightarrow> int \<Rightarrow> ('c world, unit) exec" where
  "printout func_name num_elements used =
     (if num_elements = 0 then throwX Undefined_behaviour else print_line (Measured func_name num_elements used))"

text \<open>
  The files are gone. What the destructor of the database writes to the removed file is seen by
  nobody; when an exception leaves the loop, it has run before the removal.
\<close>

definition remove_all :: "('c world, unit) exec" where
  "remove_all =
     modifyX (\<lambda>w. w\<lparr>w_disk := \<lparr>dk_file = None, dk_meta = False, dk_dir = False\<rparr>, w_db := (w_db w)\<lparr>db_segment := Map.empty\<rparr>\<rparr>)"

text \<open>
  \<open>atoi\<close> of the C library: blanks, a sign, digits; a text without digits is zero and a
  value that is no \<open>int\<close> is undefined.
\<close>

definition is_space :: "char \<Rightarrow> bool" where
  "is_space c \<longleftrightarrow> c = CHR '' '' \<or> (9 \<le> (of_char c :: nat) \<and> (of_char c :: nat) \<le> 13)"

definition is_digit :: "char \<Rightarrow> bool" where
  "is_digit c \<longleftrightarrow> 48 \<le> (of_char c :: nat) \<and> (of_char c :: nat) \<le> 57"

definition digits_value :: "string \<Rightarrow> int" where
  "digits_value s = foldl (\<lambda>v c. 10 * v + (of_char c - 48)) 0 (takeWhile is_digit s)"

fun atoi_signed :: "string \<Rightarrow> int" where
  "atoi_signed (CHR ''-'' # s) = - digits_value s"
| "atoi_signed (CHR ''+'' # s) = digits_value s"
| "atoi_signed s = digits_value s"

definition atoi :: "string \<Rightarrow> int res" where
  "atoi s =
     (let v = atoi_signed (dropWhile is_space s) in
      if - (2 ^ 31) \<le> v \<and> v < 2 ^ 31 then Inr v else Inl Undefined_behaviour)"

text \<open>Shuffle the ids, measure a test on them and print the result.\<close>

definition run_test ::
  "string \<Rightarrow> ('c database \<Rightarrow> 'c database option) \<Rightarrow> (int list \<Rightarrow> ('c database, int) exec) \<Rightarrow> (int list \<Rightarrow> int list) \<Rightarrow> u64 \<Rightarrow> int list \<Rightarrow> ('c world, int list) exec" where
  "run_test func_name exhausted test random_ids test_num ids =
     (let ids' = random_ids ids in
      bindX (dbW (allocating exhausted (test ids'))) (\<lambda>size.
      bindX (printout func_name test_num size) (\<lambda>_.
      returnX ids')))"

definition run_tests ::
  "('c, 'p) eos_env \<Rightarrow> (nat \<Rightarrow> 'c database \<Rightarrow> 'c database option) \<Rightarrow> ('c database \<Rightarrow> int) \<Rightarrow> int \<Rightarrow> (nat \<Rightarrow> int list \<Rightarrow> int list) \<Rightarrow> u64 \<Rightarrow> int list \<Rightarrow> ('c world, unit) exec" where
  "run_tests e oom free junk shuf n ids =
     bindX (run_test ''STORE(ORDERED INDEX TABLE)'' (oom 1) (store_by_table_ordered_id e free junk) (shuf 0) n ids) (\<lambda>ids.
     bindX (run_test ''UPDATE(ORDERED INDEX TABLE)'' (oom 2) (update_by_table_ordered_id e free) (shuf 1) n ids) (\<lambda>ids.
     bindX (run_test ''REMOVE(ORDERED INDEX TABLE)'' (oom 3) (remove_by_table_ordered_id e free) (shuf 2) n ids) (\<lambda>ids.
     bindX (run_test ''STORE(KEY VALUE TABLE)'' (oom 4) (store_by_table_key_value e free) (shuf 3) n ids) (\<lambda>ids.
     bindX (run_test ''UPDATE(KEY VALUE TABLE)'' (oom 5) (update_by_table_key_value e free) (shuf 4) n ids) (\<lambda>ids.
     bindX (run_test ''REMOVE(KEY VALUE TABLE)'' (oom 6) (remove_by_table_key_value e free) (shuf 5) n ids) (\<lambda>_.
     returnX ()))))))"

text \<open>\<open>std::vector<int>::reserve\<close> refuses more than \<open>max_size()\<close> elements.\<close>

definition max_ints :: nat where
  "max_ints = 2 ^ 61 - 1"

text \<open>
  The constructor of the database with its default arguments: dirty files are not allowed, and
  the mode is mapped without huge pages (those of \<open>config\<close> are not passed on).
\<close>

definition open_database :: "platform \<Rightarrow> db_error option \<Rightarrow> ('c world, unit) exec" where
  "open_database pf refused =
     bindX (resX (case refused of None \<Rightarrow> Inr () | Some err \<Rightarrow> Inl err)) (\<lambda>_.
     bindX (diskW (pmf_open pf (database_dir cfg @ ''/shared_memory.bin'') (database_dir cfg) True (cache_size cfg) False Mapped [])) (\<lambda>_.
     modifyX (\<lambda>w. w\<lparr>w_db := database_open Read_write (db_segment (w_db w))\<rparr>)))"

definition open_tables :: "('c, 'p) eos_env \<Rightarrow> 'c host \<Rightarrow> nat \<Rightarrow> ('c world, unit) exec" where
  "open_tables e h i =
     bindX (open_database (h_platform h) (h_refuses h i)) (\<lambda>_.
     dbW (allocating (h_exhausted h i 0)
       (bindX (add_index (ee_env e) Table_id_object_type) (\<lambda>_.
        bindX (add_index (ee_env e) Key_value_object_type) (\<lambda>_.
        add_index (ee_env e) Table_key_value_object_type)))))"

definition main_step ::
  "('c, 'p) eos_env \<Rightarrow> 'c host \<Rightarrow> ('c database \<Rightarrow> int) \<Rightarrow> int \<Rightarrow> (nat \<Rightarrow> int list \<Rightarrow> int list) \<Rightarrow> nat \<Rightarrow> string \<Rightarrow> ('c world, unit) exec" where
  "main_step e h free junk shuf i arg =
     bindX (open_tables e h i) (\<lambda>_.
     bindX (resX (atoi arg)) (\<lambda>k.
     let test_num = word_of_int k :: u64 in
     if unat test_num > max_ints then throwX (Logic_error ''vector::reserve'')
     else bindX (run_tests e (h_exhausted h i) free junk shuf test_num (map int [0..<unat test_num])) (\<lambda>_. remove_all)))"

definition statedb_main ::
  "('c, 'p) eos_env \<Rightarrow> 'c host \<Rightarrow> ('c database \<Rightarrow> int) \<Rightarrow> (nat \<Rightarrow> int) \<Rightarrow> (nat \<Rightarrow> nat \<Rightarrow> int list \<Rightarrow> int list) \<Rightarrow> string list \<Rightarrow> ('c world, int) exec" where
  "statedb_main e h free junk shuf args =
     bindX (if args = [] then print_line (Message ''Please enter number elements'') else returnX ()) (\<lambda>_ w.
     case eachX (\<lambda>i. main_step e h free (junk i) (shuf i) i (args ! i)) [0..<length args] w of
       (Inl err, w') \<Rightarrow>
         if survives (Inl err :: unit res)
         then bindX (print_line (Message ''Error insert'')) (\<lambda>_. bindX remove_all (\<lambda>_. throwX err)) w'
         else (Inl err, w')
     | (Inr _, w') \<Rightarrow> bindX remove_all (\<lambda>_. returnX 0) w')"

section \<open>What a step leaves alone\<close>

named_theorems keeps_intros \<open>operations that leave a part of the state as it is\<close>

definition keeps :: "('s \<Rightarrow> 'v) \<Rightarrow> ('s, 'a) exec \<Rightarrow> bool" where
  "keeps f m \<longleftrightarrow> (\<forall>s. f (snd (m s)) = f s)"

lemma keepsD: "keeps f m \<Longrightarrow> m s = (r, s') \<Longrightarrow> f s' = f s"
  by (metis keeps_def snd_conv)

lemma keeps_simple [keeps_intros]:
  "keeps f (returnX x)" "keeps f (throwX e)" "keeps f getX" "keeps f (resX r)" "keeps f (assertX b msg)"
  by (simp_all add: keeps_def)

lemma keeps_bind [keeps_intros]: "keeps f m \<Longrightarrow> (\<And>x. keeps f (g x)) \<Longrightarrow> keeps f (bindX m g)"
  unfolding keeps_def bindX_def by (simp split: prod.split sum.split) (metis snd_conv)

lemma keeps_cases [keeps_intros]:
  "keeps f a \<Longrightarrow> (\<And>x. keeps f (b x)) \<Longrightarrow> keeps f (case z of None \<Rightarrow> a | Some x \<Rightarrow> b x)"
  "keeps f a \<Longrightarrow> keeps f b' \<Longrightarrow> keeps f (if c then a else b')"
  by (simp_all split: option.split)

lemma keeps_each: "(\<And>x. keeps f (body x)) \<Longrightarrow> keeps f (eachX body xs)"
  by (induction xs) (auto intro!: keeps_intros)

lemma keeps_for [keeps_intros]: "(\<And>i. keeps f (body i)) \<Longrightarrow> keeps f (for_int body n)"
  unfolding for_int_def by (intro keeps_intros keeps_each)

text \<open>The index of the hashed keys and the list of the indices.\<close>

definition key_part :: "'c database \<Rightarrow> 'c row_index option \<times> table_type list" where
  "key_part db = (db_segment db TK, db_index_list db)"

lemma keeps_index_call: "ty \<noteq> TK \<Longrightarrow> keeps key_part (index_call ty f)"
  by (simp add: keeps_def index_call_def key_part_def split: option.split sum.split)

lemma keeps_database [keeps_intros]:
  "keeps key_part (get_index ty)"
  "keeps key_part (database_find ty look)"
  "keeps key_part (deref e ty p)"
  "ty \<noteq> TK \<Longrightarrow> keeps key_part (database_create env ty v)"
  "ty \<noteq> TK \<Longrightarrow> keeps key_part (database_modify env ty p m)"
  "ty \<noteq> TK \<Longrightarrow> keeps key_part (database_remove env ty p)"
  unfolding get_index_def database_find_def deref_def database_create_def database_modify_def database_remove_def index_do_def
  by (intro keeps_intros keeps_index_call; assumption)+

lemma keeps_deref [keeps_intros]: "keeps key_part (deref_table e p)" "keeps key_part (deref_kv e p)"
  unfolding deref_table_def deref_kv_def by (intro keeps_intros; simp add: keeps_intros split: row.split)+

lemma keeps_lifted [keeps_intros]:
  "keeps key_part m \<Longrightarrow> keeps (\<lambda>s. key_part (es_db s)) (dbX m)"
  "keeps (\<lambda>s. key_part (es_db s)) (keyvalX m')"
  by (simp_all add: keeps_def dbX_def keyvalX_def liftX_def split_beta)

lemma keeps_tables [keeps_intros]:
  "keeps key_part (find_table e code scope table)"
  "keeps key_part (find_or_create_table e junk code scope table payer)"
  unfolding find_table_def find_or_create_table_def by (intro keeps_intros; simp)+

lemma keeps_rows [keeps_intros]:
  "keeps (\<lambda>s. key_part (es_db s)) (db_store_i64 e junk code scope table payer i buf)"
  "keeps (\<lambda>s. key_part (es_db s)) (db_find_i64 e code scope table i)"
  "keeps (\<lambda>s. key_part (es_db s)) (db_update_i64 e itr payer buf)"
  "keeps (\<lambda>s. key_part (es_db s)) (db_remove_i64 e itr)"
  unfolding db_store_i64_def db_find_i64_def db_update_i64_def db_remove_i64_def
  by (intro keeps_intros; simp)+

lemma keeps_with [keeps_intros]: "keeps (\<lambda>s. key_part (es_db s)) m \<Longrightarrow> keeps key_part (with_eos_db m)"
  by (simp add: keeps_def with_eos_db_def new_sizes split_beta)

lemma keeps_used [keeps_intros]: "keeps f m \<Longrightarrow> keeps f (memory_used free m)"
  unfolding memory_used_def by (intro keeps_intros)

lemma keeps_ordered:
  "keeps key_part (store_by_table_ordered_id e free junk ids)"
  "keeps key_part (update_by_table_ordered_id e free ids)"
  "keeps key_part (remove_by_table_ordered_id e free ids)"
  unfolding store_by_table_ordered_id_def update_by_table_ordered_id_def remove_by_table_ordered_id_def Let_def
  by (intro keeps_intros)+

lemma key_part_view: "key_part db' = key_part db \<Longrightarrow> key_view e db' = key_view e db"
  by (simp add: key_part_def key_view_def db_contents_def fun_eq_iff)

section \<open>A new directory\<close>

definition new_tables :: "('c, 'p) eos_env \<Rightarrow> 'c database" where
  "new_tables e =
     (let g = (\<lambda>ty. gi_new (env_ops (ee_env e)) (env_node_size (ee_env e) ty) (env_this_size (ee_env e) ty)) in
      \<lparr>db_segment = [TI \<mapsto> g TI, KV \<mapsto> g KV, TK \<mapsto> g TK], db_read_only = False, db_index_list = [TI, KV, TK],
       db_index_map = [None, Some TI, Some KV, None, None, None, Some TK]\<rparr>)"

text \<open>Nothing of the host fails.\<close>

definition host_ok :: "'c host \<Rightarrow> bool" where
  "host_ok h \<longleftrightarrow> wf_platform (h_platform h) \<and> try_lock (h_platform h) \<and>
     (\<forall>i. h_refuses h i = None) \<and> (\<forall>i k db. h_exhausted h i k db = None)"

definition new_directory :: "'c world \<Rightarrow> bool" where
  "new_directory w \<longleftrightarrow> dk_file (w_disk w) = None \<and> db_segment (w_db w) = Map.empty"

lemma allocating_ok: "exhausted db = None \<Longrightarrow> allocating exhausted m db = m db"
  by (simp add: allocating_def)

lemma register_new:
  "bindX (add_index (ee_env e) Table_id_object_type) (\<lambda>_. bindX (add_index (ee_env e) Key_value_object_type) (\<lambda>_.
     add_index (ee_env e) Table_key_value_object_type)) (database_open Read_write Map.empty) = (Inr (), new_tables e)"
  by (simp add: bindX_def database_open_def add_index_def index_find_or_construct_def
      index_call_def index_align_def index_register_def gi_validate_def gi_new_def new_tables_def Let_def
      gi_undo_stack_revision_range_def numeral_eq_Suc)

lemma open_database_new:
  assumes "host_ok h" "new_directory w"
  shows "open_database (h_platform h) (h_refuses h i) w =
    (Inr (), w\<lparr>w_disk := opened (h_platform h) (cache_size cfg) (w_disk w), w_db := database_open Read_write Map.empty\<rparr>)"
proof -
  have h: "wf_platform (h_platform h)" "try_lock (h_platform h)" "h_refuses h i = None"
    using assms(1) by (simp_all add: host_ok_def)
  have o: "openable (h_platform h) (cache_size cfg) False Mapped [] (w_disk w)"
    using assms(2) h(2) by (simp add: openable_def new_directory_def cfg_def db_size_multiple_requirement_def)
  have "pmf_open (h_platform h) (database_dir cfg @ ''/shared_memory.bin'') (database_dir cfg) True (cache_size cfg) False Mapped [] (w_disk w)
      = (Inr ((holding (database_dir cfg))\<lparr>pm_segment := Seg_file\<rparr>), opened (h_platform h) (cache_size cfg) (w_disk w))"
    using pmf_open_run [OF h(1) o] by simp
  moreover have "db_segment (w_db w) = Map.empty" using assms(2) by (simp add: new_directory_def)
  ultimately show ?thesis by (simp add: open_database_def bindX_def diskW_def liftX_def h(3))
qed

lemma open_tables_new:
  assumes "host_ok h" "new_directory w"
  shows "open_tables e h i w =
    (Inr (), w\<lparr>w_disk := opened (h_platform h) (cache_size cfg) (w_disk w), w_db := new_tables e\<rparr>)"
proof -
  have "\<And>k db. h_exhausted h i k db = None" using assms(1) by (simp add: host_ok_def)
  then show ?thesis
    unfolding open_tables_def bindX_run [where m = "open_database (h_platform h) (h_refuses h i)" and s = w, OF open_database_new [OF assms]]
    by (simp add: dbW_def liftX_def allocating_ok register_new)
qed

section \<open>A run of the program\<close>

definition test_titles :: "string list" where
  "test_titles =
     [''STORE(ORDERED INDEX TABLE)'', ''UPDATE(ORDERED INDEX TABLE)'', ''REMOVE(ORDERED INDEX TABLE)'',
      ''STORE(KEY VALUE TABLE)'', ''UPDATE(KEY VALUE TABLE)'', ''REMOVE(KEY VALUE TABLE)'']"

definition test_lines :: "nat \<Rightarrow> int list \<Rightarrow> line list" where
  "test_lines n sizes = map2 (\<lambda>t u. Measured t (of_nat n) u) test_titles sizes"

lemma bind_run_test:
  assumes "test (sh ids) (w_db w) = (Inr u, d)" "num \<noteq> 0" "\<And>db. oom db = None"
  shows "bindX (run_test f oom test sh num ids) g w = g (sh ids) (w\<lparr>w_db := d, w_out := w_out w @ [Measured f num u]\<rparr>)"
  using assms by (simp add: run_test_def dbW_def liftX_def bindX_def printout_def print_line_def Let_def allocating_ok)

text \<open>The six tests with what each of them returns.\<close>

lemma run_tests_run:
  assumes "num \<noteq> 0" "\<And>k db. oom k db = None"
    and "store_by_table_ordered_id e free junk (sh 0 ids) (w_db w) = (Inr u0, d0)"
    and "update_by_table_ordered_id e free (sh 1 (sh 0 ids)) d0 = (Inr u1, d1)"
    and "remove_by_table_ordered_id e free (sh 2 (sh 1 (sh 0 ids))) d1 = (Inr u2, d2)"
    and "store_by_table_key_value e free (sh 3 (sh 2 (sh 1 (sh 0 ids)))) d2 = (Inr u3, d3)"
    and "update_by_table_key_value e free (sh 4 (sh 3 (sh 2 (sh 1 (sh 0 ids))))) d3 = (Inr u4, d4)"
    and "remove_by_table_key_value e free (sh 5 (sh 4 (sh 3 (sh 2 (sh 1 (sh 0 ids)))))) d4 = (Inr u5, d5)"
  shows "run_tests e oom free junk sh num ids w =
    (Inr (), w\<lparr>w_db := d5, w_out := w_out w @ map2 (\<lambda>t u. Measured t num u) test_titles [u0, u1, u2, u3, u4, u5]\<rparr>)"
  unfolding run_tests_def
  by (simp add: bind_run_test assms test_titles_def del: One_nat_def)

context eos_interface
begin

lemma new_tables_inv: "db_inv (ee_env e) cinv (new_tables e)"
proof -
  have ok: "gi_ok (env_ops (ee_env e)) row_id cinv (gi_new (env_ops (ee_env e)) n t)" for n t by (rule new_ok)
  have rev: "gi_revision (gi_new ops n t) = 0" "gi_stack (gi_new ops n t) = []" for ops :: "('c, 'p, oid, row) mi_ops" and n t
    by (simp_all add: gi_new_def)
  have map: "map_ok [TI, KV, TK] [None, Some TI, Some KV, None, None, None, Some TK]"
    unfolding map_ok_def
  proof
    show "(type_id ty < length [None, Some TI, Some KV, None, None, None, Some TK] \<and>
        [None, Some TI, Some KV, None, None, None, Some TK] ! type_id ty \<noteq> None) = (ty \<in> set [TI, KV, TK])" for ty
      by (cases ty) simp_all
  qed
  show ?thesis
    by (intro db_invI db_okI [of _ _ _ 0 0]) (auto simp: new_tables_def Let_def map rev ok split: if_splits)
qed

lemma new_tables_at: "ty \<in> {TI, KV, TK} \<Longrightarrow> db_at (ee_env e) (new_tables e) ty = Map.empty"
  by (auto simp: new_tables_def Let_def db_at_def gi_new_def at_empty fun_eq_iff)

lemma new_tables_empty:
  "table_at e (new_tables e) = Map.empty" "row_at e (new_tables e) = Map.empty" "key_view e (new_tables e) = Map.empty"
  "eos_inv e cinv (eos_db_new (new_tables e))"
proof -
  show "table_at e (new_tables e) = Map.empty" "row_at e (new_tables e) = Map.empty"
    by (simp_all add: fun_eq_iff table_at_def row_at_def new_tables_at)
  show "key_view e (new_tables e) = Map.empty"
    by (intro ext option_eqI) (simp add: key_view_iff [OF new_tables_inv] new_tables_at)
  show "eos_inv e cinv (eos_db_new (new_tables e))"
    by (rule eos_db_new_inv [OF new_tables_inv])
      (simp_all add: rows_typed_def new_tables_at, simp_all add: new_tables_def Let_def)
qed

lemma tests_pass:
  assumes n: "0 < n" "n < ic_limit" and perm: "\<And>k xs. mset (sh k xs) = mset xs"
    and inj: "inj_on (test_key e) {..<n}" and w: "w_db w = new_tables e" and oom: "\<And>k db. oom k db = None"
  obtains d sizes where "length sizes = 6"
    "run_tests e oom free junk sh (of_nat n) (map int [0..<n]) w = (Inr (), w\<lparr>w_db := d, w_out := w_out w @ test_lines n sizes\<rparr>)"
proof -
  define ids where "ids = sh 0 (map int [0..<n])"
  have m: "mset ids = mset (map int [0..<n])" unfolding ids_def by (rule perm)
  have l: "length ids = n" using mset_eq_length [OF m] by simp
  have ids: "length ids < ic_limit" "distinct ids" "int32_list ids" "ids_free e (new_tables e) ids"
    using l n(2) mset_eq_imp_distinct_iff [OF m] mset_eq_setD [OF m]
    by (auto simp: distinct_map int32_list_def ic_limit_def ids_free_def has_row_def new_tables_empty)
  have sh: "mset (sh 1 ids) = mset ids" "mset (sh 2 (sh 1 ids)) = mset ids" by (simp_all only: perm)
  have "\<forall>p t. table_at e (new_tables e) p = Some t \<longrightarrow>
      tid_id t \<noteq> junk \<and> by_code_scope_table t \<noteq> (receiver_name, test_scope (ee_digest e), table_name)"
    by (simp add: new_tables_empty)
  from ordered_runs [OF new_tables_empty(4) ids sh this, of free]
  obtain d1 d2 d3 where o: "store_by_table_ordered_id e free junk ids (new_tables e) = (Inr (free (new_tables e) - free d1), d1)"
    "update_by_table_ordered_id e free (sh 1 ids) d1 = (Inr (free d1 - free d2), d2)"
    "remove_by_table_ordered_id e free (sh 2 (sh 1 ids)) d2 = (Inr (free d2 - free d3), d3)" "db_inv (ee_env e) cinv d3"
    by (elim exE conjE)
  have part: "key_part d3 = key_part (new_tables e)"
    using keepsD [OF keeps_ordered(1) o(1)] keepsD [OF keeps_ordered(2) o(2)] keepsD [OF keeps_ordered(3) o(3)] by simp
  have ty: "TK \<in> set (db_index_list d3)" using part by (simp add: key_part_def new_tables_def Let_def)
  define ids3 where "ids3 = sh 3 (sh 2 (sh 1 ids))"
  have "length (sh k xs) = length xs" for k xs by (rule mset_eq_length [OF perm])
  then have l3: "length ids3 = n" "length (sh 4 ids3) = length ids3" "length (sh 5 (sh 4 ids3)) = length ids3"
    by (simp_all add: ids3_def l)
  have "length ids3 < 2 ^ 31" using l3(1) n(2) by (simp add: ic_limit_def)
  from key_runs [OF o(4) ty this l3(2,3), unfolded l3(1), OF inj, of free] part
  obtain d4 d5 d6 where k: "store_by_table_key_value e free ids3 d3 = (Inr (free d3 - free d4), d4)"
    "update_by_table_key_value e free (sh 4 ids3) d4 = (Inr (free d4 - free d5), d5)"
    "remove_by_table_key_value e free (sh 5 (sh 4 ids3)) d5 = (Inr (free d5 - free d6), d6)"
    by (auto simp: Let_def key_part_view [OF part] new_tables_empty(3))
  have "unat (of_nat n :: u64) = n" using n(2) by (simp add: unsigned_of_nat take_bit_nat_eq_self ic_limit_def)
  then have "(of_nat n :: u64) \<noteq> 0" using n(1) by auto
  then have "run_tests e oom free junk sh (of_nat n) (map int [0..<n]) w =
    (Inr (), w\<lparr>w_db := d6, w_out := w_out w @ test_lines n
      [free (new_tables e) - free d1, free d1 - free d2, free d2 - free d3, free d3 - free d4, free d4 - free d5, free d5 - free d6]\<rparr>)"
    unfolding test_lines_def using o k by (intro run_tests_run) (simp_all only: w oom ids_def ids3_def not_False_eq_True)
  then show thesis by (rule that [rotated]) simp
qed

lemma main_step_passes:
  assumes arg: "atoi arg = Inr (int n)" and n: "0 < n" "n < ic_limit" and perm: "\<And>k xs. mset (sh k xs) = mset xs"
    and inj: "inj_on (test_key e) {..<n}" and w: "host_ok h" "new_directory w"
  obtains w' sizes where "main_step e h free junk sh i arg w = (Inr (), w')" "length sizes = 6" "new_directory w'"
    "w_out w' = w_out w @ test_lines n sizes"
proof -
  let ?w = "w\<lparr>w_disk := opened (h_platform h) (cache_size cfg) (w_disk w), w_db := new_tables e\<rparr>"
  have oom: "h_exhausted h i k db = None" for k db using w(1) by (simp add: host_ok_def)
  obtain d sizes where r: "length sizes = 6" "run_tests e (h_exhausted h i) free junk sh (of_nat n) (map int [0..<n]) ?w =
      (Inr (), ?w\<lparr>w_db := d, w_out := w_out w @ test_lines n sizes\<rparr>)"
    by (rule tests_pass [OF n perm inj, where w = ?w and junk = junk and free = free and oom = "h_exhausted h i"])
      (simp_all add: oom)
  have u: "unat (of_nat n :: u64) = n" using n(2) by (simp add: unsigned_of_nat take_bit_nat_eq_self ic_limit_def)
  obtain w' where "main_step e h free junk sh i arg w = (Inr (), w')" "new_directory w'" "w_out w' = w_out w @ test_lines n sizes"
    unfolding main_step_def bindX_run [where m = "open_tables e h i" and s = w, OF open_tables_new [OF w]] arg bindX_res Let_def of_int_of_nat_eq u
    using n(2) r(2) by (simp add: bindX_run ic_limit_def max_ints_def remove_all_def new_directory_def)
  then show thesis by (rule that [OF _ r(1)])
qed

lemma main_loop_passes:
  assumes w: "host_ok h" "new_directory w" and perm: "\<And>i k xs. mset (shuf i k xs) = mset xs"
    and args: "list_all2 (\<lambda>a n. atoi a = Inr (int n) \<and> 0 < n \<and> n < ic_limit \<and> inj_on (test_key e) {..<n}) args ns"
    and k: "k \<le> length args"
  shows "\<exists>w' sizes. eachX (\<lambda>i. main_step e h free (junk i) (shuf i) i (args ! i)) [0..<k] w = (Inr (), w') \<and>
    new_directory w' \<and> length sizes = k \<and> (\<forall>s \<in> set sizes. length s = 6) \<and>
    w_out w' = w_out w @ concat (map2 test_lines (take k ns) sizes)"
  using k
proof (induction k)
  case 0
  then show ?case using w by simp
next
  case (Suc k)
  then obtain w1 sizes where 1: "eachX (\<lambda>i. main_step e h free (junk i) (shuf i) i (args ! i)) [0..<k] w = (Inr (), w1)"
    "new_directory w1" "length sizes = k" "\<forall>s \<in> set sizes. length s = 6"
    "w_out w1 = w_out w @ concat (map2 test_lines (take k ns) sizes)" by auto
  have a: "atoi (args ! k) = Inr (int (ns ! k))" "0 < ns ! k" "ns ! k < ic_limit" "inj_on (test_key e) {..<ns ! k}" "k < length ns"
    using list_all2_nthD [OF args, of k] list_all2_lengthD [OF args] Suc.prems by auto
  obtain w2 s where 2: "main_step e h free (junk k) (shuf k) k (args ! k) w1 = (Inr (), w2)" "length s = 6" "new_directory w2"
    "w_out w2 = w_out w1 @ test_lines (ns ! k) s"
    by (rule main_step_passes [OF a(1-3) perm a(4) w(1) 1(2)])
  have "w_out w2 = w_out w @ concat (map2 test_lines (take (Suc k) ns) (sizes @ [s]))"
    using 1(3,5) 2(4) a(5) by (simp add: take_Suc_conv_app_nth)
  then show ?case using 1 2
    by (intro exI [of _ w2] exI [of _ "sizes @ [s]"]) (simp add: eachX_append bindX_run)
qed

end

text \<open>
  C24: a run of the program under these conditions: it starts in a directory without database
  files; the operating system lets it create, map and lock the file of 720 MB each time; the
  segment has room for everything the tests of each argument allocate; every argument is a
  number above 0 and below \<open>ic_limit\<close> (the numbers the iterators can hold); and the digests
  of the keys of the tests do not collide. Then \<open>main\<close> returns 0 whatever the shuffles, has
  printed the six results of each argument with its number of elements in order, and has
  removed its files.
\<close>

theorem statedb_main_passes:
  assumes "eos_interface e cinv keys" "new_directory w" "args \<noteq> []"
    and "wf_platform (h_platform h)" "try_lock (h_platform h)"
    and "\<forall>i. h_refuses h i = None" "\<forall>i k db. h_exhausted h i k db = None"
    and "\<forall>i k xs. mset (shuf i k xs) = mset xs"
    and "list_all2 (\<lambda>a n. atoi a = Inr (int n) \<and> 0 < n \<and> n < ic_limit \<and> inj_on (test_key e) {..<n}) args ns"
  shows "\<exists>w' sizes. statedb_main e h free junk shuf args w = (Inr 0, w') \<and> new_directory w' \<and>
    length sizes = length args \<and> (\<forall>s \<in> set sizes. length s = 6) \<and> w_out w' = w_out w @ concat (map2 test_lines ns sizes)"
proof -
  have h: "host_ok h" using assms(4-7) by (simp add: host_ok_def)
  have perm: "mset (shuf i k xs) = mset xs" for i k xs using assms(8) by blast
  have l: "length ns = length args" using list_all2_lengthD [OF assms(9)] by simp
  from eos_interface.main_loop_passes [where shuf = shuf and free = free and junk = junk, OF assms(1) h assms(2) perm assms(9) order_refl]
  obtain w1 sizes where 1: "eachX (\<lambda>i. main_step e h free (junk i) (shuf i) i (args ! i)) [0..<length args] w = (Inr (), w1)"
    "new_directory w1" "length sizes = length args" "\<forall>s \<in> set sizes. length s = 6"
    "w_out w1 = w_out w @ concat (map2 test_lines ns sizes)" unfolding l [symmetric] by auto
  show ?thesis
    using 1 assms(3) by (simp add: statedb_main_def remove_all_def new_directory_def) blast
qed

definition empty_world :: "'c world" where
  "empty_world = \<lparr>w_disk = empty_disk, w_db = database_open Read_write Map.empty, w_out = []\<rparr>"

definition sample_host :: "'c host" where
  "sample_host = \<lparr>h_platform = sample_platform (\<lambda>_. False), h_refuses = (\<lambda>_. None), h_exhausted = (\<lambda>_ _ _. None)\<rparr>"

theorem statedb_main_passes_witness:
  "\<exists>w' s t. statedb_main (cell_eos_env sample_digest) sample_host (\<lambda>_. 0) (\<lambda>_. 40) (\<lambda>_ _. rev) [''2'', '' 1x''] empty_world = (Inr 0, w') \<and>
     length s = 6 \<and> length t = 6 \<and> w_out w' = test_lines 2 s @ test_lines 1 t"
proof -
  let ?e = "cell_eos_env sample_digest"
  have "{..<2 :: nat} = {0, 1}" "{..<1 :: nat} = {0}" by auto
  moreover have "test_key ?e 0 \<noteq> test_key ?e 1" by code_simp
  ultimately have inj: "inj_on (test_key ?e) {..<2}" "inj_on (test_key ?e) {..<1}" by simp_all
  have "atoi ''2'' = Inr (int 2)" "atoi '' 1x'' = Inr (int 1)" by code_simp+
  then have args: "list_all2 (\<lambda>a n. atoi a = Inr (int n) \<and> 0 < n \<and> n < ic_limit \<and> inj_on (test_key ?e) {..<n}) [''2'', '' 1x''] [2, 1]"
    using inj by (simp add: ic_limit_def)
  have w: "new_directory (empty_world :: row lc world)" "w_out (empty_world :: row lc world) = []"
    by (simp_all add: empty_world_def database_open_def new_directory_def empty_disk_def)
  have h: "wf_platform (h_platform (sample_host :: row lc host))" "try_lock (h_platform (sample_host :: row lc host))"
    "\<forall>i. h_refuses (sample_host :: row lc host) i = None" "\<forall>i k db. h_exhausted (sample_host :: row lc host) i k db = None"
    by (simp_all add: sample_host_def wf_sample_platform) (simp add: sample_platform_def)
  have sh: "\<forall>i k xs. mset ((\<lambda>(_ :: nat) (_ :: nat). rev) i k xs) = mset (xs :: int list)" by simp
  obtain w' sizes where r: "statedb_main ?e sample_host (\<lambda>_. 0) (\<lambda>_. 40) (\<lambda>_ _. rev) [''2'', '' 1x''] empty_world = (Inr 0, w')"
    "length sizes = Suc (Suc 0)" "\<forall>s \<in> set sizes. length s = 6" "w_out w' = concat (map2 test_lines [2, 1] sizes)"
    using statedb_main_passes [OF cell_eos.eos_interface_axioms w(1) _ h sh args, where free = "\<lambda>_. 0" and junk = "\<lambda>_. 40"] w(2) by auto
  then obtain s t where "sizes = [s, t]" by (auto simp: length_Suc_conv)
  then show ?thesis using r by auto
qed

text \<open>
  An argument that is not positive, on a new directory. Zero, which is also what \<open>atoi\<close> makes of
  a text that is no number: the first test runs on no elements, and printing its result divides
  by zero. A negative number becomes a number of elements that no vector can hold: the
  exception is reported, the files are removed and it is thrown on.
\<close>

theorem statedb_bad_number:
  assumes "eos_interface e cinv keys" "host_ok h" "new_directory w"
    and "\<forall>i k xs. mset (shuf i k xs) = mset xs" "atoi a = Inr k" "k \<le> 0"
  shows "if k = 0 then fst (statedb_main e h free junk shuf (a # args) w) = Inl Undefined_behaviour
    else \<exists>w'. statedb_main e h free junk shuf (a # args) w = (Inl (Logic_error ''vector::reserve''), w') \<and>
      new_directory w' \<and> w_out w' = w_out w @ [Message ''Error insert'']"
proof -
  let ?w = "w\<lparr>w_disk := opened (h_platform h) (cache_size cfg) (w_disk w), w_db := new_tables e\<rparr>"
  have loop: "eachX (\<lambda>i. main_step e h free (junk i) (shuf i) i ((a # args) ! i)) [0..<length (a # args)] w = (Inl err, w1)"
    if "main_step e h free (junk 0) (shuf 0) 0 a w = (Inl err, w1)" for err w1
    using that by (simp add: upt_conv_Cons bindX_fail del: upt_Suc)
  have oom: "h_exhausted h i k db = None" for i k db using assms(2) by (simp add: host_ok_def)
  have step: "main_step e h free (junk 0) (shuf 0) 0 a w =
      (let n = word_of_int k :: u64 in
       if unat n > max_ints then throwX (Logic_error ''vector::reserve'')
       else bindX (run_tests e (h_exhausted h 0) free (junk 0) (shuf 0) n (map int [0..<unat n])) (\<lambda>_. remove_all)) ?w"
    unfolding main_step_def bindX_run [where m = "open_tables e h 0" and s = w, OF open_tables_new [OF assms(2,3)]] assms(5) bindX_res ..
  show ?thesis
  proof (cases "k = 0")
    case True
    have "mset (shuf 0 0 []) = mset ([] :: int list)" using assms(4) by blast
    then have e: "shuf 0 0 [] = []" by simp
    have "\<exists>u d. store_by_table_ordered_id e free (junk 0) [] (new_tables e) = (Inr u, d)"
      by (rule eos_interface.ordered_store_run [OF assms(1) eos_interface.new_tables_empty(4) [OF assms(1)], of "[]" "junk 0" free])
        (auto simp: ic_limit_def int32_list_def ids_free_def eos_interface.new_tables_empty(1) [OF assms(1)])
    then obtain u d where s: "store_by_table_ordered_id e free (junk 0) [] (new_tables e) = (Inr u, d)" by blast
    have "fst (main_step e h free (junk 0) (shuf 0) 0 a w) = Inl Undefined_behaviour"
      unfolding step using True
      by (simp add: Let_def max_ints_def run_tests_def run_test_def e s dbW_def liftX_def bindX_def printout_def allocating_ok oom)
    then show ?thesis using True
      by (cases "main_step e h free (junk 0) (shuf 0) 0 a w") (simp add: statedb_main_def loop del: upt_Suc list.size)
  next
    case False
    have k: "- (2 ^ 31) \<le> k" "k < 0" using assms(5,6) False by (auto simp: atoi_def Let_def split: if_splits)
    have "uint (word_of_int k :: u64) = (k + 2 ^ 64) mod 2 ^ 64" by (simp add: unsigned_of_int take_bit_eq_mod)
    also have "... = k + 2 ^ 64" using k by (intro mod_pos_pos_trivial) simp_all
    finally have "unat (word_of_int k :: u64) > max_ints"
      using k by (simp add: max_ints_def unsigned_of_int flip: nat_less_iff unat_eq_nat_uint)
    then have "main_step e h free (junk 0) (shuf 0) 0 a w = (Inl (Logic_error ''vector::reserve''), ?w)"
      unfolding step Let_def by simp
    from loop [OF this] show ?thesis using False
      by (simp add: statedb_main_def print_line_def remove_all_def new_directory_def del: upt_Suc list.size)
  qed
qed

text \<open>
  Every exception that leaves the loop is reported once, the files are removed and the exception
  is thrown on; in particular a segment that is too small for a test, whatever the test has done
  by then, and a file that cannot be created.
\<close>

theorem statedb_reports:
  assumes "statedb_main e h free junk shuf args w = (Inl err, w')" "survives (Inl err :: unit res)"
  shows "new_directory w' \<and> last (w_out w') = Message ''Error insert''"
  using assms
  by (auto simp: statedb_main_def print_line_def remove_all_def new_directory_def bindX_def split: prod.splits sum.splits if_splits)

text \<open>A segment that is exhausted during the first test, for an argument of any size.\<close>

theorem statedb_out_of_memory:
  assumes "host_ok (h\<lparr>h_exhausted := (\<lambda>_ _ _. None)\<rparr>)" "new_directory w" "atoi a = Inr (int n)" "0 < n"
    and "\<And>db. h_exhausted h 0 0 db = None" "h_exhausted h 0 1 (new_tables e) = Some db"
  shows "\<exists>w'. statedb_main e h free junk shuf (a # args) w = (Inl bad_alloc, w') \<and> new_directory w' \<and>
    w_out w' = w_out w @ [Message ''Error insert'']"
proof -
  let ?h = "h\<lparr>h_exhausted := (\<lambda>_ _ _. None)\<rparr>"
  let ?w = "w\<lparr>w_disk := opened (h_platform h) (cache_size cfg) (w_disk w), w_db := new_tables e\<rparr>"
  have "open_tables e h 0 w = open_tables e ?h 0 w"
    using assms(5) by (simp add: open_tables_def allocating_def [abs_def])
  then have o: "open_tables e h 0 w = (Inr (), ?w)" using open_tables_new [OF assms(1,2)] by simp
  have n: "n < 2 ^ 31" using assms(3) by (auto simp: atoi_def Let_def split: if_splits)
  then have u: "unat (of_nat n :: u64) = n" by (simp add: unsigned_of_nat take_bit_nat_eq_self)
  have "run_tests e (h_exhausted h 0) free (junk 0) (shuf 0) (of_nat n) (map int [0..<n]) ?w = (Inl bad_alloc, ?w\<lparr>w_db := db\<rparr>)"
    using assms(6) by (simp add: run_tests_def run_test_def Let_def bindX_def dbW_def liftX_def allocating_def)
  then have "main_step e h free (junk 0) (shuf 0) 0 a w = (Inl bad_alloc, ?w\<lparr>w_db := db\<rparr>)"
    unfolding main_step_def bindX_run [where m = "open_tables e h 0" and s = w, OF o] assms(3) bindX_res Let_def of_int_of_nat_eq u
    using n by (simp add: max_ints_def bindX_fail)
  then have "eachX (\<lambda>i. main_step e h free (junk i) (shuf i) i ((a # args) ! i)) [0..<length (a # args)] w =
      (Inl bad_alloc, ?w\<lparr>w_db := db\<rparr>)"
    by (simp add: upt_conv_Cons bindX_fail del: upt_Suc)
  then show ?thesis
    by (simp add: statedb_main_def print_line_def remove_all_def new_directory_def bad_alloc_def del: upt_Suc list.size)
qed

end
