(* ===== verification/Message_Buffer.thy ===== *)
theory Message_Buffer
  imports Iterator_Cache
begin

text \<open>
  \<open>fc::message_buffer\<close> (\<open>fc/include/fc/network/message_buffer.hpp\<close>): a queue of bytes in a chain of
  buffers of equal size, with an index to read from and an index to write at. \<open>bl\<close> is the
  template parameter \<open>buffer_len\<close>, and \<open>blank\<close> the contents of a buffer that comes from the pool.
  Indices and sizes are 32-bit words that wrap. \<open>exit(1)\<close> is \<open>Abort\<close>; \<open>operator[]\<close> of the deque
  and \<open>pop_front\<close> of an empty one are undefined, \<open>at\<close> of the array throws.
\<close>

section \<open>The buffer\<close>

type_synonym mb_index = "u32 \<times> u32"

record mbuf =
  mb_buffers :: "u8 list list"
  mb_read_ind :: mb_index
  mb_write_ind :: mb_index
  mb_sanity_check :: u64

definition mb_new :: "u8 list \<Rightarrow> mbuf" where
  "mb_new blank = \<lparr>mb_buffers = [blank], mb_read_ind = (0, 0), mb_write_ind = (0, 0), mb_sanity_check = 1\<rparr>"

definition mb_get_ptr :: "u32 \<Rightarrow> mb_index \<Rightarrow> mbuf \<Rightarrow> (nat \<times> nat) res" where
  "mb_get_ptr bl i mb =
     (if unat (fst i) \<ge> length (mb_buffers mb) then Inl Undefined_behaviour
      else if snd i \<ge> bl then Inl Out_of_range
      else Inr (unat (fst i), unat (snd i)))"

definition mb_add_buffer_to_chain :: "u8 list \<Rightarrow> mbuf \<Rightarrow> mbuf" where
  "mb_add_buffer_to_chain blank mb =
     mb\<lparr>mb_sanity_check := mb_sanity_check mb + 1, mb_buffers := mb_buffers mb @ [blank]\<rparr>"

definition mb_add_space :: "u32 \<Rightarrow> u8 list \<Rightarrow> u32 \<Rightarrow> mbuf \<Rightarrow> mbuf" where
  "mb_add_space bl blank bytes mb =
     (let buffers_to_add = as_int (uint (bytes div bl + 1)) in
      (mb_add_buffer_to_chain blank ^^ nat buffers_to_add) mb)"

function mb_pop_back :: "mbuf \<Rightarrow> mbuf" where
  "mb_pop_back mb =
     (if length (mb_buffers mb) > 1
      then mb_pop_back (mb\<lparr>mb_sanity_check := mb_sanity_check mb - 1, mb_buffers := butlast (mb_buffers mb)\<rparr>)
      else mb)"
  by pat_completeness auto
termination
  by (relation "measure (\<lambda>mb. length (mb_buffers mb))") auto

declare mb_pop_back.simps [simp del]

definition mb_reset :: "mbuf \<Rightarrow> mbuf res" where
  "mb_reset mb =
     (if of_nat (length (mb_buffers mb)) \<noteq> mb_sanity_check mb \<or> length (mb_buffers mb) > 1000000 then Inl Abort
      else Inr ((mb_pop_back mb)\<lparr>mb_read_ind := (0, 0), mb_write_ind := (0, 0)\<rparr>))"

definition mb_bytes_to_read_from_index :: "u32 \<Rightarrow> mb_index \<Rightarrow> mbuf \<Rightarrow> u32" where
  "mb_bytes_to_read_from_index bl i mb =
     (fst (mb_write_ind mb) - fst i) * bl + snd (mb_write_ind mb) - snd i"

definition mb_bytes_to_read :: "u32 \<Rightarrow> mbuf \<Rightarrow> u32" where
  "mb_bytes_to_read bl mb = mb_bytes_to_read_from_index bl (mb_read_ind mb) mb"

definition mb_total_bytes :: "u32 \<Rightarrow> mbuf \<Rightarrow> u32" where
  "mb_total_bytes bl mb = bl * of_nat (length (mb_buffers mb))"

definition mb_bytes_to_write :: "u32 \<Rightarrow> mbuf \<Rightarrow> u32" where
  "mb_bytes_to_write bl mb = mb_total_bytes bl mb - fst (mb_write_ind mb) * bl - snd (mb_write_ind mb)"

definition mb_advance_index :: "u32 \<Rightarrow> u32 \<Rightarrow> mb_index \<Rightarrow> mb_index" where
  "mb_advance_index bl bytes i = (fst i + (bytes + snd i) div bl, (bytes + snd i) mod bl)"

lemma unat_minus_one: "0 < (x :: 'a::len word) \<Longrightarrow> unat (x - 1) = unat x - 1"
  by (simp add: unat_sub word_le_nat_alt word_less_nat_alt)

function mb_pop_front :: "mbuf \<Rightarrow> mbuf res" where
  "mb_pop_front mb =
     (if fst (mb_read_ind mb) > 0
      then (case mb_buffers mb of
              [] \<Rightarrow> Inl Undefined_behaviour
            | b # bs \<Rightarrow>
                mb_pop_front (mb\<lparr>mb_buffers := bs, mb_sanity_check := mb_sanity_check mb - 1,
                  mb_read_ind := (fst (mb_read_ind mb) - 1, snd (mb_read_ind mb)),
                  mb_write_ind := (fst (mb_write_ind mb) - 1, snd (mb_write_ind mb))\<rparr>))
      else Inr mb)"
  by pat_completeness auto
termination
  by (relation "measure (\<lambda>mb. unat (fst (mb_read_ind mb)))") (auto simp: unat_minus_one word_less_nat_alt)

declare mb_pop_front.simps [simp del]

definition mb_advance_read_ptr :: "u32 \<Rightarrow> u32 \<Rightarrow> mbuf \<Rightarrow> mbuf res" where
  "mb_advance_read_ptr bl bytes mb =
     (let mb' = mb\<lparr>mb_read_ind := mb_advance_index bl bytes (mb_read_ind mb)\<rparr> in
      if mb_read_ind mb' = mb_write_ind mb' then mb_reset mb'
      else if fst (mb_read_ind mb') > 0 then mb_pop_front mb'
      else Inr mb')"

function mb_push_back :: "u8 list \<Rightarrow> mbuf \<Rightarrow> mbuf" where
  "mb_push_back blank mb =
     (if unat (fst (mb_write_ind mb)) \<ge> length (mb_buffers mb)
      then mb_push_back blank (mb\<lparr>mb_sanity_check := mb_sanity_check mb + 1, mb_buffers := mb_buffers mb @ [blank]\<rparr>)
      else mb)"
  by pat_completeness auto
termination
  by (relation "measure (\<lambda>(_, mb). Suc (unat (fst (mb_write_ind mb))) - length (mb_buffers mb))") auto

declare mb_push_back.simps [simp del]

definition mb_advance_write_ptr :: "u32 \<Rightarrow> u8 list \<Rightarrow> u32 \<Rightarrow> mbuf \<Rightarrow> mbuf" where
  "mb_advance_write_ptr bl blank bytes mb =
     mb_push_back blank (mb\<lparr>mb_write_ind := mb_advance_index bl bytes (mb_write_ind mb)\<rparr>)"

text \<open>The buffers to write to: number, offset and length of each.\<close>

definition mb_get_buffer_sequence :: "u32 \<Rightarrow> mbuf \<Rightarrow> (nat \<times> nat \<times> nat) list res" where
  "mb_get_buffer_sequence bl mb =
     bindE (assertE (unat (fst (mb_write_ind mb)) < length (mb_buffers mb)) ''write_ind.first < buffers.size()'') (\<lambda>_.
     bindE (mb_get_ptr bl (mb_write_ind mb) mb) (\<lambda>p.
     Inr ((fst p, snd p, unat (bl - snd (mb_write_ind mb))) #
          map (\<lambda>i. (i, 0, unat bl)) [unat (fst (mb_write_ind mb) + 1)..<length (mb_buffers mb)])))"

text \<open>Copying from a buffer; \<open>memcpy\<close> past its end is undefined.\<close>

definition mb_memcpy :: "u32 \<Rightarrow> mb_index \<Rightarrow> u32 \<Rightarrow> mbuf \<Rightarrow> u8 list res" where
  "mb_memcpy bl i n mb =
     bindE (mb_get_ptr bl i mb) (\<lambda>p.
     if snd p + unat n \<le> unat bl then Inr (take (unat n) (drop (snd p) (mb_buffers mb ! fst p)))
     else Inl Undefined_behaviour)"

lemma rest_smaller:
  assumes "mb_memcpy bl i (bl - snd i) mb = Inr d" "\<not> snd i + n \<le> bl"
  shows "n - (bl - snd i) < n"
proof -
  have i: "snd i < bl" using assms(1) by (auto simp: mb_memcpy_def mb_get_ptr_def bindE_Inr_conv split: if_splits)
  then have num: "unat (bl - snd i) = unat bl - unat (snd i)" "unat (snd i) < unat bl"
    by (simp_all add: unat_sub word_le_nat_alt word_less_nat_alt)
  have "unat bl - unat (snd i) < unat n"
  proof (cases "unat (snd i) + unat n < 2 ^ 32")
    case True
    then have "unat (snd i + n) = unat (snd i) + unat n" by (simp add: unat_word_ariths)
    then show ?thesis using assms(2) num(2) by (simp add: word_le_nat_alt)
  next
    case False
    moreover have "unat bl < 2 ^ LENGTH(32)" by (rule unsigned_less)
    ultimately show ?thesis using num(2) by simp
  qed
  then show ?thesis using num by (simp add: word_less_nat_alt unat_sub word_le_nat_alt)
qed

text \<open>
  Reading returns the bytes; those copied before an exception are not represented.
\<close>

function mb_read :: "u32 \<Rightarrow> u32 \<Rightarrow> mbuf \<Rightarrow> u8 list res \<times> mbuf" where
  "mb_read bl n mb =
     (if mb_bytes_to_read bl mb < n then (Inl Out_of_range, mb)
      else if snd (mb_read_ind mb) + n \<le> bl
      then (case mb_memcpy bl (mb_read_ind mb) n mb of
              Inl e \<Rightarrow> (Inl e, mb)
            | Inr d \<Rightarrow> (case mb_advance_read_ptr bl n mb of Inl e \<Rightarrow> (Inl e, mb) | Inr mb' \<Rightarrow> (Inr d, mb')))
      else (case mb_memcpy bl (mb_read_ind mb) (bl - snd (mb_read_ind mb)) mb of
              Inl e \<Rightarrow> (Inl e, mb)
            | Inr d \<Rightarrow>
                (case mb_advance_read_ptr bl (bl - snd (mb_read_ind mb)) mb of
                   Inl e \<Rightarrow> (Inl e, mb)
                 | Inr mb' \<Rightarrow>
                     (case mb_read bl (n - (bl - snd (mb_read_ind mb))) mb' of
                        (Inl e, mb'') \<Rightarrow> (Inl e, mb'')
                      | (Inr d', mb'') \<Rightarrow> (Inr (d @ d'), mb'')))))"
  by pat_completeness auto
termination
  by (relation "measure (\<lambda>(_, n, _). unat n)") (auto dest: rest_smaller simp: word_less_nat_alt [symmetric])

declare mb_read.simps [simp del]

function mb_peek :: "u32 \<Rightarrow> u32 \<Rightarrow> mbuf \<Rightarrow> mb_index \<Rightarrow> u8 list res \<times> mb_index" where
  "mb_peek bl n mb i =
     (if mb_bytes_to_read_from_index bl i mb < n then (Inl Out_of_range, i)
      else if snd i + n \<le> bl
      then (case mb_memcpy bl i n mb of
              Inl e \<Rightarrow> (Inl e, i)
            | Inr d \<Rightarrow> (Inr d, mb_advance_index bl n i))
      else (case mb_memcpy bl i (bl - snd i) mb of
              Inl e \<Rightarrow> (Inl e, i)
            | Inr d \<Rightarrow>
                (case mb_peek bl (n - (bl - snd i)) mb (mb_advance_index bl (bl - snd i) i) of
                   (Inl e, j) \<Rightarrow> (Inl e, j)
                 | (Inr d', j) \<Rightarrow> (Inr (d @ d'), j))))"
  by pat_completeness auto
termination
  by (relation "measure (\<lambda>(_, n, _, _). unat n)") (auto dest: rest_smaller simp: word_less_nat_alt [symmetric])

declare mb_peek.simps [simp del]

section \<open>Streams on the buffer\<close>

definition mbds_skip :: "u32 \<Rightarrow> nat \<Rightarrow> mbuf \<Rightarrow> mbuf res" where
  "mbds_skip bl s mb = mb_advance_read_ptr bl (of_nat s) mb"

definition mbds_read :: "u32 \<Rightarrow> nat \<Rightarrow> mbuf \<Rightarrow> u8 list res \<times> mbuf" where
  "mbds_read bl s mb =
     (if unat (mb_bytes_to_read bl mb) \<ge> s then mb_read bl (of_nat s) mb else (Inl Out_of_range, mb))"

definition mbds_get :: "u32 \<Rightarrow> mbuf \<Rightarrow> u8 list res \<times> mbuf" where
  "mbds_get bl mb = mb_read bl 1 mb"

definition mbpeek_skip :: "u32 \<Rightarrow> nat \<Rightarrow> mb_index \<Rightarrow> mb_index" where
  "mbpeek_skip bl s i = mb_advance_index bl (of_nat s) i"

definition mbpeek_read :: "u32 \<Rightarrow> nat \<Rightarrow> mbuf \<Rightarrow> mb_index \<Rightarrow> u8 list res \<times> mb_index" where
  "mbpeek_read bl s mb i =
     (if unat (mb_bytes_to_read_from_index bl i mb) \<ge> s then mb_peek bl (of_nat s) mb i else (Inl Out_of_range, i))"

definition mbpeek_get :: "u32 \<Rightarrow> mbuf \<Rightarrow> mb_index \<Rightarrow> u8 list res \<times> mb_index" where
  "mbpeek_get bl mb i = mb_peek bl 1 mb i"

end
