(* ===== verification/Message_Queue.thy ===== *)
theory Message_Queue
  imports Message_Buffer
begin

text \<open>
  The chain of buffers is a queue of bytes. \<open>mb_pos\<close> numbers the bytes of the chain and
  \<open>mb_content\<close> is what lies between the two indices. The invariant \<open>mb_ok\<close> bounds the chain: its
  bytes can be counted in 32 bits and \<open>reset\<close> does not give up on it.
\<close>

section \<open>Positions in the chain\<close>

definition mb_pos :: "u32 \<Rightarrow> mb_index \<Rightarrow> nat" where
  "mb_pos bl i = unat (fst i) * unat bl + unat (snd i)"

definition mb_content :: "u32 \<Rightarrow> mbuf \<Rightarrow> u8 list" where
  "mb_content bl mb =
     take (mb_pos bl (mb_write_ind mb) - mb_pos bl (mb_read_ind mb)) (drop (mb_pos bl (mb_read_ind mb)) (concat (mb_buffers mb)))"

definition mb_fits :: "u32 \<Rightarrow> nat \<Rightarrow> bool" where
  "mb_fits bl n \<longleftrightarrow> n * unat bl < 2 ^ 32 \<and> n \<le> 1000000"

definition mb_ok :: "u32 \<Rightarrow> mbuf \<Rightarrow> bool" where
  "mb_ok bl mb \<longleftrightarrow>
     (\<forall>b \<in> set (mb_buffers mb). length b = unat bl) \<and> mb_fits bl (length (mb_buffers mb)) \<and>
     mb_sanity_check mb = of_nat (length (mb_buffers mb)) \<and>
     snd (mb_read_ind mb) < bl \<and> snd (mb_write_ind mb) < bl \<and>
     unat (fst (mb_write_ind mb)) < length (mb_buffers mb) \<and>
     mb_pos bl (mb_read_ind mb) \<le> mb_pos bl (mb_write_ind mb)"

text \<open>Computing with integers instead of natural numbers.\<close>

lemma mb_fits_int [code]: "mb_fits bl n \<longleftrightarrow> int n * uint bl < 4294967296 \<and> int n \<le> 1000000"
proof -
  have "int (n * unat bl) = int n * uint bl" by simp
  then have "int n * uint bl < 4294967296 \<longleftrightarrow> n * unat bl < 4294967296" by linarith
  then show ?thesis by (simp add: mb_fits_def)
qed

lemma mb_reset_int [code]:
  "mb_reset mb =
     (if of_nat (length (mb_buffers mb)) \<noteq> mb_sanity_check mb \<or> int (length (mb_buffers mb)) > 1000000 then Inl Abort
      else Inr ((mb_pop_back mb)\<lparr>mb_read_ind := (0, 0), mb_write_ind := (0, 0)\<rparr>))"
  by (simp add: mb_reset_def)

lemma mb_fits_mono: "mb_fits bl n \<Longrightarrow> m \<le> n \<Longrightarrow> mb_fits bl m"
  unfolding mb_fits_def by (meson le_less_trans mult_le_mono1 order_trans)

lemma length_concat_equal: "\<forall>b \<in> set bs. length b = L \<Longrightarrow> length (concat bs) = length bs * L"
  by (induction bs) auto

lemma concat_slice:
  assumes "\<forall>b \<in> set bs. length b = L" "i < length bs" "k + n \<le> L"
  shows "take n (drop k (bs ! i)) = take n (drop (i * L + k) (concat bs))"
proof -
  have "concat bs = concat (take i bs) @ bs ! i @ concat (drop (Suc i) bs)"
    by (metis append.assoc assms(2) concat.simps(2) concat_append id_take_nth_drop)
  moreover have "length (concat (take i bs)) = i * L"
    using length_concat_equal [of "take i bs" L] assms(1,2) by (auto dest: in_set_takeD)
  ultimately show ?thesis using assms by simp
qed

lemma concat_drop:
  assumes "\<forall>b \<in> set bs. length b = L" "i \<le> length bs"
  shows "concat (drop i bs) = drop (i * L) (concat bs)"
proof -
  have "concat bs = concat (take i bs) @ concat (drop i bs)" by (metis append_take_drop_id concat_append)
  moreover have "length (concat (take i bs)) = i * L"
    using length_concat_equal [of "take i bs" L] assms by (auto dest: in_set_takeD)
  ultimately show ?thesis by simp
qed

lemma mb_pos_div:
  assumes "snd i < bl"
  shows "unat (fst i) = mb_pos bl i div unat bl" "unat (snd i) = mb_pos bl i mod unat bl"
  using assms by (simp_all add: mb_pos_def word_less_nat_alt)

lemma mb_pos_inject: "snd i < bl \<Longrightarrow> snd j < bl \<Longrightarrow> mb_pos bl i = mb_pos bl j \<longleftrightarrow> i = j"
  using mb_pos_div [of i bl] mb_pos_div [of j bl] by (metis prod_eq_iff unsigned_word_eqI)

lemma mb_pos_less:
  assumes "unat (fst i) < n" "snd i < bl"
  shows "mb_pos bl i < n * unat bl"
proof -
  have "mb_pos bl i < Suc (unat (fst i)) * unat bl" using assms(2) by (simp add: mb_pos_def word_less_nat_alt)
  also have "... \<le> n * unat bl" using assms(1) by (intro mult_le_mono1) simp
  finally show ?thesis .
qed

lemma mb_pos_word: "of_nat (mb_pos bl i) = fst i * bl + snd i"
  by (simp add: mb_pos_def)

lemma advance_pos:
  assumes "snd i < bl" "mb_pos bl i + unat n < 2 ^ 32"
  shows "mb_pos bl (mb_advance_index bl n i) = mb_pos bl i + unat n" "snd (mb_advance_index bl n i) < bl"
proof -
  have b: "0 < unat bl" using assms(1) by (simp add: word_less_nat_alt)
  let ?s = "unat n + unat (snd i)"
  have le: "unat (fst i) \<le> unat (fst i) * unat bl" using b by simp
  have s: "unat (n + snd i) = ?s" using assms(2) by (simp add: mb_pos_def unat_word_ariths)
  have "?s div unat bl \<le> ?s" by (rule div_le_dividend)
  then have "unat (fst i) + ?s div unat bl < 2 ^ 32" using assms(2) le unfolding mb_pos_def by linarith
  then have f: "unat (fst i + (n + snd i) div bl) = unat (fst i) + ?s div unat bl"
    using unat_add_lem [of "fst i" "(n + snd i) div bl"] unfolding unat_div_distrib s by simp
  show "mb_pos bl (mb_advance_index bl n i) = mb_pos bl i + unat n"
    unfolding mb_pos_def mb_advance_index_def fst_conv snd_conv f unat_mod_distrib s
    by (simp add: distrib_right)
  show "snd (mb_advance_index bl n i) < bl"
    using b by (simp add: mb_advance_index_def word_less_nat_alt unat_mod_distrib)
qed

lemma bytes_from_pos:
  assumes "mb_pos bl i \<le> mb_pos bl (mb_write_ind mb)" "mb_pos bl (mb_write_ind mb) < 2 ^ 32"
  shows "unat (mb_bytes_to_read_from_index bl i mb) = mb_pos bl (mb_write_ind mb) - mb_pos bl i"
proof -
  have "mb_bytes_to_read_from_index bl i mb = of_nat (mb_pos bl (mb_write_ind mb)) - of_nat (mb_pos bl i)"
    by (simp add: mb_bytes_to_read_from_index_def mb_pos_word algebra_simps)
  also have "... = of_nat (mb_pos bl (mb_write_ind mb) - mb_pos bl i)" using assms(1) by (simp add: of_nat_diff)
  finally show ?thesis using assms(2) by (simp add: unsigned_of_nat take_bit_nat_eq_self)
qed

section \<open>The loops\<close>

lemma pop_back_take:
  "mb_pop_back mb = mb\<lparr>mb_sanity_check := mb_sanity_check mb - of_nat (length (mb_buffers mb) - 1), mb_buffers := take 1 (mb_buffers mb)\<rparr>"
proof (induction mb rule: mb_pop_back.induct)
  case (1 mb)
  show ?case
  proof (cases "length (mb_buffers mb) > 1")
    case True
    then have "take 1 (butlast (mb_buffers mb)) = take 1 (mb_buffers mb)" by (simp add: take_butlast)
    moreover have "mb_sanity_check mb - 1 - of_nat (length (mb_buffers mb) - 1 - 1) = mb_sanity_check mb - of_nat (length (mb_buffers mb) - 1)"
      using True by (simp add: of_nat_diff)
    ultimately show ?thesis using True 1 by (simp add: mb_pop_back.simps [of mb])
  next
    case False
    then show ?thesis by (simp add: mb_pop_back.simps [of mb])
  qed
qed

lemma pop_front_drop:
  assumes "unat (fst (mb_read_ind mb)) \<le> length (mb_buffers mb)"
  shows "mb_pop_front mb = Inr (mb\<lparr>mb_buffers := drop (unat (fst (mb_read_ind mb))) (mb_buffers mb),
    mb_sanity_check := mb_sanity_check mb - of_nat (unat (fst (mb_read_ind mb))), mb_read_ind := (0, snd (mb_read_ind mb)),
    mb_write_ind := (fst (mb_write_ind mb) - fst (mb_read_ind mb), snd (mb_write_ind mb))\<rparr>)"
  using assms
proof (induction mb rule: mb_pop_front.induct)
  case (1 mb)
  show ?case
  proof (cases "fst (mb_read_ind mb) > 0")
    case True
    then obtain k where k: "unat (fst (mb_read_ind mb)) = Suc k" "unat (fst (mb_read_ind mb) - 1) = k"
      by (metis Suc_diff_1 unat_gt_0 unat_minus_one word_gt_0)
    obtain b bs where bs: "mb_buffers mb = b # bs" using 1(2) k by (cases "mb_buffers mb") auto
    show ?thesis
      using 1(1) [OF True bs] 1(2) bs k True by (simp add: mb_pop_front.simps [of mb] del: unsigned_of_nat)
  next
    case False
    then have "fst (mb_read_ind mb) = 0" by (simp add: word_gt_0)
    then show ?thesis by (cases "mb_read_ind mb"; cases "mb_write_ind mb") (simp add: mb_pop_front.simps [of mb])
  qed
qed

lemma push_back_one:
  assumes "unat (fst (mb_write_ind mb)) \<le> length (mb_buffers mb)"
  shows "mb_push_back blank mb =
    (if unat (fst (mb_write_ind mb)) = length (mb_buffers mb) then mb_add_buffer_to_chain blank mb else mb)"
  using assms by (simp add: mb_push_back.simps [of blank mb] mb_push_back.simps [of blank "mb\<lparr>mb_sanity_check := _, mb_buffers := _\<rparr>"] mb_add_buffer_to_chain_def)

section \<open>Reading\<close>

lemma mb_okD:
  assumes "mb_ok bl mb"
  shows "\<forall>b \<in> set (mb_buffers mb). length b = unat bl" "mb_fits bl (length (mb_buffers mb))"
    "mb_sanity_check mb = of_nat (length (mb_buffers mb))" "snd (mb_read_ind mb) < bl" "snd (mb_write_ind mb) < bl"
    "unat (fst (mb_write_ind mb)) < length (mb_buffers mb)" "mb_pos bl (mb_read_ind mb) \<le> mb_pos bl (mb_write_ind mb)"
    "mb_pos bl (mb_write_ind mb) < length (mb_buffers mb) * unat bl" "mb_pos bl (mb_write_ind mb) < 2 ^ 32"
    "length (concat (mb_buffers mb)) = length (mb_buffers mb) * unat bl" "0 < unat bl"
proof -
  note d = assms [unfolded mb_ok_def]
  show "\<forall>b \<in> set (mb_buffers mb). length b = unat bl" "mb_fits bl (length (mb_buffers mb))"
    "mb_sanity_check mb = of_nat (length (mb_buffers mb))" "snd (mb_read_ind mb) < bl" "snd (mb_write_ind mb) < bl"
    "unat (fst (mb_write_ind mb)) < length (mb_buffers mb)" "mb_pos bl (mb_read_ind mb) \<le> mb_pos bl (mb_write_ind mb)"
    using d by blast+
  show l: "mb_pos bl (mb_write_ind mb) < length (mb_buffers mb) * unat bl" using d by (intro mb_pos_less) blast+
  then show "mb_pos bl (mb_write_ind mb) < 2 ^ 32" using d unfolding mb_fits_def by linarith
  show "length (concat (mb_buffers mb)) = length (mb_buffers mb) * unat bl" using d by (intro length_concat_equal) blast
  show "0 < unat bl" using d by (metis unat_gt_0 word_gt_0 word_not_simps(1))
qed

lemma length_content:
  assumes "mb_ok bl mb"
  shows "length (mb_content bl mb) = mb_pos bl (mb_write_ind mb) - mb_pos bl (mb_read_ind mb)"
  using mb_okD(7,8,10) [OF assms] by (simp add: mb_content_def)

lemma bytes_to_read_content: "mb_ok bl mb \<Longrightarrow> unat (mb_bytes_to_read bl mb) = length (mb_content bl mb)"
  unfolding mb_bytes_to_read_def length_content by (rule bytes_from_pos) (rule mb_okD; assumption)+

lemma advance_read_content:
  assumes ok: "mb_ok bl mb" and n: "unat n \<le> length (mb_content bl mb)"
  obtains mb' where "mb_advance_read_ptr bl n mb = Inr mb'" "mb_ok bl mb'" "mb_content bl mb' = drop (unat n) (mb_content bl mb)"
proof -
  note d = mb_okD [OF ok]
  let ?r = "mb_advance_index bl n (mb_read_ind mb)" and ?w = "mb_write_ind mb"
  have p: "mb_pos bl ?r = mb_pos bl (mb_read_ind mb) + unat n" "snd ?r < bl"
    using advance_pos [OF d(4)] d(7,9) n length_content [OF ok] by simp_all
  have le: "mb_pos bl ?r \<le> mb_pos bl ?w" using p(1) n d(7) length_content [OF ok] by simp
  have rest: "drop (unat n) (mb_content bl mb) = take (mb_pos bl ?w - mb_pos bl ?r) (drop (mb_pos bl ?r) (concat (mb_buffers mb)))"
    unfolding mb_content_def p(1) by (simp add: drop_take diff_diff_left add.commute)
  show thesis
  proof (cases "?r = ?w")
    case True
    have b: "mb_buffers mb \<noteq> []" using d(6) by auto
    then obtain x xs where x: "mb_buffers mb = x # xs" by (cases "mb_buffers mb") auto
    let ?m = "mb\<lparr>mb_read_ind := (0, 0), mb_write_ind := (0, 0), mb_sanity_check := 1, mb_buffers := [x]\<rparr>"
    have "mb_advance_read_ptr bl n mb = Inr ?m"
      using True d(2,3) x by (simp add: mb_advance_read_ptr_def mb_reset_def pop_back_take mb_fits_def Let_def)
    moreover have "mb_ok bl ?m"
      using d(1,2,4,11) x by (simp add: mb_ok_def mb_fits_def mb_pos_def word_gt_0 unat_gt_0)
    moreover have "mb_content bl ?m = drop (unat n) (mb_content bl mb)"
      unfolding rest True by (simp add: mb_content_def)
    ultimately show thesis by (rule that)
  next
    case False
    let ?k = "unat (fst ?r)"
    let ?m = "mb\<lparr>mb_buffers := drop ?k (mb_buffers mb), mb_sanity_check := mb_sanity_check mb - of_nat ?k,
      mb_read_ind := (0, snd ?r), mb_write_ind := (fst ?w - fst ?r, snd ?w)\<rparr>"
    have k: "?k \<le> unat (fst ?w)" using div_le_mono [OF le, of "unat bl"] mb_pos_div(1) p(2) d(5) by simp
    have "mb_advance_read_ptr bl n mb = Inr ?m"
    proof (cases "fst ?r > 0")
      case True
      then show ?thesis using False k d(6) pop_front_drop [of "mb\<lparr>mb_read_ind := ?r\<rparr>"]
        by (simp add: mb_advance_read_ptr_def Let_def)
    next
      case z: False
      then have "fst ?r = 0" by (simp add: word_gt_0)
      then show ?thesis using False
        by (cases ?r; cases ?w; cases mb) (auto simp: mb_advance_read_ptr_def Let_def)
    qed
    moreover have w: "unat (fst ?w - fst ?r) = unat (fst ?w) - ?k" using k by (simp add: unat_sub word_le_nat_alt)
    have pos: "mb_pos bl (fst ?w - fst ?r, snd ?w) = mb_pos bl ?w - ?k * unat bl" "mb_pos bl (0, snd ?r) = mb_pos bl ?r - ?k * unat bl"
      using k by (simp_all add: mb_pos_def w diff_mult_distrib)
    have kb: "?k * unat bl \<le> mb_pos bl ?r" by (simp add: mb_pos_def)
    moreover have "mb_ok bl ?m"
      using mb_fits_mono [OF d(2), of "length (mb_buffers mb) - ?k"] d(1,3,5,6) k p(2) diff_le_mono [OF le] pos w
      by (auto simp: mb_ok_def of_nat_diff dest: in_set_dropD)
    moreover have "mb_content bl ?m = drop (unat n) (mb_content bl mb)"
      unfolding rest using k d(6) le kb concat_drop [OF d(1), of ?k]
      by (simp add: mb_content_def pos)
    ultimately show thesis using that by blast
  qed
qed

lemma memcpy_slice:
  assumes "\<forall>b \<in> set (mb_buffers mb). length b = unat bl" "snd i < bl" "unat (fst i) < length (mb_buffers mb)"
    "unat (snd i) + unat n \<le> unat bl"
  shows "mb_memcpy bl i n mb = Inr (take (unat n) (drop (mb_pos bl i) (concat (mb_buffers mb))))"
  using assms concat_slice [OF assms(1,3,4)] by (simp add: mb_memcpy_def mb_get_ptr_def mb_pos_def)

text \<open>The two ways of a step of \<open>read\<close> and \<open>peek\<close>: within a buffer or up to its end.\<close>

lemma within_buffer:
  assumes "snd i < bl" "mb_pos bl i + unat n < 2 ^ 32"
  shows "snd i + n \<le> bl \<longleftrightarrow> unat (snd i) + unat n \<le> unat bl"
    and "unat (bl - snd i) = unat bl - unat (snd i)"
    and "\<not> snd i + n \<le> bl \<Longrightarrow> unat (n - (bl - snd i)) = unat n - unat (bl - snd i)"
proof -
  have "unat (snd i + n) = unat (snd i) + unat n" using assms(2) by (simp add: mb_pos_def unat_word_ariths)
  then show a: "snd i + n \<le> bl \<longleftrightarrow> unat (snd i) + unat n \<le> unat bl" by (simp add: word_le_nat_alt)
  show b: "unat (bl - snd i) = unat bl - unat (snd i)" using assms(1) by (simp add: unat_sub)
  show "\<not> snd i + n \<le> bl \<Longrightarrow> unat (n - (bl - snd i)) = unat n - unat (bl - snd i)"
    using a b by (intro unat_sub) (simp add: word_le_nat_alt)
qed

lemma content_at:
  assumes ok: "mb_ok bl mb" and n: "unat n \<le> length (mb_content bl mb)" and s: "unat (snd (mb_read_ind mb)) + unat n \<le> unat bl"
  shows "mb_memcpy bl (mb_read_ind mb) n mb = Inr (take (unat n) (mb_content bl mb))"
proof -
  note d = mb_okD [OF ok]
  have "unat (fst (mb_read_ind mb)) \<le> unat (fst (mb_write_ind mb))"
    using div_le_mono [OF d(7), of "unat bl"] mb_pos_div(1) d(4,5) by simp
  then have "mb_memcpy bl (mb_read_ind mb) n mb = Inr (take (unat n) (drop (mb_pos bl (mb_read_ind mb)) (concat (mb_buffers mb))))"
    using d s by (intro memcpy_slice) simp_all
  then show ?thesis using n length_content [OF ok] by (simp add: mb_content_def min_def)
qed

lemma mb_read_content:
  assumes "mb_ok bl mb" "unat n \<le> length (mb_content bl mb)"
  shows "\<exists>mb'. mb_read bl n mb = (Inr (take (unat n) (mb_content bl mb)), mb') \<and> mb_ok bl mb' \<and>
    mb_content bl mb' = drop (unat n) (mb_content bl mb)"
  using assms
proof (induction bl n mb rule: mb_read.induct)
  case (1 bl n mb)
  note ok = 1(2) and n = 1(3)
  let ?i = "mb_read_ind mb" and ?num = "bl - snd (mb_read_ind mb)"
  note d = mb_okD [OF ok] and l = length_content [OF ok]
  have enough: "\<not> mb_bytes_to_read bl mb < n"
    using bytes_to_read_content [OF ok] n by (simp add: word_less_nat_alt)
  have "mb_pos bl ?i + unat n < 2 ^ 32" using n l d(7,9) by simp
  note w = within_buffer [OF d(4) this]
  show ?case
  proof (cases "snd ?i + n \<le> bl")
    case True
    obtain m where "mb_advance_read_ptr bl n mb = Inr m" "mb_ok bl m" "mb_content bl m = drop (unat n) (mb_content bl mb)"
      by (rule advance_read_content [OF ok n])
    then show ?thesis
      using True content_at [OF ok n] w(1) enough by (subst mb_read.simps) simp
  next
    case False
    have num: "unat ?num \<le> length (mb_content bl mb)" "unat (snd ?i) + unat ?num \<le> unat bl" "unat ?num \<le> unat n"
      using False w d(4) n by (auto simp: word_less_nat_alt)
    note c = content_at [OF ok num(1,2)]
    obtain m where m: "mb_advance_read_ptr bl ?num mb = Inr m" "mb_ok bl m" "mb_content bl m = drop (unat ?num) (mb_content bl mb)"
      by (rule advance_read_content [OF ok num(1)])
    have "unat (n - ?num) \<le> length (mb_content bl m)" using m(3) n w(3) [OF False] by simp
    from 1(1) [OF enough False c m(1) m(2) this] obtain m' where
      "mb_read bl (n - ?num) m = (Inr (take (unat n - unat ?num) (mb_content bl m)), m')" "mb_ok bl m'"
      "mb_content bl m' = drop (unat n) (mb_content bl mb)"
      using m(3) w(3) [OF False] num(3) by auto
    then show ?thesis
      using enough False c m num(3) by (subst mb_read.simps) (simp add: take_add [symmetric])
  qed
qed

lemma mb_peek_content:
  assumes ok: "mb_ok bl mb" and "snd i < bl" "mb_pos bl i + unat n \<le> mb_pos bl (mb_write_ind mb)"
  shows "mb_peek bl n mb i = (Inr (take (unat n) (drop (mb_pos bl i) (concat (mb_buffers mb)))), mb_advance_index bl n i)"
  using assms
proof (induction bl n mb i rule: mb_peek.induct)
  case (1 bl n mb i)
  note d = mb_okD [OF 1(2)] and i = 1(3) and n = 1(4)
  let ?num = "bl - snd i" and ?c = "concat (mb_buffers mb)"
  have enough: "\<not> mb_bytes_to_read_from_index bl i mb < n"
    using bytes_from_pos [of bl i mb] n d(9) by (simp add: word_less_nat_alt)
  have "mb_pos bl i + unat n < 2 ^ 32" using n d(9) by simp
  note w = within_buffer [OF i this] advance_pos [OF i]
  have "mb_pos bl i \<le> mb_pos bl (mb_write_ind mb)" using n by simp
  from div_le_mono [OF this, of "unat bl"] have f: "unat (fst i) < length (mb_buffers mb)"
    using mb_pos_div(1) i d(5,6) by simp
  show ?case
  proof (cases "snd i + n \<le> bl")
    case True
    then show ?thesis
      using memcpy_slice [OF d(1) i f] w(1) enough by (subst mb_peek.simps) simp
  next
    case False
    have num: "unat (snd i) + unat ?num \<le> unat bl" "unat ?num \<le> unat n"
      using False w i by (auto simp: word_less_nat_alt)
    note c = memcpy_slice [OF d(1) i f num(1)]
    have p: "mb_pos bl (mb_advance_index bl ?num i) = mb_pos bl i + unat ?num" "snd (mb_advance_index bl ?num i) < bl"
      using w(4,5) [of ?num] n d(9) num(2) by simp_all
    have q: "mb_pos bl (mb_advance_index bl ?num i) + unat (n - ?num) = mb_pos bl i + unat n"
      using p(1) w(3) [OF False] num(2) by simp
    have "mb_pos bl (mb_advance_index bl ?num i) + unat (n - ?num) < 2 ^ 32" using q n d(9) by simp
    note r = advance_pos [OF p(2) this]
    have "mb_advance_index bl (n - ?num) (mb_advance_index bl ?num i) = mb_advance_index bl n i"
      using r q w(4,5) [of n] n d(9) mb_pos_inject [OF r(2), of "mb_advance_index bl n i"] by simp
    moreover have "take (unat ?num) (drop (mb_pos bl i) ?c) @ take (unat (n - ?num)) (drop (mb_pos bl i + unat ?num) ?c) =
        take (unat n) (drop (mb_pos bl i) ?c)"
      using w(3) [OF False] num(2) take_add [of "unat ?num" "unat n - unat ?num" "drop (mb_pos bl i) ?c"] by (simp add: add.commute)
    ultimately show ?thesis
      using enough False c 1(1) [OF enough False c 1(2) p(2)] q n p(1) by (subst mb_peek.simps) simp
  qed
qed

section \<open>Writing\<close>

definition overwrite :: "nat \<Rightarrow> 'a list \<Rightarrow> 'a list \<Rightarrow> 'a list" where
  "overwrite p x c = take p c @ x @ drop (p + length x) c"

lemma overwrite_simps [simp]: "overwrite p [] c = c" "p + length x \<le> length c \<Longrightarrow> length (overwrite p x c) = length c"
  by (simp_all add: overwrite_def)

lemma overwrite_twice: "p + length x \<le> length c \<Longrightarrow> overwrite (p + length x) y (overwrite p x c) = overwrite p (x @ y) c"
  by (simp add: overwrite_def ac_simps)

lemma overwrite_slice:
  assumes "r \<le> p" "p + length x \<le> length c"
  shows "take (p + length x - r) (drop r (overwrite p x c)) = take (p - r) (drop r c) @ x"
proof -
  have "drop r (overwrite p x c) = take (p - r) (drop r c) @ x @ drop (p + length x) c"
    using assms by (simp add: overwrite_def drop_take)
  moreover have "length (take (p - r) (drop r c)) = p - r" using assms by simp
  ultimately show ?thesis using assms(1) by simp
qed

text \<open>Filling a sequence of buffers in order, as a read of Boost.Asio does.\<close>

fun fill_sequence :: "(nat \<times> nat \<times> nat) list \<Rightarrow> u8 list \<Rightarrow> u8 list list \<Rightarrow> u8 list list" where
  "fill_sequence [] d bs = bs"
| "fill_sequence ((i, k, l) # seq) d bs =
     fill_sequence seq (drop l d) (bs[i := overwrite k (take l d) (bs ! i)])"

lemma concat_overwrite:
  assumes "\<forall>b \<in> set bs. length b = L" "i < length bs" "k + length x \<le> L"
  shows "concat (bs[i := overwrite k x (bs ! i)]) = overwrite (i * L + k) x (concat bs)"
proof -
  have t: "length (concat (take i bs)) = i * L"
    using length_concat_equal [of "take i bs" L] assms(1,2) by (auto dest: in_set_takeD)
  have b: "length (bs ! i) = L" using assms(1,2) by simp
  have c: "concat bs = concat (take i bs) @ bs ! i @ concat (drop (Suc i) bs)"
    by (metis append.assoc assms(2) concat.simps(2) concat_append id_take_nth_drop)
  show ?thesis
    using assms b t by (subst c) (simp add: upd_conv_take_nth_drop overwrite_def)
qed

lemma lengths_update: "\<forall>b \<in> set bs. length b = L \<Longrightarrow> length x = L \<Longrightarrow> \<forall>b \<in> set (bs[i := x]). length b = L"
  by (metis insertE set_update_subset_insert subsetD)

lemma fill_lengths:
  assumes "\<forall>b \<in> set bs. length b = L" "\<forall>(i, k, l) \<in> set seq. i < length bs \<and> k + l \<le> L"
  shows "length (fill_sequence seq d bs) = length bs \<and> (\<forall>b \<in> set (fill_sequence seq d bs). length b = L)"
  using assms
proof (induction seq d bs rule: fill_sequence.induct)
  case (2 i k l seq d bs)
  let ?bs = "bs[i := overwrite k (take l d) (bs ! i)]"
  have "length (bs ! i) = L" "k + l \<le> L" using 2(2,3) by simp_all
  then have "length (overwrite k (take l d) (bs ! i)) = L" by (simp add: min_le_iff_disj)
  then have l: "\<forall>b \<in> set ?bs. length b = L" using 2(2) by (intro lengths_update)
  have "\<forall>(i, k, l) \<in> set seq. i < length ?bs \<and> k + l \<le> L" using 2(3) unfolding length_list_update by (metis list.set_intros(2))
  from 2(1) [OF l this] show ?case unfolding fill_sequence.simps length_list_update .
qed simp

lemma fill_rest:
  assumes "\<forall>b \<in> set bs. length b = L" "j \<le> length bs" "length d \<le> (length bs - j) * L"
  shows "concat (fill_sequence (map (\<lambda>i. (i, 0, L)) [j..<length bs]) d bs) = overwrite (j * L) d (concat bs)"
  using assms
proof (induction "length bs - j" arbitrary: j d bs)
  case (Suc n)
  let ?bs = "bs[j := overwrite 0 (take L d) (bs ! j)]"
  have j: "j < length bs" using Suc(2) by simp
  have l: "\<forall>b \<in> set ?bs. length b = L"
    using Suc(3) j by (intro lengths_update) simp_all
  have c: "concat ?bs = overwrite (j * L) (take L d) (concat bs)"
    using concat_overwrite [OF Suc(3) j, of 0 "take L d"] by simp
  have "concat (fill_sequence (map (\<lambda>i. (i, 0, L)) [j..<length bs]) d bs) = overwrite (Suc j * L) (drop L d) (concat ?bs)"
    using Suc(1) [of ?bs "Suc j" "drop L d"] Suc(2,5) j l by (simp add: upt_conv_Cons diff_mult_distrib)
  also have "... = overwrite (j * L) d (concat bs)"
  proof (cases "length d \<le> L")
    case True
    then show ?thesis using c by simp
  next
    case False
    have "j * L + length (take L d) \<le> length (concat bs)"
      using length_concat_equal [OF Suc(3)] mult_le_mono1 [of "Suc j" "length bs" L] j False by simp
    from overwrite_twice [OF this, of "drop L d"] show ?thesis using False by (simp add: c add.commute)
  qed
  finally show ?case .
qed auto

lemma bytes_to_write_room:
  assumes "mb_ok bl mb"
  shows "unat (mb_bytes_to_write bl mb) = length (mb_buffers mb) * unat bl - mb_pos bl (mb_write_ind mb)"
proof -
  note d = mb_okD [OF assms]
  have "mb_bytes_to_write bl mb = of_nat (length (mb_buffers mb) * unat bl) - of_nat (mb_pos bl (mb_write_ind mb))"
    by (simp add: mb_bytes_to_write_def mb_total_bytes_def mb_pos_word algebra_simps)
  also have "... = of_nat (length (mb_buffers mb) * unat bl - mb_pos bl (mb_write_ind mb))" using d(8) by (simp add: of_nat_diff)
  finally have "mb_bytes_to_write bl mb = of_nat (length (mb_buffers mb) * unat bl - mb_pos bl (mb_write_ind mb))" .
  moreover have "length (mb_buffers mb) * unat bl - mb_pos bl (mb_write_ind mb) < 2 ^ 32" using d(2) unfolding mb_fits_def by linarith
  ultimately show ?thesis by (simp add: unsigned_of_nat take_bit_nat_eq_self)
qed

definition mb_receive :: "u32 \<Rightarrow> u8 list \<Rightarrow> u8 list \<Rightarrow> mbuf \<Rightarrow> mbuf res" where
  "mb_receive bl blank d mb =
     bindE (mb_get_buffer_sequence bl mb) (\<lambda>seq.
     Inr (mb_advance_write_ptr bl blank (of_nat (length d)) (mb\<lparr>mb_buffers := fill_sequence seq d (mb_buffers mb)\<rparr>)))"

lemma sequence_fills:
  assumes ok: "mb_ok bl mb" and d: "length d \<le> unat (mb_bytes_to_write bl mb)"
  obtains seq where "mb_get_buffer_sequence bl mb = Inr seq" "length (fill_sequence seq d (mb_buffers mb)) = length (mb_buffers mb)"
    "\<forall>b \<in> set (fill_sequence seq d (mb_buffers mb)). length b = unat bl"
    "concat (fill_sequence seq d (mb_buffers mb)) = overwrite (mb_pos bl (mb_write_ind mb)) d (concat (mb_buffers mb))"
proof -
  note m = mb_okD [OF ok] and room = bytes_to_write_room [OF ok]
  let ?w = "mb_write_ind mb" and ?bs = "mb_buffers mb" and ?L = "unat bl"
  let ?f = "unat (fst ?w)" and ?k = "unat (snd ?w)"
  let ?seq = "(?f, ?k, ?L - ?k) # map (\<lambda>i. (i, 0, ?L)) [Suc ?f..<length ?bs]"
  have k: "?k < ?L" "unat (bl - snd ?w) = ?L - ?k" using m(5) unat_sub [of "snd ?w" bl] by (simp_all add: word_less_nat_alt word_le_nat_alt)
  have "?L * length ?bs < 2 ^ 32" using m(2) by (simp add: mb_fits_def mult.commute)
  moreover have "length ?bs \<le> ?L * length ?bs" using m(11) by simp
  ultimately have "Suc ?f < 2 ^ 32" using m(6) by linarith
  then have s: "unat (fst ?w + 1) = Suc ?f" using unat_add_lem [of "fst ?w" 1] by simp
  have seq: "mb_get_buffer_sequence bl mb = Inr ?seq"
    using m(5,6) k(2) s by (simp add: mb_get_buffer_sequence_def mb_get_ptr_def)
  have l: "length (fill_sequence ?seq d ?bs) = length ?bs \<and> (\<forall>b \<in> set (fill_sequence ?seq d ?bs). length b = ?L)"
    using k(1) m(6) by (intro fill_lengths [OF m(1)]) auto
  let ?b1 = "?bs[?f := overwrite ?k (take (?L - ?k) d) (?bs ! ?f)]"
  have c1: "concat ?b1 = overwrite (mb_pos bl ?w) (take (?L - ?k) d) (concat ?bs)"
    unfolding mb_pos_def using concat_overwrite [OF m(1,6), of ?k "take (?L - ?k) d"] k(1) by simp
  have "length (overwrite ?k (take (?L - ?k) d) (?bs ! ?f)) = ?L"
    using m(1,6) k(1) by (subst overwrite_simps(2)) auto
  then have l1: "\<forall>b \<in> set ?b1. length b = ?L" using m(1) by (intro lengths_update)
  have "length (drop (?L - ?k) d) \<le> (length ?bs - Suc ?f) * ?L"
    using d room m(6) by (simp add: mb_pos_def diff_mult_distrib)
  then have "concat (fill_sequence ?seq d ?bs) = overwrite (Suc ?f * ?L) (drop (?L - ?k) d) (concat ?b1)"
    using fill_rest [OF l1, of "Suc ?f" "drop (?L - ?k) d"] m(6) by simp
  also have "... = overwrite (mb_pos bl ?w) d (concat ?bs)"
  proof (cases "length d \<le> ?L - ?k")
    case True
    then show ?thesis using c1 by simp
  next
    case False
    have e: "mb_pos bl ?w + length (take (?L - ?k) d) = Suc ?f * ?L" using False k(1) by (simp add: mb_pos_def)
    also have "... \<le> length (concat ?bs)" unfolding m(10) using m(6) by (intro mult_le_mono1) simp
    finally show ?thesis using overwrite_twice [of "mb_pos bl ?w" "take (?L - ?k) d" "concat ?bs" "drop (?L - ?k) d"] c1 e by simp
  qed
  finally show thesis using that seq l by blast
qed

lemma add_buffer_ok:
  assumes "mb_ok bl mb" "length blank = unat bl" "mb_fits bl (Suc (length (mb_buffers mb)))"
  shows "mb_ok bl (mb_add_buffer_to_chain blank mb)" "mb_content bl (mb_add_buffer_to_chain blank mb) = mb_content bl mb"
  using assms mb_okD [OF assms(1)] by (auto simp: mb_ok_def mb_content_def mb_add_buffer_to_chain_def)

lemma receive_content:
  assumes ok: "mb_ok bl mb" and d: "length d \<le> unat (mb_bytes_to_write bl mb)"
    and room: "length blank = unat bl" "mb_fits bl (Suc (length (mb_buffers mb)))"
  obtains mb' where "mb_receive bl blank d mb = Inr mb'" "mb_ok bl mb'" "mb_content bl mb' = mb_content bl mb @ d"
proof -
  note m = mb_okD [OF ok] and w = bytes_to_write_room [OF ok]
  obtain seq where seq: "mb_get_buffer_sequence bl mb = Inr seq" "length (fill_sequence seq d (mb_buffers mb)) = length (mb_buffers mb)"
    "\<forall>b \<in> set (fill_sequence seq d (mb_buffers mb)). length b = unat bl"
    "concat (fill_sequence seq d (mb_buffers mb)) = overwrite (mb_pos bl (mb_write_ind mb)) d (concat (mb_buffers mb))"
    by (rule sequence_fills [OF ok d])
  let ?i = "mb_advance_index bl (of_nat (length d)) (mb_write_ind mb)"
  let ?m = "mb\<lparr>mb_buffers := fill_sequence seq d (mb_buffers mb), mb_write_ind := ?i\<rparr>"
  have n: "mb_pos bl (mb_write_ind mb) + length d \<le> length (mb_buffers mb) * unat bl" "length (mb_buffers mb) * unat bl < 2 ^ 32"
    using d w m(2,8) by (simp_all add: mb_fits_def)
  then have u: "unat (of_nat (length d) :: u32) = length d" by (simp add: unsigned_of_nat take_bit_nat_eq_self)
  have p: "mb_pos bl ?i = mb_pos bl (mb_write_ind mb) + length d" "snd ?i < bl"
    using advance_pos [OF m(5), of "of_nat (length d)"] n u by simp_all
  have le: "unat (fst ?i) \<le> length (mb_buffers mb)"
    using div_le_mono [OF n(1), of "unat bl"] mb_pos_div(1) [OF p(2)] p(1) m(11) by simp
  let ?f = "if unat (fst ?i) = length (mb_buffers mb) then mb_add_buffer_to_chain blank ?m else ?m"
  have r: "mb_receive bl blank d mb = Inr ?f"
    using push_back_one [of ?m blank] le seq(1,2) by (simp add: mb_receive_def mb_advance_write_ptr_def)
  have "mb_ok bl ?f"
    using m seq(2,3) p room le by (auto simp: mb_ok_def mb_add_buffer_to_chain_def)
  moreover have "mb_content bl ?f = mb_content bl mb @ d"
    using overwrite_slice [OF m(7), of d "concat (mb_buffers mb)"] n(1) m(7,10) seq(4)
    by (simp add: mb_content_def p(1) mb_add_buffer_to_chain_def)
  ultimately show thesis by (rule that [OF r])
qed

section \<open>The queue\<close>

datatype mb_op =
    Mb_receive "u8 list"
  | Mb_read u32
  | Mb_peek u32
  | Mb_skip u32
  | Mb_reset
  | Mb_add_buffer
  | Mb_add_space u32

definition mb_unit :: "mbuf \<Rightarrow> mbuf res \<Rightarrow> u8 list res \<times> mbuf" where
  "mb_unit mb r = (case r of Inl e \<Rightarrow> (Inl e, mb) | Inr mb' \<Rightarrow> (Inr [], mb'))"

fun mb_exec :: "u32 \<Rightarrow> u8 list \<Rightarrow> mb_op \<Rightarrow> mbuf \<Rightarrow> u8 list res \<times> mbuf" where
  "mb_exec bl blank (Mb_receive d) mb = mb_unit mb (mb_receive bl blank d mb)"
| "mb_exec bl blank (Mb_read n) mb = mb_read bl n mb"
| "mb_exec bl blank (Mb_peek n) mb = (fst (mb_peek bl n mb (mb_read_ind mb)), mb)"
| "mb_exec bl blank (Mb_skip n) mb = mb_unit mb (mb_advance_read_ptr bl n mb)"
| "mb_exec bl blank Mb_reset mb = mb_unit mb (mb_reset mb)"
| "mb_exec bl blank Mb_add_buffer mb = (Inr [], mb_add_buffer_to_chain blank mb)"
| "mb_exec bl blank (Mb_add_space n) mb = (Inr [], mb_add_space bl blank n mb)"

text \<open>
  What the caller has to respect: not to write or skip more than there is, and to keep the
  chain within its bounds.
\<close>

fun mb_allowed :: "u32 \<Rightarrow> mb_op \<Rightarrow> mbuf \<Rightarrow> bool" where
  "mb_allowed bl (Mb_receive d) mb \<longleftrightarrow>
     length d \<le> unat (mb_bytes_to_write bl mb) \<and> mb_fits bl (Suc (length (mb_buffers mb)))"
| "mb_allowed bl (Mb_skip n) mb \<longleftrightarrow> n \<le> mb_bytes_to_read bl mb"
| "mb_allowed bl Mb_add_buffer mb \<longleftrightarrow> mb_fits bl (Suc (length (mb_buffers mb)))"
| "mb_allowed bl (Mb_add_space n) mb \<longleftrightarrow> mb_fits bl (length (mb_buffers mb) + unat n div unat bl + 1)"
| "mb_allowed bl _ mb \<longleftrightarrow> True"

text \<open>The specification: a queue of bytes.\<close>

fun queue_exec :: "mb_op \<Rightarrow> u8 list \<Rightarrow> u8 list res \<times> u8 list" where
  "queue_exec (Mb_receive d) q = (Inr [], q @ d)"
| "queue_exec (Mb_read n) q =
     (if unat n \<le> length q then (Inr (take (unat n) q), drop (unat n) q) else (Inl Out_of_range, q))"
| "queue_exec (Mb_peek n) q = (if unat n \<le> length q then (Inr (take (unat n) q), q) else (Inl Out_of_range, q))"
| "queue_exec (Mb_skip n) q = (Inr [], drop (unat n) q)"
| "queue_exec Mb_reset q = (Inr [], [])"
| "queue_exec _ q = (Inr [], q)"

lemma add_buffers_ok:
  assumes "mb_ok bl mb" "length blank = unat bl" "mb_fits bl (length (mb_buffers mb) + k)"
  shows "mb_ok bl ((mb_add_buffer_to_chain blank ^^ k) mb) \<and>
    mb_content bl ((mb_add_buffer_to_chain blank ^^ k) mb) = mb_content bl mb \<and>
    length (mb_buffers ((mb_add_buffer_to_chain blank ^^ k) mb)) = length (mb_buffers mb) + k"
  using assms(3)
proof (induction k)
  case (Suc k)
  have "mb_fits bl (length (mb_buffers mb) + k)" by (rule mb_fits_mono [OF Suc.prems]) simp
  note IH = Suc.IH [OF this]
  have "mb_fits bl (Suc (length (mb_buffers ((mb_add_buffer_to_chain blank ^^ k) mb))))" using IH Suc.prems by simp
  from add_buffer_ok [OF _ assms(2) this] IH show ?case by (simp add: mb_add_buffer_to_chain_def [of blank "(_ ^^ k) mb"])
qed (use assms in simp)

lemma add_space_ok:
  assumes "mb_ok bl mb" "length blank = unat bl" "mb_fits bl (length (mb_buffers mb) + unat n div unat bl + 1)"
  shows "mb_ok bl (mb_add_space bl blank n mb) \<and> mb_content bl (mb_add_space bl blank n mb) = mb_content bl mb"
proof -
  have s: "unat n div unat bl + 1 \<le> 1000000" using assms(3) by (simp add: mb_fits_def)
  then have "unat (n div bl + 1) = unat n div unat bl + 1"
    using unat_add_lem [of "n div bl" 1] unfolding unat_div_distrib by simp
  then have u: "uint (n div bl + 1) = int (unat n div unat bl + 1)" by (metis uint_nat)
  then have "nat (as_int (uint (n div bl + 1))) = unat n div unat bl + 1" using s by (simp add: as_int_id)
  then show ?thesis using add_buffers_ok [OF assms(1,2), of "unat n div unat bl + 1"] assms(3)
    by (simp only: mb_add_space_def Let_def add.assoc simp_thms)
qed

lemma reset_ok:
  assumes "mb_ok bl mb"
  shows "\<exists>mb'. mb_reset mb = Inr mb' \<and> mb_ok bl mb' \<and> mb_content bl mb' = []"
proof -
  note d = mb_okD [OF assms]
  obtain x xs where x: "mb_buffers mb = x # xs" using d(6) by (cases "mb_buffers mb") auto
  show ?thesis
    using d(1-4,11) x by (auto simp: mb_reset_def pop_back_take mb_ok_def mb_fits_def mb_content_def mb_pos_def word_gt_0 unat_gt_0)
qed

lemma mb_exec_queue:
  assumes ok: "mb_ok bl mb" and blank: "length blank = unat bl" and allowed: "mb_allowed bl x mb"
    and x: "mb_exec bl blank x mb = (r, mb')"
  shows "(r, mb_content bl mb') = queue_exec x (mb_content bl mb)" "mb_ok bl mb'"
proof -
  have "(r, mb_content bl mb') = queue_exec x (mb_content bl mb) \<and> mb_ok bl mb'"
  proof (cases x)
    case (Mb_receive d)
    obtain m where "mb_receive bl blank d mb = Inr m" "mb_ok bl m" "mb_content bl m = mb_content bl mb @ d"
      using receive_content [OF ok _ blank] allowed Mb_receive by auto
    then show ?thesis using x Mb_receive by (auto simp: mb_unit_def)
  next
    case (Mb_read n)
    show ?thesis
    proof (cases "unat n \<le> length (mb_content bl mb)")
      case True
      then show ?thesis using mb_read_content [OF ok True] x Mb_read by auto
    next
      case False
      then have "mb_bytes_to_read bl mb < n" using bytes_to_read_content [OF ok] by (simp add: word_less_nat_alt)
      then show ?thesis using x Mb_read False ok by (auto simp: mb_read.simps [of bl n mb])
    qed
  next
    case (Mb_peek n)
    note d = mb_okD [OF ok] and l = length_content [OF ok]
    show ?thesis
    proof (cases "unat n \<le> length (mb_content bl mb)")
      case True
      then have "mb_pos bl (mb_read_ind mb) + unat n \<le> mb_pos bl (mb_write_ind mb)" using l d(7) by simp
      from mb_peek_content [OF ok d(4) this] show ?thesis using x Mb_peek True ok l by (auto simp: mb_content_def)
    next
      case False
      then have "mb_bytes_to_read_from_index bl (mb_read_ind mb) mb < n"
        using bytes_to_read_content [OF ok] by (simp add: word_less_nat_alt mb_bytes_to_read_def)
      then show ?thesis using x Mb_peek False ok by (auto simp: mb_peek.simps [of bl n mb])
    qed
  next
    case (Mb_skip n)
    then have "unat n \<le> length (mb_content bl mb)"
      using allowed bytes_to_read_content [OF ok] by (simp add: word_le_nat_alt)
    then obtain m where "mb_advance_read_ptr bl n mb = Inr m" "mb_ok bl m" "mb_content bl m = drop (unat n) (mb_content bl mb)"
      by (rule advance_read_content [OF ok])
    then show ?thesis using x Mb_skip by (auto simp: mb_unit_def)
  next
    case Mb_reset
    then show ?thesis using reset_ok [OF ok] x by (auto simp: mb_unit_def)
  next
    case Mb_add_buffer
    then show ?thesis using add_buffer_ok [OF ok blank] x allowed by auto
  next
    case (Mb_add_space n)
    then show ?thesis using add_space_ok [OF ok blank] x allowed by auto
  qed
  then show "(r, mb_content bl mb') = queue_exec x (mb_content bl mb)" "mb_ok bl mb'" by blast+
qed

text \<open>A run of operations, each of them allowed where it is performed, with the results.\<close>

fun mb_run :: "u32 \<Rightarrow> u8 list \<Rightarrow> mb_op list \<Rightarrow> mbuf \<Rightarrow> (u8 list res list \<times> mbuf) option" where
  "mb_run bl blank [] mb = Some ([], mb)"
| "mb_run bl blank (x # xs) mb =
     (if mb_allowed bl x mb
      then let (r, mb') = mb_exec bl blank x mb in map_option (\<lambda>(rs, mb''). (r # rs, mb'')) (mb_run bl blank xs mb')
      else None)"

fun queue_run :: "mb_op list \<Rightarrow> u8 list \<Rightarrow> u8 list res list \<times> u8 list" where
  "queue_run [] q = ([], q)"
| "queue_run (x # xs) q = (let (r, q') = queue_exec x q; (rs, q'') = queue_run xs q' in (r # rs, q''))"

lemma mb_run_queue:
  assumes "mb_ok bl mb" "length blank = unat bl" "mb_run bl blank xs mb = Some (rs, mb')"
  shows "queue_run xs (mb_content bl mb) = (rs, mb_content bl mb') \<and> mb_ok bl mb'"
  using assms(1,3)
proof (induction xs arbitrary: mb rs)
  case (Cons x xs)
  obtain r m where x: "mb_exec bl blank x mb = (r, m)" by fastforce
  have a: "mb_allowed bl x mb" using Cons.prems(2) by (simp split: if_splits)
  then obtain rs' where rs: "mb_run bl blank xs m = Some (rs', mb')" "rs = r # rs'" using Cons.prems(2) x by auto
  note q = mb_exec_queue [OF Cons.prems(1) assms(2) a x]
  from Cons.IH [OF q(2) rs(1)] q(1) [symmetric] rs(2) show ?case by simp
qed simp

lemma mb_new_ok:
  assumes "0 < bl" "length blank = unat bl"
  shows "mb_ok bl (mb_new blank)" "mb_content bl (mb_new blank) = []"
proof -
  have "unat bl < 2 ^ LENGTH(32)" by (rule unsigned_less)
  then show "mb_ok bl (mb_new blank)" "mb_content bl (mb_new blank) = []"
    using assms by (simp_all add: mb_ok_def mb_new_def mb_fits_def mb_content_def mb_pos_def)
qed

text \<open>
  C39: a message buffer is a queue of bytes. For every run of operations that respects the bounds
  of the chain, of any buffer size and starting with a new buffer: every read and every peek
  returns the oldest bytes not yet read, or throws when there are not enough of them and
  changes nothing; receiving appends, skipping and resetting discard, adding space changes
  nothing; and the number of bytes to read is the length of the queue.
\<close>

theorem message_buffer_queue:
  assumes "0 < bl" "length blank = unat bl" "mb_run bl blank xs (mb_new blank) = Some (rs, mb)"
  shows "queue_run xs [] = (rs, mb_content bl mb) \<and> unat (mb_bytes_to_read bl mb) = length (mb_content bl mb)"
  using mb_run_queue [OF mb_new_ok(1) [OF assms(1,2)] assms(2,3)] mb_new_ok(2) [OF assms(1,2)] bytes_to_read_content
  by auto

theorem message_buffer_queue_witness:
  "\<exists>mb. mb_run 2 [0, 0] [Mb_receive [5], Mb_add_space 3, Mb_receive [6, 7, 8], Mb_read 3, Mb_peek 2, Mb_read 1] (mb_new [0, 0]) =
      Some ([Inr [], Inr [], Inr [], Inr [5, 6, 7], Inl Out_of_range, Inr [8]], mb) \<and> mb_content 2 mb = []"
proof -
  let ?xs = "[Mb_receive [5], Mb_add_space 3, Mb_receive [6, 7, 8], Mb_read 3, Mb_peek 2, Mb_read 1]"
  have "mb_run 2 [0, 0] ?xs (mb_new [0, 0]) \<noteq> None" by code_simp
  then obtain rs mb where r: "mb_run 2 [0, 0] ?xs (mb_new [0, 0]) = Some (rs, mb)" by auto
  have "queue_run ?xs [] = ([Inr [], Inr [], Inr [], Inr [5, 6, 7], Inl Out_of_range, Inr [8]], [])" by code_simp
  then show ?thesis using message_buffer_queue [OF _ _ r] r by simp
qed

text \<open>
  Skipping is not checked: a stream that skips past the bytes received drops buffers the chain
  does not have.
\<close>

theorem skip_past_end: "mbds_skip 2 5 (mb_new [0, 0]) = Inl Undefined_behaviour"
  by code_simp

end
