(* ===== verification/Base64.thy ===== *)
theory Base64
  imports Iterator_Cache
begin

text \<open>
  \<open>fc/src/crypto/base64.cpp\<close>: encoding of bytes in an alphabet of 64 characters and decoding,
  for the standard and the URL alphabet. Text is a list of characters. The loops collect a group of
  three bytes or four characters before they work on it, as the arrays of the source do. The
  lengths keep their types: \<open>base64_encode\<close> takes the size of its argument as an \<open>unsigned int\<close> and
  decoding counts down in an \<open>int\<close>. \<open>FC_ASSERT\<close> throws \<open>Assert_failed\<close>.
\<close>

unbundle bit_operations_syntax

section \<open>Encoding\<close>

definition base64_chars :: string where
  "base64_chars = ''ABCDEFGHIJKLMNOPQRSTUVWXYZ'' @ ''abcdefghijklmnopqrstuvwxyz'' @ ''0123456789+/''"

definition base64url_chars :: string where
  "base64url_chars = ''ABCDEFGHIJKLMNOPQRSTUVWXYZ'' @ ''abcdefghijklmnopqrstuvwxyz'' @ ''0123456789-_''"

fun char_array_4 :: "u8 list \<Rightarrow> u8 list" where
  "char_array_4 [x, y, z] =
     [drop_bit 2 (x AND 0xfc), push_bit 4 (x AND 0x03) + drop_bit 4 (y AND 0xf0),
      push_bit 2 (y AND 0x0f) + drop_bit 6 (z AND 0xc0), z AND 0x3f]"
| "char_array_4 _ = []"

definition b64_text :: "string \<Rightarrow> u8 list \<Rightarrow> string" where
  "b64_text b64_chars xs = map (\<lambda>x. b64_chars ! unat x) xs"

fun encode_loop :: "string \<Rightarrow> u8 list \<Rightarrow> u8 list \<Rightarrow> string \<Rightarrow> u8 list \<times> string" where
  "encode_loop b64_chars char_array_3 [] ret = (char_array_3, ret)"
| "encode_loop b64_chars char_array_3 (b # bs) ret =
     (let a = char_array_3 @ [b] in
      if length a = 3 then encode_loop b64_chars [] bs (ret @ b64_text b64_chars (char_array_4 a))
      else encode_loop b64_chars a bs ret)"

definition base64_encode_impl :: "u8 list \<Rightarrow> string \<Rightarrow> string" where
  "base64_encode_impl bytes_to_encode b64_chars =
     (let (char_array_3, ret) = encode_loop b64_chars [] bytes_to_encode []; i = length char_array_3 in
      if i \<noteq> 0
      then ret @ b64_text b64_chars (take (i + 1) (char_array_4 (char_array_3 @ replicate (3 - i) 0))) @ replicate (3 - i) (CHR ''='')
      else ret)"

definition base64_encode :: "u8 list \<Rightarrow> string" where
  "base64_encode enc = base64_encode_impl (take (unat (of_nat (length enc) :: u32)) enc) base64_chars"

definition base64url_encode :: "u8 list \<Rightarrow> string" where
  "base64url_encode enc = base64_encode_impl (take (unat (of_nat (length enc) :: u32)) enc) base64url_chars"

section \<open>Decoding\<close>

definition isalnum :: "char \<Rightarrow> bool" where
  "isalnum c \<longleftrightarrow>
     (let n = of_char c :: nat in 48 \<le> n \<and> n \<le> 57 \<or> 65 \<le> n \<and> n \<le> 90 \<or> 97 \<le> n \<and> n \<le> 122)"

definition throw_on_nonbase64 :: "char \<Rightarrow> string \<Rightarrow> unit res" where
  "throw_on_nonbase64 c b64_chars =
     assertE (isalnum c \<or> c = b64_chars ! 62 \<or> c = b64_chars ! 63) ''encountered non-base64 character''"

text \<open>\<open>strchr\<close> finds the terminating zero as well; a null pointer is no position.\<close>

fun strchr :: "string \<Rightarrow> char \<Rightarrow> nat option" where
  "strchr [] c = (if c = CHR 0x00 then Some 0 else None)"
| "strchr (x # xs) c = (if x = c then Some 0 else map_option Suc (strchr xs c))"

definition b64_position :: "string \<Rightarrow> char \<Rightarrow> u8 res" where
  "b64_position b64_chars c = bindE (someE (strchr b64_chars c) Undefined_behaviour) (\<lambda>i. Inr (of_nat i))"

fun char_array_3 :: "u8 list \<Rightarrow> u8 list" where
  "char_array_3 [a, b, c, d] =
     [push_bit 2 a + drop_bit 4 (b AND 0x30), push_bit 4 (b AND 0xf) + drop_bit 2 (c AND 0x3c), push_bit 6 (c AND 0x3) + d]"
| "char_array_3 _ = []"

fun b64_positions :: "string \<Rightarrow> string \<Rightarrow> u8 list res" where
  "b64_positions b64_chars [] = Inr []"
| "b64_positions b64_chars (c # cs) =
     bindE (b64_position b64_chars c) (\<lambda>x. bindE (b64_positions b64_chars cs) (\<lambda>xs. Inr (x # xs)))"

fun decode_loop :: "string \<Rightarrow> string \<Rightarrow> string \<Rightarrow> u8 list \<Rightarrow> (string \<times> string \<times> u8 list) res" where
  "decode_loop b64_chars a [] ret = Inr (a, [], ret)"
| "decode_loop b64_chars a (c # cs) ret =
     (if c = CHR ''='' then Inr (a, c # cs, ret)
      else bindE (throw_on_nonbase64 c b64_chars) (\<lambda>_.
        let a' = a @ [c] in
        if length a' = 4
        then bindE (b64_positions b64_chars a') (\<lambda>xs. decode_loop b64_chars [] cs (ret @ char_array_3 xs))
        else decode_loop b64_chars a' cs ret))"

text \<open>
  The number of characters the loop may take before its counter is used up. The counter of a
  longer text is negative, and decrementing it below the range of \<open>int\<close> is undefined.
\<close>

definition in_len :: "string \<Rightarrow> int" where
  "in_len s = as_int (int (length s))"

definition base64_decode_impl :: "string \<Rightarrow> string \<Rightarrow> u8 list res" where
  "base64_decode_impl encoded_string b64_chars =
     (let n = in_len encoded_string in
      bindE (decode_loop b64_chars [] (take (nat (if n < 0 then n + 2 ^ 31 else n)) encoded_string) []) (\<lambda>(a, rest, ret).
      if n < 0 \<and> rest = [] then Inl Undefined_behaviour
      else if a \<noteq> []
      then bindE (b64_positions b64_chars (a @ replicate (4 - length a) (CHR 0x00))) (\<lambda>xs.
           Inr (ret @ take (length a - 1) (char_array_3 xs)))
      else Inr ret))"

definition base64_decode :: "string \<Rightarrow> u8 list res" where
  "base64_decode encoded_string = base64_decode_impl encoded_string base64_chars"

definition base64url_decode :: "string \<Rightarrow> u8 list res" where
  "base64url_decode encoded_string = base64_decode_impl encoded_string base64url_chars"

section \<open>Groups\<close>

lemma eight: "n < 8 \<Longrightarrow> n = 0 \<or> n = 1 \<or> n = 2 \<or> n = 3 \<or> n = 4 \<or> n = 5 \<or> n = 6 \<or> n = (7::nat)"
  by arith

lemma u8_eqI: "(\<And>n. n \<in> {0, 1, 2, 3, 4, 5, 6, 7} \<Longrightarrow> bit a n = bit b n) \<Longrightarrow> a = (b :: u8)"
  by (rule bit_word_eqI) (use eight in force)

text \<open>Sums of words without a common bit are computed bit by bit.\<close>

lemma u8_sumI:
  assumes "\<And>n. n \<in> {0, 1, 2, 3, 4, 5, 6, 7} \<Longrightarrow> \<not> (bit a n \<and> bit b n)"
    and "\<And>n. n \<in> {0, 1, 2, 3, 4, 5, 6, 7} \<Longrightarrow> bit a n \<or> bit b n \<longleftrightarrow> bit c n"
  shows "a + b = (c :: u8)"
proof -
  have "a AND b = 0" using assms(1) by (intro u8_eqI) (simp only: bit_and_iff bit_0_eq bot_fun_def bot_bool_def simp_thms)
  then have "a + b = a OR b" by (rule disjunctive_add_eq_or)
  also have "... = c" using assms(2) by (intro u8_eqI) (simp only: bit_or_iff)
  finally show ?thesis .
qed

lemma sums_disjoint:
  "push_bit 4 (x AND 0x03) + drop_bit 4 (y AND 0xf0) = push_bit 4 (x AND 0x03) OR drop_bit 4 (y AND 0xf0 :: u8)"
  "push_bit 2 (y AND 0x0f) + drop_bit 6 (z AND 0xc0) = push_bit 2 (y AND 0x0f) OR drop_bit 6 (z AND 0xc0 :: u8)"
  by (rule u8_sumI; auto simp: bit_simps)+

lemma group_round_trip:
  "push_bit 2 (drop_bit 2 (x AND 0xfc)) + drop_bit 4 ((push_bit 4 (x AND 0x03) OR drop_bit 4 (y AND 0xf0)) AND 0x30) = (x :: u8)"
  "push_bit 4 ((push_bit 4 (x AND 0x03) OR drop_bit 4 (y AND 0xf0)) AND 0xf) +
     drop_bit 2 ((push_bit 2 (y AND 0x0f) OR drop_bit 6 (z AND 0xc0)) AND 0x3c) = (y :: u8)"
  "push_bit 6 ((push_bit 2 (y AND 0x0f) OR drop_bit 6 (z AND 0xc0)) AND 0x3) + (z AND 0x3f) = (z :: u8)"
  by (rule u8_sumI; auto simp: bit_simps; simp add: numeral_2_eq_2 numeral_3_eq_3)+

lemma array_round_trip: "char_array_3 (char_array_4 [x, y, z]) = [x, y, z]"
  by (simp only: char_array_4.simps char_array_3.simps sums_disjoint group_round_trip)

text \<open>
  The last group: the positions that were cut off are replaced by that of the terminating zero,
  which has no bit in common with the masks.
\<close>

lemma last_round_trip:
  "take 1 (char_array_3 (take 2 (char_array_4 [x, 0, 0]) @ [64, 64])) = [x]"
  "take 2 (char_array_3 (take 3 (char_array_4 [x, y, 0]) @ [64])) = [x, y]"
  using group_round_trip(1) [of x 0] group_round_trip(1) [of x y] group_round_trip(2) [of x y 0]
  unfolding char_array_4.simps sums_disjoint by (simp_all add: numeral_3_eq_3)

lemma array_small: "\<forall>i \<in> set (char_array_4 [x, y, z]). unat i < 64"
proof -
  have small: "unat i < 64" if "i AND 0x3f = i" for i :: u8
    using word_and_le1 [of i "0x3f"] that by (simp add: word_le_nat_alt)
  have "drop_bit 2 (x AND 0xfc) AND 0x3f = drop_bit 2 (x AND 0xfc)"
    "(push_bit 4 (x AND 0x03) OR drop_bit 4 (y AND 0xf0)) AND 0x3f = push_bit 4 (x AND 0x03) OR drop_bit 4 (y AND 0xf0)"
    "(push_bit 2 (y AND 0x0f) OR drop_bit 6 (z AND 0xc0)) AND 0x3f = push_bit 2 (y AND 0x0f) OR drop_bit 6 (z AND 0xc0)"
    "(z AND 0x3f) AND 0x3f = z AND 0x3f"
    by (rule u8_eqI; auto simp: bit_simps)+
  from this [THEN small] show ?thesis unfolding char_array_4.simps sums_disjoint by simp
qed

fun whole :: "'a list \<Rightarrow> 'a list \<times> 'a list" where
  "whole (x # y # z # bs) = (let (w, t) = whole bs in (x # y # z # w, t))"
| "whole bs = ([], bs)"

lemma whole_parts: "fst (whole bs) @ snd (whole bs) = bs" "length (snd (whole bs)) < 3"
  by (induction bs rule: whole.induct) (auto split: prod.splits)

fun groups :: "string \<Rightarrow> u8 list \<Rightarrow> string" where
  "groups chars (x # y # z # bs) = b64_text chars (char_array_4 [x, y, z]) @ groups chars bs"
| "groups chars _ = []"

lemma encode_loop_groups: "encode_loop chars [] bs ret = (snd (whole bs), ret @ groups chars bs)"
  by (induction chars bs arbitrary: ret rule: groups.induct) (auto split: prod.splits)

definition last_group :: "string \<Rightarrow> u8 list \<Rightarrow> string" where
  "last_group chars a = b64_text chars (take (length a + 1) (char_array_4 (a @ replicate (3 - length a) 0))) @ replicate (3 - length a) (CHR ''='')"

section \<open>The interface of an alphabet\<close>

lemma strchr_nth: "distinct xs \<Longrightarrow> i < length xs \<Longrightarrow> strchr xs (xs ! i) = Some i"
  by (induction xs arbitrary: i) (auto simp: less_Suc_eq_0_disj)

lemma strchr_nul: "CHR 0x00 \<notin> set xs \<Longrightarrow> strchr xs (CHR 0x00) = Some (length xs)"
  by (induction xs) auto

lemma strchr_found: "c \<in> set xs \<Longrightarrow> \<exists>i. strchr xs c = Some i"
  by (induction xs) auto

locale b64_alphabet =
  fixes chars :: string
  assumes size: "length chars = 64"
    and unique: "distinct chars"
    and accepted: "throw_on_nonbase64 c chars = Inr () \<longleftrightarrow> c \<in> set chars"
    and pad: "CHR ''='' \<notin> set chars"
    and nul: "CHR 0x00 \<notin> set chars"
begin

lemma refused: "c \<notin> set chars \<Longrightarrow> throw_on_nonbase64 c chars = Inl (Assert_failed ''encountered non-base64 character'')"
  using accepted [of c] by (cases "throw_on_nonbase64 c chars") (auto simp: throw_on_nonbase64_def)

lemma position_nth: "unat x < 64 \<Longrightarrow> b64_position chars (chars ! unat x) = Inr x"
  using strchr_nth [OF unique] size by (simp add: b64_position_def)

lemma position_nul: "b64_position chars (CHR 0x00) = Inr 64"
  using strchr_nul [OF nul] size by (simp add: b64_position_def)

lemma positions_text:
  "\<forall>x \<in> set xs. unat x < 64 \<Longrightarrow>
    b64_positions chars (b64_text chars xs @ cs) = bindE (b64_positions chars cs) (\<lambda>ys. Inr (xs @ ys))"
  by (induction xs) (auto simp: b64_text_def position_nth bindE_def split: sum.splits)

lemma decode_step:
  "c \<in> set chars \<Longrightarrow> decode_loop chars a (c # cs) ret =
    (if length a = 3 then bindE (b64_positions chars (a @ [c])) (\<lambda>xs. decode_loop chars [] cs (ret @ char_array_3 xs))
     else decode_loop chars (a @ [c]) cs ret)"
  using accepted [of c] pad by auto

lemma nth_chars: "unat x < 64 \<Longrightarrow> chars ! unat x \<in> set chars"
  using size by simp

lemma decode_text:
  assumes "\<forall>x \<in> set xs. unat x < 64" "length a + length xs < 4"
  shows "decode_loop chars a (b64_text chars xs @ cs) ret = decode_loop chars (a @ b64_text chars xs) cs ret"
  using assms by (induction xs arbitrary: a) (auto simp: b64_text_def decode_step nth_chars simp del: decode_loop.simps)

lemma decode_group:
  "decode_loop chars [] (b64_text chars (char_array_4 [x, y, z]) @ cs) ret = decode_loop chars [] cs (ret @ [x, y, z])"
proof -
  obtain p q r s where a: "char_array_4 [x, y, z] = [p, q, r, s]" by simp
  have small: "\<forall>i \<in> set [p, q, r, s]. unat i < 64" using array_small [of x y z] unfolding a .
  have "decode_loop chars [] (b64_text chars [p, q, r, s] @ cs) ret =
      decode_loop chars (b64_text chars [p, q, r]) (chars ! unat s # cs) ret"
    using decode_text [of "[p, q, r]" "[]" "chars ! unat s # cs" ret] small by (simp add: b64_text_def)
  also have "... = bindE (b64_positions chars (b64_text chars [p, q, r, s])) (\<lambda>xs. decode_loop chars [] cs (ret @ char_array_3 xs))"
    using small by (subst decode_step) (simp_all add: nth_chars b64_text_def)
  also have "b64_positions chars (b64_text chars [p, q, r, s]) = Inr [p, q, r, s]"
    using positions_text [OF small, of "[]"] by simp
  finally show ?thesis using array_round_trip [of x y z] unfolding a by simp
qed

lemma decode_groups: "decode_loop chars [] (groups chars bs @ cs) ret = decode_loop chars [] cs (ret @ fst (whole bs))"
proof (induction bs arbitrary: ret rule: whole.induct)
  case (1 x y z bs)
  then show ?case by (simp add: decode_group split_beta del: char_array_4.simps)
qed simp_all

lemma encode_parts:
  "base64_encode_impl bs chars = groups chars bs @ (if snd (whole bs) = [] then [] else last_group chars (snd (whole bs)))"
  by (simp add: base64_encode_impl_def encode_loop_groups last_group_def Let_def)

lemma decode_last:
  assumes "a = [x] \<or> a = [x, y]"
  shows "\<exists>t ps. decode_loop chars [] (last_group chars a) ret = Inr (t, ps, ret) \<and> t \<noteq> [] \<and>
    (\<exists>xs. b64_positions chars (t @ replicate (4 - length t) (CHR 0x00)) = Inr xs \<and> take (length t - 1) (char_array_3 xs) = a)"
proof -
  define xs where "xs = take (length a + 1) (char_array_4 (a @ replicate (3 - length a) 0))"
  have small: "\<forall>i \<in> set xs. unat i < 64"
    using assms array_small [of x 0 0] array_small [of x y 0]
    unfolding xs_def by (auto simp: numeral_2_eq_2 numeral_3_eq_3 simp del: char_array_4.simps dest: in_set_takeD)
  have l: "length xs = length a + 1" "length xs < 4" using assms by (auto simp: xs_def numeral_2_eq_2)
  have e: "last_group chars a = b64_text chars xs @ replicate (3 - length a) (CHR ''='')" by (simp only: last_group_def xs_def)
  have "decode_loop chars [] (last_group chars a) ret = Inr (b64_text chars xs, replicate (3 - length a) (CHR ''=''), ret)"
    using decode_text [OF small, of "[]" "replicate (3 - length a) (CHR ''='')" ret] l assms
    unfolding e by (auto simp: numeral_2_eq_2)
  moreover have "length (b64_text chars xs) = length a + 1" "b64_text chars xs \<noteq> []" using l by (auto simp: b64_text_def)
  moreover have "b64_positions chars (replicate n (CHR 0x00)) = Inr (replicate n 64)" for n
    by (induction n) (simp_all add: position_nul)
  then have "b64_positions chars (b64_text chars xs @ replicate (3 - length a) (CHR 0x00)) = Inr (xs @ replicate (3 - length a) 64)"
    using positions_text [OF small] by simp
  moreover have "take (length a) (char_array_3 (xs @ replicate (3 - length a) 64)) = a"
    using assms last_round_trip unfolding xs_def by (auto simp: numeral_2_eq_2 numeral_3_eq_3 simp del: char_array_4.simps)
  ultimately show ?thesis by auto
qed

lemma impl_round_trip:
  assumes "length (base64_encode_impl bs chars) < 2 ^ 31"
  shows "base64_decode_impl (base64_encode_impl bs chars) chars = Inr bs"
proof -
  let ?e = "base64_encode_impl bs chars"
  have n: "in_len ?e = int (length ?e)" using assms by (simp add: in_len_def as_int_id)
  show ?thesis
  proof (cases "snd (whole bs) = []")
    case True
    then have "decode_loop chars [] ?e [] = Inr ([], [], bs)"
      using decode_groups [of bs "[]" "[]"] whole_parts(1) [of bs] by (simp add: encode_parts)
    then show ?thesis by (simp add: base64_decode_impl_def n)
  next
    case False
    then obtain x y where a: "snd (whole bs) = [x] \<or> snd (whole bs) = [x, y]"
      using whole_parts(2) [of bs] by (auto simp: numeral_3_eq_3 less_Suc_eq length_Suc_conv)
    from decode_last [OF a, of "fst (whole bs)"] obtain t ps xs where
      t: "decode_loop chars [] (last_group chars (snd (whole bs))) (fst (whole bs)) = Inr (t, ps, fst (whole bs))" "t \<noteq> []"
      "b64_positions chars (t @ replicate (4 - length t) (CHR 0x00)) = Inr xs" "take (length t - 1) (char_array_3 xs) = snd (whole bs)"
      by blast
    have "decode_loop chars [] ?e [] = Inr (t, ps, fst (whole bs))"
      using decode_groups [of bs _ "[]"] t(1) False by (simp add: encode_parts)
    then show ?thesis using t(2-4) whole_parts(1) [of bs] by (simp add: base64_decode_impl_def n)
  qed
qed

lemma positions_found: "\<forall>c \<in> set cs. c \<in> set chars \<or> c = CHR 0x00 \<Longrightarrow> \<exists>xs. b64_positions chars cs = Inr xs"
proof (induction cs)
  case (Cons c cs)
  have "\<exists>x. b64_position chars c = Inr x"
    using Cons.prems strchr_found [of c chars] position_nul by (auto simp: b64_position_def)
  then show ?case using Cons by auto
qed simp

lemma decode_loop_outcome:
  assumes "\<forall>c \<in> set a. c \<in> set chars" "length a < 4"
  shows "if \<forall>c \<in> set (takeWhile (\<lambda>c. c \<noteq> CHR ''='') cs). c \<in> set chars
    then \<exists>a' rest ret'. decode_loop chars a cs ret = Inr (a', rest, ret') \<and> (\<forall>c \<in> set a'. c \<in> set chars)
    else decode_loop chars a cs ret = Inl (Assert_failed ''encountered non-base64 character'')"
  using assms
proof (induction cs arbitrary: a ret)
  case (Cons c cs)
  show ?case
  proof (cases "c = CHR ''='' \<or> c \<notin> set chars")
    case True
    then show ?thesis using Cons.prems refused [of c] pad by auto
  next
    case False
    then have c: "c \<in> set chars" "c \<noteq> CHR ''=''" by auto
    obtain xs where xs: "b64_positions chars (a @ [c]) = Inr xs" using positions_found [of "a @ [c]"] Cons.prems c by auto
    show ?thesis
    proof (cases "length a = 3")
      case True
      then show ?thesis using Cons.IH [of "[]" "ret @ char_array_3 xs"] c xs by (auto simp: decode_step simp del: decode_loop.simps)
    next
      case False
      then show ?thesis using Cons.IH [of "a @ [c]" ret] Cons.prems c by (auto simp: decode_step simp del: decode_loop.simps)
    qed
  qed
qed simp

lemma impl_refuses:
  assumes "length s < 2 ^ 31"
  shows "base64_decode_impl s chars = Inl (Assert_failed ''encountered non-base64 character'') \<longleftrightarrow>
      \<not> (\<forall>c \<in> set (takeWhile (\<lambda>c. c \<noteq> CHR ''='') s). c \<in> set chars)"
    and "(\<exists>bs. base64_decode_impl s chars = Inr bs) \<longleftrightarrow> (\<forall>c \<in> set (takeWhile (\<lambda>c. c \<noteq> CHR ''='') s). c \<in> set chars)"
proof -
  let ?good = "\<forall>c \<in> set (takeWhile (\<lambda>c. c \<noteq> CHR ''='') s). c \<in> set chars"
  have n: "in_len s = int (length s)" using assms by (simp add: in_len_def as_int_id)
  have "if ?good then \<exists>bs. base64_decode_impl s chars = Inr bs
    else base64_decode_impl s chars = Inl (Assert_failed ''encountered non-base64 character'')"
  proof (cases ?good)
    case True
    then obtain a rest ret where r: "decode_loop chars [] s [] = Inr (a, rest, ret)" "\<forall>c \<in> set a. c \<in> set chars"
      using decode_loop_outcome [of "[]" s "[]"] by auto
    have "\<forall>c \<in> set (a @ replicate (4 - length a) (CHR 0x00)). c \<in> set chars \<or> c = CHR 0x00" using r(2) by auto
    then obtain xs where "b64_positions chars (a @ replicate (4 - length a) (CHR 0x00)) = Inr xs"
      using positions_found by blast
    then show ?thesis using True r(1) by (simp add: base64_decode_impl_def n)
  next
    case False
    have "\<forall>c \<in> set []. c \<in> set chars" "length ([] :: string) < 4" by simp_all
    from decode_loop_outcome [OF this, of s "[]"] show ?thesis
      unfolding if_not_P [OF False] by (simp add: base64_decode_impl_def n)
  qed
  then show "base64_decode_impl s chars = Inl (Assert_failed ''encountered non-base64 character'') \<longleftrightarrow> \<not> ?good"
    "(\<exists>bs. base64_decode_impl s chars = Inr bs) \<longleftrightarrow> ?good" by (auto split: if_splits)
qed

lemma length_groups: "length (groups chars bs) + (if snd (whole bs) = [] then 0 else 4) = 4 * ((length bs + 2) div 3)"
proof (induction bs rule: whole.induct)
  case (1 x y z bs)
  have "(length (x # y # z # bs) + 2) div 3 = (length bs + 2) div 3 + 1" by simp
  then show ?case using 1 by (simp add: b64_text_def split_beta split: if_splits)
qed simp_all

lemma length_encode: "length (base64_encode_impl bs chars) = 4 * ((length bs + 2) div 3)"
proof -
  have "length (last_group chars a) = 4" if "a \<noteq> []" "length a < 3" for a
    using that by (auto simp: numeral_3_eq_3 less_Suc_eq length_Suc_conv last_group_def b64_text_def numeral_2_eq_2)
  then show ?thesis using length_groups [of bs] whole_parts(2) [of bs] by (auto simp: encode_parts split: if_splits)
qed

end

lemma set_codes: "c \<in> set s \<longleftrightarrow> (of_char c :: nat) \<in> set (map of_char s)"
  by (simp add: image_iff)

lemma alphabets_accept:
  "throw_on_nonbase64 c base64_chars = Inr () \<longleftrightarrow> c \<in> set base64_chars"
  "throw_on_nonbase64 c base64url_chars = Inr () \<longleftrightarrow> c \<in> set base64url_chars"
proof -
  define n where "n = (of_char c :: nat)"
  have e: "c = d \<longleftrightarrow> n = of_char d" for d unfolding n_def by simp
  have "base64_chars ! 62 = CHR ''+''" "base64_chars ! 63 = CHR ''/''" "base64url_chars ! 62 = CHR ''-''" "base64url_chars ! 63 = CHR ''_''"
    by code_simp+
  note nth = this
  have codes: "map of_char base64_chars = [65 :: nat..<91] @ [97..<123] @ [48..<58] @ [43, 47]"
    "map of_char base64url_chars = [65 :: nat..<91] @ [97..<123] @ [48..<58] @ [45, 95]"
    by (simp_all add: base64_chars_def base64url_chars_def)
  show "throw_on_nonbase64 c base64_chars = Inr () \<longleftrightarrow> c \<in> set base64_chars"
    unfolding set_codes codes set_append set_upt throw_on_nonbase64_def nth isalnum_def e n_def [symmetric] Let_def by auto
  show "throw_on_nonbase64 c base64url_chars = Inr () \<longleftrightarrow> c \<in> set base64url_chars"
    unfolding set_codes codes set_append set_upt throw_on_nonbase64_def nth isalnum_def e n_def [symmetric] Let_def by auto
qed

interpretation std64: b64_alphabet base64_chars
  by unfold_locales (rule alphabets_accept | simp add: base64_chars_def)+

interpretation url64: b64_alphabet base64url_chars
  by unfold_locales (rule alphabets_accept | simp add: base64url_chars_def)+

lemma encode_whole_text: "length bs < 2 ^ 32 \<Longrightarrow> take (unat (of_nat (length bs) :: u32)) bs = bs"
  by (simp add: unsigned_of_nat take_bit_nat_eq_self)

text \<open>
  C40: decoding restores what was encoded, in both alphabets and for every byte string whose text
  can be counted in an \<open>int\<close>; the text has four characters for each started group of three
  bytes. Each decoder refuses a text, with the assertion, exactly if there is a character outside
  its alphabet before the first padding character; every other text is decoded.
\<close>

theorem base64_roundtrip:
  assumes "length bs < 2 ^ 30" "length s < 2 ^ 31"
  shows "base64_decode (base64_encode bs) = Inr bs \<and> base64url_decode (base64url_encode bs) = Inr bs \<and>
    length (base64_encode bs) = 4 * ((length bs + 2) div 3) \<and>
    (if \<forall>c \<in> set (takeWhile (\<lambda>c. c \<noteq> CHR ''='') s). c \<in> set base64_chars then \<exists>d. base64_decode s = Inr d
     else base64_decode s = Inl (Assert_failed ''encountered non-base64 character'')) \<and>
    (if \<forall>c \<in> set (takeWhile (\<lambda>c. c \<noteq> CHR ''='') s). c \<in> set base64url_chars then \<exists>d. base64url_decode s = Inr d
     else base64url_decode s = Inl (Assert_failed ''encountered non-base64 character''))"
proof -
  have "4 * ((length bs + 2) div 3) < 2 ^ 31" using assms(1) by simp
  then have "length (base64_encode_impl bs base64_chars) < 2 ^ 31" "length (base64_encode_impl bs base64url_chars) < 2 ^ 31"
    by (simp_all only: std64.length_encode url64.length_encode)
  from std64.impl_round_trip [OF this(1)] url64.impl_round_trip [OF this(2)] std64.length_encode [of bs]
    std64.impl_refuses [OF assms(2)] url64.impl_refuses [OF assms(2)] encode_whole_text [of bs] assms(1)
  show ?thesis by (simp add: base64_decode_def base64url_decode_def base64_encode_def base64url_encode_def)
qed

theorem base64_roundtrip_witness:
  "base64_decode (base64_encode [104, 105, 33, 200]) = Inr [104, 105, 33, 200] \<and> length (base64_encode [104, 105, 33, 200]) = 8 \<and>
   base64_decode ''aG*h'' = Inl (Assert_failed ''encountered non-base64 character'')"
  using base64_roundtrip [of "[104, 105, 33, 200]" "''aG*h''"] by (simp add: base64_chars_def)

end
