(* ===== verification/Spec2Isabelle.thy ===== *)
theory Spec2Isabelle
  imports Index_Runs Db_Viewer Raw_Props Mapped_Correct Safe_Int Uint128_Division Sha256_Ops Blowfish_Correct Statedb Message_Queue Base64
begin

text \<open>
  StateDatabase: a verification of the program and of the libraries it is built from.

  \<^bold>\<open>The program\<close>

  StateDatabase keeps the state of contracts in a file that is mapped into memory. Its parts,
  from the bottom up:

  \<^item> \<open>chainbase::pinnable_mapped_file\<close> (\<open>chainbase/src\<close>) opens, checks, loads and saves the file.
  \<^item> \<open>chainbase::generic_index\<close> (\<open>chainbase/include/chainbase/chainbase.hpp\<close>) wraps a Boost
    multi-index container with a stack of undo states: a session can be undone, squashed into
    the one below or committed.
  \<^item> \<open>chainbase::database\<close> (the same file and \<open>chainbase/src/chainbase.cpp\<close>) registers indices by
    the number of their type and runs the operations and sessions over all of them.
  \<^item> \<open>eos_db\<close> (\<open>eos_db.hpp\<close>, \<open>eos_db.cpp\<close>) offers contracts tables of rows with a 64-bit key, read
    through integer iterators of an \<open>iterator_cache\<close>, objects under the hash of a scope and a
    key, and secondary indices; its objects are declared in \<open>qos_contract_table.hpp\<close> and \<open>types.hpp\<close>,
    its names in \<open>name.cpp\<close>.
  \<^item> \<open>db_viewer\<close> (\<open>db_viewer.hpp\<close>) walks over an index or a range of it.
  \<^item> \<open>db_tests\<close> (\<open>performance_test.hpp\<close>) and \<open>main\<close> (\<open>statedb.cpp\<close>) store, update and remove a
    number of objects in both ways and report the memory used.
  \<^item> the library \<open>fc\<close> supplies digests, the binary format of keys, integers and ciphers.

  \<^bold>\<open>How it is modelled\<close>

  An operation is a HOL function. Errors are values of \<open>db_error\<close> (\<open>SD_Prelude\<close>): every \<open>throw\<close>,
  \<open>std::abort\<close>, failed \<open>assert\<close> and every access the C++ standard leaves undefined is a branch.
  Operations above a single index are computations of type \<open>('s, 'a) exec\<close> (\<open>Exec_Monad\<close>): a
  function from the state to a result and the state afterwards, which is also returned with an
  error, because an exception leaves earlier changes in place. Machine integers are words or
  integers with the conversions written out. Pointers and references are addresses; following one
  whose object is gone is \<open>Undefined_behaviour\<close>. Code outside the repository is a parameter: the
  container of Boost (\<open>mi_ops\<close>, \<open>oi_ops\<close>), the digest of OpenSSL (\<open>digest\<close>), the segment manager and
  the answers of the operating system (\<open>platform\<close>, \<open>host\<close>), the shuffles, the free memory. What is
  relied on of a container is the locale \<open>multi_index\<close> with its extensions \<open>unique_index\<close>,
  \<open>ordered_index\<close>, \<open>database_env\<close> and \<open>eos_interface\<close>; all of them are interpreted on a container
  of addressed cells that checks every key, so that the assumptions hold together and the
  witnesses can be evaluated.

  \<^bold>\<open>The theories\<close>

  \<^descr>[SD\_Prelude, Exec\_Monad] errors, results, loops, ordered maps and sets, computations.
  \<^descr>[Multi\_Index, Ordered\_Index, Contract\_Tables] the interface to the containers, the objects of
    the tables and their unique keys, the container of cells.
  \<^descr>[Generic\_Index, Undo\_Views, Undo\_Correct, Index\_Runs] \<open>generic_index\<close> and its session.
    \<open>gi_history\<close> abstracts an index to the list of the contents of its versions (\<open>vstore\<close>); every
    operation on a reachable index does to this list what its specification does: a write
    replaces the head, a session duplicates it, undo drops it, squash drops the second entry,
    commit keeps a prefix. Undo of a session restores contents, history and revision; undo and
    \<open>undo_all\<close>, which ends with the oldest version, succeed when successive versions do not clash on
    a unique key (\<open>undo_compatible\<close>). Squash is right for sessions that did not remove an object and
    create another under its id (\<open>squash_safe\<close>); \<open>squash_recreated_lost\<close> is the other case.
  \<^descr>[Database, Database\_Correct, Database\_Runs] \<open>database\<close> and its session. The step relation
    \<open>db_program\<close> is a program with a database and the session objects it holds, each of which it may
    push, squash, undo or destroy at any time; it does not add an index or close the database while
    a session is open. In every state it reaches the indices are consistent with each other (\<open>db_ok\<close>)
    and the open sessions cover all of them; \<open>session_misses_new_index\<close> is what happens when an index
    is added during a session. A session over all indices that is undone restores every one; what
    adding an index does on every branch.
  \<^descr>[Iterator\_Cache, Eos\_Db, Eos\_Correct, Eos\_Key\_Props, Eos\_Rows, Eos\_Rows2, Eos\_Changes, Row\_Props]
    \<open>eos_db\<close>. The hashed keys are a map; every row operation has the outcome of the
    specification over the rows of a table in key order, with the iterators it returns.
  \<^descr>[Db\_Walk, Db\_Viewer] the loops of \<open>db_viewer\<close>: they end, and visit exactly the keys of a range.
  \<^descr>[Perf\_Tests, Perf\_Rows, Statedb] the runs of \<open>db_tests\<close> and \<open>main\<close>: all parts put together, with any
    shuffle. \<open>main\<close> opens its file of 720 MB through \<open>pmf_open\<close>; it succeeds when the operating
    system does not refuse the file, the segment is not exhausted, the numbers of elements are
    positive and below \<open>ic_limit\<close> and the digests do not collide (\<open>statedb_main_passes\<close>), and
    reports every exception after removing its files (\<open>statedb_reports\<close>, \<open>statedb_out_of_memory\<close>).
  \<^descr>[Mapped\_File, Mapped\_Correct] the database file: opening with its checks, the modes, loading
    and saving chunk by chunk, and the life cycle of the dirty flag in every mode.
  \<^descr>[Names] \<open>name\<close>: packing and printing are inverse, the checked constructor accepts exactly the
    normalised strings.
  \<^descr>[Datastream, Raw\_Pack, Raw\_Codec, Raw\_Props] \<open>fc::datastream\<close> and \<open>fc::raw\<close>. The locale \<open>codec\<close> is a
    pair of \<open>pack\<close> and \<open>unpack\<close> that round-trips; it is interpreted on the basic types and closed
    under containers. Decoding arbitrary bytes stays in memory (\<open>memory_safe\<close>) for every basic type
    but \<open>signed_int\<close> and every container of memory-safe elements.
  \<^descr>[Message\_Buffer, Message\_Queue] \<open>fc::message_buffer\<close>: the chain of buffers is a queue of
    bytes (\<open>mb_content\<close>), for every run of operations that keeps it within its bounds.
  \<^descr>[Safe\_Int, Uint128, Uint128\_Correct, Uint128\_Division] \<open>fc::safe\<close> is exact or throws, its
    assignments keep the old value when they throw; \<open>fc::uint128\<close>
    is the ring of 128-bit words, with bitwise operations, comparisons, division and decimal text.
  \<^descr>[Sha256, Hex, Sha256\_Ops] \<open>fc::sha256\<close> as bytes, number and hexadecimal text.
  \<^descr>[Base64] \<open>fc::base64_encode\<close> and \<open>fc::base64_decode\<close>: round trip and refused characters, proved
    in the locale \<open>b64_alphabet\<close> and interpreted on the two alphabets.
  \<^descr>[Blowfish, Blowfish\_Correct] \<open>fc::blowfish\<close>: the locale \<open>chained_mode\<close> gives the round trip of
    the three modes at once.

  \<^bold>\<open>Bounds\<close>

  The loops of the source are terminating functions, but for three. \<open>walk_loop\<close> of \<open>db_viewer\<close> has
  fuel, and one more than the number of objects is shown to be enough. Of the division of
  \<open>uint128\<close>, \<open>divide_up\<close> is a partial function and \<open>divide_down\<close> has fuel 128, one for each bit
  that is shifted out; both are shown to return for every divisor but zero. Iterators are \<open>int\<close>: \<open>ic_limit\<close> (\<open>2 ^ 31 - 2\<close>) is the number of entries an
  iterator cache can hand out without overflow, and the theorems on rows assume that there is
  room for one more. The runs of \<open>db_tests\<close> count with an \<open>int\<close>, so they are bounded by \<open>2 ^ 31\<close>;
  incrementing past it is undefined in the model (\<open>for_int\<close>). The binary format limits byte arrays
  and containers as the source does.

  \<^bold>\<open>Not modelled\<close>

  The segment manager of Boost.Interprocess and its allocator: running out of the segment is no
  branch of the operations on objects, and at the level of \<open>main\<close> the point where it happens is a
  parameter (\<open>h_exhausted\<close>). The locks of
  the database (compiled out by default); \<open>flush\<close>, which is declared and not defined; \<open>find_secondary\<close>, which
  cannot be instantiated (it builds its key from an object instead of its id); conversions to
  \<open>fc::variant\<close>, exceptions as objects and log messages; times. Of the library \<open>fc\<close>, what the
  database does not use and what is input and output or a wrapper of OpenSSL and Boost: network,
  rpc, threads, files, JSON, keys and signatures. Vendored code (secp256k1, miniz, rapidjson) and
  \<open>eos_contract_table.hpp\<close>, which nothing includes.
\<close>

end
